(* ===== verification/Prelude.thy ===== *)
theory Prelude
  imports Main "HOL-Library.Word" "HOL-Library.AList" "HOL-Library.Multiset"
    "HOL-Library.Char_ord" "HOL-Library.List_Lexorder" "HOL-Library.Product_Lexorder"
begin

unbundle bit_operations_syntax

text \<open>
  Shared vocabulary of the development: machine integers and bytes, little-endian encoding,
  the FNV-1a hash that the stores and the world identity use, Rust strings as UTF-8 byte
  sequences, hash maps as association lists with distinct keys, and generic lemmas on lists.

  Conventions.  A Rust \<open>u64\<close>, \<open>u32\<close>, \<open>u8\<close> is a word of that width (arithmetic wraps, as in a
  release build); a \<open>usize\<close> that counts elements of a collection in memory is a \<open>nat\<close>.  A Rust
  \<open>String\<close> is an HOL \<open>string\<close>, one \<open>char\<close> per byte of its UTF-8 form.  A function that may panic
  returns an \<open>option\<close>, with \<open>None\<close> for the panic; a function that returns \<open>Result\<close> returns a sum
  with \<open>Inl\<close> for the error.
\<close>

named_theorems codec_simps \<open>round trips of the byte-level encoders and decoders\<close>
named_theorems map_simps \<open>lookups in updated hash maps\<close>

section \<open>Machine integers and bytes\<close>

type_synonym byte = "8 word"
type_synonym u32 = "32 word"
type_synonym u64 = "64 word"

abbreviation u64_max :: u64 where
  "u64_max \<equiv> - 1"

definition checked_add_u64 :: "u64 \<Rightarrow> u64 \<Rightarrow> u64 option" where
  "checked_add_u64 a b = (if unat a + unat b < 2 ^ 64 then Some (a + b) else None)"

definition saturating_add_u64 :: "u64 \<Rightarrow> u64 \<Rightarrow> u64" where
  "saturating_add_u64 a b = (if unat a + unat b < 2 ^ 64 then a + b else u64_max)"

lemma unat_u64_max [simp]: "unat u64_max = 2 ^ 64 - 1"
  by (simp add: unsigned_minus_1_eq_mask mask_eq_exp_minus_1)

lemma unat_Suc_u64: "w \<noteq> u64_max \<Longrightarrow> unat (w + 1) = Suc (unat w)"
proof -
  assume "w \<noteq> u64_max"
  then have "unat w \<noteq> unat u64_max" by (simp only: word_unat_eq_iff [symmetric] not_False_eq_True)
  moreover have "unat w < 2 ^ 64" using unsigned_less [of w, where ?'a = nat] by simp
  ultimately have "unat w + 1 < 2 ^ 64" by simp
  then show ?thesis by (simp add: unat_word_ariths)
qed

lemma checked_add_one_u64: "checked_add_u64 w 1 = (if w = u64_max then None else Some (w + 1))"
proof (cases "w = u64_max")
  case True
  then show ?thesis by (simp add: checked_add_u64_def)
next
  case False
  then have "unat w + 1 < 2 ^ 64"
    using unat_Suc_u64 [OF False] unsigned_less [of "w + 1", where ?'a = nat] by simp
  with False show ?thesis by (simp add: checked_add_u64_def)
qed

subsection \<open>Little-endian encoding\<close>

text \<open>\<open>to_le_bytes\<close> and \<open>from_le_bytes\<close> of the Rust integers, for any width.\<close>

fun le_bytes :: "nat \<Rightarrow> 'a::len word \<Rightarrow> byte list" where
  "le_bytes 0 w = []"
| "le_bytes (Suc n) w = ucast w # le_bytes n (drop_bit 8 w)"

fun of_le_bytes :: "byte list \<Rightarrow> 'a::len word" where
  "of_le_bytes [] = 0"
| "of_le_bytes (b # bs) = ucast b OR push_bit 8 (of_le_bytes bs)"

lemma length_le_bytes [simp]: "length (le_bytes n w) = n"
  by (induction n arbitrary: w) auto

lemma of_le_bytes_le_bytes: "of_le_bytes (le_bytes n w) = (take_bit (8 * n) w :: 'a::len word)"
proof (induction n arbitrary: w)
  case 0
  then show ?case by simp
next
  case (Suc n)
  show ?case
    by (rule bit_word_eqI)
      (auto simp: Suc.IH bit_or_iff bit_unsigned_iff bit_push_bit_iff bit_take_bit_iff bit_drop_bit_eq
        not_le less_diff_conv2 dest: bit_imp_le_length)
qed

lemma le_roundtrip_u64 [simp, codec_simps]: "of_le_bytes (le_bytes 8 w) = (w :: u64)"
  by (simp add: of_le_bytes_le_bytes take_bit_word_eq_self)

lemma le_roundtrip_u32 [simp, codec_simps]: "of_le_bytes (le_bytes 4 w) = (w :: u32)"
  by (simp add: of_le_bytes_le_bytes take_bit_word_eq_self)

lemma le_bytes_cong:
  "(\<And>k. k < 8 * n \<Longrightarrow> bit v k = bit w k) \<Longrightarrow> le_bytes n v = le_bytes n (w :: 'a::len word)"
proof (induction n arbitrary: v w)
  case (Suc n)
  have "le_bytes n (drop_bit 8 v) = le_bytes n (drop_bit 8 w)"
    by (rule Suc.IH) (use Suc.prems in \<open>auto simp: bit_drop_bit_eq\<close>)
  moreover have "(ucast v :: byte) = ucast w"
    by (rule bit_word_eqI) (use Suc.prems in \<open>auto simp: bit_ucast_iff\<close>)
  ultimately show ?case by simp
qed simp

lemma le_bytes_of_le_bytes:
  "8 * length bs \<le> LENGTH('a) \<Longrightarrow> le_bytes (length bs) (of_le_bytes bs :: 'a::len word) = bs"
proof (induction bs)
  case (Cons b bs)
  let ?r = "of_le_bytes bs :: 'a word"
  have "(ucast (ucast b OR push_bit 8 ?r :: 'a word) :: byte) = b"
    by (rule bit_word_eqI)
      (use Cons.prems in \<open>auto simp: bit_ucast_iff bit_or_iff bit_push_bit_iff\<close>)
  moreover have "le_bytes (length bs) (drop_bit 8 (ucast b OR push_bit 8 ?r :: 'a word)) = le_bytes (length bs) ?r"
    by (rule le_bytes_cong)
      (use Cons.prems in \<open>auto simp: bit_drop_bit_eq bit_or_iff bit_push_bit_iff bit_ucast_iff
        dest: bit_imp_le_length\<close>)
  ultimately show ?case using Cons by simp
qed simp

lemma le_bytes_of_le_bytes_u64 [simp]: "length bs = 8 \<Longrightarrow> le_bytes 8 (of_le_bytes bs :: u64) = bs"
  using le_bytes_of_le_bytes [of bs, where ?'a = 64] by simp

lemma le_bytes_of_le_bytes_u32 [simp]: "length bs = 4 \<Longrightarrow> le_bytes 4 (of_le_bytes bs :: u32) = bs"
  using le_bytes_of_le_bytes [of bs, where ?'a = 32] by simp

subsection \<open>FNV-1a\<close>

text \<open>
  The constants \<open>0xcbf29ce484222325\<close> and \<open>0x100000001b3\<close> occur in \<open>lib.rs\<close>, \<open>file_store.rs\<close>,
  \<open>file_epoch_store.rs\<close>, \<open>mmap_store.rs\<close> and \<open>stack_vm.rs\<close>.
\<close>

definition fnv_offset_basis :: u64 where
  "fnv_offset_basis = 0xcbf29ce484222325"

definition fnv_prime :: u64 where
  "fnv_prime = 0x100000001b3"

definition fnv_byte :: "u64 \<Rightarrow> byte \<Rightarrow> u64" where
  "fnv_byte h b = (h XOR ucast b) * fnv_prime"

definition fnv_bytes :: "u64 \<Rightarrow> byte list \<Rightarrow> u64" where
  "fnv_bytes h bs = foldl fnv_byte h bs"

lemma fnv_bytes_Nil [simp]: "fnv_bytes h [] = h"
  by (simp add: fnv_bytes_def)

lemma fnv_bytes_Cons [simp]: "fnv_bytes h (b # bs) = fnv_bytes (fnv_byte h b) bs"
  by (simp add: fnv_bytes_def)

lemma fnv_bytes_append [simp]: "fnv_bytes h (xs @ ys) = fnv_bytes (fnv_bytes h xs) ys"
  by (simp add: fnv_bytes_def)

section \<open>Strings\<close>

definition byte_of_char :: "char \<Rightarrow> byte" where
  "byte_of_char c = word_of_nat (of_char c)"

definition char_of_byte :: "byte \<Rightarrow> char" where
  "char_of_byte b = char_of (unat b)"

lemma char_of_byte_of_char [simp]: "char_of_byte (byte_of_char c) = c"
proof -
  have "(of_char c :: nat) < 256" by (rule nat_of_char_less_256)
  then have "unat (word_of_nat (of_char c) :: byte) = of_char c"
    by (simp add: unat_of_nat)
  then show ?thesis by (simp add: byte_of_char_def char_of_byte_def)
qed

lemma byte_of_char_of_byte [simp]: "byte_of_char (char_of_byte b) = b"
proof -
  have "unat b < 256" using unsigned_less [of b, where ?'a = nat] by simp
  then show ?thesis by (simp add: byte_of_char_def char_of_byte_def)
qed

definition as_bytes :: "string \<Rightarrow> byte list" where
  "as_bytes s = map byte_of_char s"

definition of_bytes :: "byte list \<Rightarrow> string" where
  "of_bytes bs = map char_of_byte bs"

lemma of_bytes_as_bytes [simp, codec_simps]: "of_bytes (as_bytes s) = s"
  by (induction s) (auto simp: of_bytes_def as_bytes_def)

lemma as_bytes_of_bytes [simp]: "as_bytes (of_bytes bs) = bs"
  by (induction bs) (auto simp: of_bytes_def as_bytes_def)

lemma length_as_bytes [simp]: "length (as_bytes s) = length s"
  by (simp add: as_bytes_def)

text \<open>
  \<open>std::str::from_utf8\<close>: well-formed UTF-8 byte sequences (Unicode, table 3-7), no surrogates and
  no overlong forms.
\<close>

definition utf8_cont :: "byte \<Rightarrow> bool" where
  "utf8_cont b \<longleftrightarrow> 0x80 \<le> b \<and> b \<le> 0xBF"

fun utf8_valid :: "byte list \<Rightarrow> bool" where
  "utf8_valid [] = True"
| "utf8_valid (b # bs) =
     (if b < 0x80 then utf8_valid bs
      else if 0xC2 \<le> b \<and> b \<le> 0xDF then
        (case bs of c # r \<Rightarrow> utf8_cont c \<and> utf8_valid r | _ \<Rightarrow> False)
      else if 0xE0 \<le> b \<and> b \<le> 0xEF then
        (case bs of c # d # r \<Rightarrow>
           (if b = 0xE0 then 0xA0 \<le> c \<and> c \<le> 0xBF
            else if b = 0xED then 0x80 \<le> c \<and> c \<le> 0x9F
            else utf8_cont c) \<and> utf8_cont d \<and> utf8_valid r
         | _ \<Rightarrow> False)
      else if 0xF0 \<le> b \<and> b \<le> 0xF4 then
        (case bs of c # d # e # r \<Rightarrow>
           (if b = 0xF0 then 0x90 \<le> c \<and> c \<le> 0xBF
            else if b = 0xF4 then 0x80 \<le> c \<and> c \<le> 0x8F
            else utf8_cont c) \<and> utf8_cont d \<and> utf8_cont e \<and> utf8_valid r
         | _ \<Rightarrow> False)
      else False)"

declare utf8_valid.simps(2) [simp del]

definition rust_string :: "string \<Rightarrow> bool" where
  "rust_string s \<longleftrightarrow> utf8_valid (as_bytes s)"

lemma utf8_valid_ascii: "\<forall>b \<in> set bs. b < 0x80 \<Longrightarrow> utf8_valid bs"
  by (induction bs) (auto simp: utf8_valid.simps(2))

section \<open>Hash maps\<close>

text \<open>
  A \<open>HashMap\<close> is an association list with distinct keys: looking up is \<open>map_of\<close>, inserting is
  \<open>AList.update\<close>, removing is \<open>AList.delete\<close>.  The program never depends on the iteration order
  (it sorts what it collects), so no property depends on the order of the list.
\<close>

type_synonym ('k, 'v) hash_map = "('k \<times> 'v) list"

abbreviation hm_get :: "('k, 'v) hash_map \<Rightarrow> 'k \<Rightarrow> 'v option" where
  "hm_get m k \<equiv> map_of m k"

abbreviation hm_insert :: "'k \<Rightarrow> 'v \<Rightarrow> ('k, 'v) hash_map \<Rightarrow> ('k, 'v) hash_map" where
  "hm_insert k v m \<equiv> AList.update k v m"

abbreviation hm_remove :: "'k \<Rightarrow> ('k, 'v) hash_map \<Rightarrow> ('k, 'v) hash_map" where
  "hm_remove k m \<equiv> AList.delete k m"

abbreviation hm_values :: "('k, 'v) hash_map \<Rightarrow> 'v list" where
  "hm_values m \<equiv> map snd m"

abbreviation hm_wf :: "('k, 'v) hash_map \<Rightarrow> bool" where
  "hm_wf m \<equiv> distinct (map fst m)"

lemma hm_get_insert [simp, map_simps]:
  "hm_get (hm_insert k v m) k' = (if k' = k then Some v else hm_get m k')"
  by (simp add: update_conv)

lemma hm_get_remove [simp, map_simps]:
  "hm_get (hm_remove k m) k' = (if k' = k then None else hm_get m k')"
  by (simp add: delete_conv)

lemma hm_wf_insert [simp]: "hm_wf m \<Longrightarrow> hm_wf (hm_insert k v m)"
  by (rule distinct_update)

lemma hm_wf_remove [simp]: "hm_wf m \<Longrightarrow> hm_wf (hm_remove k m)"
  by (rule distinct_delete)

text \<open>Lookups stay lookups; the entries of the list are an implementation detail.\<close>

declare map_of_eq_Some_iff [simp del]

lemma set_hm_values: "hm_wf m \<Longrightarrow> set (hm_values m) = {v. \<exists>k. hm_get m k = Some v}"
  by (auto simp: map_of_eq_Some_iff image_iff) force

section \<open>Ordered maps\<close>

text \<open>
  A \<open>BTreeMap\<close> is the list of its entries in key order.  The list is canonical, so equality of
  maps is equality of lists and Rust's \<open>Ord\<close> on maps is the lexicographic order on lists.
\<close>

fun bt_insert :: "'k::linorder \<Rightarrow> 'v \<Rightarrow> ('k \<times> 'v) list \<Rightarrow> ('k \<times> 'v) list" where
  "bt_insert k v [] = [(k, v)]"
| "bt_insert k v ((k', v') # m) =
     (if k < k' then (k, v) # (k', v') # m
      else if k = k' then (k, v) # m
      else (k', v') # bt_insert k v m)"

definition bt_wf :: "('k::linorder \<times> 'v) list \<Rightarrow> bool" where
  "bt_wf m \<longleftrightarrow> sorted_wrt (<) (map fst m)"

lemma bt_wf_Nil [simp]: "bt_wf []"
  by (simp add: bt_wf_def)

lemma bt_wf_distinct: "bt_wf m \<Longrightarrow> distinct (map fst m)"
  by (simp add: bt_wf_def strict_sorted_iff)

lemma fst_set_bt_insert: "fst ` set (bt_insert k v m) = insert k (fst ` set m)"
  by (induction k v m rule: bt_insert.induct) auto

lemma bt_wf_insert [simp]: "bt_wf m \<Longrightarrow> bt_wf (bt_insert k v m)"
proof (induction k v m rule: bt_insert.induct)
  case (2 k v k' v' m)
  then show ?case
    using fst_set_bt_insert [of k v m] by (auto simp: bt_wf_def)
qed (simp add: bt_wf_def)

lemma map_of_bt_insert [simp, map_simps]:
  "map_of (bt_insert k v m) k' = (if k' = k then Some v else map_of m k')"
  by (induction k v m rule: bt_insert.induct) auto

lemma set_bt_insert_new:
  "map_of m k = None \<Longrightarrow> set (bt_insert k v m) = insert (k, v) (set m)"
  by (induction k v m rule: bt_insert.induct) (auto split: if_splits)

lemma bt_wf_mem: "bt_wf m \<Longrightarrow> (k, v) \<in> set m \<longleftrightarrow> map_of m k = Some v"
  by (simp add: bt_wf_distinct map_of_eq_Some_iff)

lemma bt_wf_single_valued: "bt_wf m \<Longrightarrow> single_valued (set m)"
  by (auto simp: single_valued_def bt_wf_mem)

lemma bt_wf_canonical: "bt_wf m \<Longrightarrow> sorted_list_of_set (set m) = m"
proof -
  assume wf: "bt_wf m"
  have "sorted_wrt (<) m"
    using wf by (auto simp: bt_wf_def sorted_wrt_map less_prod_def' elim!: sorted_wrt_mono_rel [rotated])
  then show ?thesis
    by (simp add: strict_sorted_iff sorted_list_of_set.idem_if_sorted_distinct)
qed

section \<open>Results\<close>

text \<open>The question mark operator on \<open>Result\<close>.\<close>

fun res_bind :: "'e + 'a \<Rightarrow> ('a \<Rightarrow> 'e + 'b) \<Rightarrow> 'e + 'b" where
  "res_bind (Inl e) f = Inl e"
| "res_bind (Inr x) f = f x"

fun res_map :: "('a \<Rightarrow> 'b) \<Rightarrow> 'e + 'a \<Rightarrow> 'e + 'b" where
  "res_map f (Inl e) = Inl e"
| "res_map f (Inr x) = Inr (f x)"

fun res_map_err :: "('e \<Rightarrow> 'd) \<Rightarrow> 'e + 'a \<Rightarrow> 'd + 'a" where
  "res_map_err f (Inl e) = Inl (f e)"
| "res_map_err f (Inr x) = Inr x"

text \<open>The question mark operator in code that may also panic.\<close>

fun try_bind :: "('e + 'a) option \<Rightarrow> ('a \<Rightarrow> ('e + 'b) option) \<Rightarrow> ('e + 'b) option" where
  "try_bind None f = None"
| "try_bind (Some (Inl e)) f = Some (Inl e)"
| "try_bind (Some (Inr x)) f = f x"

lemma try_bind_Inr: "try_bind r f = Some (Inr y) \<longleftrightarrow> (\<exists>x. r = Some (Inr x) \<and> f x = Some (Inr y))"
  by (cases "(r, f)" rule: try_bind.cases) auto

lemma try_bind_assoc: "try_bind (try_bind r f) g = try_bind r (\<lambda>x. try_bind (f x) g)"
  by (cases "(r, f)" rule: try_bind.cases) auto

lemma res_bind_Inr: "res_bind r f = Inr y \<longleftrightarrow> (\<exists>x. r = Inr x \<and> f x = Inr y)"
  by (cases r) auto

lemma res_map_Inr: "res_map f r = Inr y \<longleftrightarrow> (\<exists>x. r = Inr x \<and> y = f x)"
  by (cases r) auto

lemma res_map_err_Inr [simp]: "res_map_err f r = Inr y \<longleftrightarrow> r = Inr y"
  by (cases r) auto

section \<open>Lists\<close>

lemma in_set_tlD: "x \<in> set (tl xs) \<Longrightarrow> x \<in> set xs"
  by (cases xs) auto

lemma sort_key_unique:
  assumes "mset xs = mset ys" and "sorted (map f ys)" and "inj_on f (set xs)"
  shows "sort_key f xs = ys"
proof -
  have "sort (map f xs) = map f (sort_key f xs)"
    by (rule properties_for_sort) (metis mset_map mset_sort, simp)
  moreover have "sort (map f xs) = map f ys"
    by (rule properties_for_sort) (use assms in \<open>metis mset_map\<close>, rule assms(2))
  ultimately have "map f (sort_key f xs) = map f ys" by simp
  moreover have "set ys = set xs" using assms(1) by (metis mset_eq_setD)
  ultimately show ?thesis using assms(3) by (simp add: inj_on_map_eq_map)
qed

text \<open>\<open>Vec::remove\<close> at a valid index.\<close>

definition remove_nth :: "nat \<Rightarrow> 'a list \<Rightarrow> 'a list" where
  "remove_nth i xs = take i xs @ drop (Suc i) xs"

lemma length_remove_nth: "i < length xs \<Longrightarrow> length (remove_nth i xs) = length xs - 1"
  by (auto simp: remove_nth_def)

lemma mset_remove_nth: "i < length xs \<Longrightarrow> add_mset (xs ! i) (mset (remove_nth i xs)) = mset xs"
proof -
  assume "i < length xs"
  then have "xs = take i xs @ xs ! i # drop (Suc i) xs" by (rule id_take_nth_drop)
  then have "mset xs = mset (take i xs @ xs ! i # drop (Suc i) xs)" by (rule arg_cong)
  then show ?thesis by (simp add: remove_nth_def)
qed

lemma sorted_list_of_set_inject:
  "finite A \<Longrightarrow> finite B \<Longrightarrow> sorted_list_of_set A = sorted_list_of_set B \<longleftrightarrow> A = B"
  by (metis set_sorted_list_of_set)

text \<open>\<open>Iterator::min_by_key\<close> on the indices of a vector: the first index with the least key.\<close>

fun min_index_from :: "('a \<Rightarrow> nat) \<Rightarrow> nat \<Rightarrow> nat \<Rightarrow> nat \<Rightarrow> 'a list \<Rightarrow> nat" where
  "min_index_from key best best_key i [] = best"
| "min_index_from key best best_key i (x # xs) =
     (if key x < best_key then min_index_from key i (key x) (Suc i) xs
      else min_index_from key best best_key (Suc i) xs)"

definition min_index_by_key :: "('a \<Rightarrow> nat) \<Rightarrow> 'a list \<Rightarrow> nat" where
  "min_index_by_key key xs =
     (case xs of [] \<Rightarrow> 0 | x # r \<Rightarrow> min_index_from key 0 (key x) 1 r)"

lemma min_index_from_less:
  "best < i \<Longrightarrow> min_index_from key best k i xs < i + length xs"
proof (induction xs arbitrary: best k i)
  case (Cons x xs)
  then show ?case
    using Cons.IH [of i "Suc i" "key x"] Cons.IH [of best "Suc i" k] by auto
qed simp

lemma min_index_by_key_less: "xs \<noteq> [] \<Longrightarrow> min_index_by_key key xs < length xs"
  using min_index_from_less [of 0 1]
  by (fastforce simp: min_index_by_key_def split: list.splits)

end
