(* ===== verification/Terms.thy ===== *)
theory Terms
  imports Prelude
begin

text \<open>
  The value types of the semantic kernel (\<open>forthdb-core/src/lib.rs\<close>, first part) and the
  unification of one pattern with one fact (last part of the same file).  The newtypes
  \<open>EntityId\<close>, \<open>SlotId\<close>, \<open>RecordId\<close>, \<open>Literal\<close>, \<open>Predicate\<close>, \<open>Symbol\<close>, \<open>Variable\<close> are the types they
  wrap; the enums and structs are datatypes and records.  The lemmas show that unifying a
  pattern is adding a set of requirements to a binding, which makes the order in which a
  query visits its patterns irrelevant.
\<close>

section \<open>Values, facts and patterns\<close>

type_synonym entity_id = u64
type_synonym slot_id = string
type_synonym record_id = nat
type_synonym literal = string
type_synonym predicate = string
type_synonym symbol = string
type_synonym variable = string

datatype atom = AEntity entity_id | ALiteral literal

datatype term_t = TAtom atom | TVariable variable

datatype predicate_term = PPredicate predicate | PVariable variable

datatype source_term = SAtom atom | SVariable variable | SSymbol symbol

record fact =
  subject :: atom
  predicate :: predicate
  object :: atom

record pattern =
  p_subject :: term_t
  p_predicate :: predicate_term
  p_object :: term_t

datatype bound_value = BEntity entity_id | BLiteral literal | BPredicate predicate

datatype invalid_variable = InvalidVariable string

definition variable_new :: "string \<Rightarrow> invalid_variable + variable" where
  "variable_new value =
     (if value = [] \<or> hd value = CHR ''?'' then Inl (InvalidVariable value) else Inr value)"

definition fact_new :: "atom \<Rightarrow> predicate \<Rightarrow> atom \<Rightarrow> fact" where
  "fact_new s p ob = \<lparr>subject = s, predicate = p, object = ob\<rparr>"

definition pattern_new :: "term_t \<Rightarrow> predicate_term \<Rightarrow> term_t \<Rightarrow> pattern" where
  "pattern_new s p ob = \<lparr>p_subject = s, p_predicate = p, p_object = ob\<rparr>"

fun bound_value_of_atom :: "atom \<Rightarrow> bound_value" where
  "bound_value_of_atom (AEntity e) = BEntity e"
| "bound_value_of_atom (ALiteral l) = BLiteral l"

fun as_atom :: "bound_value \<Rightarrow> atom option" where
  "as_atom (BEntity e) = Some (AEntity e)"
| "as_atom (BLiteral l) = Some (ALiteral l)"
| "as_atom (BPredicate p) = None"

fun as_predicate :: "bound_value \<Rightarrow> predicate option" where
  "as_predicate (BPredicate p) = Some p"
| "as_predicate (BEntity e) = None"
| "as_predicate (BLiteral l) = None"

lemma fact_new_sel [simp]:
  "subject (fact_new s p ob) = s" "predicate (fact_new s p ob) = p" "object (fact_new s p ob) = ob"
  by (simp_all add: fact_new_def)

lemma fact_new_eq [simp]:
  "fact_new s p ob = f \<longleftrightarrow> subject f = s \<and> predicate f = p \<and> object f = ob"
  by (cases f) (auto simp: fact_new_def)

lemma as_atom_of_atom [simp]: "as_atom (bound_value_of_atom a) = Some a"
  by (cases a) simp_all

subsection \<open>The derived order on bound values\<close>

text \<open>Rust derives \<open>Ord\<close> for an enum by variant first, then by payload.\<close>

fun bound_value_key :: "bound_value \<Rightarrow> nat \<times> u64 \<times> string" where
  "bound_value_key (BEntity e) = (0, e, [])"
| "bound_value_key (BLiteral l) = (1, 0, l)"
| "bound_value_key (BPredicate p) = (2, 0, p)"

lemma bound_value_key_inject [simp]: "bound_value_key x = bound_value_key y \<longleftrightarrow> x = y"
  by (cases x; cases y) auto

instantiation bound_value :: linorder
begin

definition less_eq_bound_value :: "bound_value \<Rightarrow> bound_value \<Rightarrow> bool" where
  "x \<le> y \<longleftrightarrow> bound_value_key x \<le> bound_value_key y"

definition less_bound_value :: "bound_value \<Rightarrow> bound_value \<Rightarrow> bool" where
  "x < y \<longleftrightarrow> bound_value_key x < bound_value_key y"

instance
proof
  fix x y z :: bound_value
  show "x < y \<longleftrightarrow> x \<le> y \<and> \<not> y \<le> x"
    by (simp add: less_eq_bound_value_def less_bound_value_def less_le_not_le)
  show "x \<le> x" by (simp add: less_eq_bound_value_def)
  show "x \<le> y \<Longrightarrow> y \<le> z \<Longrightarrow> x \<le> z" by (auto simp: less_eq_bound_value_def)
  show "x \<le> y \<Longrightarrow> y \<le> x \<Longrightarrow> x = y"
    by (metis antisym bound_value_key_inject less_eq_bound_value_def)
  show "x \<le> y \<or> y \<le> x" by (auto simp: less_eq_bound_value_def)
qed

end

section \<open>Unification\<close>

text \<open>\<open>pub type Binding = BTreeMap<String, BoundValue>\<close>\<close>

type_synonym binding = "(string \<times> bound_value) list"

fun resolved_atom :: "term_t \<Rightarrow> binding \<Rightarrow> atom option" where
  "resolved_atom (TAtom a) b = Some a"
| "resolved_atom (TVariable x) b = Option.bind (map_of b x) as_atom"

fun resolved_predicate :: "predicate_term \<Rightarrow> binding \<Rightarrow> predicate option" where
  "resolved_predicate (PPredicate p) b = Some p"
| "resolved_predicate (PVariable x) b = Option.bind (map_of b x) as_predicate"

definition unify_variable :: "variable \<Rightarrow> bound_value \<Rightarrow> binding \<Rightarrow> binding option" where
  "unify_variable x value b =
     (case map_of b x of
        Some existing \<Rightarrow> if existing = value then Some b else None
      | None \<Rightarrow> Some (bt_insert x value b))"

fun unify_term :: "term_t \<Rightarrow> bound_value \<Rightarrow> binding \<Rightarrow> binding option" where
  "unify_term (TAtom a) value b = (if as_atom value = Some a then Some b else None)"
| "unify_term (TVariable x) value b = unify_variable x value b"

fun unify_predicate :: "predicate_term \<Rightarrow> bound_value \<Rightarrow> binding \<Rightarrow> binding option" where
  "unify_predicate (PPredicate p) value b = (if as_predicate value = Some p then Some b else None)"
| "unify_predicate (PVariable x) value b = unify_variable x value b"

definition unify_pattern :: "pattern \<Rightarrow> fact \<Rightarrow> binding \<Rightarrow> binding option" where
  "unify_pattern pat f b =
     Option.bind (unify_term (p_subject pat) (bound_value_of_atom (subject f)) b) (\<lambda>b1.
     Option.bind (unify_predicate (p_predicate pat) (BPredicate (predicate f)) b1) (\<lambda>b2.
     unify_term (p_object pat) (bound_value_of_atom (object f)) b2))"

subsection \<open>Requirements\<close>

text \<open>
  What a pattern asks of a binding when it meets a fact: the constants must agree (otherwise no
  requirement list exists) and each variable must have the value the fact has there.
\<close>

fun term_reqs :: "term_t \<Rightarrow> bound_value \<Rightarrow> (string \<times> bound_value) list option" where
  "term_reqs (TAtom a) v = (if as_atom v = Some a then Some [] else None)"
| "term_reqs (TVariable x) v = Some [(x, v)]"

fun predicate_reqs :: "predicate_term \<Rightarrow> bound_value \<Rightarrow> (string \<times> bound_value) list option" where
  "predicate_reqs (PPredicate p) v = (if as_predicate v = Some p then Some [] else None)"
| "predicate_reqs (PVariable x) v = Some [(x, v)]"

definition pattern_reqs :: "pattern \<Rightarrow> fact \<Rightarrow> (string \<times> bound_value) list option" where
  "pattern_reqs pat f =
     (case (term_reqs (p_subject pat) (bound_value_of_atom (subject f)),
            predicate_reqs (p_predicate pat) (BPredicate (predicate f)),
            term_reqs (p_object pat) (bound_value_of_atom (object f))) of
        (Some r1, Some r2, Some r3) \<Rightarrow> Some (r1 @ r2 @ r3)
      | _ \<Rightarrow> None)"

fun unify_reqs :: "(string \<times> bound_value) list \<Rightarrow> binding \<Rightarrow> binding option" where
  "unify_reqs [] b = Some b"
| "unify_reqs ((x, v) # rs) b = Option.bind (unify_variable x v b) (unify_reqs rs)"

lemma unify_reqs_append:
  "unify_reqs (rs @ ss) b = Option.bind (unify_reqs rs b) (unify_reqs ss)"
  by (induction rs b rule: unify_reqs.induct) (auto split: bind_split)

lemma unify_term_reqs: "unify_term t v b = Option.bind (term_reqs t v) (\<lambda>rs. unify_reqs rs b)"
  by (cases t) (auto split: bind_split)

lemma unify_predicate_reqs:
  "unify_predicate t v b = Option.bind (predicate_reqs t v) (\<lambda>rs. unify_reqs rs b)"
  by (cases t) (auto split: bind_split)

lemma unify_pattern_reqs:
  "unify_pattern pat f b = Option.bind (pattern_reqs pat f) (\<lambda>rs. unify_reqs rs b)"
  by (auto simp: unify_pattern_def pattern_reqs_def unify_term_reqs unify_predicate_reqs
      unify_reqs_append split: bind_split option.splits)

lemma unify_variable_Some:
  assumes "bt_wf b" and "unify_variable x v b = Some b'"
  shows "bt_wf b' \<and> set b' = insert (x, v) (set b)"
  using assms by (auto simp: unify_variable_def set_bt_insert_new bt_wf_mem split: option.splits if_splits)

lemma unify_variable_None:
  assumes "bt_wf b" and "unify_variable x v b = None"
  shows "\<not> single_valued (insert (x, v) (set b))"
proof -
  from assms obtain e where "map_of b x = Some e" and "e \<noteq> v"
    by (auto simp: unify_variable_def split: option.splits if_splits)
  then have "(x, e) \<in> set b" and "e \<noteq> v" using assms(1) by (auto simp: bt_wf_mem)
  then show ?thesis by (auto simp: single_valued_def)
qed

lemma unify_reqs_Some:
  "bt_wf b \<Longrightarrow> unify_reqs rs b = Some b' \<Longrightarrow> bt_wf b' \<and> set b' = set rs \<union> set b"
  by (induction rs b rule: unify_reqs.induct)
    (auto simp: bind_eq_Some_conv dest: unify_variable_Some)

lemma unify_reqs_None:
  "bt_wf b \<Longrightarrow> unify_reqs rs b = None \<Longrightarrow> \<not> single_valued (set rs \<union> set b)"
proof (induction rs b rule: unify_reqs.induct)
  case (2 x v rs b)
  show ?case
  proof (cases "unify_variable x v b")
    case None
    with 2 have "\<not> single_valued (insert (x, v) (set b))" by (blast dest: unify_variable_None)
    moreover have "insert (x, v) (set b) \<subseteq> set ((x, v) # rs) \<union> set b" by auto
    ultimately show ?thesis by (blast dest: single_valued_subset)
  next
    case (Some b1)
    with 2 have "\<not> single_valued (set rs \<union> set b1)" by (auto dest: unify_variable_Some)
    moreover have "set rs \<union> set b1 = set ((x, v) # rs) \<union> set b"
      using unify_variable_Some [OF "2.prems"(1) Some] by auto
    ultimately show ?thesis by simp
  qed
qed simp

text \<open>Unifying requirements depends only on the set of requirements.\<close>

lemma unify_reqs_canonical:
  assumes "bt_wf b"
  shows "unify_reqs rs b =
    (if single_valued (set rs \<union> set b) then Some (sorted_list_of_set (set rs \<union> set b)) else None)"
proof (cases "unify_reqs rs b")
  case None
  then show ?thesis using unify_reqs_None [OF assms None] by simp
next
  case (Some b')
  from unify_reqs_Some [OF assms Some] have wf: "bt_wf b'" and s: "set b' = set rs \<union> set b" by auto
  from bt_wf_single_valued [OF wf] bt_wf_canonical [OF wf] show ?thesis
    by (simp add: Some s)
qed

lemma unify_pattern_wf: "bt_wf b \<Longrightarrow> unify_pattern pat f b = Some b' \<Longrightarrow> bt_wf b'"
  by (auto simp: unify_pattern_reqs bind_eq_Some_conv dest: unify_reqs_Some)

lemma unify_reqs_commute:
  assumes "bt_wf b"
  shows "Option.bind (unify_reqs rs b) (unify_reqs ss) = Option.bind (unify_reqs ss b) (unify_reqs rs)"
proof -
  have "unify_reqs (rs @ ss) b = unify_reqs (ss @ rs) b"
    by (simp add: unify_reqs_canonical [OF assms] Un_ac)
  then show ?thesis by (simp add: unify_reqs_append)
qed

text \<open>Two patterns may be unified in either order.\<close>

lemma unify_pattern_commute:
  assumes "bt_wf b"
  shows "Option.bind (unify_pattern p f b) (unify_pattern q g) =
         Option.bind (unify_pattern q g b) (unify_pattern p f)"
  using unify_reqs_commute [OF assms]
  by (cases "pattern_reqs p f"; cases "pattern_reqs q g")
    (auto simp: unify_pattern_reqs cong: bind_option_cong split: bind_split)

subsection \<open>Which facts can unify\<close>

text \<open>
  A fact that unifies agrees with every part of the pattern that is already known: this is what
  lets an index lookup replace a scan.
\<close>

definition fact_matches :: "pattern \<Rightarrow> binding \<Rightarrow> fact \<Rightarrow> bool" where
  "fact_matches pat b f \<longleftrightarrow>
     (\<forall>a. resolved_atom (p_subject pat) b = Some a \<longrightarrow> subject f = a) \<and>
     (\<forall>p. resolved_predicate (p_predicate pat) b = Some p \<longrightarrow> predicate f = p) \<and>
     (\<forall>a. resolved_atom (p_object pat) b = Some a \<longrightarrow> object f = a)"

lemma unify_variable_keeps:
  "unify_variable x v b = Some b' \<Longrightarrow> map_of b y = Some w \<Longrightarrow> map_of b' y = Some w"
  by (auto simp: unify_variable_def split: option.splits if_splits)

lemma unify_term_keeps:
  "unify_term t v b = Some b' \<Longrightarrow> map_of b y = Some w \<Longrightarrow> map_of b' y = Some w"
  by (cases t) (auto dest: unify_variable_keeps split: if_splits)

lemma unify_predicate_keeps:
  "unify_predicate t v b = Some b' \<Longrightarrow> map_of b y = Some w \<Longrightarrow> map_of b' y = Some w"
  by (cases t) (auto dest: unify_variable_keeps split: if_splits)

lemma unify_variable_agrees:
  "unify_variable x v b = Some b' \<Longrightarrow> map_of b x = Some w \<Longrightarrow> w = v"
  by (auto simp: unify_variable_def split: if_splits)

lemma unify_term_agrees:
  "unify_term t (bound_value_of_atom a) b = Some b' \<Longrightarrow> resolved_atom t b = Some a' \<Longrightarrow> a = a'"
  by (cases t) (auto simp: bind_eq_Some_conv dest: unify_variable_agrees split: if_splits)

lemma unify_predicate_agrees:
  "unify_predicate t (BPredicate p) b = Some b' \<Longrightarrow> resolved_predicate t b = Some p' \<Longrightarrow> p = p'"
  by (cases t) (auto simp: bind_eq_Some_conv dest: unify_variable_agrees split: if_splits)

lemma resolved_atom_mono:
  "(\<And>y w. map_of b y = Some w \<Longrightarrow> map_of b' y = Some w) \<Longrightarrow>
   resolved_atom t b = Some a \<Longrightarrow> resolved_atom t b' = Some a"
  by (cases t) (auto simp: bind_eq_Some_conv)

lemma resolved_predicate_mono:
  "(\<And>y w. map_of b y = Some w \<Longrightarrow> map_of b' y = Some w) \<Longrightarrow>
   resolved_predicate t b = Some p \<Longrightarrow> resolved_predicate t b' = Some p"
  by (cases t) (auto simp: bind_eq_Some_conv)

lemma unify_pattern_matches:
  assumes "unify_pattern pat f b = Some b'"
  shows "fact_matches pat b f"
proof -
  from assms obtain b1 b2 where
    1: "unify_term (p_subject pat) (bound_value_of_atom (subject f)) b = Some b1" and
    2: "unify_predicate (p_predicate pat) (BPredicate (predicate f)) b1 = Some b2" and
    3: "unify_term (p_object pat) (bound_value_of_atom (object f)) b2 = Some b'"
    by (auto simp: unify_pattern_def bind_eq_Some_conv)
  note k1 = unify_term_keeps [OF 1] and k2 = unify_predicate_keeps [OF 2]
  have k12: "map_of b2 y = Some w" if "map_of b y = Some w" for y w
    using k2 [OF k1 [OF that]] .
  show ?thesis
    unfolding fact_matches_def
  proof (intro conjI allI impI)
    show "subject f = a" if "resolved_atom (p_subject pat) b = Some a" for a
      using unify_term_agrees [OF 1 that] .
    show "predicate f = p" if "resolved_predicate (p_predicate pat) b = Some p" for p
      using unify_predicate_agrees [OF 2 resolved_predicate_mono [OF k1 that]] .
    show "object f = a" if "resolved_atom (p_object pat) b = Some a" for a
      using unify_term_agrees [OF 3 resolved_atom_mono [OF k12 that]] .
  qed
qed

end
