(* ===== verification/Query.thy ===== *)
theory Query
  imports Terms
begin

text \<open>
  The join engine.  The function \<open>walk_query\<close> occurs, word for word up to where candidates and
  facts come from, in the reference kernel (\<open>forthdb-core/src/lib.rs\<close>), in the structurally
  shared kernel (\<open>shared_db_v2.rs\<close>) and in the VM query projection (\<open>forthdb-world/src/lib.rs\<close>).
  Here it takes the candidate lookup and the record fetch as arguments; the components
  instantiate it.  The locale \<open>query_source\<close> states what the engine needs of them, and its lemmas
  show that the engine computes exactly the join, whatever order the optimizer picks, and that
  it never panics.
\<close>

section \<open>Options, rows and results\<close>

record query_metrics =
  candidate_facts :: u64
  bindings_emitted :: u64

record query_row =
  row_binding :: binding
  row_provenance :: "slot_id list"

record query_result =
  rows :: "query_row list"
  chosen_first_path :: "pattern list"
  result_metrics :: query_metrics

record query_options =
  optimize :: bool
  distinct_rows :: bool
  include_provenance :: bool
  limit :: "nat option"

definition default_options :: query_options where
  "default_options =
     \<lparr>optimize = True, distinct_rows = True, include_provenance = False, limit = None\<rparr>"

record query_frame =
  frame_binding :: binding
  frame_provenance :: "slot_id list"

text \<open>The three mutable references of \<open>walk_query\<close>: \<open>output\<close>, \<open>first_path\<close> and \<open>metrics\<close>.\<close>

record walk_state =
  out_frames :: "query_frame list"
  first_path :: "pattern list"
  metrics :: query_metrics

section \<open>The join engine\<close>

definition chosen_index ::
  "(pattern \<Rightarrow> binding \<Rightarrow> 'r list) \<Rightarrow> query_options \<Rightarrow> binding \<Rightarrow> pattern list \<Rightarrow> nat" where
  "chosen_index candidates options b remaining =
     (if optimize options
      then min_index_by_key (\<lambda>pat. length (candidates pat b)) remaining
      else 0)"

definition note_first_path :: "nat \<Rightarrow> pattern \<Rightarrow> walk_state \<Rightarrow> walk_state" where
  "note_first_path depth chosen st =
     (if depth = length (first_path st) then st\<lparr>first_path := first_path st @ [chosen]\<rparr> else st)"

definition count_candidates :: "nat \<Rightarrow> walk_state \<Rightarrow> walk_state" where
  "count_candidates n st =
     st\<lparr>metrics := (metrics st)\<lparr>candidate_facts := candidate_facts (metrics st) + word_of_nat n\<rparr>\<rparr>"

definition count_emitted :: "walk_state \<Rightarrow> walk_state" where
  "count_emitted st =
     st\<lparr>metrics := (metrics st)\<lparr>bindings_emitted := bindings_emitted (metrics st) + 1\<rparr>\<rparr>"

definition limit_reached :: "query_options \<Rightarrow> walk_state \<Rightarrow> bool" where
  "limit_reached options st = (case limit options of None \<Rightarrow> False | Some l \<Rightarrow> l \<le> length (out_frames st))"

lemma chosen_index_less: "ps \<noteq> [] \<Longrightarrow> chosen_index C opts b ps < length ps"
  by (simp add: chosen_index_def min_index_by_key_less)

text \<open>
  \<open>walk_query\<close> returns whether the row limit was reached; \<open>None\<close> is a panic (a record that is
  missing or is no definition).  \<open>walk_candidates\<close> is its \<open>for\<close> loop.
\<close>

function (sequential) walk_query ::
  "(pattern \<Rightarrow> binding \<Rightarrow> 'r list) \<Rightarrow> ('r \<Rightarrow> (slot_id \<times> fact) option) \<Rightarrow> query_options \<Rightarrow>
   query_frame \<Rightarrow> pattern list \<Rightarrow> nat \<Rightarrow> walk_state \<Rightarrow> (bool \<times> walk_state) option"
and walk_candidates ::
  "(pattern \<Rightarrow> binding \<Rightarrow> 'r list) \<Rightarrow> ('r \<Rightarrow> (slot_id \<times> fact) option) \<Rightarrow> query_options \<Rightarrow>
   query_frame \<Rightarrow> pattern \<Rightarrow> pattern list \<Rightarrow> nat \<Rightarrow> 'r list \<Rightarrow> walk_state \<Rightarrow>
   (bool \<times> walk_state) option"
where
  "walk_query C F opts fr remaining depth st =
     (if remaining = [] then
        let st1 = st\<lparr>out_frames := out_frames st @ [fr]\<rparr> in Some (limit_reached opts st1, st1)
      else
        let i = chosen_index C opts (frame_binding fr) remaining;
            chosen = remaining ! i;
            candidates = C chosen (frame_binding fr);
            st1 = count_candidates (length candidates) (note_first_path depth chosen st)
        in walk_candidates C F opts fr chosen (remove_nth i remaining) depth candidates st1)"
| "walk_candidates C F opts fr chosen rest depth [] st = Some (False, st)"
| "walk_candidates C F opts fr chosen rest depth (r # rs) st =
     (case F r of
        None \<Rightarrow> None
      | Some (slot, f) \<Rightarrow>
          (case unify_pattern chosen f (frame_binding fr) of
             None \<Rightarrow> walk_candidates C F opts fr chosen rest depth rs st
           | Some b \<Rightarrow>
               (case walk_query C F opts
                       \<lparr>frame_binding = b, frame_provenance = frame_provenance fr @ [slot]\<rparr>
                       rest (depth + 1) (count_emitted st) of
                  None \<Rightarrow> None
                | Some (stop, st1) \<Rightarrow>
                    if stop then Some (True, st1)
                    else walk_candidates C F opts fr chosen rest depth rs st1)))"
  by pat_completeness auto
termination
proof (relation "measures [case_sum (\<lambda>(C, F, opts, fr, remaining, depth, st). length remaining)
           (\<lambda>(C, F, opts, fr, chosen, rest, depth, rs, st). length rest),
         case_sum (\<lambda>_. 0) (\<lambda>(C, F, opts, fr, chosen, rest, depth, rs, st). Suc (length rs))]",
       goal_cases)
  case (2 C F opts fr remaining depth st)
  then show ?case
    using chosen_index_less [of remaining C opts "frame_binding fr"]
    by (auto simp: length_remove_nth)
qed auto

declare walk_query.simps [simp del]

fun retain_distinct :: "binding set \<Rightarrow> query_frame list \<Rightarrow> query_frame list" where
  "retain_distinct seen [] = []"
| "retain_distinct seen (fr # frs) =
     (if frame_binding fr \<in> seen then retain_distinct seen frs
      else fr # retain_distinct (insert (frame_binding fr) seen) frs)"

definition row_of_frame :: "query_options \<Rightarrow> query_frame \<Rightarrow> query_row" where
  "row_of_frame opts fr =
     \<lparr>row_binding = frame_binding fr,
      row_provenance = (if include_provenance opts then frame_provenance fr else [])\<rparr>"

definition initial_state :: walk_state where
  "initial_state =
     \<lparr>out_frames = [], first_path = [], metrics = \<lparr>candidate_facts = 0, bindings_emitted = 0\<rparr>\<rparr>"

definition run_query ::
  "(pattern \<Rightarrow> binding \<Rightarrow> 'r list) \<Rightarrow> ('r \<Rightarrow> (slot_id \<times> fact) option) \<Rightarrow>
   pattern list \<Rightarrow> query_options \<Rightarrow> query_result option" where
  "run_query C F patterns opts =
     (case walk_query C F opts \<lparr>frame_binding = [], frame_provenance = []\<rparr> patterns 0 initial_state of
        None \<Rightarrow> None
      | Some (stop, st) \<Rightarrow>
          let kept = (if distinct_rows opts then retain_distinct {} (out_frames st) else out_frames st);
              sorted_frames = sort_key (\<lambda>fr. (frame_binding fr, frame_provenance fr)) kept
          in Some \<lparr>rows = map (row_of_frame opts) sorted_frames,
                   chosen_first_path = first_path st,
                   result_metrics = metrics st\<rparr>)"

text \<open>The engine sees of its candidates only what they fetch.\<close>

lemma chosen_index_cong:
  "(\<And>pat b. length (C pat b) = length (C' pat b)) \<Longrightarrow> chosen_index C opts b ps = chosen_index C' opts b ps"
  by (simp add: chosen_index_def)

lemma walk_query_fetch_cong:
  "(\<And>pat b. map F (C pat b) = map F' (C' pat b)) \<Longrightarrow>
   walk_query C F opts fr remaining depth st = walk_query C' F' opts fr remaining depth st"
  "(\<And>pat b. map F (C pat b) = map F' (C' pat b)) \<Longrightarrow> map F rs = map F' rs' \<Longrightarrow>
   walk_candidates C F opts fr chosen rest depth rs st = walk_candidates C' F' opts fr chosen rest depth rs' st"
proof (induction C F opts fr remaining depth st and C F opts fr chosen rest depth rs st
    arbitrary: and rs' rule: walk_query_walk_candidates.induct)
  case (1 C F opts fr remaining depth st)
  have len: "length (C pat b) = length (C' pat b)" for pat b
    using "1.prems" [of pat b] by (metis length_map)
  note idx = chosen_index_cong [of C C', OF len]
  show ?case
  proof (cases "remaining = []")
    case True
    then show ?thesis by (simp add: walk_query.simps)
  next
    case False
    from "1.IH" [OF False refl refl refl refl "1.prems" "1.prems"] show ?thesis
      using False len by (simp add: walk_query.simps [of _ _ _ _ remaining] Let_def idx)
  qed
next
  case (2 C F opts fr chosen rest depth st)
  then show ?case by simp
next
  case (3 C F opts fr chosen rest depth r rs st)
  from "3.prems"(2) obtain q qs where q: "rs' = q # qs" "F' q = F r" "map F rs = map F' qs"
    by (cases rs') auto
  show ?case
    using "3.IH" "3.prems"(1) q by (auto split: option.split)
qed

lemma run_query_fetch_cong:
  assumes "\<And>pat b. map F (C pat b) = map F' (C' pat b)"
  shows "run_query C F ps opts = run_query C' F' ps opts"
  unfolding run_query_def using walk_query_fetch_cong(1) [of F C F' C', OF assms] by simp

section \<open>The specification: nested loops over all facts\<close>

fun nested_loop :: "fact list \<Rightarrow> pattern list \<Rightarrow> binding \<Rightarrow> binding list" where
  "nested_loop facts [] b = [b]"
| "nested_loop facts (p # ps) b =
     concat (map (\<lambda>f. case unify_pattern p f b of None \<Rightarrow> [] | Some b' \<Rightarrow> nested_loop facts ps b') facts)"

text \<open>An answer is a choice of one fact per pattern whose requirements are consistent.\<close>

lemma set_nested_loop:
  "bt_wf b \<Longrightarrow>
   b' \<in> set (nested_loop facts ps b) \<longleftrightarrow>
     (\<exists>fs. length fs = length ps \<and> set fs \<subseteq> set facts \<and>
        (\<exists>rss. map2 pattern_reqs ps fs = map Some rss \<and> unify_reqs (concat rss) b = Some b'))"
proof (induction ps arbitrary: b)
  case Nil
  then show ?case by auto
next
  case (Cons p ps)
  have "b' \<in> set (nested_loop facts (p # ps) b) \<longleftrightarrow>
      (\<exists>f \<in> set facts. \<exists>b1. unify_pattern p f b = Some b1 \<and> b' \<in> set (nested_loop facts ps b1))"
    by (simp split: option.split) (metis option.distinct(1) option.inject)
  also have "\<dots> \<longleftrightarrow> (\<exists>f \<in> set facts. \<exists>r b1. pattern_reqs p f = Some r \<and> unify_reqs r b = Some b1 \<and>
      (\<exists>fs. length fs = length ps \<and> set fs \<subseteq> set facts \<and>
        (\<exists>rss. map2 pattern_reqs ps fs = map Some rss \<and> unify_reqs (concat rss) b1 = Some b')))"
    using Cons.IH unify_pattern_wf [OF Cons.prems]
    by (fastforce simp: unify_pattern_reqs bind_eq_Some_conv)
  also have "\<dots> \<longleftrightarrow> (\<exists>fs. length fs = length (p # ps) \<and> set fs \<subseteq> set facts \<and>
      (\<exists>rss. map2 pattern_reqs (p # ps) fs = map Some rss \<and> unify_reqs (concat rss) b = Some b'))"
    (is "?L \<longleftrightarrow> ?R")
  proof
    assume ?L
    then obtain f r b1 fs rss where "f \<in> set facts" "pattern_reqs p f = Some r"
      "unify_reqs r b = Some b1" "length fs = length ps" "set fs \<subseteq> set facts"
      "map2 pattern_reqs ps fs = map Some rss" "unify_reqs (concat rss) b1 = Some b'" by auto
    then show ?R
      by (intro exI [of _ "f # fs"] exI [of _ "r # rss"] conjI) (auto simp: unify_reqs_append)
  next
    assume ?R
    then obtain fs rss where fs: "length fs = length (p # ps)" "set fs \<subseteq> set facts"
      and rss: "map2 pattern_reqs (p # ps) fs = map Some rss" "unify_reqs (concat rss) b = Some b'"
      by blast
    from fs obtain f fs' where f: "fs = f # fs'" by (cases fs) auto
    with rss obtain r rss' where r: "rss = r # rss'" by (cases rss) auto
    from f r rss obtain b1 where "pattern_reqs p f = Some r" "map2 pattern_reqs ps fs' = map Some rss'"
      "unify_reqs r b = Some b1" "unify_reqs (concat rss') b1 = Some b'"
      by (auto simp: unify_reqs_append bind_eq_Some_conv)
    with f fs show ?L
      by (intro bexI [of _ f] exI [of _ r] exI [of _ b1] exI [of _ fs'] exI [of _ rss'] conjI) auto
  qed
  finally show ?case .
qed

definition join_sum :: "(fact \<Rightarrow> binding list) \<Rightarrow> fact list \<Rightarrow> binding multiset" where
  "join_sum g facts = (\<Sum>f \<in># mset facts. mset (g f))"

lemma mset_concat_map: "mset (concat (map g xs)) = (\<Sum>x \<in># mset xs. mset (g x))"
  by (induction xs) auto

lemma nested_loop_swap:
  assumes "bt_wf b"
  shows "mset (nested_loop facts (p # q # ps) b) = mset (nested_loop facts (q # p # ps) b)"
proof -
  define h where "h p q f g =
    (case Option.bind (unify_pattern p f b) (unify_pattern q g) of
       None \<Rightarrow> {#} | Some b' \<Rightarrow> mset (nested_loop facts ps b'))" for p q f g
  have expand: "mset (nested_loop facts (p # q # ps) b) = (\<Sum>f \<in># mset facts. \<Sum>g \<in># mset facts. h p q f g)"
    for p q
    by (auto simp: mset_concat_map h_def intro!: arg_cong [where f = sum_mset] image_mset_cong
        split: option.splits)
  have "h p q f g = h q p g f" for f g
    by (simp add: h_def unify_pattern_commute [OF assms])
  then have "(\<Sum>f \<in># mset facts. \<Sum>g \<in># mset facts. h p q f g) =
      (\<Sum>f \<in># mset facts. \<Sum>g \<in># mset facts. h q p g f)" by simp
  also have "\<dots> = (\<Sum>g \<in># mset facts. \<Sum>f \<in># mset facts. h q p g f)"
    by (rule sum_mset.swap)
  finally show ?thesis by (simp only: expand)
qed

lemma nested_loop_cong_tail:
  assumes "bt_wf b" and "\<And>b'. bt_wf b' \<Longrightarrow> mset (nested_loop facts ps b') = mset (nested_loop facts qs b')"
  shows "mset (nested_loop facts (p # ps) b) = mset (nested_loop facts (p # qs) b)"
  using assms unify_pattern_wf [OF assms(1)]
  by (auto simp: mset_concat_map intro!: arg_cong [where f = sum_mset] image_mset_cong
      split: option.splits)

lemma nested_loop_front:
  "bt_wf b \<Longrightarrow> mset (nested_loop facts (qs @ p # rs) b) = mset (nested_loop facts (p # qs @ rs) b)"
proof (induction qs arbitrary: b)
  case (Cons q qs)
  have "mset (nested_loop facts (q # (qs @ p # rs)) b) = mset (nested_loop facts (q # (p # qs @ rs)) b)"
    by (rule nested_loop_cong_tail [OF Cons.prems Cons.IH])
  also have "\<dots> = mset (nested_loop facts (p # q # qs @ rs) b)"
    by (rule nested_loop_swap [OF Cons.prems])
  finally show ?case by simp
qed simp

text \<open>The join does not depend on the order of its patterns.\<close>

lemma nested_loop_permute:
  "bt_wf b \<Longrightarrow> mset ps = mset qs \<Longrightarrow> mset (nested_loop facts ps b) = mset (nested_loop facts qs b)"
proof (induction ps arbitrary: qs b)
  case (Cons p ps)
  then have "p \<in> set qs" by (metis list.set_intros(1) mset_eq_setD)
  then obtain q1 q2 where q: "qs = q1 @ p # q2" by (meson split_list)
  with Cons.prems have m: "mset ps = mset (q1 @ q2)" by simp
  have "mset (nested_loop facts (p # ps) b) = mset (nested_loop facts (p # q1 @ q2) b)"
    by (rule nested_loop_cong_tail [OF Cons.prems(1) Cons.IH [OF _ m]])
  then show ?case using nested_loop_front [OF Cons.prems(1)] q by simp
qed simp

section \<open>Correctness of the engine over any source of candidates\<close>

lemma output_updates [simp]:
  "out_frames (note_first_path d c st) = out_frames st"
  "out_frames (count_candidates n st) = out_frames st"
  "out_frames (count_emitted st) = out_frames st"
  by (simp_all add: note_first_path_def count_candidates_def count_emitted_def)

definition below_limit :: "query_options \<Rightarrow> walk_state \<Rightarrow> bool" where
  "below_limit opts st \<longleftrightarrow>
     (\<forall>l. limit opts = Some l \<longrightarrow> out_frames st = [] \<or> length (out_frames st) < l)"

text \<open>
  What a call of the engine does: it appends frames for answers among \<open>sols\<close>; without a stop all
  of them, and with a stop exactly up to the limit (a limit of zero still yields one row).
\<close>

definition walk_result ::
  "query_options \<Rightarrow> walk_state \<Rightarrow> binding multiset \<Rightarrow> (bool \<times> walk_state) option \<Rightarrow> bool" where
  "walk_result opts st sols res \<longleftrightarrow>
     (\<exists>stop st' new. res = Some (stop, st') \<and> out_frames st' = out_frames st @ new \<and>
        mset (map frame_binding new) \<subseteq># sols \<and>
        (\<not> stop \<longrightarrow> mset (map frame_binding new) = sols \<and> below_limit opts st') \<and>
        (stop \<longrightarrow> (\<exists>l. limit opts = Some l \<and> length (out_frames st') = max 1 l)))"

lemma walk_result_output_cong:
  "out_frames st = out_frames st' \<Longrightarrow> walk_result opts st sols res = walk_result opts st' sols res"
  by (simp add: walk_result_def)

lemma below_limit_output_cong:
  "out_frames st = out_frames st' \<Longrightarrow> below_limit opts st = below_limit opts st'"
  by (simp add: below_limit_def)

lemma walk_result_push:
  assumes "below_limit opts st"
  shows "walk_result opts st {#frame_binding fr#}
    (Some (limit_reached opts (st\<lparr>out_frames := out_frames st @ [fr]\<rparr>), st\<lparr>out_frames := out_frames st @ [fr]\<rparr>))"
  using assms
  by (auto simp: walk_result_def below_limit_def limit_reached_def split: option.splits)

text \<open>A walk that did not stop may be followed by another one.\<close>

lemma walk_result_seq:
  assumes "walk_result opts st sols1 (Some (False, st1))" and "walk_result opts st1 sols2 res"
  shows "walk_result opts st (sols1 + sols2) res"
proof -
  from assms(1) obtain new1 where 1: "out_frames st1 = out_frames st @ new1"
    "mset (map frame_binding new1) = sols1" by (auto simp: walk_result_def)
  from assms(2) obtain stop st2 new2 where 2: "res = Some (stop, st2)"
    "out_frames st2 = out_frames st1 @ new2" "mset (map frame_binding new2) \<subseteq># sols2"
    "\<not> stop \<longrightarrow> mset (map frame_binding new2) = sols2 \<and> below_limit opts st2"
    "stop \<longrightarrow> (\<exists>l. limit opts = Some l \<and> length (out_frames st2) = max 1 l)"
    unfolding walk_result_def by blast
  show ?thesis
    unfolding walk_result_def
    by (rule exI [of _ stop], rule exI [of _ st2], rule exI [of _ "new1 @ new2"])
      (use 1 2 in auto)
qed

lemma walk_result_stop:
  assumes "walk_result opts st sols1 (Some (True, st1))"
  shows "walk_result opts st (sols1 + sols2) (Some (True, st1))"
proof -
  from assms obtain stop st2 new where 0: "Some (True, st1) = Some (stop, st2)"
    "out_frames st2 = out_frames st @ new" "mset (map frame_binding new) \<subseteq># sols1"
    "stop \<longrightarrow> (\<exists>l. limit opts = Some l \<and> length (out_frames st2) = max 1 l)"
    unfolding walk_result_def by blast
  then obtain l where 1: "out_frames st1 = out_frames st @ new"
    "mset (map frame_binding new) \<subseteq># sols1" "limit opts = Some l"
    "length (out_frames st1) = max 1 l" by blast
  have "mset (map frame_binding new) \<subseteq># sols1 + sols2"
    using 1(2) by (rule subset_mset.order_trans) simp
  with 1 show ?thesis unfolding walk_result_def by blast
qed

lemma walk_result_below: "walk_result opts st sols (Some (False, st1)) \<Longrightarrow> below_limit opts st1"
  by (auto simp: walk_result_def)

subsection \<open>Deduplication and ordering of the rows\<close>

lemma retain_distinct_bindings:
  "set (map frame_binding (retain_distinct seen frs)) = set (map frame_binding frs) - seen"
  "distinct (map frame_binding (retain_distinct seen frs))"
proof -
  have "set (map frame_binding (retain_distinct seen frs)) = set (map frame_binding frs) - seen \<and>
      distinct (map frame_binding (retain_distinct seen frs))"
    by (induction seen frs rule: retain_distinct.induct) auto
  then show "set (map frame_binding (retain_distinct seen frs)) = set (map frame_binding frs) - seen"
    and "distinct (map frame_binding (retain_distinct seen frs))" by auto
qed

lemma sort_frames_bindings:
  "map frame_binding (sort_key (\<lambda>fr. (frame_binding fr, frame_provenance fr)) frs) =
   sort (map frame_binding frs)"
proof (rule properties_for_sort [symmetric])
  let ?key = "\<lambda>fr. (frame_binding fr, frame_provenance fr)"
  have "sorted (map ?key (sort_key ?key frs))" by (rule sorted_sort_key)
  then have "sorted_wrt (\<lambda>x y. frame_binding x \<le> frame_binding y) (sort_key ?key frs)"
    by (simp add: sorted_wrt_map) (auto elim!: sorted_wrt_mono_rel [rotated])
  then show "sorted (map frame_binding (sort_key ?key frs))"
    by (simp add: sorted_wrt_map)
qed simp

text \<open>The bindings a query must return: the sorted set of answers, or the sorted bag.\<close>

definition expected_bindings :: "bool \<Rightarrow> fact list \<Rightarrow> pattern list \<Rightarrow> binding list" where
  "expected_bindings dist facts ps =
     (if dist then sorted_list_of_set (set (nested_loop facts ps []))
      else sort (nested_loop facts ps []))"

text \<open>
  A database \<open>db\<close> that satisfies its invariant offers a list of active records, a fetch that
  succeeds on them, and a candidate lookup that is a filter of that list by what the pattern
  already knows.
\<close>

locale query_source =
  fixes candidates :: "'db \<Rightarrow> pattern \<Rightarrow> binding \<Rightarrow> 'r list"
    and fetch :: "'db \<Rightarrow> 'r \<Rightarrow> (slot_id \<times> fact) option"
    and active :: "'db \<Rightarrow> 'r list"
    and invar :: "'db \<Rightarrow> bool"
  assumes fetch_active: "invar db \<Longrightarrow> r \<in> set (active db) \<Longrightarrow> \<exists>slot f. fetch db r = Some (slot, f)"
    and candidates_filter:
      "invar db \<Longrightarrow> candidates db pat b =
         filter (\<lambda>r. case fetch db r of None \<Rightarrow> False | Some (slot, f) \<Rightarrow> fact_matches pat b f) (active db)"
begin

definition facts :: "'db \<Rightarrow> fact list" where
  "facts db = map (\<lambda>r. snd (the (fetch db r))) (active db)"

definition answers :: "'db \<Rightarrow> pattern \<Rightarrow> pattern list \<Rightarrow> binding \<Rightarrow> fact \<Rightarrow> binding list" where
  "answers db p ps b f = (case unify_pattern p f b of None \<Rightarrow> [] | Some b' \<Rightarrow> nested_loop (facts db) ps b')"

lemma answers_unmatched: "\<not> fact_matches p b f \<Longrightarrow> answers db p ps b f = []"
  by (auto simp: answers_def dest: unify_pattern_matches split: option.splits)

lemma nested_loop_candidates:
  assumes "invar db"
  shows "mset (nested_loop (facts db) (p # ps) b) =
   (\<Sum>r \<in># mset (candidates db p b). mset (answers db p ps b (snd (the (fetch db r)))))"
proof -
  have "mset (concat (map (\<lambda>r. answers db p ps b (snd (the (fetch db r)))) xs)) =
      mset (concat (map (\<lambda>r. answers db p ps b (snd (the (fetch db r))))
        (filter (\<lambda>r. case fetch db r of None \<Rightarrow> False | Some (slot, f) \<Rightarrow> fact_matches p b f) xs)))"
    if "set xs \<subseteq> set (active db)" for xs
    using that
  proof (induction xs)
    case (Cons r xs)
    from Cons.prems obtain slot f where "fetch db r = Some (slot, f)" using fetch_active [OF assms] by fastforce
    with Cons show ?case by (cases "fact_matches p b f") (auto simp: answers_unmatched)
  qed simp
  note filtered = this [OF subset_refl]
  have "nested_loop (facts db) (p # ps) b = concat (map (answers db p ps b) (facts db))"
    by (simp add: answers_def [abs_def])
  also have "\<dots> = concat (map (\<lambda>r. answers db p ps b (snd (the (fetch db r)))) (active db))"
    by (simp add: facts_def comp_def)
  finally show ?thesis
    unfolding candidates_filter [OF assms] mset_concat_map [symmetric] by (simp only: filtered)
qed

lemma candidates_active: "invar db \<Longrightarrow> r \<in> set (candidates db p b) \<Longrightarrow> r \<in> set (active db)"
  by (auto simp: candidates_filter)

lemma walk_correct_aux:
  assumes inv: "invar db"
  shows "C = candidates db \<Longrightarrow> F = fetch db \<Longrightarrow> bt_wf (frame_binding fr) \<Longrightarrow> below_limit opts st \<Longrightarrow>
   walk_result opts st (mset (nested_loop (facts db) remaining (frame_binding fr)))
     (walk_query C F opts fr remaining depth st)"
  and "C = candidates db \<Longrightarrow> F = fetch db \<Longrightarrow> bt_wf (frame_binding fr) \<Longrightarrow> below_limit opts st \<Longrightarrow>
   set rs \<subseteq> set (active db) \<Longrightarrow>
   walk_result opts st
     (\<Sum>r \<in># mset rs. mset (answers db chosen rest (frame_binding fr) (snd (the (fetch db r)))))
     (walk_candidates C F opts fr chosen rest depth rs st)"
proof (induction C F opts fr remaining depth st and
    C F opts fr chosen rest depth rs st rule: walk_query_walk_candidates.induct)
  case (1 C F opts fr remaining depth st)
  note eqs = "1.prems"(1,2)
  let ?b = "frame_binding fr"
  show ?case
  proof (cases "remaining = []")
    case True
    then show ?thesis
      using walk_result_push [OF "1.prems"(4)] by (simp add: walk_query.simps Let_def)
  next
    case False
    define i where "i = chosen_index C opts ?b remaining"
    define cs where "cs = C (remaining ! i) ?b"
    define st1 where "st1 = count_candidates (length cs) (note_first_path depth (remaining ! i) st)"
    have i: "i < length remaining" using chosen_index_less [OF False] by (simp add: i_def)
    have out: "out_frames st1 = out_frames st" by (simp add: st1_def)
    have cs: "set cs \<subseteq> set (active db)" using candidates_active [OF inv] eqs by (auto simp: cs_def)
    have "walk_result opts st1
       (\<Sum>r \<in># mset cs. mset (answers db (remaining ! i) (remove_nth i remaining) ?b (snd (the (fetch db r)))))
       (walk_candidates C F opts fr (remaining ! i) (remove_nth i remaining) depth cs st1)"
      using "1.IH" [OF False i_def refl cs_def st1_def eqs "1.prems"(3) _ cs] "1.prems"(4)
        below_limit_output_cong [OF out] by simp
    moreover have "mset (nested_loop (facts db) (remaining ! i # remove_nth i remaining) ?b) =
        mset (nested_loop (facts db) remaining ?b)"
      by (rule nested_loop_permute [OF "1.prems"(3)]) (simp add: mset_remove_nth [OF i])
    ultimately have "walk_result opts st (mset (nested_loop (facts db) remaining ?b))
        (walk_candidates C F opts fr (remaining ! i) (remove_nth i remaining) depth cs st1)"
      using walk_result_output_cong [OF out] eqs by (simp only: nested_loop_candidates [OF inv] cs_def)
    then show ?thesis
      using False by (simp add: walk_query.simps [of C F opts fr remaining]
          Let_def i_def [symmetric] cs_def [symmetric] st1_def [symmetric])
  qed
next
  case (2 C F opts fr chosen rest depth st)
  then show ?case by (auto simp: walk_result_def intro!: exI [of _ False])
next
  case (3 C F opts fr chosen rest depth r rs st)
  note eqs = "3.prems"(1,2) and wf = "3.prems"(3) and below = "3.prems"(4)
  let ?b = "frame_binding fr"
  let ?tail = "\<Sum>r \<in># mset rs. mset (answers db chosen rest ?b (snd (the (fetch db r))))"
  from "3.prems"(5) obtain slot f where f: "fetch db r = Some (slot, f)" using fetch_active [OF inv] by fastforce
  with eqs have F: "F r = Some (slot, f)" by simp
  from "3.prems"(5) have rs: "set rs \<subseteq> set (active db)" by simp
  show ?case
  proof (cases "unify_pattern chosen f ?b")
    case None
    then show ?thesis
      using "3.IH"(1) [OF F refl None eqs wf below rs] f F by (simp add: answers_def)
  next
    case (Some b)
    let ?fr = "\<lparr>frame_binding = b, frame_provenance = frame_provenance fr @ [slot]\<rparr>"
    let ?q = "walk_query C F opts ?fr rest (depth + 1) (count_emitted st)"
    have "walk_result opts (count_emitted st) (mset (nested_loop (facts db) rest b)) ?q"
      using "3.IH"(2) [OF F refl Some eqs] below unify_pattern_wf [OF wf Some]
      by (simp add: below_limit_output_cong [of "count_emitted st" st])
    then have sub: "walk_result opts st (mset (nested_loop (facts db) rest b)) ?q"
      by (simp add: walk_result_output_cong [of "count_emitted st" st])
    then obtain stop st1 where q: "?q = Some (stop, st1)" by (auto simp: walk_result_def)
    have expand: "walk_candidates C F opts fr chosen rest depth (r # rs) st =
        (if stop then Some (True, st1) else walk_candidates C F opts fr chosen rest depth rs st1)"
      using F Some q by simp
    have total: "(\<Sum>r \<in># mset (r # rs). mset (answers db chosen rest ?b (snd (the (fetch db r))))) =
        mset (nested_loop (facts db) rest b) + ?tail"
      using f Some by (simp add: answers_def)
    show ?thesis
    proof (cases stop)
      case True
      then show ?thesis
        using walk_result_stop [of opts st _ st1 ?tail] sub by (simp only: q expand total if_True)
    next
      case False
      have "below_limit opts st1" using sub False unfolding q by (auto intro: walk_result_below)
      then have "walk_result opts st1 ?tail (walk_candidates C F opts fr chosen rest depth rs st1)"
        using "3.IH"(3) [OF F refl Some q refl False eqs wf _ rs] by simp
      then show ?thesis
        using walk_result_seq [of opts st _ st1 ?tail] sub False by (simp only: q expand total if_False)
    qed
  qed
qed

lemma walk_correct:
  assumes inv: "invar db"
  shows "walk_result opts initial_state (mset (nested_loop (facts db) ps []))
     (walk_query (candidates db) (fetch db) opts \<lparr>frame_binding = [], frame_provenance = []\<rparr> ps 0 initial_state)"
  using walk_correct_aux(1) [OF inv, of "candidates db" "fetch db" "\<lparr>frame_binding = [], frame_provenance = []\<rparr>" opts
      initial_state ps 0]
  by (simp add: below_limit_def initial_state_def)

lemma run_query_unlimited:
  assumes inv: "invar db" and "limit opts = None"
  shows "\<exists>res. run_query (candidates db) (fetch db) ps opts = Some res \<and>
    map row_binding (rows res) = expected_bindings (distinct_rows opts) (facts db) ps"
proof -
  from walk_correct [OF inv, of opts ps] assms(2) obtain st where
    q: "walk_query (candidates db) (fetch db) opts \<lparr>frame_binding = [], frame_provenance = []\<rparr> ps 0 initial_state =
        Some (False, st)" and
    m: "mset (map frame_binding (out_frames st)) = mset (nested_loop (facts db) ps [])"
    by (auto simp: walk_result_def initial_state_def)
  let ?kept = "if distinct_rows opts then retain_distinct {} (out_frames st) else out_frames st"
  have "sort (map frame_binding ?kept) = expected_bindings (distinct_rows opts) (facts db) ps"
  proof (cases "distinct_rows opts")
    case True
    have "set (map frame_binding ?kept) = set (nested_loop (facts db) ps [])"
      using True retain_distinct_bindings(1) [of "{}" "out_frames st"] m [THEN mset_eq_setD] by simp
    moreover have "distinct (map frame_binding ?kept)"
      using True retain_distinct_bindings(2) [of "{}" "out_frames st"] by simp
    then have "sort (map frame_binding ?kept) = sorted_list_of_set (set (map frame_binding ?kept))"
      by (simp only: sorted_list_of_set_sort_remdups distinct_remdups_id)
    ultimately show ?thesis using True by (simp only: expected_bindings_def if_True)
  next
    case False
    then show ?thesis
      using m by (simp add: expected_bindings_def) (metis sorted_list_of_multiset_mset mset_map)
  qed
  then show ?thesis
    by (simp add: run_query_def q Let_def row_of_frame_def comp_def sort_frames_bindings)
qed

lemma run_query_limited:
  assumes inv: "invar db" and "limit opts = Some l"
  shows "\<exists>res. run_query (candidates db) (fetch db) ps opts = Some res \<and>
    length (rows res) \<le> max 1 l \<and>
    set (map row_binding (rows res)) \<subseteq> set (nested_loop (facts db) ps []) \<and>
    (\<not> distinct_rows opts \<longrightarrow> length (rows res) = min (max 1 l) (length (nested_loop (facts db) ps [])))"
proof -
  from walk_correct [OF inv, of opts ps] obtain stop st where
    q: "walk_query (candidates db) (fetch db) opts \<lparr>frame_binding = [], frame_provenance = []\<rparr> ps 0 initial_state =
        Some (stop, st)" and
    m: "mset (map frame_binding (out_frames st)) \<subseteq># mset (nested_loop (facts db) ps [])"
       "\<not> stop \<longrightarrow> mset (map frame_binding (out_frames st)) = mset (nested_loop (facts db) ps []) \<and> below_limit opts st"
       "stop \<longrightarrow> (\<exists>l. limit opts = Some l \<and> length (out_frames st) = max 1 l)"
    unfolding walk_result_def by (auto simp: initial_state_def)
  let ?sols = "nested_loop (facts db) ps []"
  let ?kept = "if distinct_rows opts then retain_distinct {} (out_frames st) else out_frames st"
  have sub: "set (map frame_binding (out_frames st)) \<subseteq> set ?sols"
    using m(1) by (metis set_mset_mono set_mset_mset)
  have le: "length (out_frames st) \<le> length ?sols"
    using size_mset_mono [OF m(1)] by simp
  have len: "length (out_frames st) = min (max 1 l) (length ?sols)"
  proof (cases stop)
    case True
    with m(3) assms le show ?thesis by auto
  next
    case False
    with m(2) have "length (out_frames st) = length ?sols" by (metis length_map size_mset)
    moreover have "length (out_frames st) \<le> max 1 l"
      using m(2) False assms by (auto simp: below_limit_def)
    ultimately show ?thesis by simp
  qed
  have kept: "set (map frame_binding ?kept) \<subseteq> set (map frame_binding (out_frames st))"
    using retain_distinct_bindings(1) [of "{}" "out_frames st"] by auto
  have "length (retain_distinct {} (out_frames st)) \<le> length (out_frames st)"
    using retain_distinct_bindings [of "{}" "out_frames st"]
    by (metis Diff_empty card_length distinct_card length_map)
  then have "length ?kept \<le> length (out_frames st)" by simp
  with len kept sub show ?thesis
    by (auto simp: run_query_def q Let_def row_of_frame_def image_image)
qed

end

end
