(* ===== verification/Store.thy ===== *)
theory Store
  imports Terms
begin

text \<open>
  The append-only definition store of the reference kernel (\<open>DefinitionStore\<close> in
  \<open>forthdb-core/src/lib.rs\<close>): a log of records, the head of every active slot and the history of
  every slot.  The abstraction is \<open>live log slot\<close>, the stack of definitions that the log leaves
  for a slot when \<open>Define\<close> pushes and \<open>Forget\<close> pops.  The invariant \<open>wf_store\<close> ties the links
  of the records, the head map and the histories to it; the lemmas show that appending keeps
  the invariant, that following the links never leaves the log and ends, and that it lists
  exactly the stack.
\<close>

section \<open>Records and the store\<close>

datatype record_kind = KDefine | KForget

fun record_kind_as_str :: "record_kind \<Rightarrow> string" where
  "record_kind_as_str KDefine = ''define''"
| "record_kind_as_str KForget = ''forget''"

record log_record =
  rec_id :: record_id
  rec_kind :: record_kind
  rec_slot :: slot_id
  rec_fact :: "fact option"
  previous_head :: "record_id option"
  resulting_head :: "record_id option"

record definition_store =
  log :: "log_record list"
  head :: "(slot_id, record_id) hash_map"
  slot_history :: "(slot_id, record_id list) hash_map"

definition empty_store :: definition_store where
  "empty_store = \<lparr>log = [], head = [], slot_history = []\<rparr>"

text \<open>\<open>record\<close> indexes the log and panics out of range.\<close>

definition record_at :: "definition_store \<Rightarrow> record_id \<Rightarrow> log_record option" where
  "record_at st i = (if i < length (log st) then Some (log st ! i) else None)"

text \<open>\<open>slot_history.entry(slot).or_default().push(record_id)\<close>\<close>

definition push_history ::
  "slot_id \<Rightarrow> record_id \<Rightarrow> (slot_id, record_id list) hash_map \<Rightarrow> (slot_id, record_id list) hash_map" where
  "push_history slot i h =
     hm_insert slot ((case hm_get h slot of None \<Rightarrow> [] | Some ids \<Rightarrow> ids) @ [i]) h"

definition append_define ::
  "slot_id \<Rightarrow> fact \<Rightarrow> definition_store \<Rightarrow> (record_id \<times> record_id option) \<times> definition_store" where
  "append_define slot f st =
     (let prev = hm_get (head st) slot;
          i = length (log st);
          r = \<lparr>rec_id = i, rec_kind = KDefine, rec_slot = slot, rec_fact = Some f,
               previous_head = prev, resulting_head = Some i\<rparr>
      in ((i, prev),
          \<lparr>log = log st @ [r],
           head = hm_insert slot i (head st),
           slot_history = push_history slot i (slot_history st)\<rparr>))"

definition append_forget ::
  "slot_id \<Rightarrow> definition_store \<Rightarrow>
   ((record_id \<times> record_id option \<times> record_id option) \<times> definition_store) option" where
  "append_forget slot st =
     (let current = hm_get (head st) slot;
          i = length (log st)
      in case (case current of
                 None \<Rightarrow> Some None
               | Some c \<Rightarrow> map_option previous_head (record_at st c)) of
           None \<Rightarrow> None
         | Some revealed \<Rightarrow>
             let r = \<lparr>rec_id = i, rec_kind = KForget, rec_slot = slot, rec_fact = None,
                      previous_head = current, resulting_head = revealed\<rparr>
             in Some ((i, current, revealed),
                  \<lparr>log = log st @ [r],
                   head = (case revealed of
                             Some h \<Rightarrow> hm_insert slot h (head st)
                           | None \<Rightarrow> hm_remove slot (head st)),
                   slot_history = push_history slot i (slot_history st)\<rparr>))"

text \<open>The outer option of \<open>resolve_record\<close> is the panic, the inner one the result.\<close>

definition resolve_record :: "slot_id \<Rightarrow> definition_store \<Rightarrow> log_record option option" where
  "resolve_record slot st =
     (case hm_get (head st) slot of
        None \<Rightarrow> Some None
      | Some i \<Rightarrow> map_option Some (record_at st i))"

text \<open>
  The \<open>while let\<close> loop of \<open>definitions\<close>.  Not returning is \<open>None\<close>, and so is a panic, of which the
  debug assertion on the kind of the record is one.
\<close>

partial_function (option) chain ::
  "definition_store \<Rightarrow> record_id option \<Rightarrow> log_record list option" where
  "chain st next_id =
     (case next_id of
        None \<Rightarrow> Some []
      | Some i \<Rightarrow>
          Option.bind (record_at st i) (\<lambda>r.
            if rec_kind r = KDefine
            then Option.bind (chain st (previous_head r)) (\<lambda>rs. Some (r # rs))
            else None))"

declare chain.simps [code]

definition store_definitions :: "slot_id \<Rightarrow> definition_store \<Rightarrow> log_record list option" where
  "store_definitions slot st = chain st (hm_get (head st) slot)"

definition store_history :: "slot_id \<Rightarrow> definition_store \<Rightarrow> log_record list option" where
  "store_history slot st =
     those (map (record_at st) (case hm_get (slot_history st) slot of None \<Rightarrow> [] | Some ids \<Rightarrow> ids))"

definition store_active_slot_count :: "definition_store \<Rightarrow> nat" where
  "store_active_slot_count st = length (head st)"

definition store_record_count :: "definition_store \<Rightarrow> nat" where
  "store_record_count st = length (log st)"

text \<open>A \<open>BTreeSet\<close> of record ids is the sorted list of its elements.\<close>

definition active_record_ids :: "definition_store \<Rightarrow> record_id list" where
  "active_record_ids st = sorted_list_of_set (set (hm_values (head st)))"

section \<open>The abstraction: stacks of live definitions\<close>

definition stack_step :: "slot_id \<Rightarrow> log_record list \<Rightarrow> log_record \<Rightarrow> log_record list" where
  "stack_step slot s r =
     (if rec_slot r = slot then (case rec_kind r of KDefine \<Rightarrow> r # s | KForget \<Rightarrow> tl s) else s)"

definition live :: "log_record list \<Rightarrow> slot_id \<Rightarrow> log_record list" where
  "live rs slot = foldl (stack_step slot) [] rs"

fun first_id :: "log_record list \<Rightarrow> record_id option" where
  "first_id [] = None"
| "first_id (r # rs) = Some (rec_id r)"

definition entry_ok :: "log_record list \<Rightarrow> log_record \<Rightarrow> bool" where
  "entry_ok rs r \<longleftrightarrow>
     rec_id r = length rs \<and>
     previous_head r = first_id (live rs (rec_slot r)) \<and>
     resulting_head r = first_id (live (rs @ [r]) (rec_slot r)) \<and>
     (rec_kind r = KDefine \<longleftrightarrow> rec_fact r \<noteq> None)"

definition wf_log :: "log_record list \<Rightarrow> bool" where
  "wf_log rs \<longleftrightarrow> (\<forall>i < length rs. entry_ok (take i rs) (rs ! i))"

definition slot_ids :: "log_record list \<Rightarrow> slot_id \<Rightarrow> record_id list" where
  "slot_ids rs slot = filter (\<lambda>i. rec_slot (rs ! i) = slot) [0..<length rs]"

definition wf_store :: "definition_store \<Rightarrow> bool" where
  "wf_store st \<longleftrightarrow>
     wf_log (log st) \<and> hm_wf (head st) \<and> hm_wf (slot_history st) \<and>
     (\<forall>slot. hm_get (head st) slot = first_id (live (log st) slot)) \<and>
     (\<forall>slot. hm_get (slot_history st) slot =
        (if slot_ids (log st) slot = [] then None else Some (slot_ids (log st) slot)))"

lemma live_Nil [simp]: "live [] slot = []"
  by (simp add: live_def)

lemma live_snoc [simp]: "live (rs @ [r]) slot = stack_step slot (live rs slot) r"
  by (simp add: live_def)

lemma wf_log_Nil [simp]: "wf_log []"
  by (simp add: wf_log_def)

lemma wf_log_snoc: "wf_log (rs @ [r]) \<longleftrightarrow> wf_log rs \<and> entry_ok rs r"
  by (auto simp: wf_log_def nth_append less_Suc_eq)

lemma slot_ids_Nil [simp]: "slot_ids [] slot = []"
  by (simp add: slot_ids_def)

lemma slot_ids_snoc:
  "slot_ids (rs @ [r]) slot = slot_ids rs slot @ (if rec_slot r = slot then [length rs] else [])"
proof -
  have "filter (\<lambda>i. rec_slot ((rs @ [r]) ! i) = slot) [0..<length rs] = slot_ids rs slot"
    unfolding slot_ids_def by (rule filter_cong) (auto simp: nth_append)
  then show ?thesis by (simp add: slot_ids_def [of "rs @ [r]"])
qed

lemma wf_log_mem:
  assumes "wf_log rs" and "r \<in> set rs"
  shows "rec_id r < length rs \<and> rs ! rec_id r = r \<and> (rec_kind r = KDefine \<longleftrightarrow> rec_fact r \<noteq> None)"
proof -
  from assms(2) obtain i where "i < length rs" "rs ! i = r" by (auto simp: in_set_conv_nth)
  with assms(1) show ?thesis by (auto simp: wf_log_def entry_ok_def)
qed

lemma live_mem: "r \<in> set (live rs slot) \<Longrightarrow> r \<in> set rs \<and> rec_slot r = slot \<and> rec_kind r = KDefine"
proof (induction rs rule: rev_induct)
  case (snoc x xs)
  then show ?case
    by (cases "rec_kind x") (auto simp: stack_step_def dest: in_set_tlD split: if_splits)
qed simp

lemma live_fact:
  "wf_log rs \<Longrightarrow> r \<in> set (live rs slot) \<Longrightarrow> \<exists>f. rec_fact r = Some f"
  using wf_log_mem live_mem by blast

lemma live_record_at:
  "wf_log (log st) \<Longrightarrow> r \<in> set (live (log st) slot) \<Longrightarrow> record_at st (rec_id r) = Some r"
  using wf_log_mem [of "log st" r] live_mem [of r "log st" slot] by (auto simp: record_at_def)

lemma first_id_live:
  "wf_log (log st) \<Longrightarrow> first_id (live (log st) slot) = Some i \<Longrightarrow>
   \<exists>r rs. live (log st) slot = r # rs \<and> rec_id r = i \<and> record_at st i = Some r"
  using live_record_at [of st _ slot] by (cases "live (log st) slot") auto

section \<open>Following the links lists the stack\<close>

lemma chain_first:
  fixes st :: definition_store
  assumes "wf_log (log st)" and "chain st h = Some rs"
  shows "h = first_id rs"
proof (cases h)
  case None
  with assms show ?thesis by (simp add: chain.simps)
next
  case (Some i)
  with assms(2) obtain rs' where "i < length (log st)" "rs = log st ! i # rs'"
    by (subst (asm) chain.simps) (auto simp: record_at_def bind_eq_Some_conv split: if_splits)
  with Some assms(1) show ?thesis by (auto simp: wf_log_def entry_ok_def)
qed

lemma chain_prefix:
  fixes st :: definition_store
  assumes wf: "wf_log (log st)"
  shows "n \<le> length (log st) \<Longrightarrow>
    chain st (first_id (live (take n (log st)) slot)) = Some (live (take n (log st)) slot)"
proof (induction n)
  case 0
  then show ?case by (simp add: chain.simps)
next
  case (Suc n)
  let ?r = "log st ! n" and ?s = "live (take n (log st)) slot"
  from Suc have IH: "chain st (first_id ?s) = Some ?s" and n: "n < length (log st)" by auto
  from wf n have ok: "entry_ok (take n (log st)) ?r" by (simp add: wf_log_def)
  have live_Suc: "live (take (Suc n) (log st)) slot = stack_step slot ?s ?r"
    using n by (simp add: take_Suc_conv_app_nth)
  show ?case
  proof (cases "rec_slot ?r = slot")
    case False
    with IH live_Suc show ?thesis by (simp add: stack_step_def)
  next
    case slot: True
    show ?thesis
    proof (cases "rec_kind ?r")
      case KDefine
      with slot live_Suc have eq: "live (take (Suc n) (log st)) slot = ?r # ?s"
        by (simp add: stack_step_def)
      from ok slot n have "rec_id ?r = n" "previous_head ?r = first_id ?s"
        by (simp_all add: entry_ok_def)
      with eq KDefine n IH show ?thesis
        by (subst chain.simps) (simp add: record_at_def)
    next
      case KForget
      with slot live_Suc have eq: "live (take (Suc n) (log st)) slot = tl ?s"
        by (simp add: stack_step_def)
      show ?thesis
      proof (cases ?s)
        case Nil
        with eq show ?thesis by (simp add: chain.simps)
      next
        case (Cons x xs)
        with IH have "chain st (Some (rec_id x)) = Some (x # xs)" by simp
        then have "chain st (previous_head x) = Some xs"
          by (subst (asm) chain.simps) (auto simp: bind_eq_Some_conv split: if_splits)
        with chain_first [OF wf this] eq Cons show ?thesis by simp
      qed
    qed
  qed
qed

lemma chain_live:
  "wf_log (log st) \<Longrightarrow> chain st (first_id (live (log st) slot)) = Some (live (log st) slot)"
  using chain_prefix [of st "length (log st)" slot] by simp

lemma previous_head_live:
  fixes st :: definition_store
  assumes "wf_log (log st)" and "live (log st) slot = r # rs"
  shows "previous_head r = first_id rs"
proof -
  have "chain st (Some (rec_id r)) = Some (r # rs)"
    using chain_live [OF assms(1), of slot] assms(2) by simp
  then have "chain st (previous_head r) = Some rs"
    by (subst (asm) chain.simps) (auto simp: bind_eq_Some_conv split: if_splits)
  then show ?thesis by (rule chain_first [OF assms(1)])
qed

section \<open>Appending keeps the invariant\<close>

lemma wf_empty_store [simp]: "wf_store empty_store"
  by (simp add: wf_store_def empty_store_def)

lemma wf_storeD:
  assumes "wf_store st"
  shows "wf_log (log st)" and "hm_wf (head st)"
    and "hm_get (head st) slot = first_id (live (log st) slot)"
  using assms by (simp_all add: wf_store_def)

lemma wf_store_history:
  assumes "wf_store st"
  shows "(case hm_get (slot_history st) slot of None \<Rightarrow> [] | Some ids \<Rightarrow> ids) = slot_ids (log st) slot"
  using assms by (simp add: wf_store_def)

lemma hm_wf_push_history: "hm_wf h \<Longrightarrow> hm_wf (push_history slot i h)"
  by (simp add: push_history_def)

lemma hm_get_push_history:
  assumes "wf_store st"
  shows "hm_get (push_history slot (length (log st)) (slot_history st)) s =
    (if s = slot then Some (slot_ids (log st) slot @ [length (log st)])
     else if slot_ids (log st) s = [] then None else Some (slot_ids (log st) s))"
  unfolding push_history_def wf_store_history [OF assms] using assms by (simp add: wf_store_def)

text \<open>What is left of the invariant once the new record is well formed and the heads are right.\<close>

lemma wf_store_snoc:
  assumes "wf_store st" and "entry_ok (log st) r" and "rec_slot r = slot" and "hm_wf hds"
    and "\<And>s. hm_get hds s = first_id (stack_step s (live (log st) s) r)"
  shows "wf_store \<lparr>log = log st @ [r], head = hds,
    slot_history = push_history slot (length (log st)) (slot_history st)\<rparr>"
  using assms hm_get_push_history [OF assms(1), of slot]
  by (simp add: wf_store_def wf_log_snoc hm_wf_push_history slot_ids_snoc)

lemma append_define_eq:
  "append_define slot f st =
     ((length (log st), hm_get (head st) slot),
      \<lparr>log = log st @ [\<lparr>rec_id = length (log st), rec_kind = KDefine, rec_slot = slot,
                rec_fact = Some f, previous_head = hm_get (head st) slot,
                resulting_head = Some (length (log st))\<rparr>],
       head = hm_insert slot (length (log st)) (head st),
       slot_history = push_history slot (length (log st)) (slot_history st)\<rparr>)"
  by (simp add: append_define_def Let_def)

lemma wf_append_define:
  assumes "wf_store st"
  shows "wf_store (snd (append_define slot f st))"
proof -
  note wf = wf_storeD [OF assms]
  show ?thesis
    unfolding append_define_eq snd_conv
    by (rule wf_store_snoc [OF assms]) (simp_all add: entry_ok_def stack_step_def wf)
qed

text \<open>\<open>append_forget\<close> reveals the second record of the stack and never panics.\<close>

lemma append_forget_eq:
  assumes "wf_store st"
  shows "append_forget slot st =
     Some ((length (log st), first_id (live (log st) slot), first_id (tl (live (log st) slot))),
      \<lparr>log = log st @ [\<lparr>rec_id = length (log st), rec_kind = KForget, rec_slot = slot,
                rec_fact = None, previous_head = first_id (live (log st) slot),
                resulting_head = first_id (tl (live (log st) slot))\<rparr>],
       head = (case first_id (tl (live (log st) slot)) of
                 Some h \<Rightarrow> hm_insert slot h (head st)
               | None \<Rightarrow> hm_remove slot (head st)),
       slot_history = push_history slot (length (log st)) (slot_history st)\<rparr>)"
proof (cases "live (log st) slot")
  case Nil
  then show ?thesis
    using wf_storeD(3) [OF assms, of slot] by (simp add: append_forget_def Let_def)
next
  case (Cons r rs)
  then have "record_at st (rec_id r) = Some r"
    using live_record_at [OF wf_storeD(1) [OF assms], of r slot] by simp
  moreover have "previous_head r = first_id rs"
    by (rule previous_head_live [OF wf_storeD(1) [OF assms] Cons])
  ultimately show ?thesis
    using wf_storeD(3) [OF assms, of slot] Cons by (simp add: append_forget_def Let_def)
qed

lemma wf_append_forget:
  assumes "wf_store st" and "append_forget slot st = Some (res, st')"
  shows "wf_store st'"
proof -
  note wf = wf_storeD [OF assms(1)]
  have "st' = snd (the (append_forget slot st))" using assms(2) by simp
  then show ?thesis
    unfolding append_forget_eq [OF assms(1)] option.sel snd_conv
    by (elim ssubst, intro wf_store_snoc [OF assms(1)])
      (auto simp: entry_ok_def stack_step_def wf split: option.split)
qed

lemma store_definitions_live:
  "wf_store st \<Longrightarrow> store_definitions slot st = Some (live (log st) slot)"
  by (simp add: store_definitions_def chain_live wf_storeD)

lemma resolve_record_live:
  assumes "wf_store st"
  shows "resolve_record slot st =
    Some (case live (log st) slot of [] \<Rightarrow> None | r # rs \<Rightarrow> Some r)"
  using wf_storeD(3) [OF assms, of slot] live_record_at [OF wf_storeD(1) [OF assms], of _ slot]
  by (auto simp: resolve_record_def split: list.splits)

lemma those_map_Some: "(\<forall>x \<in> set xs. f x = Some (g x)) \<Longrightarrow> those (map f xs) = Some (map g xs)"
  by (induction xs) auto

lemma nth_filter_upt: "map (nth rs) (filter (Q \<circ> nth rs) [0..<length rs]) = filter Q rs"
proof -
  have "map (nth rs) (filter (Q \<circ> nth rs) [0..<length rs]) = filter Q (map (nth rs) [0..<length rs])"
    by (simp only: filter_map comp_def)
  then show ?thesis by (simp only: map_nth)
qed

lemma store_history_filter:
  assumes "wf_store st"
  shows "store_history slot st = Some (filter (\<lambda>r. rec_slot r = slot) (log st))"
proof -
  have "those (map (record_at st) (slot_ids (log st) slot)) =
      Some (map ((!) (log st)) (slot_ids (log st) slot))"
    by (rule those_map_Some) (auto simp: record_at_def slot_ids_def)
  then show ?thesis
    unfolding store_history_def wf_store_history [OF assms]
    by (simp add: slot_ids_def nth_filter_upt [where Q = "\<lambda>r. rec_slot r = slot", unfolded comp_def])
qed

text \<open>The head map is the set of tops of the stacks.\<close>

lemma set_head_values:
  assumes "wf_store st"
  shows "set (hm_values (head st)) = {i. \<exists>slot. first_id (live (log st) slot) = Some i}"
  unfolding set_hm_values [OF wf_storeD(2) [OF assms]] wf_storeD(3) [OF assms] by simp

lemma set_active_record_ids [simp]:
  "set (active_record_ids st) = set (hm_values (head st))"
  by (simp add: active_record_ids_def)

lemma active_record:
  assumes "wf_store st" and "i \<in> set (active_record_ids st)"
  shows "\<exists>r f. record_at st i = Some r \<and> rec_kind r = KDefine \<and> rec_fact r = Some f \<and>
    rec_id r = i \<and> hm_get (head st) (rec_slot r) = Some i"
proof -
  from assms(2) obtain slot where "first_id (live (log st) slot) = Some i"
    unfolding set_active_record_ids set_head_values [OF assms(1)] by blast
  then obtain r rs where r: "live (log st) slot = r # rs" "rec_id r = i" "record_at st i = Some r"
    using first_id_live [OF wf_storeD(1) [OF assms(1)]] by blast
  then have "r \<in> set (live (log st) slot)" by simp
  with r show ?thesis
    using live_mem [of r "log st" slot] live_fact [OF wf_storeD(1) [OF assms(1)], of r slot]
      wf_storeD(3) [OF assms(1), of slot] by auto
qed

lemma store_active_slot_count_live:
  assumes "wf_store st"
  shows "store_active_slot_count st = card {slot. live (log st) slot \<noteq> []}"
proof -
  have "fst ` set (head st) = dom (hm_get (head st))" by (simp add: dom_map_of_conv_image_fst)
  also have "\<dots> = {slot. live (log st) slot \<noteq> []}"
  proof -
    have "hm_get (head st) slot \<noteq> None \<longleftrightarrow> live (log st) slot \<noteq> []" for slot
      using wf_storeD(3) [OF assms, of slot] by (cases "live (log st) slot") auto
    then show ?thesis by auto
  qed
  finally have "set (map fst (head st)) = {slot. live (log st) slot \<noteq> []}" by simp
  then show ?thesis
    using distinct_card [OF wf_storeD(2) [OF assms]] by (simp add: store_active_slot_count_def)
qed

end
