(* ===== verification/View.thy ===== *)
theory View
  imports Store
begin

text \<open>
  The current view of the reference kernel (\<open>CurrentView\<close> in \<open>forthdb-core/src/lib.rs\<close>): seven
  hash indexes from parts of a fact to the set of active records that carry them.  The locale
  \<open>record_index\<close> states what one index must do; its client lemmas say that an index stays the
  inverse image of its key function when a record enters or leaves.  It is interpreted on
  \<open>insert_index\<close> and \<open>remove_index\<close>, and the seven indexes of the view follow from it.
\<close>

section \<open>One index\<close>

type_synonym 'k index = "('k, record_id set) hash_map"

definition insert_index :: "'k \<Rightarrow> record_id \<Rightarrow> 'k index \<Rightarrow> 'k index" where
  "insert_index key i index =
     hm_insert key (insert i (case hm_get index key of None \<Rightarrow> {} | Some bucket \<Rightarrow> bucket)) index"

definition remove_index :: "'k \<Rightarrow> record_id \<Rightarrow> 'k index \<Rightarrow> 'k index" where
  "remove_index key i index =
     (case hm_get index key of
        None \<Rightarrow> index
      | Some bucket \<Rightarrow>
          if bucket - {i} = {} then hm_remove key index else hm_insert key (bucket - {i}) index)"

definition bucket :: "'k index \<Rightarrow> 'k \<Rightarrow> record_id set" where
  "bucket index key = (case hm_get index key of None \<Rightarrow> {} | Some b \<Rightarrow> b)"

definition index_wf :: "'k index \<Rightarrow> bool" where
  "index_wf index \<longleftrightarrow> hm_wf index \<and> (\<forall>b \<in> set (hm_values index). b \<noteq> {})"

locale record_index =
  fixes empty :: "'m"
    and ins :: "'k \<Rightarrow> record_id \<Rightarrow> 'm \<Rightarrow> 'm"
    and del :: "'k \<Rightarrow> record_id \<Rightarrow> 'm \<Rightarrow> 'm"
    and look :: "'m \<Rightarrow> 'k \<Rightarrow> record_id set"
    and inv :: "'m \<Rightarrow> bool"
  assumes look_empty: "look empty k = {}"
    and inv_empty: "inv empty"
    and look_ins: "inv m \<Longrightarrow> look (ins k i m) k' = (if k' = k then insert i (look m k) else look m k')"
    and inv_ins: "inv m \<Longrightarrow> inv (ins k i m)"
    and look_del: "inv m \<Longrightarrow> look (del k i m) k' = (if k' = k then look m k - {i} else look m k')"
    and inv_del: "inv m \<Longrightarrow> inv (del k i m)"
begin

definition covers :: "'m \<Rightarrow> (record_id \<Rightarrow> 'k) \<Rightarrow> record_id set \<Rightarrow> bool" where
  "covers m key A \<longleftrightarrow> inv m \<and> (\<forall>k. look m k = {i \<in> A. key i = k})"

lemma covers_empty: "covers empty key {}"
  by (simp add: covers_def look_empty inv_empty)

lemma covers_ins: "covers m key A \<Longrightarrow> key i = k \<Longrightarrow> covers (ins k i m) key (insert i A)"
  by (auto simp: covers_def look_ins inv_ins)

lemma covers_del: "covers m key A \<Longrightarrow> key i = k \<Longrightarrow> covers (del k i m) key (A - {i})"
  by (auto simp: covers_def look_del inv_del)

lemma covers_cong: "(\<And>i. i \<in> A \<Longrightarrow> key i = key' i) \<Longrightarrow> covers m key A \<longleftrightarrow> covers m key' A"
  by (auto simp: covers_def cong: conj_cong)

lemma covers_look: "covers m key A \<Longrightarrow> look m k = {i \<in> A. key i = k}"
  by (simp add: covers_def)

end

lemma bucket_insert: "bucket (insert_index k i m) k' = (if k' = k then insert i (bucket m k) else bucket m k')"
  by (simp add: bucket_def insert_index_def)

lemma bucket_remove:
  "bucket (remove_index k i m) k' = (if k' = k then bucket m k - {i} else bucket m k')"
  by (auto simp: bucket_def remove_index_def split: option.splits)

lemma index_wf_iff: "index_wf m \<longleftrightarrow> hm_wf m \<and> (\<forall>k b. hm_get m k = Some b \<longrightarrow> b \<noteq> {})"
  unfolding index_wf_def by (rule conj_cong [OF refl]) (simp only: set_hm_values mem_Collect_eq Ball_def, metis)

lemma index_wf_insert: "index_wf m \<Longrightarrow> index_wf (insert_index k i m)"
  by (simp add: index_wf_iff insert_index_def)

lemma index_wf_remove: "index_wf m \<Longrightarrow> index_wf (remove_index k i m)"
  by (auto simp: index_wf_iff remove_index_def split: option.splits)

interpretation hash_index: record_index "[]" insert_index remove_index bucket index_wf
proof
qed (simp_all add: bucket_insert bucket_remove index_wf_insert index_wf_remove bucket_def [of "[]"]
    index_wf_def [of "[]"])

abbreviation indexes :: "'k index \<Rightarrow> (record_id \<Rightarrow> 'k) \<Rightarrow> record_id set \<Rightarrow> bool" where
  "indexes \<equiv> hash_index.covers"

section \<open>The seven indexes\<close>

record current_view =
  by_subject :: "atom index"
  by_predicate :: "predicate index"
  by_object :: "atom index"
  by_subject_predicate :: "(atom \<times> predicate) index"
  by_subject_object :: "(atom \<times> atom) index"
  by_predicate_object :: "(predicate \<times> atom) index"
  by_exact :: "fact index"

definition empty_view :: current_view where
  "empty_view = \<lparr>by_subject = [], by_predicate = [], by_object = [], by_subject_predicate = [],
     by_subject_object = [], by_predicate_object = [], by_exact = []\<rparr>"

definition record_fact :: "definition_store \<Rightarrow> record_id \<Rightarrow> fact option" where
  "record_fact st i = Option.bind (record_at st i) rec_fact"

definition view_add :: "record_id \<Rightarrow> definition_store \<Rightarrow> current_view \<Rightarrow> current_view option" where
  "view_add i st v =
     map_option (\<lambda>f.
       \<lparr>by_subject = insert_index (subject f) i (by_subject v),
        by_predicate = insert_index (predicate f) i (by_predicate v),
        by_object = insert_index (object f) i (by_object v),
        by_subject_predicate = insert_index (subject f, predicate f) i (by_subject_predicate v),
        by_subject_object = insert_index (subject f, object f) i (by_subject_object v),
        by_predicate_object = insert_index (predicate f, object f) i (by_predicate_object v),
        by_exact = insert_index f i (by_exact v)\<rparr>) (record_fact st i)"

definition view_remove :: "record_id \<Rightarrow> definition_store \<Rightarrow> current_view \<Rightarrow> current_view option" where
  "view_remove i st v =
     map_option (\<lambda>f.
       \<lparr>by_subject = remove_index (subject f) i (by_subject v),
        by_predicate = remove_index (predicate f) i (by_predicate v),
        by_object = remove_index (object f) i (by_object v),
        by_subject_predicate = remove_index (subject f, predicate f) i (by_subject_predicate v),
        by_subject_object = remove_index (subject f, object f) i (by_subject_object v),
        by_predicate_object = remove_index (predicate f, object f) i (by_predicate_object v),
        by_exact = remove_index f i (by_exact v)\<rparr>) (record_fact st i)"

text \<open>Collecting an optional bucket and sorting it.\<close>

definition sorted_bucket :: "record_id set option \<Rightarrow> record_id list" where
  "sorted_bucket values = sorted_list_of_set (case values of None \<Rightarrow> {} | Some b \<Rightarrow> b)"

definition view_candidates ::
  "pattern \<Rightarrow> binding \<Rightarrow> definition_store \<Rightarrow> current_view \<Rightarrow> record_id list" where
  "view_candidates pat b st v =
     (case (resolved_atom (p_subject pat) b, resolved_predicate (p_predicate pat) b,
            resolved_atom (p_object pat) b) of
        (Some s, Some p, Some ob) \<Rightarrow> sorted_bucket (hm_get (by_exact v) (fact_new s p ob))
      | (Some s, Some p, None) \<Rightarrow> sorted_bucket (hm_get (by_subject_predicate v) (s, p))
      | (Some s, None, Some ob) \<Rightarrow> sorted_bucket (hm_get (by_subject_object v) (s, ob))
      | (None, Some p, Some ob) \<Rightarrow> sorted_bucket (hm_get (by_predicate_object v) (p, ob))
      | (Some s, None, None) \<Rightarrow> sorted_bucket (hm_get (by_subject v) s)
      | (None, Some p, None) \<Rightarrow> sorted_bucket (hm_get (by_predicate v) p)
      | (None, None, Some ob) \<Rightarrow> sorted_bucket (hm_get (by_object v) ob)
      | (None, None, None) \<Rightarrow> active_record_ids st)"

definition view_mismatch :: string where
  "view_mismatch = ''current indexes do not match active slot heads''"

definition view_validate :: "definition_store \<Rightarrow> current_view \<Rightarrow> string + unit" where
  "view_validate st v =
     (let indexed = sorted_list_of_set (\<Union> (set (hm_values (by_subject_predicate v))))
      in if active_record_ids st \<noteq> indexed then Inl view_mismatch else Inr ())"

section \<open>The view holds exactly the active records\<close>

definition the_fact :: "definition_store \<Rightarrow> record_id \<Rightarrow> fact" where
  "the_fact st i = the (record_fact st i)"

definition view_ok :: "(record_id \<Rightarrow> fact) \<Rightarrow> record_id set \<Rightarrow> current_view \<Rightarrow> bool" where
  "view_ok F A v \<longleftrightarrow>
     indexes (by_subject v) (\<lambda>i. subject (F i)) A \<and>
     indexes (by_predicate v) (\<lambda>i. predicate (F i)) A \<and>
     indexes (by_object v) (\<lambda>i. object (F i)) A \<and>
     indexes (by_subject_predicate v) (\<lambda>i. (subject (F i), predicate (F i))) A \<and>
     indexes (by_subject_object v) (\<lambda>i. (subject (F i), object (F i))) A \<and>
     indexes (by_predicate_object v) (\<lambda>i. (predicate (F i), object (F i))) A \<and>
     indexes (by_exact v) F A"

lemma view_ok_empty: "view_ok F {} empty_view"
  by (simp add: view_ok_def empty_view_def hash_index.covers_empty)

lemma view_add_ok:
  assumes "view_ok F A v" and "record_fact st i = Some f" and "F i = f"
  shows "\<exists>v'. view_add i st v = Some v' \<and> view_ok F (insert i A) v'"
  using assms by (auto simp: view_add_def view_ok_def intro!: hash_index.covers_ins)

lemma view_remove_ok:
  assumes "view_ok F A v" and "record_fact st i = Some f" and "F i = f"
  shows "\<exists>v'. view_remove i st v = Some v' \<and> view_ok F (A - {i}) v'"
  using assms by (auto simp: view_remove_def view_ok_def intro!: hash_index.covers_del)

lemma view_ok_cong:
  assumes "\<And>i. i \<in> A \<Longrightarrow> F i = G i"
  shows "view_ok F A v \<longleftrightarrow> view_ok G A v"
  unfolding view_ok_def
  using assms hash_index.covers_cong [of A "\<lambda>i. subject (F i)" "\<lambda>i. subject (G i)"]
    hash_index.covers_cong [of A "\<lambda>i. predicate (F i)" "\<lambda>i. predicate (G i)"]
    hash_index.covers_cong [of A "\<lambda>i. object (F i)" "\<lambda>i. object (G i)"]
    hash_index.covers_cong [of A "\<lambda>i. (subject (F i), predicate (F i))" "\<lambda>i. (subject (G i), predicate (G i))"]
    hash_index.covers_cong [of A "\<lambda>i. (subject (F i), object (F i))" "\<lambda>i. (subject (G i), object (G i))"]
    hash_index.covers_cong [of A "\<lambda>i. (predicate (F i), object (F i))" "\<lambda>i. (predicate (G i), object (G i))"]
    hash_index.covers_cong [of A F G]
  by simp

text \<open>Whichever index is used, the candidates are the active records that match what is known.\<close>

lemma sorted_bucket_look: "sorted_bucket (hm_get m k) = sorted_list_of_set (bucket m k)"
  by (simp add: sorted_bucket_def bucket_def)

lemma view_candidates_filter:
  assumes "view_ok (the_fact st) (set (active_record_ids st)) v"
  shows "view_candidates pat b st v =
    filter (\<lambda>i. fact_matches pat b (the_fact st i)) (active_record_ids st)"
proof -
  let ?A = "set (active_record_ids st)"
  have sorted_active: "sorted (filter P (active_record_ids st))" "distinct (filter P (active_record_ids st))"
    for P by (simp_all add: active_record_ids_def sorted_wrt_filter)
  have look: "sorted_bucket (hm_get m k) = filter (\<lambda>i. key i = k) (active_record_ids st)"
    if "indexes m key ?A" for m :: "'k index" and k key
  proof -
    have "{i \<in> ?A. key i = k} = set (filter (\<lambda>i. key i = k) (active_record_ids st))" by auto
    then have "sorted_list_of_set {i \<in> ?A. key i = k} = filter (\<lambda>i. key i = k) (active_record_ids st)"
      by (simp only: sorted_list_of_set.idem_if_sorted_distinct sorted_active)
    then show ?thesis by (simp add: sorted_bucket_look hash_index.covers_look [OF that])
  qed
  note ok = assms [unfolded view_ok_def]
  show ?thesis
    using ok
    by (cases "resolved_atom (p_subject pat) b"; cases "resolved_predicate (p_predicate pat) b";
        cases "resolved_atom (p_object pat) b")
      (auto simp: view_candidates_def look fact_matches_def fact_new_def intro!: filter_cong)
qed

lemma view_validate_ok:
  assumes "view_ok (the_fact st) (set (active_record_ids st)) v"
  shows "view_validate st v = Inr ()"
proof -
  let ?m = "by_subject_predicate v"
  have ok: "indexes ?m (\<lambda>i. (subject (the_fact st i), predicate (the_fact st i))) (set (active_record_ids st))"
    using assms by (simp add: view_ok_def)
  then have wf: "hm_wf ?m" by (simp add: hash_index.covers_def index_wf_iff)
  have "\<Union> (set (hm_values ?m)) = (\<Union>k. bucket ?m k)"
    unfolding set_hm_values [OF wf] bucket_def by (auto split: option.splits) force+
  also have "\<dots> = set (active_record_ids st)"
    by (auto simp: hash_index.covers_look [OF ok])
  finally show ?thesis by (simp add: view_validate_def active_record_ids_def)
qed

end
