(* ===== verification/Kernel.thy ===== *)
theory Kernel
  imports View Query "HOL-Library.Sublist"
begin

text \<open>
  The reference kernel \<open>ForthDb\<close> (\<open>forthdb-core/src/lib.rs\<close>): the definition store, the current
  view over it and the entity allocator.  The invariant \<open>wf_db\<close> says that the store is well
  formed and that every index holds exactly the active records; the abstraction \<open>stack db slot\<close>
  is the list of facts defined for a slot, newest first.  \<open>define\<close> pushes, \<open>forget\<close> pops, and
  every observation is a function of the stacks.  None of the indexing operations and
  \<open>expect\<close> calls can panic.  The query engine is instantiated here.
\<close>

section \<open>The kernel\<close>

record forth_db =
  store :: definition_store
  view :: current_view
  next_entity :: u64

definition db_new :: forth_db where
  "db_new = \<lparr>store = empty_store, view = empty_view, next_entity = 1\<rparr>"

definition db_entity :: "forth_db \<Rightarrow> entity_id \<times> forth_db" where
  "db_entity db = (next_entity db, db\<lparr>next_entity := next_entity db + 1\<rparr>)"

definition db_define :: "slot_id \<Rightarrow> fact \<Rightarrow> forth_db \<Rightarrow> (record_id \<times> forth_db) option" where
  "db_define slot f db =
     (case (case hm_get (head (store db)) slot of
              Some old_head \<Rightarrow> view_remove old_head (store db) (view db)
            | None \<Rightarrow> Some (view db)) of
        None \<Rightarrow> None
      | Some v \<Rightarrow>
          let ((i, _), st) = append_define slot f (store db)
          in map_option (\<lambda>v'. (i, db\<lparr>store := st, view := v'\<rparr>)) (view_add i st v))"

definition db_forget :: "slot_id \<Rightarrow> forth_db \<Rightarrow> (record_id \<times> forth_db) option" where
  "db_forget slot db =
     (case (case hm_get (head (store db)) slot of
              Some current \<Rightarrow> view_remove current (store db) (view db)
            | None \<Rightarrow> Some (view db)) of
        None \<Rightarrow> None
      | Some v \<Rightarrow>
          (case append_forget slot (store db) of
             None \<Rightarrow> None
           | Some ((i, _, revealed), st) \<Rightarrow>
               (case revealed of
                  None \<Rightarrow> Some (i, db\<lparr>store := st, view := v\<rparr>)
                | Some h \<Rightarrow> map_option (\<lambda>v'. (i, db\<lparr>store := st, view := v'\<rparr>)) (view_add h st v))))"

definition db_resolve :: "slot_id \<Rightarrow> forth_db \<Rightarrow> fact option option" where
  "db_resolve slot db =
     map_option (\<lambda>r. Option.bind r rec_fact) (resolve_record slot (store db))"

definition db_definitions :: "slot_id \<Rightarrow> forth_db \<Rightarrow> fact list option" where
  "db_definitions slot db = map_option (List.map_filter rec_fact) (store_definitions slot (store db))"

definition db_history :: "slot_id \<Rightarrow> forth_db \<Rightarrow> log_record list option" where
  "db_history slot db = store_history slot (store db)"

definition db_active_slot_count :: "forth_db \<Rightarrow> nat" where
  "db_active_slot_count db = store_active_slot_count (store db)"

definition db_record_count :: "forth_db \<Rightarrow> nat" where
  "db_record_count db = store_record_count (store db)"

section \<open>Display names and symbols\<close>

text \<open>\<open>format!\<close> of an unsigned integer.\<close>

fun decimal :: "nat \<Rightarrow> string" where
  "decimal n = (if n < 10 then [char_of (48 + n)] else decimal (n div 10) @ [char_of (48 + n mod 10)])"

declare decimal.simps [simp del]

definition display_slot :: "entity_id \<Rightarrow> slot_id" where
  "display_slot e = ''display/'' @ decimal (unat e)"

definition symbol_slot :: "string \<Rightarrow> symbol \<Rightarrow> slot_id" where
  "symbol_slot namespace symb = ''namespace/'' @ namespace @ ''/'' @ symb"

definition entity_to_string :: "entity_id \<Rightarrow> string" where
  "entity_to_string e = ''Entity_'' @ decimal (unat e)"

definition define_display_name ::
  "entity_id \<Rightarrow> string \<Rightarrow> forth_db \<Rightarrow> (record_id \<times> forth_db) option" where
  "define_display_name e name db =
     db_define (display_slot e) (fact_new (AEntity e) ''display_name'' (ALiteral name)) db"

definition display_name :: "entity_id \<Rightarrow> forth_db \<Rightarrow> string option" where
  "display_name e db =
     map_option (\<lambda>r. case r of
         Some f \<Rightarrow> (case object f of ALiteral s \<Rightarrow> s | AEntity _ \<Rightarrow> entity_to_string e)
       | None \<Rightarrow> entity_to_string e) (db_resolve (display_slot e) db)"

definition bind_symbol ::
  "string \<Rightarrow> symbol \<Rightarrow> entity_id \<Rightarrow> forth_db \<Rightarrow> (record_id \<times> forth_db) option" where
  "bind_symbol namespace symb e db =
     db_define (symbol_slot namespace symb)
       (fact_new (ALiteral (namespace @ '':'' @ symb)) ''resolves_to'' (AEntity e)) db"

definition resolve_symbol :: "string \<Rightarrow> symbol \<Rightarrow> forth_db \<Rightarrow> entity_id option option" where
  "resolve_symbol namespace symb db =
     map_option (\<lambda>r. case r of
         Some f \<Rightarrow> (case object f of AEntity e \<Rightarrow> Some e | ALiteral _ \<Rightarrow> None)
       | None \<Rightarrow> None) (db_resolve (symbol_slot namespace symb) db)"

definition compile_term :: "string \<Rightarrow> source_term \<Rightarrow> forth_db \<Rightarrow> (string + term_t) option" where
  "compile_term namespace t db =
     (case t of
        SAtom a \<Rightarrow> Some (Inr (TAtom a))
      | SVariable x \<Rightarrow> Some (Inr (TVariable x))
      | SSymbol symb \<Rightarrow>
          map_option (\<lambda>r. case r of
              Some e \<Rightarrow> Inr (TAtom (AEntity e))
            | None \<Rightarrow> Inl (''unbound symbol '' @ namespace @ '':'' @ symb))
            (resolve_symbol namespace symb db))"

definition compile_pattern ::
  "string \<Rightarrow> source_term \<Rightarrow> predicate \<Rightarrow> source_term \<Rightarrow> forth_db \<Rightarrow> (string + pattern) option" where
  "compile_pattern namespace s p ob db =
     (case compile_term namespace s db of
        None \<Rightarrow> None
      | Some (Inl e) \<Rightarrow> Some (Inl e)
      | Some (Inr s') \<Rightarrow>
          map_option (\<lambda>r. case r of Inl e \<Rightarrow> Inl e | Inr ob' \<Rightarrow> Inr (pattern_new s' (PPredicate p) ob'))
            (compile_term namespace ob db))"

definition render_value :: "bound_value \<Rightarrow> forth_db \<Rightarrow> string option" where
  "render_value v db =
     (case v of BEntity e \<Rightarrow> display_name e db | BLiteral l \<Rightarrow> Some l | BPredicate p \<Rightarrow> Some p)"

section \<open>Queries and validation\<close>

definition db_candidates :: "forth_db \<Rightarrow> pattern \<Rightarrow> binding \<Rightarrow> record_id list" where
  "db_candidates db pat b = view_candidates pat b (store db) (view db)"

definition db_fetch :: "forth_db \<Rightarrow> record_id \<Rightarrow> (slot_id \<times> fact) option" where
  "db_fetch db i =
     (case record_at (store db) i of
        None \<Rightarrow> None
      | Some r \<Rightarrow> map_option (Pair (rec_slot r)) (rec_fact r))"

definition db_query :: "pattern list \<Rightarrow> query_options \<Rightarrow> forth_db \<Rightarrow> query_result option" where
  "db_query patterns opts db = run_query (db_candidates db) (db_fetch db) patterns opts"

text \<open>The loop over the heads, each of which is looked up in the log.\<close>

fun validate_heads :: "definition_store \<Rightarrow> record_id list \<Rightarrow> (string + unit) option" where
  "validate_heads st [] = Some (Inr ())"
| "validate_heads st (i # is) =
     (case record_at st i of
        None \<Rightarrow> None
      | Some r \<Rightarrow>
          if rec_kind r \<noteq> KDefine \<or> rec_fact r = None
          then Some (Inl ''slot heads must be definition records'')
          else validate_heads st is)"

definition db_validate :: "forth_db \<Rightarrow> (string + unit) option" where
  "db_validate db =
     map_option (\<lambda>r. case r of Inl e \<Rightarrow> Inl e | Inr _ \<Rightarrow> view_validate (store db) (view db))
       (validate_heads (store db) (hm_values (head (store db))))"

section \<open>Invariant and abstraction\<close>

definition active_ids :: "forth_db \<Rightarrow> record_id list" where
  "active_ids db = active_record_ids (store db)"

definition wf_db :: "forth_db \<Rightarrow> bool" where
  "wf_db db \<longleftrightarrow> wf_store (store db) \<and> view_ok (the_fact (store db)) (set (active_ids db)) (view db)"

definition stack :: "forth_db \<Rightarrow> slot_id \<Rightarrow> fact list" where
  "stack db slot = map (the \<circ> rec_fact) (live (log (store db)) slot)"

lemma wf_db_new: "wf_db db_new"
  by (simp add: wf_db_def db_new_def active_ids_def active_record_ids_def empty_store_def [of]
      view_ok_empty wf_empty_store [unfolded empty_store_def])

lemma stack_new [simp]: "stack db_new slot = []"
  by (simp add: stack_def db_new_def empty_store_def)

lemma wf_dbD:
  assumes "wf_db db"
  shows "wf_store (store db)" and "wf_log (log (store db))" and "hm_wf (head (store db))"
    and "hm_get (head (store db)) slot = first_id (live (log (store db)) slot)"
    and "view_ok (the_fact (store db)) (set (hm_values (head (store db)))) (view db)"
  using assms wf_storeD [of "store db"] by (simp_all add: wf_db_def active_ids_def)

text \<open>The old head leaves the indexes; this is the first step of \<open>define\<close> and \<open>forget\<close>.\<close>

definition drop_head :: "slot_id \<Rightarrow> definition_store \<Rightarrow> record_id set \<Rightarrow> record_id set" where
  "drop_head slot st A = (case hm_get (head st) slot of None \<Rightarrow> A | Some h \<Rightarrow> A - {h})"

lemma head_active: "hm_get (head st) slot = Some h \<Longrightarrow> h \<in> set (hm_values (head st))"
  by (auto dest: map_of_SomeD intro: rev_image_eqI)

lemma active_fact:
  assumes "wf_store st" and "i \<in> set (hm_values (head st))"
  shows "record_fact st i = Some (the_fact st i)"
  using active_record [OF assms(1), of i] assms(2) by (auto simp: record_fact_def the_fact_def)

lemma remove_head_ok:
  assumes "wf_db db"
  shows "\<exists>v. (case hm_get (head (store db)) slot of
             Some h \<Rightarrow> view_remove h (store db) (view db) | None \<Rightarrow> Some (view db)) = Some v \<and>
    view_ok (the_fact (store db)) (drop_head slot (store db) (set (hm_values (head (store db))))) v"
  using wf_dbD(5) [OF assms] active_fact [OF wf_dbD(1) [OF assms]] head_active
    view_remove_ok [OF wf_dbD(5) [OF assms]]
  by (fastforce simp: drop_head_def split: option.splits)

text \<open>How the set of active records changes when the head of a slot does.\<close>

lemma active_update_head:
  assumes "hm_wf h" and "\<And>s s' i. hm_get h s = Some i \<Longrightarrow> hm_get h s' = Some i \<Longrightarrow> s = s'"
    and "hm_wf h'" and "\<And>s. s \<noteq> slot \<Longrightarrow> hm_get h' s = hm_get h s"
  shows "set (hm_values h') =
    (case hm_get h' slot of None \<Rightarrow> id | Some i \<Rightarrow> insert i)
      (case hm_get h slot of None \<Rightarrow> set (hm_values h) | Some i \<Rightarrow> set (hm_values h) - {i})"
proof -
  have "(\<exists>s. hm_get h' s = Some i) \<longleftrightarrow>
      hm_get h' slot = Some i \<or> (\<exists>s. hm_get h s = Some i \<and> s \<noteq> slot)" for i
    using assms(4) by metis
  moreover have "(\<exists>s. hm_get h s = Some i \<and> s \<noteq> slot) \<longleftrightarrow>
      (\<exists>s. hm_get h s = Some i) \<and> hm_get h slot \<noteq> Some i" for i
    using assms(2) by metis
  ultimately show ?thesis
    unfolding set_hm_values [OF assms(1)] set_hm_values [OF assms(3)]
    by (auto split: option.splits)
qed

lemma heads_inject:
  assumes "wf_store st" and "hm_get (head st) s = Some i" and "hm_get (head st) s' = Some i"
  shows "s = s'"
proof -
  have "slot = rec_slot (log st ! i)" if "hm_get (head st) slot = Some i" for slot
  proof -
    from that have "first_id (live (log st) slot) = Some i"
      by (simp add: wf_storeD(3) [OF assms(1)])
    then obtain r rs where "live (log st) slot = r # rs" "record_at st i = Some r"
      using first_id_live [OF wf_storeD(1) [OF assms(1)]] by blast
    then show ?thesis
      using live_mem [of r "log st" slot] by (auto simp: record_at_def split: if_splits)
  qed
  with assms(2,3) show ?thesis by metis
qed

text \<open>Records of the log keep their facts when the log grows.\<close>

lemma the_fact_grow:
  assumes "log st' = log st @ [r]" and "i < length (log st)"
  shows "record_fact st' i = record_fact st i" and "the_fact st' i = the_fact st i"
  using assms by (simp_all add: the_fact_def record_fact_def record_at_def nth_append)

lemma active_less: "wf_store st \<Longrightarrow> i \<in> set (hm_values (head st)) \<Longrightarrow> i < length (log st)"
  using active_record [of st i] by (auto simp: record_at_def split: if_splits)

text \<open>Both operations append one record and move one head; the view follows.\<close>

lemma view_follows_head:
  assumes wf: "wf_store st" and wf': "wf_store st'" and log: "log st' = log st @ [r]"
    and heads: "\<And>s. s \<noteq> slot \<Longrightarrow> hm_get (head st') s = hm_get (head st) s"
    and ok: "view_ok (the_fact st) (drop_head slot st (set (hm_values (head st)))) v"
  shows "case hm_get (head st') slot of
      None \<Rightarrow> view_ok (the_fact st') (set (hm_values (head st'))) v
    | Some h \<Rightarrow> \<exists>v'. view_add h st' v = Some v' \<and> view_ok (the_fact st') (set (hm_values (head st'))) v'"
proof -
  let ?A = "drop_head slot st (set (hm_values (head st)))"
  have "?A \<subseteq> set (hm_values (head st))" by (auto simp: drop_head_def split: option.splits)
  then have less: "i < length (log st)" if "i \<in> ?A" for i using active_less [OF wf] that by blast
  have ok': "view_ok (the_fact st') ?A v"
    using ok view_ok_cong [of ?A "the_fact st" "the_fact st'" v] the_fact_grow [OF log less] by simp
  have A': "set (hm_values (head st')) =
      (case hm_get (head st') slot of None \<Rightarrow> id | Some i \<Rightarrow> insert i) ?A"
    unfolding drop_head_def
    by (rule active_update_head)
      (use wf_storeD(2) [OF wf] wf_storeD(2) [OF wf'] heads heads_inject [OF wf] in auto)
  show ?thesis
  proof (cases "hm_get (head st') slot")
    case None
    with ok' A' show ?thesis by simp
  next
    case (Some h)
    then have "record_fact st' h = Some (the_fact st' h)"
      by (rule active_fact [OF wf' head_active])
    from view_add_ok [OF ok' this refl] Some A' show ?thesis by simp
  qed
qed

lemma db_define_ok:
  assumes "wf_db db"
  shows "\<exists>v. db_define slot f db =
      Some (length (log (store db)), db\<lparr>store := snd (append_define slot f (store db)), view := v\<rparr>) \<and>
    wf_db (db\<lparr>store := snd (append_define slot f (store db)), view := v\<rparr>)"
proof -
  let ?st = "snd (append_define slot f (store db))"
  note wf = wf_dbD(1) [OF assms]
  from remove_head_ok [OF assms, of slot] obtain v where
    v: "(case hm_get (head (store db)) slot of
           Some h \<Rightarrow> view_remove h (store db) (view db) | None \<Rightarrow> Some (view db)) = Some v"
    "view_ok (the_fact (store db)) (drop_head slot (store db) (set (hm_values (head (store db))))) v"
    by blast
  have wf': "wf_store ?st" by (rule wf_append_define [OF wf])
  have "hm_get (head ?st) slot = Some (length (log (store db)))" by (simp add: append_define_eq)
  with view_follows_head [OF wf wf' _ _ v(2)] obtain v' where
    "view_add (length (log (store db))) ?st v = Some v'"
    "view_ok (the_fact ?st) (set (hm_values (head ?st))) v'"
    by (fastforce simp: append_define_eq)
  with v(1) wf' show ?thesis
    by (auto simp: db_define_def wf_db_def active_ids_def append_define_eq)
qed

lemma db_forget_ok:
  assumes "wf_db db"
  shows "\<exists>st v res. append_forget slot (store db) = Some (res, st) \<and>
    db_forget slot db = Some (length (log (store db)), db\<lparr>store := st, view := v\<rparr>) \<and>
    wf_db (db\<lparr>store := st, view := v\<rparr>)"
proof -
  note wf = wf_dbD(1) [OF assms]
  from remove_head_ok [OF assms, of slot] obtain v where
    v: "(case hm_get (head (store db)) slot of
           Some h \<Rightarrow> view_remove h (store db) (view db) | None \<Rightarrow> Some (view db)) = Some v"
    "view_ok (the_fact (store db)) (drop_head slot (store db) (set (hm_values (head (store db))))) v"
    by blast
  obtain st res where st: "append_forget slot (store db) = Some (res, st)"
    using append_forget_eq [OF wf, of slot] by simp
  have wf': "wf_store st" by (rule wf_append_forget [OF wf st])
  have res: "res = (length (log (store db)), first_id (live (log (store db)) slot),
      hm_get (head st) slot)"
    and log: "\<exists>r. log st = log (store db) @ [r]"
    and heads: "s \<noteq> slot \<Longrightarrow> hm_get (head st) s = hm_get (head (store db)) s" for s
    using st append_forget_eq [OF wf, of slot] by (auto split: option.split)
  from log obtain r where "log st = log (store db) @ [r]" by blast
  from view_follows_head [OF wf wf' this heads v(2)] show ?thesis
    using st res v(1) wf'
    by (auto simp: db_forget_def wf_db_def active_ids_def split: option.splits)
qed

section \<open>Operations on the stacks\<close>

lemma map_stack_step:
  "map (the \<circ> rec_fact) (stack_step slot s r) =
    (if rec_slot r = slot then
       (case rec_kind r of KDefine \<Rightarrow> the (rec_fact r) # map (the \<circ> rec_fact) s
        | KForget \<Rightarrow> tl (map (the \<circ> rec_fact) s))
     else map (the \<circ> rec_fact) s)"
  by (simp add: stack_step_def map_tl split: record_kind.split)

lemma db_define_stack:
  assumes "wf_db db"
  shows "\<exists>db'. db_define slot f db = Some (db_record_count db, db') \<and> wf_db db' \<and>
    db_record_count db' = Suc (db_record_count db) \<and> next_entity db' = next_entity db \<and>
    stack db' = (stack db)(slot := f # stack db slot)"
  using db_define_ok [OF assms, of slot f]
  by (auto simp: stack_def fun_eq_iff append_define_eq map_stack_step db_record_count_def
      store_record_count_def)

lemma db_forget_stack:
  assumes "wf_db db"
  shows "\<exists>db'. db_forget slot db = Some (db_record_count db, db') \<and> wf_db db' \<and>
    db_record_count db' = Suc (db_record_count db) \<and> next_entity db' = next_entity db \<and>
    stack db' = (stack db)(slot := tl (stack db slot))"
  using db_forget_ok [OF assms, of slot] append_forget_eq [OF wf_dbD(1) [OF assms], of slot]
  by (auto simp: stack_def fun_eq_iff map_stack_step db_record_count_def store_record_count_def)

lemma db_entity_stack:
  assumes "wf_db db"
  shows "wf_db (snd (db_entity db))" and "stack (snd (db_entity db)) = stack db"
    and "db_record_count (snd (db_entity db)) = db_record_count db"
  using assms by (auto simp: db_entity_def wf_db_def active_ids_def stack_def fun_eq_iff db_record_count_def)

fun top :: "'a list \<Rightarrow> 'a option" where
  "top [] = None"
| "top (x # xs) = Some x"

lemma db_resolve_stack:
  assumes "wf_db db"
  shows "db_resolve slot db = Some (top (stack db slot))"
proof -
  note wf = wf_dbD(1,2) [OF assms]
  show ?thesis
    using live_fact [OF wf(2), of _ slot]
    by (cases "live (log (store db)) slot") (fastforce simp: db_resolve_def resolve_record_live [OF wf(1)] stack_def)+
qed

lemma map_filter_Some: "\<forall>x \<in> set xs. \<exists>y. g x = Some y \<Longrightarrow> List.map_filter g xs = map (the \<circ> g) xs"
  by (induction xs) (auto simp: List.map_filter_simps)

lemma db_definitions_stack:
  assumes "wf_db db"
  shows "db_definitions slot db = Some (stack db slot)"
  using store_definitions_live [OF wf_dbD(1) [OF assms], of slot] live_fact [OF wf_dbD(2) [OF assms], of _ slot]
  by (simp add: db_definitions_def stack_def map_filter_Some)

lemma db_active_slot_count_stack:
  "wf_db db \<Longrightarrow> db_active_slot_count db = card {slot. stack db slot \<noteq> []}"
  by (simp add: db_active_slot_count_def store_active_slot_count_live wf_dbD(1) stack_def)

lemma validate_heads_ok:
  "\<forall>i \<in> set is. \<exists>r f. record_at st i = Some r \<and> rec_kind r = KDefine \<and> rec_fact r = Some f \<Longrightarrow>
   validate_heads st is = Some (Inr ())"
  by (induction "is") auto

lemma db_validate_ok:
  assumes "wf_db db"
  shows "db_validate db = Some (Inr ())"
proof -
  have "validate_heads (store db) (hm_values (head (store db))) = Some (Inr ())"
    using active_record [OF wf_dbD(1) [OF assms]] by (intro validate_heads_ok) fastforce
  moreover have "view_validate (store db) (view db) = Inr ()"
    using assms by (simp add: view_validate_ok wf_db_def active_ids_def)
  ultimately show ?thesis by (simp add: db_validate_def)
qed

section \<open>Queries\<close>

lemma db_fetch_active:
  assumes "wf_db db" and "i \<in> set (active_ids db)"
  shows "\<exists>slot. db_fetch db i = Some (slot, the_fact (store db) i) \<and> hm_get (head (store db)) slot = Some i"
  using active_record [OF wf_dbD(1) [OF assms(1)], of i] assms(2)
  by (auto simp: db_fetch_def active_ids_def the_fact_def record_fact_def)

interpretation kernel_query: query_source db_candidates db_fetch active_ids wf_db
proof
  fix db i assume "wf_db db" and "i \<in> set (active_ids db)"
  then show "\<exists>slot f. db_fetch db i = Some (slot, f)" using db_fetch_active by blast
next
  fix db pat b assume wf: "wf_db db"
  have "view_candidates pat b (store db) (view db) =
      filter (\<lambda>i. fact_matches pat b (the_fact (store db) i)) (active_ids db)"
    using wf unfolding active_ids_def by (intro view_candidates_filter) (simp add: wf_db_def active_ids_def)
  also have "\<dots> = filter (\<lambda>i. case db_fetch db i of None \<Rightarrow> False | Some (slot, f) \<Rightarrow> fact_matches pat b f)
      (active_ids db)"
    using db_fetch_active [OF wf] by (intro filter_cong) fastforce+
  finally show "db_candidates db pat b =
      filter (\<lambda>i. case db_fetch db i of None \<Rightarrow> False | Some (slot, f) \<Rightarrow> fact_matches pat b f) (active_ids db)"
    by (simp only: db_candidates_def)
qed

text \<open>The facts that queries range over: the top of every stack, oldest first.\<close>

definition current_facts :: "forth_db \<Rightarrow> fact list" where
  "current_facts db = map (the_fact (store db)) (active_ids db)"

lemma kernel_query_facts:
  assumes "wf_db db"
  shows "kernel_query.facts db = current_facts db"
  unfolding kernel_query.facts_def current_facts_def
  by (rule map_cong [OF refl]) (use db_fetch_active [OF assms] in fastforce)

lemma mset_current_facts:
  assumes "wf_db db"
  shows "mset (current_facts db) = image_mset (\<lambda>slot. hd (stack db slot)) (mset_set {slot. stack db slot \<noteq> []})"
proof -
  let ?h = "head (store db)" and ?S = "{slot. stack db slot \<noteq> []}"
  note wf = wf_dbD [OF assms]
  have S: "?S = {slot. \<exists>i. hm_get ?h slot = Some i}"
  proof -
    have "stack db slot \<noteq> [] \<longleftrightarrow> (\<exists>i. hm_get ?h slot = Some i)" for slot
      using wf(4) [of slot] by (cases "live (log (store db)) slot") (auto simp: stack_def)
    then show ?thesis by simp
  qed
  have inj: "inj_on (\<lambda>slot. the (hm_get ?h slot)) ?S"
    using heads_inject [OF wf(1)] by (auto simp: S inj_on_def)
  have top: "the_fact (store db) (the (hm_get ?h slot)) = hd (stack db slot)" if "slot \<in> ?S" for slot
  proof -
    from that obtain r rs where r: "live (log (store db)) slot = r # rs" by (cases "live (log (store db)) slot") (auto simp: stack_def)
    then show ?thesis
      using live_record_at [OF wf(2), of r slot] wf(4) [of slot]
      by (simp add: the_fact_def record_fact_def stack_def)
  qed
  have vals: "set (hm_values ?h) = (\<lambda>slot. the (hm_get ?h slot)) ` ?S"
    unfolding set_hm_values [OF wf(3)] S by force
  have "mset (active_ids db) = mset_set (set (hm_values ?h))"
    by (metis active_ids_def active_record_ids_def mset_set_set distinct_sorted_list_of_set set_active_record_ids)
  also have "\<dots> = image_mset (\<lambda>slot. the (hm_get ?h slot)) (mset_set ?S)"
    unfolding vals by (rule image_mset_mset_set [OF inj, symmetric])
  finally have "mset (current_facts db) =
      image_mset (\<lambda>slot. the_fact (store db) (the (hm_get ?h slot))) (mset_set ?S)"
    by (simp add: current_facts_def image_mset.compositionality comp_def)
  also have "\<dots> = image_mset (\<lambda>slot. hd (stack db slot)) (mset_set ?S)"
    using top by (intro image_mset_cong) (metis (mono_tags) elem_mset_set empty_iff mem_Collect_eq mset_set.infinite set_mset_empty)
  finally show ?thesis .
qed

lemma db_query_unlimited:
  "wf_db db \<Longrightarrow> limit opts = None \<Longrightarrow>
   \<exists>res. db_query ps opts db = Some res \<and>
     map row_binding (rows res) = expected_bindings (distinct_rows opts) (current_facts db) ps"
  using kernel_query.run_query_unlimited [of db opts ps] by (simp add: db_query_def kernel_query_facts)

lemma db_query_limited:
  "wf_db db \<Longrightarrow> limit opts = Some l \<Longrightarrow>
   \<exists>res. db_query ps opts db = Some res \<and> length (rows res) \<le> max 1 l \<and>
     set (map row_binding (rows res)) \<subseteq> set (nested_loop (current_facts db) ps []) \<and>
     (\<not> distinct_rows opts \<longrightarrow>
        length (rows res) = min (max 1 l) (length (nested_loop (current_facts db) ps [])))"
  using kernel_query.run_query_limited [of db opts l ps] by (simp add: db_query_def kernel_query_facts)

section \<open>Command sequences and their specification\<close>

datatype kernel_command = CEntity | CDefine slot_id fact | CForget slot_id

fun run_commands :: "kernel_command list \<Rightarrow> forth_db \<Rightarrow> forth_db option" where
  "run_commands [] db = Some db"
| "run_commands (CEntity # cs) db = run_commands cs (snd (db_entity db))"
| "run_commands (CDefine slot f # cs) db =
     Option.bind (db_define slot f db) (\<lambda>(_, db'). run_commands cs db')"
| "run_commands (CForget slot # cs) db =
     Option.bind (db_forget slot db) (\<lambda>(_, db'). run_commands cs db')"

text \<open>What a kernel promises: a stack per slot, a counter of entities and one of records.\<close>

record kernel_spec =
  spec_stacks :: "slot_id \<Rightarrow> fact list"
  spec_next_entity :: u64
  spec_records :: nat

definition spec_new :: kernel_spec where
  "spec_new = \<lparr>spec_stacks = (\<lambda>_. []), spec_next_entity = 1, spec_records = 0\<rparr>"

fun spec_command :: "kernel_command \<Rightarrow> kernel_spec \<Rightarrow> kernel_spec" where
  "spec_command CEntity s = s\<lparr>spec_next_entity := spec_next_entity s + 1\<rparr>"
| "spec_command (CDefine slot f) s =
     s\<lparr>spec_stacks := (spec_stacks s)(slot := f # spec_stacks s slot), spec_records := Suc (spec_records s)\<rparr>"
| "spec_command (CForget slot) s =
     s\<lparr>spec_stacks := (spec_stacks s)(slot := tl (spec_stacks s slot)), spec_records := Suc (spec_records s)\<rparr>"

definition spec_run :: "kernel_command list \<Rightarrow> kernel_spec" where
  "spec_run cs = fold spec_command cs spec_new"

definition abs_db :: "forth_db \<Rightarrow> kernel_spec" where
  "abs_db db = \<lparr>spec_stacks = stack db, spec_next_entity = next_entity db, spec_records = db_record_count db\<rparr>"

lemma abs_db_new: "abs_db db_new = spec_new"
  by (simp add: abs_db_def spec_new_def fun_eq_iff)
    (simp add: db_new_def empty_store_def db_record_count_def store_record_count_def)

lemma abs_db_sel [simp]:
  "spec_stacks (abs_db db) = stack db" "spec_next_entity (abs_db db) = next_entity db"
  "spec_records (abs_db db) = db_record_count db"
  by (simp_all add: abs_db_def)

lemma run_commands_refines:
  "wf_db db \<Longrightarrow> \<exists>db'. run_commands cs db = Some db' \<and> wf_db db' \<and> abs_db db' = fold spec_command cs (abs_db db)"
proof (induction cs arbitrary: db)
  case (Cons c cs)
  have "\<exists>db1. run_commands (c # cs) db = run_commands cs db1 \<and> wf_db db1 \<and>
      abs_db db1 = spec_command c (abs_db db)"
  proof (cases c)
    case CEntity
    then show ?thesis
      using db_entity_stack [OF Cons.prems] by (auto simp: abs_db_def db_entity_def)
  next
    case (CDefine slot f)
    with db_define_stack [OF Cons.prems, of slot f] show ?thesis by (auto simp: abs_db_def)
  next
    case (CForget slot)
    with db_forget_stack [OF Cons.prems, of slot] show ?thesis by (auto simp: abs_db_def)
  qed
  with Cons.IH show ?case by fastforce
qed simp

lemma run_commands_spec:
  "\<exists>db. run_commands cs db_new = Some db \<and> wf_db db \<and> abs_db db = spec_run cs"
  using run_commands_refines [OF wf_db_new, of cs] by (simp add: spec_run_def abs_db_new)

lemma run_commands_reachable:
  assumes "run_commands cs db_new = Some db"
  shows "wf_db db" and "stack db = spec_stacks (spec_run cs)"
    and "next_entity db = spec_next_entity (spec_run cs)" and "db_record_count db = spec_records (spec_run cs)"
  using run_commands_spec [of cs] assms abs_db_sel by (metis option.inject)+

text \<open>The entry that a command leaves in the log.\<close>

fun command_entry :: "kernel_command \<Rightarrow> (slot_id \<times> record_kind \<times> fact option) list" where
  "command_entry CEntity = []"
| "command_entry (CDefine slot f) = [(slot, KDefine, Some f)]"
| "command_entry (CForget slot) = [(slot, KForget, None)]"

definition entry_of :: "log_record \<Rightarrow> slot_id \<times> record_kind \<times> fact option" where
  "entry_of r = (rec_slot r, rec_kind r, rec_fact r)"

lemma run_commands_log:
  "wf_db db \<Longrightarrow> run_commands cs db = Some db' \<Longrightarrow>
   \<exists>new. log (store db') = log (store db) @ new \<and> map entry_of new = concat (map command_entry cs)"
proof (induction cs arbitrary: db)
  case (Cons c cs)
  obtain db1 r where 1: "run_commands cs db1 = Some db'" "wf_db db1"
    "log (store db1) = log (store db) @ r" "map entry_of r = command_entry c"
  proof (cases c)
    case CEntity
    with Cons.prems db_entity_stack(1) [OF Cons.prems(1)] show ?thesis
      by (intro that [of "snd (db_entity db)" "[]"]) (auto simp: db_entity_def)
  next
    case (CDefine slot f)
    with Cons.prems db_define_ok [OF Cons.prems(1), of slot f] show ?thesis
      by (auto simp: append_define_eq entry_of_def intro: that)
  next
    case (CForget slot)
    with Cons.prems db_forget_ok [OF Cons.prems(1), of slot]
      append_forget_eq [OF wf_dbD(1) [OF Cons.prems(1)], of slot] show ?thesis
      by (auto simp: entry_of_def intro: that)
  qed
  from Cons.IH [OF 1(2,1)] obtain new where
    "log (store db') = log (store db1) @ new" "map entry_of new = concat (map command_entry cs)" by blast
  with 1(3,4) show ?case by (intro exI [of _ "r @ new"]) simp
qed simp

lemma decimal_digit: "n < 10 \<Longrightarrow> of_char (char_of (48 + n) :: char) - (48 :: nat) = n"
  by simp

lemma decimal_inverse:
  "foldl (\<lambda>a c. 10 * a + (of_char c - 48)) 0 (decimal n) = (n :: nat)"
proof (induction n rule: decimal.induct)
  case (1 n)
  then show ?case by (subst decimal.simps) (auto simp: decimal_digit)
qed

lemma decimal_inject: "decimal m = decimal n \<longleftrightarrow> m = n"
  by (metis decimal_inverse)

lemma display_slot_inject: "display_slot e = display_slot e' \<longleftrightarrow> e = e'"
  by (simp add: display_slot_def decimal_inject word_unat_eq_iff)

section \<open>Properties\<close>

text \<open>A small library for the witnesses: two copies of a work, one of them withdrawn again.\<close>

definition sample_commands :: "kernel_command list" where
  "sample_commands =
     [CEntity, CEntity,
      CDefine ''assertion/a'' (fact_new (AEntity 1) ''has_copy'' (AEntity 2)),
      CDefine ''copy/location'' (fact_new (AEntity 2) ''located_at'' (ALiteral ''shelf'')),
      CDefine ''copy/location'' (fact_new (AEntity 2) ''located_at'' (ALiteral ''desk'')),
      CForget ''copy/location'']"

definition sample_patterns :: "pattern list" where
  "sample_patterns =
     [pattern_new (TAtom (AEntity 1)) (PPredicate ''has_copy'') (TVariable ''copy''),
      pattern_new (TVariable ''copy'') (PPredicate ''located_at'') (TVariable ''place'')]"

lemma sample_run: "run_commands sample_commands db_new = Some (the (run_commands sample_commands db_new))"
  using run_commands_spec [of sample_commands] by auto

text \<open>
  C1. After any sequence of entity allocations, definitions and forgettings, the kernel has not
  panicked, validates, and shows exactly the abstract stacks: \<open>definitions\<close> lists the stack of a
  slot newest first, \<open>resolve\<close> returns its top, and the counters are those of the specification.
\<close>

theorem kernel_refines_stacks:
  "\<exists>db. run_commands cs db_new = Some db \<and> db_validate db = Some (Inr ()) \<and>
     next_entity db = spec_next_entity (spec_run cs) \<and>
     db_record_count db = spec_records (spec_run cs) \<and>
     db_active_slot_count db = card {slot. spec_stacks (spec_run cs) slot \<noteq> []} \<and>
     (\<forall>slot. db_definitions slot db = Some (spec_stacks (spec_run cs) slot) \<and>
        db_resolve slot db = Some (top (spec_stacks (spec_run cs) slot)))"
proof -
  from run_commands_spec obtain db where db: "run_commands cs db_new = Some db" "wf_db db" by blast
  from run_commands_reachable [OF db(1)] show ?thesis
    using db by (auto simp: db_validate_ok db_definitions_stack db_resolve_stack db_active_slot_count_stack)
qed

text \<open>
  The log never forgets: the history of a slot lists, in order, every definition and every
  forgetting that was ever applied to it, and each entry records the heads before and after it.
\<close>

theorem kernel_history_complete:
  "\<exists>db rs. run_commands cs db_new = Some db \<and> db_history slot db = Some rs \<and>
     map entry_of rs = filter (\<lambda>e. fst e = slot) (concat (map command_entry cs)) \<and>
     list_all (\<lambda>r. \<exists>before. prefix before (log (store db)) \<and> length before = rec_id r \<and>
        previous_head r = first_id (live before slot) \<and>
        resulting_head r = first_id (stack_step slot (live before slot) r)) rs"
proof -
  from run_commands_spec obtain db where db: "run_commands cs db_new = Some db" "wf_db db" by blast
  note wf = wf_dbD(1,2) [OF db(2)]
  from run_commands_log [OF wf_db_new db(1)]
  have entries: "map entry_of (log (store db)) = concat (map command_entry cs)"
    by (simp add: db_new_def empty_store_def)
  have "map entry_of (filter (\<lambda>r. rec_slot r = slot) (log (store db))) =
      filter (\<lambda>e. fst e = slot) (map entry_of (log (store db)))"
    by (simp add: filter_map comp_def entry_of_def)
  moreover have "\<exists>before. prefix before (log (store db)) \<and> length before = rec_id r \<and>
      previous_head r = first_id (live before slot) \<and>
      resulting_head r = first_id (stack_step slot (live before slot) r)"
    if mem: "r \<in> set (filter (\<lambda>r. rec_slot r = slot) (log (store db)))" for r
  proof -
    have "rec_id r < length (log (store db))" "log (store db) ! rec_id r = r"
      using wf_log_mem [OF wf(2), of r] mem by auto
    with wf(2) have "entry_ok (take (rec_id r) (log (store db))) r" by (auto simp: wf_log_def)
    with mem show ?thesis
      by (intro exI [of _ "take (rec_id r) (log (store db))"])
        (auto simp: entry_ok_def take_is_prefix)
  qed
  ultimately show ?thesis
    using db(1) entries store_history_filter [OF wf(1)] unfolding list_all_iff db_history_def by metis
qed

text \<open>
  C5. A query without a limit returns exactly the join of its patterns with the current facts,
  one per active slot: the sorted set of answers, or the sorted bag when duplicates are kept,
  whatever order of patterns the optimizer chooses; it never panics.
\<close>

theorem kernel_query_is_join:
  assumes "limit opts = None"
  shows "\<exists>db res facts. run_commands cs db_new = Some db \<and> db_query ps opts db = Some res \<and>
    mset facts = image_mset (\<lambda>slot. hd (spec_stacks (spec_run cs) slot))
      (mset_set {slot. spec_stacks (spec_run cs) slot \<noteq> []}) \<and>
    map row_binding (rows res) = expected_bindings (distinct_rows opts) facts ps"
proof -
  from run_commands_spec obtain db where db: "run_commands cs db_new = Some db" "wf_db db" by blast
  then show ?thesis
    using db_query_unlimited [OF db(2) assms] mset_current_facts [OF db(2)] run_commands_reachable(2) [OF db(1)]
    by metis
qed

theorem kernel_query_is_join_witness:
  "limit default_options = None \<and>
   (\<exists>db res facts. run_commands sample_commands db_new = Some db \<and>
      db_query sample_patterns default_options db = Some res \<and>
      mset facts = image_mset (\<lambda>slot. hd (spec_stacks (spec_run sample_commands) slot))
        (mset_set {slot. spec_stacks (spec_run sample_commands) slot \<noteq> []}) \<and>
      map row_binding (rows res) = expected_bindings (distinct_rows default_options) facts sample_patterns)"
proof
  show unlimited: "limit default_options = None" by (simp add: default_options_def)
  show "\<exists>db res facts. run_commands sample_commands db_new = Some db \<and>
      db_query sample_patterns default_options db = Some res \<and>
      mset facts = image_mset (\<lambda>slot. hd (spec_stacks (spec_run sample_commands) slot))
        (mset_set {slot. spec_stacks (spec_run sample_commands) slot \<noteq> []}) \<and>
      map row_binding (rows res) = expected_bindings (distinct_rows default_options) facts sample_patterns"
    by (rule kernel_query_is_join [OF unlimited])
qed

text \<open>
  A limit of \<open>l\<close> keeps at most \<open>l\<close> rows, all of them answers; when duplicates are kept the
  number of rows is exactly the smaller of the limit and the number of answers.  A limit of
  zero acts as a limit of one.
\<close>

theorem kernel_query_limit:
  assumes "limit opts = Some l"
  shows "\<exists>db res facts. run_commands cs db_new = Some db \<and> db_query ps opts db = Some res \<and>
    mset facts = image_mset (\<lambda>slot. hd (spec_stacks (spec_run cs) slot))
      (mset_set {slot. spec_stacks (spec_run cs) slot \<noteq> []}) \<and>
    set (map row_binding (rows res)) \<subseteq> set (nested_loop facts ps []) \<and>
    length (rows res) \<le> max 1 l \<and>
    (\<not> distinct_rows opts \<longrightarrow> length (rows res) = min (max 1 l) (length (nested_loop facts ps [])))"
proof -
  from run_commands_spec obtain db where db: "run_commands cs db_new = Some db" "wf_db db" by blast
  from db_query_limited [OF db(2) assms, of ps] obtain res where
    "db_query ps opts db = Some res" "length (rows res) \<le> max 1 l"
    "set (map row_binding (rows res)) \<subseteq> set (nested_loop (current_facts db) ps [])"
    "\<not> distinct_rows opts \<longrightarrow>
        length (rows res) = min (max 1 l) (length (nested_loop (current_facts db) ps []))" by blast
  with db mset_current_facts [OF db(2)] run_commands_reachable(2) [OF db(1)] show ?thesis by metis
qed

theorem kernel_query_limit_witness:
  "\<exists>db res facts. run_commands sample_commands db_new = Some db \<and>
     db_query sample_patterns (default_options\<lparr>limit := Some 1\<rparr>) db = Some res \<and>
     set (map row_binding (rows res)) \<subseteq> set (nested_loop facts sample_patterns []) \<and>
     length (rows res) \<le> 1"
  using kernel_query_limit [of "default_options\<lparr>limit := Some 1\<rparr>" 1 sample_commands sample_patterns]
  by (auto simp: default_options_def)

text \<open>
  Reordering the patterns of an unlimited query, or switching the optimizer off, does not
  change the bindings it returns.
\<close>

theorem kernel_query_order_irrelevant:
  assumes "run_commands cs db_new = Some db" and "mset ps = mset qs"
    and "limit opts = None" and "limit opts' = None" and "distinct_rows opts = distinct_rows opts'"
  shows "map_option (map row_binding \<circ> rows) (db_query ps opts db) =
    map_option (map row_binding \<circ> rows) (db_query qs opts' db)"
proof -
  note wf = run_commands_reachable(1) [OF assms(1)]
  have "mset (nested_loop (current_facts db) ps []) = mset (nested_loop (current_facts db) qs [])"
    by (rule nested_loop_permute [OF _ assms(2)]) simp
  then have "expected_bindings d (current_facts db) ps = expected_bindings d (current_facts db) qs" for d
    unfolding expected_bindings_def using mset_eq_setD
    by (metis properties_for_sort sorted_sort mset_sort)
  then show ?thesis
    using db_query_unlimited [OF wf assms(3), of ps] db_query_unlimited [OF wf assms(4), of qs] assms(5)
    by force
qed

theorem kernel_query_order_irrelevant_witness:
  "map_option (map row_binding \<circ> rows)
     (db_query sample_patterns default_options (the (run_commands sample_commands db_new))) =
   map_option (map row_binding \<circ> rows)
     (db_query (rev sample_patterns) (default_options\<lparr>optimize := False\<rparr>)
       (the (run_commands sample_commands db_new)))"
  by (rule kernel_query_order_irrelevant [OF sample_run]) (simp_all add: default_options_def)

text \<open>
  Binding a symbol makes it resolve to its entity and leaves every symbol stored under
  another slot as it was; a pattern compiled from the symbol then holds the entity itself.
\<close>

theorem kernel_bind_symbol_resolves:
  assumes "run_commands cs db_new = Some db"
  shows "\<exists>i db'. bind_symbol ns symb e db = Some (i, db') \<and>
    resolve_symbol ns symb db' = Some (Some e) \<and>
    compile_term ns (SSymbol symb) db' = Some (Inr (TAtom (AEntity e))) \<and>
    (\<forall>ns' symb'. symbol_slot ns' symb' \<noteq> symbol_slot ns symb \<longrightarrow>
       resolve_symbol ns' symb' db' = resolve_symbol ns' symb' db)"
  using db_define_stack [OF run_commands_reachable(1) [OF assms], of "symbol_slot ns symb"]
    run_commands_reachable(1) [OF assms]
  by (fastforce simp: bind_symbol_def resolve_symbol_def compile_term_def db_resolve_stack fact_new_def)

theorem kernel_bind_symbol_resolves_witness:
  "\<exists>i db'. bind_symbol ''global'' ''John'' 1 (the (run_commands sample_commands db_new)) = Some (i, db') \<and>
     resolve_symbol ''global'' ''John'' db' = Some (Some 1)"
  using kernel_bind_symbol_resolves [OF sample_run, of "''global''" "''John''" 1] by blast

text \<open>
  Display names belong to one entity: naming an entity sets its display name and changes no
  other entity's.
\<close>

theorem kernel_display_name_independent:
  assumes "run_commands cs db_new = Some db"
  shows "\<exists>i db'. define_display_name e name db = Some (i, db') \<and> display_name e db' = Some name \<and>
    (\<forall>e'. e' \<noteq> e \<longrightarrow> display_name e' db' = display_name e' db)"
  using db_define_stack [OF run_commands_reachable(1) [OF assms], of "display_slot e"]
    run_commands_reachable(1) [OF assms]
  by (fastforce simp: define_display_name_def display_name_def db_resolve_stack fact_new_def
      display_slot_inject)

theorem kernel_display_name_independent_witness:
  "\<exists>i db'. define_display_name 1 ''Emma'' (the (run_commands sample_commands db_new)) = Some (i, db') \<and>
     display_name 1 db' = Some ''Emma'' \<and>
     display_name 2 db' = display_name 2 (the (run_commands sample_commands db_new))"
proof -
  have "(2 :: entity_id) \<noteq> 1" by simp
  then show ?thesis
    using kernel_display_name_independent [OF sample_run, of 1 "''Emma''"] by blast
qed

text \<open>
  The slots of symbols are not separated by namespace: a slash in a namespace or a symbol
  makes two different qualified names share a slot, so that binding one rebinds the other.
\<close>

theorem kernel_symbol_slots_collide:
  "\<exists>i db. bind_symbol ''a/b'' ''c'' e db_new = Some (i, db) \<and>
     resolve_symbol ''a'' ''b/c'' db_new = Some None \<and>
     resolve_symbol ''a'' ''b/c'' db = Some (Some e)"
  using db_define_stack [OF wf_db_new, of "symbol_slot ''a/b'' ''c''"] wf_db_new
  by (fastforce simp: bind_symbol_def resolve_symbol_def symbol_slot_def db_resolve_stack fact_new_def)

end
