(* ===== verification/Frames.thy ===== *)
theory Frames
  imports Terms
begin

text \<open>
  Operations, commit frames and the identity of worlds (\<open>forthdb-world/src/lib.rs\<close>): a commit
  frame is a batch of operations with its position in a linear history, and the identity of the
  world it leads to is an FNV-1a hash over a length-prefixed serialisation of the parent, the
  version, the allocator and the operations.  The lemmas show that the hasher hashes exactly
  the bytes of \<open>world_id_bytes\<close>, that this serialisation is injective, and that FNV-1a separates
  byte strings that differ in one place.
\<close>

section \<open>Operations and frames\<close>

type_synonym world_id = u64

definition GENESIS :: world_id where
  "GENESIS = fnv_offset_basis"

datatype operation = AllocateEntity entity_id | Define slot_id fact | Forget slot_id

record commit_frame =
  parent_world :: world_id
  resulting_world :: world_id
  parent_version :: u64
  resulting_version :: u64
  resulting_allocator :: u64
  operations :: "operation list"

datatype candidate_error =
    HistoryParentMismatch world_id world_id
  | HistoryVersionMismatch u64 u64
  | AllocatorOperationMismatch u64 u64
  | AllocatorStateMismatch u64 u64
  | WorldIdentityMismatch world_id world_id
  | BaseWorldMismatch world_id world_id
  | KernelInvariant string

section \<open>The stable hasher\<close>

definition hasher_new :: u64 where
  "hasher_new = fnv_offset_basis"

definition hasher_byte :: "byte \<Rightarrow> u64 \<Rightarrow> u64" where
  "hasher_byte b h = fnv_byte h b"

definition hasher_bytes :: "byte list \<Rightarrow> u64 \<Rightarrow> u64" where
  "hasher_bytes bs h = fold hasher_byte bs h"

definition hasher_u64 :: "u64 \<Rightarrow> u64 \<Rightarrow> u64" where
  "hasher_u64 w h = hasher_bytes (le_bytes 8 w) h"

definition hasher_string :: "string \<Rightarrow> u64 \<Rightarrow> u64" where
  "hasher_string s h = hasher_bytes (as_bytes s) (hasher_u64 (word_of_nat (length s)) h)"

fun hash_atom :: "atom \<Rightarrow> u64 \<Rightarrow> u64" where
  "hash_atom (AEntity e) h = hasher_u64 e (hasher_byte 0 h)"
| "hash_atom (ALiteral l) h = hasher_string l (hasher_byte 1 h)"

definition hash_fact :: "fact \<Rightarrow> u64 \<Rightarrow> u64" where
  "hash_fact f h = hash_atom (object f) (hasher_string (predicate f) (hash_atom (subject f) h))"

fun hash_operation :: "operation \<Rightarrow> u64 \<Rightarrow> u64" where
  "hash_operation (AllocateEntity e) h = hasher_u64 e (hasher_byte 0 h)"
| "hash_operation (Define slot f) h = hash_fact f (hasher_string slot (hasher_byte 1 h))"
| "hash_operation (Forget slot) h = hasher_string slot (hasher_byte 2 h)"

definition calculate_world_id :: "world_id \<Rightarrow> u64 \<Rightarrow> u64 \<Rightarrow> operation list \<Rightarrow> world_id" where
  "calculate_world_id parent version allocator ops =
     (let h0 = hasher_u64 parent hasher_new;
          h1 = hasher_u64 version h0;
          h2 = hasher_u64 allocator h1;
          h3 = hasher_u64 (word_of_nat (length ops)) h2
      in fold hash_operation ops h3)"

section \<open>The bytes that are hashed\<close>

definition string_bytes :: "string \<Rightarrow> byte list" where
  "string_bytes s = le_bytes 8 (word_of_nat (length s) :: u64) @ as_bytes s"

fun atom_bytes :: "atom \<Rightarrow> byte list" where
  "atom_bytes (AEntity e) = 0 # le_bytes 8 e"
| "atom_bytes (ALiteral l) = 1 # string_bytes l"

fun operation_bytes :: "operation \<Rightarrow> byte list" where
  "operation_bytes (AllocateEntity e) = 0 # le_bytes 8 e"
| "operation_bytes (Define slot f) =
     1 # string_bytes slot @ atom_bytes (subject f) @ string_bytes (predicate f) @ atom_bytes (object f)"
| "operation_bytes (Forget slot) = 2 # string_bytes slot"

definition world_id_bytes :: "world_id \<Rightarrow> u64 \<Rightarrow> u64 \<Rightarrow> operation list \<Rightarrow> byte list" where
  "world_id_bytes parent version allocator ops =
     le_bytes 8 parent @ le_bytes 8 version @ le_bytes 8 allocator @
     le_bytes 8 (word_of_nat (length ops) :: u64) @ concat (map operation_bytes ops)"

lemma hasher_bytes_fnv: "hasher_bytes bs h = fnv_bytes h bs"
  by (induction bs arbitrary: h) (simp_all add: hasher_bytes_def hasher_byte_def)

lemma hasher_simps:
  "hasher_byte b h = fnv_bytes h [b]"
  "hasher_u64 w h = fnv_bytes h (le_bytes 8 w)"
  "hasher_string s h = fnv_bytes h (string_bytes s)"
  by (simp_all add: hasher_byte_def hasher_u64_def hasher_string_def hasher_bytes_fnv string_bytes_def)

lemma hash_atom_bytes: "hash_atom a h = fnv_bytes h (atom_bytes a)"
  by (cases a) (simp_all add: hasher_simps)

lemma hash_operation_bytes: "hash_operation x h = fnv_bytes h (operation_bytes x)"
  by (cases x) (simp_all add: hash_fact_def hash_atom_bytes hasher_simps)

lemma fold_hash_operation: "fold hash_operation ops h = fnv_bytes h (concat (map operation_bytes ops))"
  by (induction ops arbitrary: h) (simp_all add: hash_operation_bytes)

lemma calculate_world_id_bytes:
  "calculate_world_id parent version allocator ops =
     fnv_bytes fnv_offset_basis (world_id_bytes parent version allocator ops)"
  by (simp add: calculate_world_id_def world_id_bytes_def hasher_new_def hasher_simps fold_hash_operation Let_def)

section \<open>The serialisation is injective\<close>

text \<open>
  Strings shorter than \<open>2 ^ 64\<close> bytes, which is every string a 64-bit machine can hold: then the
  length prefix is the length.
\<close>

definition small :: "'a list \<Rightarrow> bool" where
  "small xs \<longleftrightarrow> length xs < 2 ^ 64"

fun atom_small :: "atom \<Rightarrow> bool" where
  "atom_small (AEntity e) = True"
| "atom_small (ALiteral l) = small l"

fun operation_small :: "operation \<Rightarrow> bool" where
  "operation_small (AllocateEntity e) = True"
| "operation_small (Define slot f) \<longleftrightarrow>
     small slot \<and> atom_small (subject f) \<and> small (predicate f) \<and> atom_small (object f)"
| "operation_small (Forget slot) = small slot"

lemma le_bytes_inject_u64: "le_bytes 8 v = le_bytes 8 w \<longleftrightarrow> v = (w :: u64)"
  by (metis le_roundtrip_u64)

lemma unat_of_small [simp]: "small xs \<Longrightarrow> unat (word_of_nat (length xs) :: u64) = length xs"
  by (simp add: small_def unat_of_nat)

lemma of_nat_small_inject:
  "small xs \<Longrightarrow> small ys \<Longrightarrow> (word_of_nat (length xs) :: u64) = word_of_nat (length ys) \<longleftrightarrow> length xs = length ys"
  by (metis unat_of_small)

lemma as_bytes_inject: "as_bytes s = as_bytes t \<longleftrightarrow> s = t"
  by (metis of_bytes_as_bytes)

lemma le_bytes_append_inject:
  "le_bytes 8 (v :: u64) @ xs = le_bytes 8 w @ ys \<longleftrightarrow> v = w \<and> xs = ys"
  by (auto simp: le_bytes_inject_u64)

lemma string_bytes_append_inject:
  assumes "small s" and "small t"
  shows "string_bytes s @ xs = string_bytes t @ ys \<longleftrightarrow> s = t \<and> xs = ys"
proof
  assume eq: "string_bytes s @ xs = string_bytes t @ ys"
  then have "(word_of_nat (length s) :: u64) = word_of_nat (length t)"
    and rest: "as_bytes s @ xs = as_bytes t @ ys"
    by (auto simp: string_bytes_def le_bytes_append_inject)
  then have "length (as_bytes s) = length (as_bytes t)"
    using of_nat_small_inject [OF assms] by simp
  with rest show "s = t \<and> xs = ys" by (simp add: as_bytes_inject)
qed simp

lemma atom_bytes_append_inject:
  assumes "atom_small a" and "atom_small b"
  shows "atom_bytes a @ xs = atom_bytes b @ ys \<longleftrightarrow> a = b \<and> xs = ys"
  using assms
  by (cases a; cases b) (simp_all add: le_bytes_append_inject string_bytes_append_inject)

lemma operation_bytes_append_inject:
  assumes "operation_small x" and "operation_small y"
  shows "operation_bytes x @ xs = operation_bytes y @ ys \<longleftrightarrow> x = y \<and> xs = ys"
  using assms
  by (cases x; cases y)
    (auto simp: le_bytes_append_inject string_bytes_append_inject atom_bytes_append_inject)

lemma operations_bytes_inject:
  "length xs = length ys \<Longrightarrow> \<forall>x \<in> set xs \<union> set ys. operation_small x \<Longrightarrow>
   concat (map operation_bytes xs) = concat (map operation_bytes ys) \<Longrightarrow> xs = ys"
  by (induction xs ys rule: list_induct2) (auto simp: operation_bytes_append_inject)

section \<open>FNV-1a separates strings that differ in one byte\<close>

text \<open>The prime is odd, so multiplying by it can be undone modulo \<open>2 ^ 64\<close>.\<close>

definition fnv_prime_inverse :: u64 where
  "fnv_prime_inverse = 0xce965057aff6957b"

lemma fnv_prime_inverse: "fnv_prime * fnv_prime_inverse = 1"
  by (simp add: fnv_prime_def fnv_prime_inverse_def)

lemma fnv_byte_inject: "fnv_byte h b = fnv_byte h' b' \<longleftrightarrow> h XOR ucast b = h' XOR ucast b'"
proof
  assume "fnv_byte h b = fnv_byte h' b'"
  then have "(h XOR ucast b) * fnv_prime * fnv_prime_inverse = (h' XOR ucast b') * fnv_prime * fnv_prime_inverse"
    by (simp add: fnv_byte_def)
  then show "h XOR ucast b = h' XOR ucast b'"
    by (simp only: mult.assoc fnv_prime_inverse mult_1_right)
qed (simp add: fnv_byte_def)

lemma xor_cancel_right: "(x XOR z = y XOR z) \<longleftrightarrow> x = (y :: 'a::len word)"
  by (metis bit.xor_cancel_right xor.assoc xor.comm_neutral xor_self_eq)

lemma fnv_byte_inject_state: "fnv_byte h b = fnv_byte h' b \<longleftrightarrow> h = h'"
  by (simp add: fnv_byte_inject xor_cancel_right)

lemma ucast_byte_inject: "(ucast b :: u64) = ucast b' \<longleftrightarrow> b = (b' :: byte)"
proof
  assume "(ucast b :: u64) = ucast b'"
  then have "(ucast (ucast b :: u64) :: byte) = ucast (ucast b' :: u64)" by simp
  then show "b = b'" by (simp add: ucast_up_ucast_id is_up)
qed simp

lemma fnv_byte_inject_byte: "fnv_byte h b = fnv_byte h b' \<longleftrightarrow> b = b'"
proof -
  have "h XOR ucast b = h XOR ucast b' \<longleftrightarrow> ucast b XOR h = ucast b' XOR h"
    by (simp only: xor.commute)
  then show ?thesis by (simp only: fnv_byte_inject xor_cancel_right ucast_byte_inject)
qed

lemma fnv_bytes_inject_state: "fnv_bytes h bs = fnv_bytes h' bs \<longleftrightarrow> h = h'"
  by (induction bs arbitrary: h h') (simp_all add: fnv_byte_inject_state)

lemma fnv_bytes_one_byte: "fnv_bytes h (xs @ b # ys) = fnv_bytes h (xs @ b' # ys) \<longleftrightarrow> b = b'"
  by (simp add: fnv_bytes_inject_state fnv_byte_inject_byte)

end
