(* ===== verification/Frame_Codec.thy ===== *)
theory Frame_Codec
  imports Frames
begin

text \<open>
  The binary format of the commit log (\<open>forthdb-world/src/file_store.rs\<close>; the memory-mapped
  store repeats it): the payload of a frame, the record that wraps it (magic, length, checksum,
  payload, trailer) and the file (header and records).  The locale \<open>codec\<close> states that a decoder
  is the exact inverse of an encoder, in both directions; it is interpreted on every level of the
  payload, so that decoding accepts exactly the canonical bytes.  For the file the lemmas show
  the round trip, the recovery from a record that was only partly written, and that a decoded
  file consists of exactly the records of its frames.
\<close>

section \<open>The decoder\<close>

datatype decode_error =
    CursorOverflow
  | UnexpectedEnd nat nat
  | InvalidUtf8
  | UnknownAtomTag byte
  | UnknownOperationTag byte
  | TooManyOperations u64
  | TrailingBytes nat

record decoder =
  d_bytes :: "byte list"
  d_position :: nat

definition decoder_new :: "byte list \<Rightarrow> decoder" where
  "decoder_new bs = \<lparr>d_bytes = bs, d_position = 0\<rparr>"

text \<open>Positions are 64-bit \<open>usize\<close> values, so adding a length to one may overflow.\<close>

definition dec_take :: "nat \<Rightarrow> decoder \<Rightarrow> decode_error + (byte list \<times> decoder)" where
  "dec_take n d =
     (let end_pos = d_position d + n
      in if end_pos \<ge> 2 ^ 64 then Inl CursorOverflow
         else if end_pos > length (d_bytes d) then Inl (UnexpectedEnd (d_position d) n)
         else Inr (take n (drop (d_position d) (d_bytes d)), d\<lparr>d_position := end_pos\<rparr>))"

definition dec_byte :: "decoder \<Rightarrow> decode_error + (byte \<times> decoder)" where
  "dec_byte d = res_map (\<lambda>(bs, d'). (hd bs, d')) (dec_take 1 d)"

definition dec_u64 :: "decoder \<Rightarrow> decode_error + (u64 \<times> decoder)" where
  "dec_u64 d = res_map (\<lambda>(bs, d'). (of_le_bytes bs, d')) (dec_take 8 d)"

definition dec_string :: "decoder \<Rightarrow> decode_error + (string \<times> decoder)" where
  "dec_string d =
     res_bind (dec_u64 d) (\<lambda>(len, d1).
     res_bind (dec_take (unat len) d1) (\<lambda>(bs, d2).
     if utf8_valid bs then Inr (of_bytes bs, d2) else Inl InvalidUtf8))"

definition dec_atom :: "decoder \<Rightarrow> decode_error + (atom \<times> decoder)" where
  "dec_atom d =
     res_bind (dec_byte d) (\<lambda>(tag, d1).
     if tag = 0 then res_map (\<lambda>(e, d2). (AEntity e, d2)) (dec_u64 d1)
     else if tag = 1 then res_map (\<lambda>(s, d2). (ALiteral s, d2)) (dec_string d1)
     else Inl (UnknownAtomTag tag))"

definition dec_finish :: "decoder \<Rightarrow> decode_error + unit" where
  "dec_finish d =
     (if d_position d = length (d_bytes d) then Inr ()
      else Inl (TrailingBytes (length (d_bytes d) - d_position d)))"

section \<open>Payloads\<close>

definition MAX_FRAME_BYTES :: nat where
  "MAX_FRAME_BYTES = 64 * 1024 * 1024"

definition MAX_OPERATIONS_PER_FRAME :: u64 where
  "MAX_OPERATIONS_PER_FRAME = 1000000"

definition put_u64 :: "u64 \<Rightarrow> byte list" where
  "put_u64 w = le_bytes 8 w"

definition put_string :: "string \<Rightarrow> byte list" where
  "put_string s = put_u64 (word_of_nat (length s)) @ as_bytes s"

fun put_atom :: "atom \<Rightarrow> byte list" where
  "put_atom (AEntity e) = 0 # put_u64 e"
| "put_atom (ALiteral l) = 1 # put_string l"

fun put_operation :: "operation \<Rightarrow> byte list" where
  "put_operation (AllocateEntity e) = 0 # put_u64 e"
| "put_operation (Define slot f) =
     1 # put_string slot @ put_atom (subject f) @ put_string (predicate f) @ put_atom (object f)"
| "put_operation (Forget slot) = 2 # put_string slot"

definition encode_payload :: "commit_frame \<Rightarrow> byte list" where
  "encode_payload frame =
     put_u64 (parent_world frame) @ put_u64 (resulting_world frame) @
     put_u64 (parent_version frame) @ put_u64 (resulting_version frame) @
     put_u64 (resulting_allocator frame) @ put_u64 (word_of_nat (length (operations frame))) @
     concat (map put_operation (operations frame))"

definition dec_operation :: "decoder \<Rightarrow> decode_error + (operation \<times> decoder)" where
  "dec_operation d =
     res_bind (dec_byte d) (\<lambda>(tag, d1).
     if tag = 0 then res_map (\<lambda>(e, d2). (AllocateEntity e, d2)) (dec_u64 d1)
     else if tag = 1 then
       res_bind (dec_string d1) (\<lambda>(slot, d2).
       res_bind (dec_atom d2) (\<lambda>(s, d3).
       res_bind (dec_string d3) (\<lambda>(p, d4).
       res_map (\<lambda>(ob, d5). (Define slot (fact_new s p ob), d5)) (dec_atom d4))))
     else if tag = 2 then res_map (\<lambda>(slot, d2). (Forget slot, d2)) (dec_string d1)
     else Inl (UnknownOperationTag tag))"

text \<open>The loop \<open>for _ in 0..operation_count\<close>.\<close>

fun dec_operations :: "nat \<Rightarrow> decoder \<Rightarrow> decode_error + (operation list \<times> decoder)" where
  "dec_operations 0 d = Inr ([], d)"
| "dec_operations (Suc n) d =
     res_bind (dec_operation d) (\<lambda>(x, d1).
     res_map (\<lambda>(xs, d2). (x # xs, d2)) (dec_operations n d1))"

definition decode_payload :: "byte list \<Rightarrow> decode_error + commit_frame" where
  "decode_payload payload =
     res_bind (dec_u64 (decoder_new payload)) (\<lambda>(parent, d1).
     res_bind (dec_u64 d1) (\<lambda>(resulting, d2).
     res_bind (dec_u64 d2) (\<lambda>(pversion, d3).
     res_bind (dec_u64 d3) (\<lambda>(rversion, d4).
     res_bind (dec_u64 d4) (\<lambda>(allocator, d5).
     res_bind (dec_u64 d5) (\<lambda>(count, d6).
     if count > MAX_OPERATIONS_PER_FRAME then Inl (TooManyOperations count) else
     res_bind (dec_operations (unat count) d6) (\<lambda>(ops, d7).
     res_map (\<lambda>_.
       \<lparr>parent_world = parent, resulting_world = resulting, parent_version = pversion,
        resulting_version = rversion, resulting_allocator = allocator, operations = ops\<rparr>)
       (dec_finish d7))))))))"

section \<open>Exact inverses\<close>

definition remaining :: "decoder \<Rightarrow> byte list" where
  "remaining d = drop (d_position d) (d_bytes d)"

definition decoder_ok :: "decoder \<Rightarrow> bool" where
  "decoder_ok d \<longleftrightarrow> d_position d \<le> length (d_bytes d) \<and> length (d_bytes d) < 2 ^ 64"

definition advance :: "nat \<Rightarrow> decoder \<Rightarrow> decoder" where
  "advance n d = d\<lparr>d_position := d_position d + n\<rparr>"

lemma remaining_advance: "remaining (advance n d) = drop n (remaining d)"
  by (simp add: remaining_def advance_def add.commute)

lemma advance_advance [simp]: "advance m (advance n d) = advance (n + m) d"
  by (simp add: advance_def add.assoc)

lemma decoder_ok_advance [simp]:
  "decoder_ok d \<Longrightarrow> n \<le> length (remaining d) \<Longrightarrow> decoder_ok (advance n d)"
  by (auto simp: decoder_ok_def advance_def remaining_def)

lemma dec_take_remaining:
  "decoder_ok d \<Longrightarrow> n \<le> length (remaining d) \<Longrightarrow> dec_take n d = Inr (take n (remaining d), advance n d)"
  by (auto simp: dec_take_def decoder_ok_def remaining_def advance_def Let_def)

lemma dec_take_Inr:
  "decoder_ok d \<Longrightarrow> dec_take n d = Inr (bs, d') \<Longrightarrow>
   n \<le> length (remaining d) \<and> bs = take n (remaining d) \<and> d' = advance n d"
  by (auto simp: dec_take_def decoder_ok_def remaining_def advance_def Let_def split: if_splits)

text \<open>
  The contract of one level of the format: on its own output the decoder returns the value and
  advances past it, and whatever it accepts is the output of the encoder for a valid value.
\<close>

locale codec =
  fixes put :: "'a \<Rightarrow> byte list"
    and get :: "decoder \<Rightarrow> decode_error + ('a \<times> decoder)"
    and valid :: "'a \<Rightarrow> bool"
  assumes get_put:
      "decoder_ok d \<Longrightarrow> valid x \<Longrightarrow> remaining d = put x @ rest \<Longrightarrow>
       get d = Inr (x, advance (length (put x)) d)"
    and put_get:
      "decoder_ok d \<Longrightarrow> get d = Inr (x, d') \<Longrightarrow>
       valid x \<and> d' = advance (length (put x)) d \<and> remaining d = put x @ remaining d'"
begin

lemma get_ok:
  assumes "decoder_ok d" and "get d = Inr (x, d')"
  shows "decoder_ok d' \<and> valid x \<and> remaining d = put x @ remaining d' \<and> d' = advance (length (put x)) d"
proof -
  note * = put_get [OF assms]
  then have "length (remaining d) = length (put x) + length (remaining d')" by (metis length_append)
  then have "length (put x) \<le> length (remaining d)" by simp
  with * assms(1) show ?thesis by (metis decoder_ok_advance)
qed

lemma get_step:
  "decoder_ok d \<Longrightarrow> valid x \<Longrightarrow> remaining d = put x @ rest \<Longrightarrow>
   \<exists>d'. get d = Inr (x, d') \<and> d' = advance (length (put x)) d \<and> decoder_ok d' \<and> remaining d' = rest"
  using get_put [of d x rest] by (simp add: remaining_advance)

lemma put_inject_append:
  assumes "valid x" and "valid y" and "length (put x @ xs) < 2 ^ 64"
  shows "put x @ xs = put y @ ys \<longleftrightarrow> x = y \<and> xs = ys"
proof
  assume eq: "put x @ xs = put y @ ys"
  let ?d = "decoder_new (put x @ xs)"
  have ok: "decoder_ok ?d" using assms(3) by (simp add: decoder_ok_def decoder_new_def)
  have x: "remaining ?d = put x @ xs" by (simp add: remaining_def decoder_new_def)
  with eq have y: "remaining ?d = put y @ ys" by simp
  from get_put [OF ok assms(1) x] get_put [OF ok assms(2) y] have "x = y" by simp
  with eq show "x = y \<and> xs = ys" by simp
qed simp

end

lemma remaining_Cons: "remaining d = b # rest \<Longrightarrow> 1 \<le> length (remaining d)"
  by simp

definition valid_string :: "string \<Rightarrow> bool" where
  "valid_string s \<longleftrightarrow> rust_string s \<and> small s"

fun valid_atom :: "atom \<Rightarrow> bool" where
  "valid_atom (AEntity e) = True"
| "valid_atom (ALiteral l) = valid_string l"

fun valid_operation :: "operation \<Rightarrow> bool" where
  "valid_operation (AllocateEntity e) = True"
| "valid_operation (Define slot f) \<longleftrightarrow>
     valid_string slot \<and> valid_atom (subject f) \<and> valid_string (predicate f) \<and> valid_atom (object f)"
| "valid_operation (Forget slot) = valid_string slot"

interpretation byte_codec: codec "\<lambda>b. [b]" dec_byte "\<lambda>_. True"
proof
  fix d :: decoder and b rest
  assume "decoder_ok d" and "remaining d = [b] @ rest"
  then show "dec_byte d = Inr (b, advance (length [b]) d)"
    by (simp add: dec_byte_def dec_take_remaining)
next
  fix d d' :: decoder and b
  assume ok: "decoder_ok d" and "dec_byte d = Inr (b, d')"
  then have *: "1 \<le> length (remaining d)" "b = hd (take 1 (remaining d))" "d' = advance 1 d"
    by (auto simp: dec_byte_def res_map_Inr dest!: dec_take_Inr [OF ok])
  then have "remaining d = [b] @ tl (remaining d)" by (cases "remaining d") auto
  with * show "True \<and> d' = advance (length [b]) d \<and> remaining d = [b] @ remaining d'"
    by (simp add: remaining_advance drop_Suc)
qed

interpretation u64_codec: codec put_u64 dec_u64 "\<lambda>_. True"
proof
  fix d :: decoder and w rest
  assume "decoder_ok d" and "remaining d = put_u64 w @ rest"
  then show "dec_u64 d = Inr (w, advance (length (put_u64 w)) d)"
    by (simp add: dec_u64_def dec_take_remaining put_u64_def)
next
  fix d d' :: decoder and w
  assume ok: "decoder_ok d" and "dec_u64 d = Inr (w, d')"
  then have *: "8 \<le> length (remaining d)" "w = of_le_bytes (take 8 (remaining d))" "d' = advance 8 d"
    by (auto simp: dec_u64_def res_map_Inr dest!: dec_take_Inr [OF ok])
  then have "put_u64 w = take 8 (remaining d)"
    by (simp add: put_u64_def le_bytes_of_le_bytes_u64)
  with * show "True \<and> d' = advance (length (put_u64 w)) d \<and> remaining d = put_u64 w @ remaining d'"
    by (simp add: put_u64_def remaining_advance)
qed

lemma length_put_u64 [simp]: "length (put_u64 w) = 8"
  by (simp add: put_u64_def)

interpretation string_codec: codec put_string dec_string valid_string
proof
  fix d :: decoder and s rest
  assume ok: "decoder_ok d" and valid: "valid_string s" and r: "remaining d = put_string s @ rest"
  then have "remaining d = put_u64 (word_of_nat (length s)) @ (as_bytes s @ rest)"
    by (simp add: put_string_def)
  from u64_codec.get_step [OF ok TrueI this] obtain d1 where
    d1: "dec_u64 d = Inr (word_of_nat (length s), d1)" "d1 = advance 8 d" "decoder_ok d1"
      "remaining d1 = as_bytes s @ rest" by auto
  then have "dec_take (length s) d1 = Inr (as_bytes s, advance (length s) d1)"
    by (simp add: dec_take_remaining)
  with d1 valid show "dec_string d = Inr (s, advance (length (put_string s)) d)"
    by (simp add: dec_string_def valid_string_def rust_string_def put_string_def)
next
  fix d d' :: decoder and s
  assume ok: "decoder_ok d" and get: "dec_string d = Inr (s, d')"
  then obtain len d1 bs where
    1: "dec_u64 d = Inr (len, d1)" and 2: "dec_take (unat len) d1 = Inr (bs, d')"
    and 3: "utf8_valid bs" "s = of_bytes bs"
    by (auto simp: dec_string_def res_bind_Inr split: if_splits)
  note d1 = u64_codec.get_ok [OF ok 1]
  then have "decoder_ok d1" by (rule conjunct1)
  from dec_take_Inr [OF this 2] have
    bs: "unat len \<le> length (remaining d1)" "bs = take (unat len) (remaining d1)" "d' = advance (unat len) d1"
    by auto
  then have len: "length s = unat len" using 3 by (simp add: of_bytes_def)
  have "unat len < 2 ^ 64" using unsigned_less [of len, where ?'a = nat] by simp
  with len 3 have "valid_string s"
    by (simp add: valid_string_def rust_string_def small_def)
  moreover have split: "as_bytes s @ remaining d' = remaining d1"
    by (simp add: 3 bs(2,3) remaining_advance)
  have "put_u64 (word_of_nat (length s)) = put_u64 len" by (simp add: len)
  then have "remaining d = put_string s @ remaining d'"
    unfolding put_string_def using d1 by (simp only: append_assoc split)
  moreover have "d' = advance (length (put_string s)) d"
    using d1 bs(3) len by (simp add: put_string_def)
  ultimately show "valid_string s \<and> d' = advance (length (put_string s)) d \<and>
      remaining d = put_string s @ remaining d'" by blast
qed

interpretation atom_codec: codec put_atom dec_atom valid_atom
proof
  fix d :: decoder and a rest
  assume ok: "decoder_ok d" and valid: "valid_atom a" and r: "remaining d = put_atom a @ rest"
  show "dec_atom d = Inr (a, advance (length (put_atom a)) d)"
  proof (cases a)
    case (AEntity e)
    with r byte_codec.get_step [OF ok TrueI, of 0] obtain d1 where
      d1: "dec_byte d = Inr (0, d1)" "d1 = advance 1 d" "decoder_ok d1" "remaining d1 = put_u64 e @ rest"
      by auto
    with u64_codec.get_put [OF d1(3) TrueI d1(4)] AEntity show ?thesis by (simp add: dec_atom_def)
  next
    case (ALiteral l)
    with r byte_codec.get_step [OF ok TrueI, of 1] obtain d1 where
      d1: "dec_byte d = Inr (1, d1)" "d1 = advance 1 d" "decoder_ok d1" "remaining d1 = put_string l @ rest"
      by auto
    with string_codec.get_put [OF d1(3) _ d1(4)] ALiteral valid show ?thesis by (simp add: dec_atom_def)
  qed
next
  fix d d' :: decoder and a
  assume ok: "decoder_ok d" and get: "dec_atom d = Inr (a, d')"
  then obtain tag d1 where 1: "dec_byte d = Inr (tag, d1)"
    and get': "(if tag = 0 then res_map (\<lambda>(e, d2). (AEntity e, d2)) (dec_u64 d1)
     else if tag = 1 then res_map (\<lambda>(s, d2). (ALiteral s, d2)) (dec_string d1)
     else Inl (UnknownAtomTag tag)) = Inr (a, d')"
    by (auto simp: dec_atom_def res_bind_Inr)
  note d1 = byte_codec.get_ok [OF ok 1]
  then have ok1: "decoder_ok d1" by (rule conjunct1)
  from get' consider (entity) e where "tag = 0" "a = AEntity e" "dec_u64 d1 = Inr (e, d')"
    | (literal) s where "tag = 1" "a = ALiteral s" "dec_string d1 = Inr (s, d')"
    by (auto simp: res_map_Inr split: if_splits)
  then show "valid_atom a \<and> d' = advance (length (put_atom a)) d \<and> remaining d = put_atom a @ remaining d'"
  proof cases
    case entity
    with d1 u64_codec.get_ok [OF ok1 entity(3)] show ?thesis by simp
  next
    case literal
    with d1 string_codec.get_ok [OF ok1 literal(3)] show ?thesis by simp
  qed
qed

interpretation operation_codec: codec put_operation dec_operation valid_operation
proof
  fix d :: decoder and x rest
  assume ok: "decoder_ok d" and valid: "valid_operation x" and r: "remaining d = put_operation x @ rest"
  show "dec_operation d = Inr (x, advance (length (put_operation x)) d)"
  proof (cases x)
    case (AllocateEntity e)
    with r byte_codec.get_step [OF ok TrueI, of 0] obtain d1 where
      d1: "dec_byte d = Inr (0, d1)" "d1 = advance 1 d" "decoder_ok d1" "remaining d1 = put_u64 e @ rest"
      by auto
    with u64_codec.get_put [OF d1(3) TrueI d1(4)] AllocateEntity show ?thesis
      by (simp add: dec_operation_def)
  next
    case (Forget slot)
    with r byte_codec.get_step [OF ok TrueI, of 2] obtain d1 where
      d1: "dec_byte d = Inr (2, d1)" "d1 = advance 1 d" "decoder_ok d1" "remaining d1 = put_string slot @ rest"
      by auto
    with string_codec.get_put [OF d1(3) _ d1(4)] Forget valid show ?thesis
      by (simp add: dec_operation_def)
  next
    case (Define slot f)
    with valid have v: "valid_string slot" "valid_atom (subject f)" "valid_string (predicate f)"
      "valid_atom (object f)" by auto
    from Define r byte_codec.get_step [OF ok TrueI, of 1] obtain d1 where
      d1: "dec_byte d = Inr (1, d1)" "d1 = advance 1 d" "decoder_ok d1"
        "remaining d1 = put_string slot @ put_atom (subject f) @ put_string (predicate f) @ put_atom (object f) @ rest"
      by auto
    obtain d2 where
      d2: "dec_string d1 = Inr (slot, d2)" "d2 = advance (length (put_string slot)) d1" "decoder_ok d2"
        "remaining d2 = put_atom (subject f) @ put_string (predicate f) @ put_atom (object f) @ rest"
      using string_codec.get_step [OF d1(3) v(1) d1(4)] by blast
    obtain d3 where
      d3: "dec_atom d2 = Inr (subject f, d3)" "d3 = advance (length (put_atom (subject f))) d2" "decoder_ok d3"
        "remaining d3 = put_string (predicate f) @ put_atom (object f) @ rest"
      using atom_codec.get_step [OF d2(3) v(2) d2(4)] by blast
    obtain d4 where
      d4: "dec_string d3 = Inr (predicate f, d4)" "d4 = advance (length (put_string (predicate f))) d3"
        "decoder_ok d4" "remaining d4 = put_atom (object f) @ rest"
      using string_codec.get_step [OF d3(3) v(3) d3(4)] by blast
    from atom_codec.get_put [OF d4(3) v(4) d4(4)] d1(1,2) d2(1,2) d3(1,2) d4(1,2) Define
    show ?thesis by (simp add: dec_operation_def fact_new_def add.assoc)
  qed
next
  fix d d' :: decoder and x
  assume ok: "decoder_ok d" and get: "dec_operation d = Inr (x, d')"
  then obtain tag d1 where 1: "dec_byte d = Inr (tag, d1)"
    by (auto simp: dec_operation_def res_bind_Inr)
  note d1 = byte_codec.get_ok [OF ok 1]
  then have ok1: "decoder_ok d1" by (rule conjunct1)
  from get 1 consider (allocate) e where "tag = 0" "x = AllocateEntity e" "dec_u64 d1 = Inr (e, d')"
    | (assert) slot s p ob d2 d3 d4 where "tag = 1" "x = Define slot (fact_new s p ob)"
        "dec_string d1 = Inr (slot, d2)" "dec_atom d2 = Inr (s, d3)" "dec_string d3 = Inr (p, d4)"
        "dec_atom d4 = Inr (ob, d')"
    | (forget) slot where "tag = 2" "x = Forget slot" "dec_string d1 = Inr (slot, d')"
    by (fastforce simp: dec_operation_def res_bind_Inr res_map_Inr split: if_splits)
  then show "valid_operation x \<and> d' = advance (length (put_operation x)) d \<and>
      remaining d = put_operation x @ remaining d'"
  proof cases
    case allocate
    with d1 u64_codec.get_ok [OF ok1 allocate(3)] show ?thesis by simp
  next
    case forget
    with d1 string_codec.get_ok [OF ok1 forget(3)] show ?thesis by simp
  next
    case assert
    note d2 = string_codec.get_ok [OF ok1 assert(3)]
    note d3 = atom_codec.get_ok [OF conjunct1 [OF d2] assert(4)]
    note d4 = string_codec.get_ok [OF conjunct1 [OF d3] assert(5)]
    note d5 = atom_codec.get_ok [OF conjunct1 [OF d4] assert(6)]
    from d1 d2 d3 d4 d5 assert(1,2) show ?thesis by (simp add: fact_new_def add.assoc)
  qed
qed

text \<open>The loop over the operations.\<close>

interpretation operations_codec: codec "\<lambda>xs. concat (map put_operation xs)" "dec_operations n"
  "\<lambda>xs. length xs = n \<and> (\<forall>x \<in> set xs. valid_operation x)" for n
proof
  fix d :: decoder and xs rest
  assume "decoder_ok d" and "length xs = n \<and> (\<forall>x \<in> set xs. valid_operation x)"
    and "remaining d = concat (map put_operation xs) @ rest"
  then show "dec_operations n d = Inr (xs, advance (length (concat (map put_operation xs))) d)"
  proof (induction n arbitrary: xs d)
    case 0
    then show ?case by (simp add: advance_def)
  next
    case (Suc n)
    then obtain x ys where xs: "xs = x # ys" by (cases xs) auto
    with Suc.prems operation_codec.get_step [OF Suc.prems(1), of x "concat (map put_operation ys) @ rest"]
    obtain d1 where "dec_operation d = Inr (x, d1)" "d1 = advance (length (put_operation x)) d"
      "decoder_ok d1" "remaining d1 = concat (map put_operation ys) @ rest" by auto
    with Suc.IH [of d1 ys] Suc.prems(2) xs show ?case by simp
  qed
next
  fix d d' :: decoder and xs
  assume "decoder_ok d" and "dec_operations n d = Inr (xs, d')"
  then show "(length xs = n \<and> (\<forall>x \<in> set xs. valid_operation x)) \<and>
      d' = advance (length (concat (map put_operation xs))) d \<and>
      remaining d = concat (map put_operation xs) @ remaining d'"
  proof (induction n arbitrary: xs d)
    case 0
    then show ?case by (simp add: advance_def)
  next
    case (Suc n)
    then obtain x d1 ys where 1: "dec_operation d = Inr (x, d1)" "dec_operations n d1 = Inr (ys, d')"
      "xs = x # ys" by (auto simp: res_bind_Inr res_map_Inr)
    note d1 = operation_codec.get_ok [OF Suc.prems(1) 1(1)]
    from Suc.IH [OF conjunct1 [OF d1] 1(2)] d1 1(3) show ?case by simp
  qed
qed

section \<open>Payloads are canonical\<close>

definition valid_frame :: "commit_frame \<Rightarrow> bool" where
  "valid_frame frame \<longleftrightarrow>
     length (operations frame) \<le> unat MAX_OPERATIONS_PER_FRAME \<and>
     list_all valid_operation (operations frame)"

lemma unat_MAX_OPERATIONS [simp]: "unat MAX_OPERATIONS_PER_FRAME = 1000000"
  by (simp add: MAX_OPERATIONS_PER_FRAME_def)

text \<open>Decoding an encoded payload up to the operation count.\<close>

lemma decode_payload_header:
  fixes frame :: commit_frame
  assumes size: "small (encode_payload frame)"
  defines "cnt \<equiv> word_of_nat (length (operations frame)) :: u64"
  shows "\<exists>d. decoder_ok d \<and> d = advance 48 (decoder_new (encode_payload frame)) \<and>
    remaining d = concat (map put_operation (operations frame)) @ [] \<and>
    decode_payload (encode_payload frame) =
      (if cnt > MAX_OPERATIONS_PER_FRAME then Inl (TooManyOperations cnt) else
       res_bind (dec_operations (unat cnt) d) (\<lambda>(ops, d7). res_map (\<lambda>_. frame\<lparr>operations := ops\<rparr>) (dec_finish d7)))"
proof -
  let ?ops = "concat (map put_operation (operations frame))"
  let ?d = "decoder_new (encode_payload frame)"
  have ok: "decoder_ok ?d" using size by (simp add: decoder_ok_def decoder_new_def small_def)
  have "remaining ?d = encode_payload frame" by (simp add: remaining_def decoder_new_def)
  then have r: "remaining ?d = put_u64 (parent_world frame) @ put_u64 (resulting_world frame) @
     put_u64 (parent_version frame) @ put_u64 (resulting_version frame) @
     put_u64 (resulting_allocator frame) @ put_u64 cnt @ ?ops @ []"
    by (simp add: encode_payload_def cnt_def)
  obtain d1 where d1: "dec_u64 ?d = Inr (parent_world frame, d1)" "decoder_ok d1"
    "remaining d1 = put_u64 (resulting_world frame) @ put_u64 (parent_version frame) @
      put_u64 (resulting_version frame) @ put_u64 (resulting_allocator frame) @ put_u64 cnt @ ?ops @ []"
    "d1 = advance 8 ?d"
    using u64_codec.get_step [OF ok TrueI r] by auto
  obtain d2 where d2: "dec_u64 d1 = Inr (resulting_world frame, d2)" "decoder_ok d2"
    "remaining d2 = put_u64 (parent_version frame) @
      put_u64 (resulting_version frame) @ put_u64 (resulting_allocator frame) @ put_u64 cnt @ ?ops @ []"
    "d2 = advance 8 d1"
    using u64_codec.get_step [OF d1(2) TrueI d1(3)] by auto
  obtain d3 where d3: "dec_u64 d2 = Inr (parent_version frame, d3)" "decoder_ok d3"
    "remaining d3 = put_u64 (resulting_version frame) @ put_u64 (resulting_allocator frame) @
      put_u64 cnt @ ?ops @ []" "d3 = advance 8 d2"
    using u64_codec.get_step [OF d2(2) TrueI d2(3)] by auto
  obtain d4 where d4: "dec_u64 d3 = Inr (resulting_version frame, d4)" "decoder_ok d4"
    "remaining d4 = put_u64 (resulting_allocator frame) @ put_u64 cnt @ ?ops @ []" "d4 = advance 8 d3"
    using u64_codec.get_step [OF d3(2) TrueI d3(3)] by auto
  obtain d5 where d5: "dec_u64 d4 = Inr (resulting_allocator frame, d5)" "decoder_ok d5"
    "remaining d5 = put_u64 cnt @ ?ops @ []" "d5 = advance 8 d4"
    using u64_codec.get_step [OF d4(2) TrueI d4(3)] by auto
  obtain d6 where d6: "dec_u64 d5 = Inr (cnt, d6)" "decoder_ok d6"
    "remaining d6 = ?ops @ []" "d6 = advance 8 d5"
    using u64_codec.get_step [OF d5(2) TrueI d5(3)] by auto
  have "d6 = advance 48 ?d" by (simp add: d6(4) d5(4) d4(4) d3(4) d2(4) d1(4))
  moreover have "\<lparr>parent_world = parent_world frame, resulting_world = resulting_world frame,
      parent_version = parent_version frame, resulting_version = resulting_version frame,
      resulting_allocator = resulting_allocator frame, operations = ops\<rparr> = frame\<lparr>operations := ops\<rparr>" for ops
    by simp
  then have "decode_payload (encode_payload frame) =
      (if cnt > MAX_OPERATIONS_PER_FRAME then Inl (TooManyOperations cnt) else
       res_bind (dec_operations (unat cnt) d6) (\<lambda>(ops, d7). res_map (\<lambda>_. frame\<lparr>operations := ops\<rparr>) (dec_finish d7)))"
    by (simp only: decode_payload_def d1(1) d2(1) d3(1) d4(1) d5(1) d6(1) res_bind.simps prod.case)
  ultimately show ?thesis using d6(2,3) by blast
qed

lemma decode_encode_payload:
  assumes valid: "valid_frame frame" and size: "small (encode_payload frame)"
  shows "decode_payload (encode_payload frame) = Inr frame"
proof -
  let ?n = "length (operations frame)" and ?ops = "concat (map put_operation (operations frame))"
  have n: "unat (word_of_nat ?n :: u64) = ?n" "?n \<le> 1000000"
    using valid by (simp_all add: valid_frame_def unat_of_nat)
  have count: "\<not> (word_of_nat ?n :: u64) > MAX_OPERATIONS_PER_FRAME"
    using n by (simp add: word_less_nat_alt)
  from decode_payload_header [OF size] obtain d where d: "decoder_ok d"
    "d = advance 48 (decoder_new (encode_payload frame))" "remaining d = ?ops @ []"
    "decode_payload (encode_payload frame) =
       res_bind (dec_operations ?n d) (\<lambda>(ops, d7). res_map (\<lambda>_. frame\<lparr>operations := ops\<rparr>) (dec_finish d7))"
    using count n(1) by auto
  obtain d7 where d7: "dec_operations ?n d = Inr (operations frame, d7)" "d7 = advance (length ?ops) d"
    using operations_codec.get_step [OF d(1) _ d(3), of ?n] valid
    by (auto simp: valid_frame_def list_all_iff)
  have "dec_finish d7 = Inr ()"
    by (simp add: d7(2) d(2) dec_finish_def advance_def decoder_new_def encode_payload_def)
  then show ?thesis by (simp add: d(4) d7(1))
qed

lemma decode_too_many_operations:
  assumes "small (encode_payload frame)" and "length (operations frame) > 1000000"
    and "length (operations frame) < 2 ^ 64"
  shows "decode_payload (encode_payload frame) = Inl (TooManyOperations (word_of_nat (length (operations frame))))"
  using decode_payload_header [OF assms(1)] assms(2,3) by (auto simp: word_less_nat_alt unat_of_nat)

lemma decode_payload_canonical:
  assumes size: "small payload" and dec: "decode_payload payload = Inr frame"
  shows "valid_frame frame \<and> payload = encode_payload frame"
proof -
  let ?d = "decoder_new payload"
  have ok: "decoder_ok ?d" using size by (simp add: decoder_ok_def decoder_new_def small_def)
  from dec obtain parent resulting pv rv al count ops d1 d2 d3 d4 d5 d6 d7 where
    g: "dec_u64 ?d = Inr (parent, d1)" "dec_u64 d1 = Inr (resulting, d2)" "dec_u64 d2 = Inr (pv, d3)"
      "dec_u64 d3 = Inr (rv, d4)" "dec_u64 d4 = Inr (al, d5)" "dec_u64 d5 = Inr (count, d6)"
      "\<not> count > MAX_OPERATIONS_PER_FRAME" "dec_operations (unat count) d6 = Inr (ops, d7)" "dec_finish d7 = Inr ()"
    and frame: "frame = \<lparr>parent_world = parent, resulting_world = resulting, parent_version = pv,
        resulting_version = rv, resulting_allocator = al, operations = ops\<rparr>"
    unfolding decode_payload_def by (auto simp: res_bind_Inr res_map_Inr split: if_splits)
  note r1 = u64_codec.get_ok [OF ok g(1)]
  note r2 = u64_codec.get_ok [OF conjunct1 [OF r1] g(2)]
  note r3 = u64_codec.get_ok [OF conjunct1 [OF r2] g(3)]
  note r4 = u64_codec.get_ok [OF conjunct1 [OF r3] g(4)]
  note r5 = u64_codec.get_ok [OF conjunct1 [OF r4] g(5)]
  note r6 = u64_codec.get_ok [OF conjunct1 [OF r5] g(6)]
  note r7 = operations_codec.get_ok [OF conjunct1 [OF r6] g(8)]
  from r7 have ops: "length ops = unat count" "\<forall>x \<in> set ops. valid_operation x" by auto
  from g(9) have "remaining d7 = []"
    by (simp add: dec_finish_def remaining_def split: if_splits)
  moreover have "remaining ?d = payload" by (simp add: remaining_def decoder_new_def)
  moreover have "put_u64 (word_of_nat (length ops)) = put_u64 count" by (simp add: ops(1))
  ultimately have "payload = encode_payload frame"
    using r1 r2 r3 r4 r5 r6 r7 by (simp add: frame encode_payload_def)
  moreover have "unat count \<le> 1000000"
    using g(7) by (simp add: word_less_nat_alt not_less)
  then have "valid_frame frame" using ops by (simp add: frame valid_frame_def list_all_iff)
  ultimately show ?thesis by blast
qed

section \<open>Records and files\<close>

definition FILE_MAGIC :: "byte list" where
  "FILE_MAGIC = as_bytes ''FTHDB001''"

definition FILE_VERSION :: u32 where
  "FILE_VERSION = 1"

definition FILE_FLAGS :: u32 where
  "FILE_FLAGS = 0"

definition FRAME_MAGIC :: "byte list" where
  "FRAME_MAGIC = as_bytes ''FRM1''"

definition FRAME_TRAILER :: "byte list" where
  "FRAME_TRAILER = as_bytes ''END1''"

abbreviation FILE_HEADER_LEN :: nat where "FILE_HEADER_LEN \<equiv> 16"
abbreviation FRAME_PREFIX_LEN :: nat where "FRAME_PREFIX_LEN \<equiv> 20"
abbreviation FRAME_TRAILER_LEN :: nat where "FRAME_TRAILER_LEN \<equiv> 4"

definition file_header :: "byte list" where
  "file_header = FILE_MAGIC @ le_bytes 4 FILE_VERSION @ le_bytes 4 FILE_FLAGS"

definition checksum :: "byte list \<Rightarrow> u64" where
  "checksum bs = foldl (\<lambda>v b. (v XOR ucast b) * fnv_prime) fnv_offset_basis bs"

datatype position_error =
    WrongParent world_id world_id
  | WrongParentVersion u64 u64
  | VersionOverflow
  | WrongResultingVersion u64 u64

datatype corrupt_reason =
    BadFrameMagic
  | PayloadTooLong u64
  | BadTrailer
  | ChecksumMismatch u64 u64
  | InvalidPayload decode_error
  | BadPosition position_error

datatype append_reason = Nonlinear position_error | FrameTooLarge nat

datatype header_error = HeaderIncomplete | HeaderMagic | HeaderFlags u32

text \<open>An operating system error is its error number.\<close>

type_synonym io_error = nat

datatype file_store_error =
    IoError io_error
  | InvalidHeader header_error
  | UnsupportedFormat u32
  | CorruptFrame nat corrupt_reason
  | NonLinearAppend append_reason
  | HistoryError candidate_error

definition encode_record :: "commit_frame \<Rightarrow> file_store_error + byte list" where
  "encode_record frame =
     (let payload = encode_payload frame
      in if length payload > MAX_FRAME_BYTES
         then Inl (NonLinearAppend (FrameTooLarge (length payload)))
         else Inr (FRAME_MAGIC @ le_bytes 8 (word_of_nat (length payload) :: u64) @
                   le_bytes 8 (checksum payload) @ payload @ FRAME_TRAILER))"

text \<open>The position of the next frame, and the checks that \<open>validate_append\<close> and
  \<open>validate_decoded_position\<close> make on it.\<close>

definition expected_tip :: "commit_frame list \<Rightarrow> world_id \<times> u64" where
  "expected_tip frames =
     (if frames = [] then (GENESIS, 0)
      else (resulting_world (last frames), resulting_version (last frames)))"

definition check_position :: "commit_frame list \<Rightarrow> commit_frame \<Rightarrow> position_error + unit" where
  "check_position frames frame =
     (let (parent, version) = expected_tip frames
      in if parent_world frame \<noteq> parent then Inl (WrongParent parent (parent_world frame))
         else if parent_version frame \<noteq> version then Inl (WrongParentVersion version (parent_version frame))
         else case checked_add_u64 version 1 of
             None \<Rightarrow> Inl VersionOverflow
           | Some next \<Rightarrow>
               if resulting_version frame \<noteq> next
               then Inl (WrongResultingVersion next (resulting_version frame)) else Inr ())"

definition validate_decoded_position ::
  "commit_frame list \<Rightarrow> commit_frame \<Rightarrow> nat \<Rightarrow> file_store_error + unit" where
  "validate_decoded_position frames frame offset =
     res_map_err (\<lambda>e. CorruptFrame offset (BadPosition e)) (check_position frames frame)"

definition slice :: "byte list \<Rightarrow> nat \<Rightarrow> nat \<Rightarrow> byte list" where
  "slice bytes from len = take len (drop from bytes)"

text \<open>
  The loop of \<open>decode_file\<close>.  After the length check the record length is at most
  \<open>MAX_FRAME_BYTES + 24\<close>, so the checked conversions and additions of the code cannot fail.
\<close>

function decode_frames ::
  "byte list \<Rightarrow> nat \<Rightarrow> commit_frame list \<Rightarrow> nat \<Rightarrow> file_store_error + (commit_frame list \<times> nat)" where
  "decode_frames bytes offset frames last_good =
     (if offset \<ge> length bytes then Inr (frames, last_good)
      else let avail = length bytes - offset
      in if avail < FRAME_PREFIX_LEN then Inr (frames, last_good)
      else if slice bytes offset 4 \<noteq> FRAME_MAGIC then Inl (CorruptFrame offset BadFrameMagic)
      else let payload_len = (of_le_bytes (slice bytes (offset + 4) 8) :: u64)
      in if unat payload_len > MAX_FRAME_BYTES then Inl (CorruptFrame offset (PayloadTooLong payload_len))
      else let total = FRAME_PREFIX_LEN + unat payload_len + FRAME_TRAILER_LEN
      in if avail < total then Inr (frames, last_good)
      else let expected = of_le_bytes (slice bytes (offset + 12) 8);
               payload = slice bytes (offset + FRAME_PREFIX_LEN) (unat payload_len)
      in if slice bytes (offset + FRAME_PREFIX_LEN + unat payload_len) FRAME_TRAILER_LEN \<noteq> FRAME_TRAILER
         then Inl (CorruptFrame offset BadTrailer)
      else if checksum payload \<noteq> expected
         then Inl (CorruptFrame offset (ChecksumMismatch expected (checksum payload)))
      else case decode_payload payload of
          Inl e \<Rightarrow> Inl (CorruptFrame offset (InvalidPayload e))
        | Inr frame \<Rightarrow>
            (case validate_decoded_position frames frame offset of
               Inl e \<Rightarrow> Inl e
             | Inr _ \<Rightarrow> decode_frames bytes (offset + total) (frames @ [frame]) (offset + total)))"
  by pat_completeness auto
termination
  by (relation "measure (\<lambda>(bytes, offset, _). length bytes - offset)") auto

declare decode_frames.simps [simp del]

definition decode_file :: "byte list \<Rightarrow> file_store_error + (commit_frame list \<times> nat)" where
  "decode_file bytes =
     (if length bytes < FILE_HEADER_LEN then Inl (InvalidHeader HeaderIncomplete)
      else if slice bytes 0 8 \<noteq> FILE_MAGIC then Inl (InvalidHeader HeaderMagic)
      else let version = of_le_bytes (slice bytes 8 4)
      in if version \<noteq> FILE_VERSION then Inl (UnsupportedFormat version)
      else let flags = (of_le_bytes (slice bytes 12 4) :: u32)
      in if flags \<noteq> FILE_FLAGS then Inl (InvalidHeader (HeaderFlags flags))
      else decode_frames bytes FILE_HEADER_LEN [] FILE_HEADER_LEN)"

end
