(* ===== verification/Log_File.thy ===== *)
theory Log_File
  imports Frame_Codec "HOL-Library.Sublist"
begin

text \<open>
  What the file format of the commit log guarantees (\<open>decode_file\<close> and \<open>encode_record\<close> of
  \<open>file_store.rs\<close>).  A log is a header followed by the records of a linear sequence of frames;
  the lemmas show how the decoding loop passes a complete record, stops at an incomplete one and
  refuses a damaged one, and that a log which decodes is the canonical encoding of its frames up
  to an incomplete tail.
\<close>

section \<open>Linear histories\<close>

fun linear_from :: "commit_frame list \<Rightarrow> commit_frame list \<Rightarrow> bool" where
  "linear_from before [] = True"
| "linear_from before (f # fs) \<longleftrightarrow> check_position before f = Inr () \<and> linear_from (before @ [f]) fs"

definition linear :: "commit_frame list \<Rightarrow> bool" where
  "linear fs = linear_from [] fs"

lemma linear_from_append:
  "linear_from before (fs @ gs) \<longleftrightarrow> linear_from before fs \<and> linear_from (before @ fs) gs"
  by (induction fs arbitrary: before) auto

lemma linear_snoc: "linear (fs @ [f]) \<longleftrightarrow> linear fs \<and> check_position fs f = Inr ()"
  by (simp add: linear_def linear_from_append)

section \<open>Records\<close>

definition encodable :: "commit_frame \<Rightarrow> bool" where
  "encodable f \<longleftrightarrow> valid_frame f \<and> length (encode_payload f) \<le> MAX_FRAME_BYTES"

definition frame_record :: "commit_frame \<Rightarrow> byte list" where
  "frame_record f =
     FRAME_MAGIC @ le_bytes 8 (word_of_nat (length (encode_payload f)) :: u64) @
     le_bytes 8 (checksum (encode_payload f)) @ encode_payload f @ FRAME_TRAILER"

definition records :: "commit_frame list \<Rightarrow> byte list" where
  "records fs = concat (map frame_record fs)"

lemma records_simps [simp]:
  "records [] = []" "records (f # fs) = frame_record f @ records fs" "records (fs @ gs) = records fs @ records gs"
  by (simp_all add: records_def)

lemma encode_record_encodable: "encodable f \<Longrightarrow> encode_record f = Inr (frame_record f)"
  by (simp add: encode_record_def encodable_def frame_record_def Let_def)

lemma length_magics [simp]: "length FRAME_MAGIC = 4" "length FRAME_TRAILER = 4" "length file_header = 16"
  by (simp_all add: FRAME_MAGIC_def FRAME_TRAILER_def file_header_def FILE_MAGIC_def)

lemma length_frame_record: "length (frame_record f) = 24 + length (encode_payload f)"
  by (simp add: frame_record_def)

lemma checksum_fnv: "checksum bs = fnv_bytes fnv_offset_basis bs"
  by (simp add: checksum_def fnv_bytes_def fnv_byte_def [abs_def])

lemma MAX_FRAME_BYTES_u64: "n \<le> MAX_FRAME_BYTES \<Longrightarrow> unat (word_of_nat n :: u64) = n"
  by (simp add: MAX_FRAME_BYTES_def unat_of_nat)

lemma MAX_FRAME_BYTES_small: "length xs \<le> MAX_FRAME_BYTES \<Longrightarrow> small xs"
  by (simp add: MAX_FRAME_BYTES_def small_def)

text \<open>One step of the loop over bytes laid out like a record.\<close>

definition raw_record :: "byte list \<Rightarrow> u64 \<Rightarrow> byte list \<Rightarrow> byte list \<Rightarrow> byte list" where
  "raw_record magic csum payload trailer =
     magic @ le_bytes 8 (word_of_nat (length payload) :: u64) @ le_bytes 8 csum @ payload @ trailer"

lemma frame_record_raw:
  "frame_record f = raw_record FRAME_MAGIC (checksum (encode_payload f)) (encode_payload f) FRAME_TRAILER"
  by (simp add: frame_record_def raw_record_def)

lemma length_raw_record [simp]:
  "length (raw_record magic csum payload trailer) = length magic + 16 + length payload + length trailer"
  by (simp add: raw_record_def)

lemma raw_record_slices:
  fixes pre post payload :: "byte list" and csum :: u64
  assumes "length magic = 4" and "length trailer = 4"
  defines "bytes \<equiv> pre @ raw_record magic csum payload trailer @ post"
  shows "slice bytes (length pre) 4 = magic"
    and "slice bytes (length pre + 4) 8 = le_bytes 8 (word_of_nat (length payload) :: u64)"
    and "slice bytes (length pre + 12) 8 = le_bytes 8 csum"
    and "slice bytes (length pre + 20) (length payload) = payload"
    and "slice bytes (length pre + 20 + length payload) 4 = trailer"
  using assms(1,2) by (simp_all add: bytes_def slice_def raw_record_def)

lemma decode_raw_record:
  fixes pre post payload :: "byte list"
  assumes "length magic = 4" and "length trailer = 4" and "length payload \<le> MAX_FRAME_BYTES"
  shows "decode_frames (pre @ raw_record magic csum payload trailer @ post) (length pre) frames good =
    (if magic \<noteq> FRAME_MAGIC then Inl (CorruptFrame (length pre) BadFrameMagic)
     else if trailer \<noteq> FRAME_TRAILER then Inl (CorruptFrame (length pre) BadTrailer)
     else if checksum payload \<noteq> csum
       then Inl (CorruptFrame (length pre) (ChecksumMismatch csum (checksum payload)))
     else case decode_payload payload of
         Inl e \<Rightarrow> Inl (CorruptFrame (length pre) (InvalidPayload e))
       | Inr frame \<Rightarrow>
           (case check_position frames frame of
              Inl e \<Rightarrow> Inl (CorruptFrame (length pre) (BadPosition e))
            | Inr _ \<Rightarrow>
                decode_frames (pre @ raw_record magic csum payload trailer @ post)
                  (length pre + 24 + length payload) (frames @ [frame]) (length pre + 24 + length payload)))"
proof -
  define bytes where "bytes = pre @ raw_record magic csum payload trailer @ post"
  note slices = raw_record_slices [OF assms(1,2), of pre csum payload post, folded bytes_def]
  have len: "length bytes = length pre + 24 + length payload + length post"
    using assms(1,2) by (simp add: bytes_def)
  have n: "unat (word_of_nat (length payload) :: u64) = length payload"
    using assms(3) by (rule MAX_FRAME_BYTES_u64)
  show ?thesis
    unfolding bytes_def [symmetric]
    by (subst decode_frames.simps, cases "decode_payload payload"; cases "check_position frames (projr (decode_payload payload))")
      (use assms(3) in \<open>simp_all add: Let_def n slices slices [unfolded add.assoc] len validate_decoded_position_def add.assoc\<close>)
qed

text \<open>A complete record is passed, an incomplete one ends the loop.\<close>

lemma decode_frame_record:
  fixes pre post :: "byte list"
  assumes "encodable f"
  shows "decode_frames (pre @ frame_record f @ post) (length pre) frames good =
    (case check_position frames f of
       Inl e \<Rightarrow> Inl (CorruptFrame (length pre) (BadPosition e))
     | Inr _ \<Rightarrow> decode_frames (pre @ frame_record f @ post) (length (pre @ frame_record f))
         (frames @ [f]) (length (pre @ frame_record f)))"
proof -
  from assms have "decode_payload (encode_payload f) = Inr f"
    by (simp add: encodable_def decode_encode_payload MAX_FRAME_BYTES_small)
  with assms show ?thesis
    unfolding frame_record_raw
    by (cases "check_position frames f") (simp_all add: decode_raw_record encodable_def add.assoc)
qed

lemma decode_torn_record:
  fixes pre :: "byte list"
  assumes "encodable f" and k: "k < length (frame_record f)"
  shows "decode_frames (pre @ take k (frame_record f)) (length pre) frames good = Inr (frames, good)"
proof (cases "k < 20")
  case True
  then show ?thesis using k by (subst decode_frames.simps) (auto simp: Let_def)
next
  case False
  let ?p = "encode_payload f" and ?bytes = "pre @ take k (frame_record f)"
  from assms(1) have len: "length ?p \<le> MAX_FRAME_BYTES" by (simp add: encodable_def)
  have "take k (frame_record f) = FRAME_MAGIC @ le_bytes 8 (word_of_nat (length ?p) :: u64) @
      le_bytes 8 (checksum ?p) @ take (k - 20) (?p @ FRAME_TRAILER)"
    using False by (simp add: frame_record_def)
  then have "slice ?bytes (length pre) 4 = FRAME_MAGIC"
    and "slice ?bytes (length pre + 4) 8 = le_bytes 8 (word_of_nat (length ?p) :: u64)"
    by (simp_all add: slice_def)
  then show ?thesis
    using k False len
    by (subst decode_frames.simps) (simp add: Let_def MAX_FRAME_BYTES_u64 length_frame_record)
qed

lemma decode_records:
  fixes pre post :: "byte list"
  assumes "\<forall>f \<in> set fs. encodable f" and "linear_from before fs"
  shows "decode_frames (pre @ records fs @ post) (length pre) before (length pre) =
    decode_frames (pre @ records fs @ post) (length (pre @ records fs)) (before @ fs) (length (pre @ records fs))"
  using assms
proof (induction fs arbitrary: pre before)
  case (Cons f fs)
  have "decode_frames (pre @ frame_record f @ (records fs @ post)) (length pre) before (length pre) =
      decode_frames ((pre @ frame_record f) @ records fs @ post) (length (pre @ frame_record f))
        (before @ [f]) (length (pre @ frame_record f))"
    using Cons.prems by (subst decode_frame_record) simp_all
  also have "\<dots> = decode_frames ((pre @ frame_record f) @ records fs @ post)
      (length ((pre @ frame_record f) @ records fs)) ((before @ [f]) @ fs) (length ((pre @ frame_record f) @ records fs))"
    by (rule Cons.IH) (use Cons.prems in auto)
  finally show ?case by (simp add: add.assoc)
qed simp

section \<open>Files\<close>

lemma header_slices:
  "slice (file_header @ rest) 0 8 = FILE_MAGIC"
  "of_le_bytes (slice (file_header @ rest) 8 4) = FILE_VERSION"
  "of_le_bytes (slice (file_header @ rest) 12 4) = FILE_FLAGS"
  by (simp_all add: slice_def file_header_def FILE_MAGIC_def)

lemma decode_file_header: "decode_file (file_header @ rest) = decode_frames (file_header @ rest) 16 [] 16"
  by (simp add: decode_file_def header_slices Let_def)

lemma decode_file_records:
  assumes "\<forall>f \<in> set fs. encodable f" and "linear fs"
  shows "decode_file (file_header @ records fs @ post) =
    decode_frames (file_header @ records fs @ post) (16 + length (records fs)) fs (16 + length (records fs))"
  using decode_records [OF assms(1), of "[]" file_header post] assms(2)
  by (simp add: decode_file_header linear_def)

lemma decode_frames_end: "length bytes \<le> offset \<Longrightarrow> decode_frames bytes offset frames good = Inr (frames, good)"
  by (subst decode_frames.simps) simp

lemma decode_file_roundtrip:
  assumes "\<forall>f \<in> set fs. encodable f" and "linear fs"
  shows "decode_file (file_header @ records fs) = Inr (fs, length (file_header @ records fs))"
  using decode_file_records [OF assms, of "[]"] by (simp add: decode_frames_end)

lemma decode_file_torn:
  assumes "\<forall>f \<in> set fs. encodable f" and "linear fs" and "encodable f" and "k < length (frame_record f)"
  shows "decode_file (file_header @ records fs @ take k (frame_record f)) =
    Inr (fs, length (file_header @ records fs))"
  using decode_file_records [OF assms(1,2), of "take k (frame_record f)"]
    decode_torn_record [OF assms(3,4), of "file_header @ records fs"]
  by simp

section \<open>What decodes is canonical\<close>

lemma drop_slice: "drop i bs = slice bs i n @ drop (i + n) bs"
  by (simp add: slice_def add.commute [of i n] append_take_drop_id flip: drop_drop)

lemma length_slice: "i + n \<le> length bs \<Longrightarrow> length (slice bs i n) = n"
  by (simp add: slice_def)

text \<open>The checks of the loop pin down every byte of the record that it passes.\<close>

lemma record_of_slices:
  assumes magic: "slice bytes offset 4 = FRAME_MAGIC"
    and len: "unat (of_le_bytes (slice bytes (offset + 4) 8) :: u64) = n"
    and fits: "offset + (20 + n + 4) \<le> length bytes"
    and trailer: "slice bytes (offset + 20 + n) 4 = FRAME_TRAILER"
    and sum: "checksum (slice bytes (offset + 20) n) = of_le_bytes (slice bytes (offset + 12) 8)"
    and payload: "slice bytes (offset + 20) n = encode_payload frame"
  shows "drop offset bytes = frame_record frame @ drop (offset + (20 + n + 4)) bytes"
proof -
  have n: "length (encode_payload frame) = n"
    using length_slice [of "offset + 20" n bytes] fits payload by simp
  have "word_of_nat n = (of_le_bytes (slice bytes (offset + 4) 8) :: u64)"
    by (simp flip: len)
  then have 1: "slice bytes (offset + 4) 8 = le_bytes 8 (word_of_nat n :: u64)"
    using fits by (simp add: length_slice)
  have 2: "slice bytes (offset + 12) 8 = le_bytes 8 (checksum (encode_payload frame))"
    using fits sum payload by (simp add: length_slice)
  have "drop offset bytes = slice bytes offset 4 @ slice bytes (offset + 4) 8 @ slice bytes (offset + 12) 8 @
      slice bytes (offset + 20) n @ slice bytes (offset + 20 + n) 4 @ drop (offset + (20 + n + 4)) bytes"
    using drop_slice [of offset bytes 4] drop_slice [of "offset + 4" bytes 8]
      drop_slice [of "offset + 12" bytes 8] drop_slice [of "offset + 20" bytes n]
      drop_slice [of "offset + 20 + n" bytes 4]
    by (simp add: add.assoc)
  then show ?thesis
    by (simp only: magic 1 2 payload trailer frame_record_def n append_assoc)
qed

lemma decode_frames_sound:
  "decode_frames bytes offset frames good = Inr (fs, e) \<Longrightarrow> good = offset \<Longrightarrow> offset \<le> length bytes \<Longrightarrow>
   \<exists>new. fs = frames @ new \<and> e = offset + length (records new) \<and> e \<le> length bytes \<and>
     drop offset bytes = records new @ drop e bytes \<and>
     (\<forall>f \<in> set new. encodable f) \<and> linear_from frames new"
proof (induction bytes offset frames good rule: decode_frames.induct)
  case (1 bytes offset frames good)
  let ?done = "fs = frames \<and> e = offset"
  let ?plen = "of_le_bytes (slice bytes (offset + 4) 8) :: u64"
  let ?payload = "slice bytes (offset + 20) (unat ?plen)" and ?next = "offset + (20 + unat ?plen + 4)"
  show ?case
  proof (cases ?done)
    case True
    then show ?thesis using "1.prems" by (intro exI [of _ "[]"]) auto
  next
    case False
    have step: "offset < length bytes" "\<not> length bytes - offset < 20" "slice bytes offset 4 = FRAME_MAGIC"
      "unat ?plen \<le> MAX_FRAME_BYTES" "\<not> length bytes - offset < 20 + unat ?plen + 4"
      "slice bytes (offset + 20 + unat ?plen) 4 = FRAME_TRAILER"
      "checksum ?payload = of_le_bytes (slice bytes (offset + 12) 8)"
      "\<exists>frame. decode_payload ?payload = Inr frame \<and> check_position frames frame = Inr () \<and>
         decode_frames bytes ?next (frames @ [frame]) ?next = Inr (fs, e)"
      using "1.prems"(1,2) False
      by (subst (asm) decode_frames.simps;
          auto simp: Let_def validate_decoded_position_def split: if_splits sum.splits)+
    then obtain frame where frame: "decode_payload ?payload = Inr frame" "check_position frames frame = Inr ()"
      "decode_frames bytes ?next (frames @ [frame]) ?next = Inr (fs, e)" by blast
    have fits: "?next \<le> length bytes" using step(1,5) by simp
    then have "length ?payload = unat ?plen" by (simp add: length_slice)
    with step(4) have size: "length ?payload \<le> MAX_FRAME_BYTES" by simp
    from decode_payload_canonical [OF MAX_FRAME_BYTES_small [OF size] frame(1)]
    have canon: "valid_frame frame" "?payload = encode_payload frame" by auto
    have rec: "drop offset bytes = frame_record frame @ drop ?next bytes"
      by (rule record_of_slices) (use step fits canon in simp_all)
    from canon size have enc: "encodable frame" by (simp add: encodable_def)
    have len: "?next = offset + length (frame_record frame)"
      using \<open>length ?payload = unat ?plen\<close> canon by (simp add: length_frame_record)
    have "\<exists>new. fs = (frames @ [frame]) @ new \<and> e = ?next + length (records new) \<and> e \<le> length bytes \<and>
       drop ?next bytes = records new @ drop e bytes \<and>
       (\<forall>f \<in> set new. encodable f) \<and> linear_from (frames @ [frame]) new"
      by (rule "1.IH") (use step frame fits in \<open>simp_all add: validate_decoded_position_def\<close>)
    then obtain new where "fs = (frames @ [frame]) @ new" "e = ?next + length (records new)" "e \<le> length bytes"
      "drop ?next bytes = records new @ drop e bytes" "\<forall>f \<in> set new. encodable f"
      "linear_from (frames @ [frame]) new" by blast
    with rec enc len frame(2) show ?thesis
      by (intro exI [of _ "frame # new"]) simp
  qed
qed

lemma decode_file_sound:
  assumes "decode_file bytes = Inr (fs, e)"
  shows "\<exists>tail. bytes = file_header @ records fs @ tail \<and> e = length (file_header @ records fs) \<and>
    (\<forall>f \<in> set fs. encodable f) \<and> linear fs"
proof -
  have h: "16 \<le> length bytes" "slice bytes 0 8 = FILE_MAGIC" "of_le_bytes (slice bytes 8 4) = FILE_VERSION"
    "of_le_bytes (slice bytes 12 4) = FILE_FLAGS"
    "decode_frames bytes 16 [] 16 = Inr (fs, e)"
    using assms by (auto simp: decode_file_def Let_def split: if_splits)
  have "slice bytes 8 4 = le_bytes 4 FILE_VERSION" "slice bytes 12 4 = le_bytes 4 FILE_FLAGS"
    using h(1) by (simp_all add: length_slice flip: h(3,4))
  then have "bytes = file_header @ drop 16 bytes"
    using drop_slice [of 0 bytes 8] drop_slice [of 8 bytes 4] drop_slice [of 12 bytes 4] h(2)
    by (simp add: file_header_def)
  moreover from decode_frames_sound [OF h(5) refl h(1)] have
    "e = 16 + length (records fs)" "drop 16 bytes = records fs @ drop e bytes"
    "\<forall>f \<in> set fs. encodable f" "linear_from [] fs" by auto
  ultimately show ?thesis
    by (intro exI [of _ "drop e bytes"]) (simp add: linear_def)
qed

section \<open>Truncation at any byte\<close>

lemma split_records:
  "k < length (records fs) \<Longrightarrow>
   \<exists>gs f hs j. fs = gs @ f # hs \<and> k = length (records gs) + j \<and> j < length (frame_record f)"
proof (induction fs arbitrary: k)
  case (Cons f fs)
  show ?case
  proof (cases "k < length (frame_record f)")
    case True
    then show ?thesis by (intro exI [of _ "[]"] exI [of _ f] exI [of _ fs] exI [of _ k]) simp
  next
    case False
    then have "k - length (frame_record f) < length (records fs)" using Cons.prems by simp
    from Cons.IH [OF this] obtain gs g hs j where
      "fs = gs @ g # hs" "k - length (frame_record f) = length (records gs) + j" "j < length (frame_record g)"
      by blast
    with False show ?thesis
      by (intro exI [of _ "f # gs"] exI [of _ g] exI [of _ hs] exI [of _ j]) simp
  qed
qed simp

lemma linear_appendD: "linear (gs @ hs) \<Longrightarrow> linear gs"
  by (simp add: linear_def linear_from_append)

section \<open>Properties\<close>

definition sample_frame :: commit_frame where
  "sample_frame =
     \<lparr>parent_world = GENESIS, resulting_world = 7, parent_version = 0, resulting_version = 1,
      resulting_allocator = 2,
      operations = [AllocateEntity 1, Define ''s'' (fact_new (AEntity 1) ''p'' (ALiteral ''x'')), Forget ''s'']\<rparr>"

lemma sample_frame_facts:
  "valid_frame sample_frame" "length (encode_payload sample_frame) = 105" "small (encode_payload sample_frame)"
  "encodable sample_frame" "check_position [] sample_frame = Inr ()" "linear [sample_frame]"
proof -
  have ascii: "rust_string ''s''" "rust_string ''p''" "rust_string ''x''"
    by (simp_all add: rust_string_def as_bytes_def byte_of_char_def utf8_valid_ascii)
  show valid: "valid_frame sample_frame"
    by (simp add: valid_frame_def sample_frame_def valid_string_def small_def fact_new_def ascii)
  show len: "length (encode_payload sample_frame) = 105"
    by (simp add: encode_payload_def sample_frame_def put_string_def fact_new_def)
  then show "small (encode_payload sample_frame)" by (simp add: small_def)
  show "encodable sample_frame" using valid len by (simp add: encodable_def MAX_FRAME_BYTES_def)
  show pos: "check_position [] sample_frame = Inr ()"
    by (simp add: check_position_def expected_tip_def sample_frame_def checked_add_u64_def)
  then show "linear [sample_frame]" by (simp add: linear_def)
qed

text \<open>
  C10. The payload format is exact: decoding accepts the bytes of valid frames (UTF-8 strings, at
  most a million operations) and nothing else, and returns the frame that was encoded.
\<close>

theorem payload_codec_exact:
  assumes "small bytes"
  shows "decode_payload bytes = Inr frame \<longleftrightarrow> valid_frame frame \<and> bytes = encode_payload frame"
  using assms decode_encode_payload decode_payload_canonical by blast

theorem payload_codec_exact_witness:
  "decode_payload (encode_payload sample_frame) = Inr sample_frame"
  using payload_codec_exact [OF sample_frame_facts(3), of sample_frame] sample_frame_facts(1) by simp

lemma log_truncation:
  assumes "\<forall>f \<in> set fs. encodable f" and "linear fs" and "16 \<le> n"
  shows "\<exists>m \<le> length fs.
    decode_file (take n (file_header @ records fs)) = Inr (take m fs, length (file_header @ records (take m fs))) \<and>
    length (file_header @ records (take m fs)) \<le> max 16 n \<and>
    (m < length fs \<longrightarrow> n < length (file_header @ records (take (Suc m) fs)))"
proof (cases "n < length (file_header @ records fs)")
  case False
  with assms(3) decode_file_roundtrip [OF assms(1,2)] show ?thesis
    by (intro exI [of _ "length fs"]) simp
next
  case True
  then have "n - 16 < length (records fs)" using assms(3) by simp
  from split_records [OF this] obtain gs f hs j where
    fs: "fs = gs @ f # hs" "n - 16 = length (records gs) + j" "j < length (frame_record f)" by blast
  then have "take n (file_header @ records fs) = file_header @ records gs @ take j (frame_record f)"
    using assms(3) by simp
  moreover have "decode_file (file_header @ records gs @ take j (frame_record f)) =
      Inr (gs, length (file_header @ records gs))"
    by (rule decode_file_torn) (use assms fs linear_appendD in auto)
  moreover have "n = 16 + length (records gs) + j" using fs(2) assms(3) by simp
  ultimately show ?thesis
    using fs(1,3) by (intro exI [of _ "length gs"]) simp
qed

text \<open>
  C4. A log that is cut at any byte after its header is recovered: decoding returns exactly the
  frames whose records survived complete, and the offset where the last of them ends.
\<close>

theorem log_truncation_recovers:
  assumes "\<forall>f \<in> set fs. encodable f" and "linear fs" and "16 \<le> n"
  shows "\<exists>m \<le> length fs.
    decode_file (take n (file_header @ records fs)) = Inr (take m fs, length (file_header @ records (take m fs))) \<and>
    length (file_header @ records (take m fs)) \<le> max 16 n \<and>
    (m < length fs \<longrightarrow> n < length (file_header @ records (take (Suc m) fs)))"
  by (rule log_truncation [OF assms])

theorem log_truncation_recovers_witness:
  "\<exists>m \<le> 1. decode_file (take 40 (file_header @ records [sample_frame])) =
     Inr (take m [sample_frame], length (file_header @ records (take m [sample_frame]))) \<and>
     (m < 1 \<longrightarrow> 40 < length (file_header @ records (take (Suc m) [sample_frame])))"
  using log_truncation_recovers [of "[sample_frame]" 40] sample_frame_facts by fastforce

text \<open>
  C11. Whatever decodes is a canonical log: the accepted part of the file consists of the header
  and the records of the returned frames, byte for byte, and the frames form a linear history.
\<close>

theorem log_decode_canonical:
  assumes "decode_file bytes = Inr (fs, good)"
  shows "take good bytes = file_header @ records fs \<and> good \<le> length bytes \<and>
    (\<forall>f \<in> set fs. encodable f) \<and> linear fs"
  using decode_file_sound [OF assms] by auto

theorem log_decode_canonical_witness:
  "linear [sample_frame] \<and>
   take (length (file_header @ records [sample_frame])) (file_header @ records [sample_frame]) =
     file_header @ records [sample_frame]"
proof -
  have "decode_file (file_header @ records [sample_frame]) =
      Inr ([sample_frame], length (file_header @ records [sample_frame]))"
    by (rule decode_file_roundtrip) (simp_all add: sample_frame_facts)
  from log_decode_canonical [OF this] show ?thesis by blast
qed

text \<open>
  C12. Damage to one byte of a stored payload is always detected: the log is refused at that
  record, whatever precedes and follows it.
\<close>

theorem log_detects_damaged_byte:
  assumes "\<forall>f \<in> set fs. encodable f" and "linear fs" and "encodable f"
    and "encode_payload f = xs @ b # ys" and "b' \<noteq> b"
  shows "decode_file (file_header @ records fs @
      raw_record FRAME_MAGIC (checksum (encode_payload f)) (xs @ b' # ys) FRAME_TRAILER @ rest) =
    Inl (CorruptFrame (length (file_header @ records fs))
      (ChecksumMismatch (checksum (encode_payload f)) (checksum (xs @ b' # ys))))"
proof -
  let ?r = "raw_record FRAME_MAGIC (checksum (encode_payload f)) (xs @ b' # ys) FRAME_TRAILER"
  have "checksum (xs @ b' # ys) \<noteq> checksum (encode_payload f)"
    using assms(4,5) fnv_bytes_one_byte [of fnv_offset_basis xs b' ys b] by (simp add: checksum_fnv)
  moreover have "length (xs @ b' # ys) \<le> MAX_FRAME_BYTES"
    using assms(3,4) by (simp add: encodable_def)
  ultimately have "decode_frames ((file_header @ records fs) @ ?r @ rest) (length (file_header @ records fs)) fs good =
      Inl (CorruptFrame (length (file_header @ records fs))
        (ChecksumMismatch (checksum (encode_payload f)) (checksum (xs @ b' # ys))))" for good
    by (simp only: decode_raw_record length_magics if_False simp_thms) simp
  then show ?thesis
    using decode_file_records [OF assms(1,2), of "?r @ rest"] by simp
qed

theorem log_detects_damaged_byte_witness:
  "\<exists>e. decode_file (file_header @
      raw_record FRAME_MAGIC (checksum (encode_payload sample_frame))
        ((hd (encode_payload sample_frame) + 1) # tl (encode_payload sample_frame)) FRAME_TRAILER) =
    Inl (CorruptFrame 16 e)"
proof -
  have "encode_payload sample_frame = [] @ hd (encode_payload sample_frame) # tl (encode_payload sample_frame)"
    using sample_frame_facts(2) by (cases "encode_payload sample_frame") auto
  from log_detects_damaged_byte [OF _ _ sample_frame_facts(4) this, of "[]" "hd (encode_payload sample_frame) + 1" "[]"]
  show ?thesis by (simp add: linear_def)
qed

end
