(* ===== verification/Kernel_Interface.thy ===== *)
theory Kernel_Interface
  imports Kernel
begin

text \<open>
  What the world layer uses of a kernel.  The crate \<open>forthdb-world\<close> is linked against
  \<open>forthdb_core::ForthDb\<close>, a kernel whose containers come from third-party persistent maps; the
  world layer calls nothing of it but the operations of the record \<open>kernel_ops\<close>, which the
  definitions of the world layer take as an argument.  The locale \<open>kernel\<close> is their contract: an
  invariant, an abstraction to the stacks of \<open>kernel_spec\<close>, and every operation determined by the
  abstraction and free of panics.  It is interpreted on the reference kernel of the same crate.
\<close>

record 'k kernel_ops =
  k_new :: 'k
  k_entity :: "'k \<Rightarrow> entity_id \<times> 'k"
  k_define :: "slot_id \<Rightarrow> fact \<Rightarrow> 'k \<Rightarrow> (record_id \<times> 'k) option"
  k_forget :: "slot_id \<Rightarrow> 'k \<Rightarrow> (record_id \<times> 'k) option"
  k_resolve :: "slot_id \<Rightarrow> 'k \<Rightarrow> fact option option"
  k_definitions :: "slot_id \<Rightarrow> 'k \<Rightarrow> fact list option"
  k_query :: "pattern list \<Rightarrow> query_options \<Rightarrow> 'k \<Rightarrow> query_result option"
  k_active_slot_count :: "'k \<Rightarrow> nat"
  k_record_count :: "'k \<Rightarrow> nat"
  k_validate :: "'k \<Rightarrow> (string + unit) option"

definition top_facts :: "kernel_spec \<Rightarrow> fact multiset" where
  "top_facts s = image_mset (\<lambda>slot. hd (spec_stacks s slot)) (mset_set {slot. spec_stacks s slot \<noteq> []})"

locale kernel =
  fixes K :: "'k kernel_ops"
    and kinv :: "'k \<Rightarrow> bool"
    and kabs :: "'k \<Rightarrow> kernel_spec"
  assumes new_inv: "kinv (k_new K)"
    and new_abs: "kabs (k_new K) = spec_new"
    and entity: "kinv k \<Longrightarrow> \<exists>k'. k_entity K k = (spec_next_entity (kabs k), k') \<and> kinv k' \<and>
      kabs k' = spec_command CEntity (kabs k)"
    and def: "kinv k \<Longrightarrow> \<exists>i k'. k_define K slot f k = Some (i, k') \<and> kinv k' \<and>
      kabs k' = spec_command (CDefine slot f) (kabs k)"
    and forget: "kinv k \<Longrightarrow> \<exists>i k'. k_forget K slot k = Some (i, k') \<and> kinv k' \<and>
      kabs k' = spec_command (CForget slot) (kabs k)"
    and resolve: "kinv k \<Longrightarrow> k_resolve K slot k = Some (top (spec_stacks (kabs k) slot))"
    and definitions: "kinv k \<Longrightarrow> k_definitions K slot k = Some (spec_stacks (kabs k) slot)"
    and query: "kinv k \<Longrightarrow> limit opts = None \<Longrightarrow> \<exists>res facts. k_query K ps opts k = Some res \<and>
      mset facts = top_facts (kabs k) \<and>
      map row_binding (rows res) = expected_bindings (distinct_rows opts) facts ps"
    and active_slots: "kinv k \<Longrightarrow> k_active_slot_count K k = card {slot. spec_stacks (kabs k) slot \<noteq> []}"
    and records: "kinv k \<Longrightarrow> k_record_count K k = spec_records (kabs k)"
    and validate: "kinv k \<Longrightarrow> k_validate K k = Some (Inr ())"

definition reference_kernel :: "forth_db kernel_ops" where
  "reference_kernel =
     \<lparr>k_new = db_new, k_entity = db_entity, k_define = db_define, k_forget = db_forget,
      k_resolve = db_resolve, k_definitions = db_definitions, k_query = db_query,
      k_active_slot_count = db_active_slot_count, k_record_count = db_record_count,
      k_validate = db_validate\<rparr>"

interpretation reference: kernel reference_kernel wf_db abs_db
proof
  show "wf_db (k_new reference_kernel)" "abs_db (k_new reference_kernel) = spec_new"
    by (simp_all add: reference_kernel_def wf_db_new abs_db_new)
next
  fix db assume wf: "wf_db db"
  show "\<exists>db'. k_entity reference_kernel db = (spec_next_entity (abs_db db), db') \<and> wf_db db' \<and>
      abs_db db' = spec_command CEntity (abs_db db)"
    using db_entity_stack [OF wf] by (auto simp: reference_kernel_def db_entity_def abs_db_def)
  fix slot f
  show "\<exists>i db'. k_define reference_kernel slot f db = Some (i, db') \<and> wf_db db' \<and>
      abs_db db' = spec_command (CDefine slot f) (abs_db db)"
    using db_define_stack [OF wf, of slot f] by (auto simp: reference_kernel_def abs_db_def)
  show "\<exists>i db'. k_forget reference_kernel slot db = Some (i, db') \<and> wf_db db' \<and>
      abs_db db' = spec_command (CForget slot) (abs_db db)"
    using db_forget_stack [OF wf, of slot] by (auto simp: reference_kernel_def abs_db_def)
  show "k_resolve reference_kernel slot db = Some (top (spec_stacks (abs_db db) slot))"
    "k_definitions reference_kernel slot db = Some (spec_stacks (abs_db db) slot)"
    by (simp_all add: reference_kernel_def db_resolve_stack [OF wf] db_definitions_stack [OF wf])
  show "k_active_slot_count reference_kernel db = card {slot. spec_stacks (abs_db db) slot \<noteq> []}"
    "k_record_count reference_kernel db = spec_records (abs_db db)"
    "k_validate reference_kernel db = Some (Inr ())"
    by (simp_all add: reference_kernel_def db_active_slot_count_stack [OF wf] db_validate_ok [OF wf])
  fix opts :: query_options and ps
  assume "limit opts = None"
  then show "\<exists>res facts. k_query reference_kernel ps opts db = Some res \<and> mset facts = top_facts (abs_db db) \<and>
      map row_binding (rows res) = expected_bindings (distinct_rows opts) facts ps"
    using db_query_unlimited [OF wf] mset_current_facts [OF wf]
    by (simp add: reference_kernel_def top_facts_def) metis
qed

end
