(* ===== verification/Projection.thy ===== *)
theory Projection
  imports Frames Kernel
begin

text \<open>
  The native query view of VM-backed worlds (\<open>VmQueryProjection\<close> in \<open>forthdb-world/src/lib.rs\<close>):
  stacks of definitions rebuilt from commit frames, the list of active definitions in record
  order and seven indexes into that list.  The lemmas relate it to the reference kernel that
  replays the same operations: the stacks hold the same records and a query gives the same
  result, down to provenance, chosen path and metrics.  The delegation to a memory-mapped
  snapshot (field \<open>mapped\<close>) is not modelled here; a projection is one built from frames.
\<close>

section \<open>The projection\<close>

record projected_fact =
  pf_record_id :: nat
  pf_slot :: slot_id
  pf_fact :: fact

type_synonym definition_stacks = "(slot_id, projected_fact list) hash_map"
type_synonym 'k position_index = "('k, nat list) hash_map"

record vm_query_projection =
  definitions :: definition_stacks
  active :: "projected_fact list"
  vp_subject :: "atom position_index"
  vp_predicate :: "predicate position_index"
  vp_object :: "atom position_index"
  vp_subject_predicate :: "(atom \<times> predicate) position_index"
  vp_subject_object :: "(atom \<times> atom) position_index"
  vp_predicate_object :: "(predicate \<times> atom) position_index"
  vp_exact :: "fact position_index"

text \<open>\<open>entry(key).or_default().push(value)\<close>\<close>

definition entry_push :: "'k \<Rightarrow> 'v \<Rightarrow> ('k, 'v list) hash_map \<Rightarrow> ('k, 'v list) hash_map" where
  "entry_push k v m = hm_insert k ((case hm_get m k of None \<Rightarrow> [] | Some vs \<Rightarrow> vs) @ [v]) m"

text \<open>One operation of the replay loop; the stack of a slot grows at its end.\<close>

fun project_operation ::
  "operation \<Rightarrow> definition_stacks \<times> nat \<Rightarrow> definition_stacks \<times> nat" where
  "project_operation (AllocateEntity e) (defs, i) = (defs, i)"
| "project_operation (Define slot f) (defs, i) =
     (entry_push slot \<lparr>pf_record_id = i, pf_slot = slot, pf_fact = f\<rparr> defs, i + 1)"
| "project_operation (Forget slot) (defs, i) =
     ((case hm_get defs slot of
         None \<Rightarrow> defs
       | Some entries \<Rightarrow>
           if butlast entries = [] then hm_remove slot defs else hm_insert slot (butlast entries) defs), i + 1)"

definition project_frames :: "commit_frame list \<Rightarrow> definition_stacks \<times> nat" where
  "project_frames frames = fold (\<lambda>frame. fold project_operation (operations frame)) frames ([], 0)"

definition stack_last :: "'a list \<Rightarrow> 'a option" where
  "stack_last xs = (if xs = [] then None else Some (last xs))"

definition index_position :: "projected_fact list \<Rightarrow> nat \<Rightarrow> vm_query_projection \<Rightarrow> vm_query_projection" where
  "index_position acts i p =
     (let f = pf_fact (acts ! i)
      in p\<lparr>vp_subject := entry_push (subject f) i (vp_subject p),
           vp_predicate := entry_push (predicate f) i (vp_predicate p),
           vp_object := entry_push (object f) i (vp_object p),
           vp_subject_predicate := entry_push (subject f, predicate f) i (vp_subject_predicate p),
           vp_subject_object := entry_push (subject f, object f) i (vp_subject_object p),
           vp_predicate_object := entry_push (predicate f, object f) i (vp_predicate_object p),
           vp_exact := entry_push f i (vp_exact p)\<rparr>)"

definition from_frames :: "commit_frame list \<Rightarrow> vm_query_projection" where
  "from_frames frames =
     (let (defs, _) = project_frames frames;
          acts = sort_key pf_record_id (List.map_filter stack_last (hm_values defs));
          p = \<lparr>definitions = defs, active = acts, vp_subject = [], vp_predicate = [], vp_object = [],
               vp_subject_predicate = [], vp_subject_object = [], vp_predicate_object = [], vp_exact = []\<rparr>
      in fold (index_position acts) [0..<length acts] p)"

definition vp_resolve :: "slot_id \<Rightarrow> vm_query_projection \<Rightarrow> fact option" where
  "vp_resolve slot p =
     map_option pf_fact (Option.bind (hm_get (definitions p) slot) stack_last)"

definition vp_definitions :: "slot_id \<Rightarrow> vm_query_projection \<Rightarrow> fact list" where
  "vp_definitions slot p =
     map pf_fact (rev (case hm_get (definitions p) slot of None \<Rightarrow> [] | Some s \<Rightarrow> s))"

definition position_bucket :: "nat list option \<Rightarrow> nat list" where
  "position_bucket b = (case b of None \<Rightarrow> [] | Some is \<Rightarrow> is)"

definition vp_candidates :: "vm_query_projection \<Rightarrow> pattern \<Rightarrow> binding \<Rightarrow> nat list" where
  "vp_candidates p pat b =
     (case (resolved_atom (p_subject pat) b, resolved_predicate (p_predicate pat) b,
            resolved_atom (p_object pat) b) of
        (Some s, Some q, Some ob) \<Rightarrow> position_bucket (hm_get (vp_exact p) (fact_new s q ob))
      | (Some s, Some q, None) \<Rightarrow> position_bucket (hm_get (vp_subject_predicate p) (s, q))
      | (Some s, None, Some ob) \<Rightarrow> position_bucket (hm_get (vp_subject_object p) (s, ob))
      | (None, Some q, Some ob) \<Rightarrow> position_bucket (hm_get (vp_predicate_object p) (q, ob))
      | (Some s, None, None) \<Rightarrow> position_bucket (hm_get (vp_subject p) s)
      | (None, Some q, None) \<Rightarrow> position_bucket (hm_get (vp_predicate p) q)
      | (None, None, Some ob) \<Rightarrow> position_bucket (hm_get (vp_object p) ob)
      | (None, None, None) \<Rightarrow> [0..<length (active p)])"

definition vp_fetch :: "vm_query_projection \<Rightarrow> nat \<Rightarrow> (slot_id \<times> fact) option" where
  "vp_fetch p i =
     (if i < length (active p) then Some (pf_slot (active p ! i), pf_fact (active p ! i)) else None)"

definition vp_query :: "pattern list \<Rightarrow> query_options \<Rightarrow> vm_query_projection \<Rightarrow> query_result option" where
  "vp_query patterns opts p = run_query (vp_candidates p) (vp_fetch p) patterns opts"

section \<open>The indexes list the positions of their keys\<close>

definition lists_positions :: "'k position_index \<Rightarrow> (projected_fact \<Rightarrow> 'k) \<Rightarrow> projected_fact list \<Rightarrow> nat \<Rightarrow> bool" where
  "lists_positions m key acts n \<longleftrightarrow>
     (\<forall>k. position_bucket (hm_get m k) = filter (\<lambda>i. key (acts ! i) = k) [0..<n])"

lemma lists_positions_0: "lists_positions [] key acts 0"
  by (simp add: lists_positions_def position_bucket_def)

lemma lists_positions_Suc:
  "lists_positions m key acts n \<Longrightarrow> k = key (acts ! n) \<Longrightarrow> lists_positions (entry_push k n m) key acts (Suc n)"
  by (auto simp: lists_positions_def entry_push_def position_bucket_def)

definition positions_ok :: "projected_fact list \<Rightarrow> nat \<Rightarrow> vm_query_projection \<Rightarrow> bool" where
  "positions_ok acts n p \<longleftrightarrow>
     lists_positions (vp_subject p) (\<lambda>e. subject (pf_fact e)) acts n \<and>
     lists_positions (vp_predicate p) (\<lambda>e. predicate (pf_fact e)) acts n \<and>
     lists_positions (vp_object p) (\<lambda>e. object (pf_fact e)) acts n \<and>
     lists_positions (vp_subject_predicate p) (\<lambda>e. (subject (pf_fact e), predicate (pf_fact e))) acts n \<and>
     lists_positions (vp_subject_object p) (\<lambda>e. (subject (pf_fact e), object (pf_fact e))) acts n \<and>
     lists_positions (vp_predicate_object p) (\<lambda>e. (predicate (pf_fact e), object (pf_fact e))) acts n \<and>
     lists_positions (vp_exact p) pf_fact acts n"

lemma positions_ok_step: "positions_ok acts n p \<Longrightarrow> positions_ok acts (Suc n) (index_position acts n p)"
  by (auto simp: positions_ok_def index_position_def Let_def intro!: lists_positions_Suc)

lemma positions_ok_fold:
  "positions_ok acts 0 p \<Longrightarrow> positions_ok acts n (fold (index_position acts) [0..<n] p)"
  by (induction n) (auto intro: positions_ok_step)

lemma index_position_sel [simp]:
  "active (index_position acts i p) = active p" "definitions (index_position acts i p) = definitions p"
  by (simp_all add: index_position_def Let_def)

lemma fold_index_position_sel [simp]:
  "active (fold (index_position acts) is p) = active p"
  "definitions (fold (index_position acts) is p) = definitions p"
  by (induction "is" arbitrary: p) simp_all

definition wf_projection :: "vm_query_projection \<Rightarrow> bool" where
  "wf_projection p \<longleftrightarrow> positions_ok (active p) (length (active p)) p"

lemma wf_from_frames: "wf_projection (from_frames frames)"
  unfolding wf_projection_def from_frames_def
  by (auto simp: Let_def split_beta intro!: positions_ok_fold)
    (simp add: positions_ok_def lists_positions_0)

lemma vp_candidates_filter:
  assumes "wf_projection p"
  shows "vp_candidates p pat b =
    filter (\<lambda>i. fact_matches pat b (pf_fact (active p ! i))) [0..<length (active p)]"
proof -
  have look: "position_bucket (hm_get m k) = filter (\<lambda>i. key (active p ! i) = k) [0..<length (active p)]"
    if "lists_positions m key (active p) (length (active p))" for m :: "'k position_index" and key k
    using that by (simp add: lists_positions_def)
  show ?thesis
    using assms [unfolded wf_projection_def positions_ok_def]
    by (cases "resolved_atom (p_subject pat) b"; cases "resolved_predicate (p_predicate pat) b";
        cases "resolved_atom (p_object pat) b")
      (auto simp: vp_candidates_def look fact_matches_def fact_new_def intro!: filter_cong)
qed

abbreviation vp_positions :: "vm_query_projection \<Rightarrow> nat list" where
  "vp_positions p \<equiv> [0..<length (active p)]"

interpretation projection_query: query_source vp_candidates vp_fetch vp_positions wf_projection
proof
  fix p i assume "wf_projection p" and "i \<in> set (vp_positions p)"
  then show "\<exists>slot f. vp_fetch p i = Some (slot, f)" by (simp add: vp_fetch_def)
next
  fix p pat b assume "wf_projection p"
  then show "vp_candidates p pat b =
      filter (\<lambda>i. case vp_fetch p i of None \<Rightarrow> False | Some (slot, f) \<Rightarrow> fact_matches pat b f) (vp_positions p)"
    by (auto simp: vp_candidates_filter vp_fetch_def intro!: filter_cong)
qed

section \<open>Equivalence with the reference kernel\<close>

fun command_of :: "operation \<Rightarrow> kernel_command" where
  "command_of (AllocateEntity e) = CEntity"
| "command_of (Define slot f) = CDefine slot f"
| "command_of (Forget slot) = CForget slot"

definition projected :: "log_record \<Rightarrow> projected_fact" where
  "projected r = \<lparr>pf_record_id = rec_id r, pf_slot = rec_slot r, pf_fact = the (rec_fact r)\<rparr>"

definition stacks_rel :: "definition_stacks \<times> nat \<Rightarrow> log_record list \<Rightarrow> bool" where
  "stacks_rel dn rs \<longleftrightarrow>
     hm_wf (fst dn) \<and> snd dn = length rs \<and>
     (\<forall>slot. hm_get (fst dn) slot =
        (if live rs slot = [] then None else Some (map projected (rev (live rs slot)))))"

lemma stacks_rel_Nil: "stacks_rel ([], 0) []"
  by (simp add: stacks_rel_def)

lemma hm_wf_entry_push: "hm_wf m \<Longrightarrow> hm_wf (entry_push k v m)"
  by (simp add: entry_push_def)

lemma butlast_map_rev: "butlast (map g (rev xs)) = map g (rev (tl xs))"
  by (cases xs) (simp_all add: butlast_append)

lemma stacks_rel_define:
  assumes "stacks_rel (defs, i) rs" and "rec_kind r = KDefine" and "rec_slot r = slot"
    and "rec_fact r = Some f" and "rec_id r = length rs"
  shows "stacks_rel (project_operation (Define slot f) (defs, i)) (rs @ [r])"
  using assms by (auto simp: stacks_rel_def stack_step_def projected_def entry_push_def)

lemma stacks_rel_forget:
  assumes "stacks_rel (defs, i) rs" and "rec_kind r = KForget" and "rec_slot r = slot"
  shows "stacks_rel (project_operation (Forget slot) (defs, i)) (rs @ [r])"
proof (cases "live rs slot")
  case Nil
  with assms show ?thesis by (auto simp: stacks_rel_def stack_step_def)
next
  case (Cons x xs)
  with assms show ?thesis
    by (cases xs) (auto simp: stacks_rel_def stack_step_def butlast_append)
qed

lemma project_operation_rel:
  assumes "wf_db db" and "stacks_rel dn (log (store db))"
    and "run_commands [command_of x] db = Some db'"
  shows "stacks_rel (project_operation x dn) (log (store db')) \<and> wf_db db'"
proof (cases x)
  case (AllocateEntity e)
  with assms db_entity_stack(1) [OF assms(1)] show ?thesis
    by (cases dn) (auto simp: db_entity_def)
next
  case (Define slot f)
  with assms db_define_ok [OF assms(1), of slot f] show ?thesis
    by (cases dn) (auto simp: append_define_eq intro!: stacks_rel_define simp del: project_operation.simps)
next
  case (Forget slot)
  with assms db_forget_ok [OF assms(1), of slot] append_forget_eq [OF wf_dbD(1) [OF assms(1)], of slot]
  show ?thesis
    by (cases dn) (auto intro!: stacks_rel_forget simp del: project_operation.simps)
qed

lemma project_operations_rel:
  "wf_db db \<Longrightarrow> stacks_rel dn (log (store db)) \<Longrightarrow> run_commands (map command_of ops) db = Some db' \<Longrightarrow>
   stacks_rel (fold project_operation ops dn) (log (store db')) \<and> wf_db db'"
proof (induction ops arbitrary: db dn)
  case (Cons x ops)
  from Cons.prems(3) obtain db1 where db1: "run_commands [command_of x] db = Some db1"
    "run_commands (map command_of ops) db1 = Some db'"
    by (cases "command_of x") (auto simp: bind_eq_Some_conv)
  note 1 = project_operation_rel [OF Cons.prems(1,2) db1(1)]
  from Cons.IH [OF conjunct2 [OF 1] conjunct1 [OF 1] db1(2)] show ?case by simp
qed simp

lemma project_frames_fold:
  "project_frames frames = fold project_operation (concat (map operations frames)) ([], 0)"
proof -
  have "fold (\<lambda>frame. fold project_operation (operations frame)) frames dn =
      fold project_operation (concat (map operations frames)) dn" for dn
    by (induction frames arbitrary: dn) simp_all
  then show ?thesis by (simp add: project_frames_def)
qed

lemma from_frames_sel:
  "definitions (from_frames frames) = fst (project_frames frames)"
  "active (from_frames frames) =
     sort_key pf_record_id (List.map_filter stack_last (hm_values (fst (project_frames frames))))"
  by (simp_all add: from_frames_def Let_def split_beta)

text \<open>The active list holds the active records of the kernel, in the order of their ids.\<close>

lemma active_records:
  assumes wf: "wf_db db" and rel: "stacks_rel (defs, i) (log (store db))"
  shows "sort_key pf_record_id (List.map_filter stack_last (hm_values defs)) =
    map (\<lambda>i. projected (log (store db) ! i)) (active_ids db)"
proof (rule sort_key_unique)
  let ?log = "log (store db)" and ?xs = "List.map_filter stack_last (hm_values defs)"
    and ?ys = "map (\<lambda>i. projected (log (store db) ! i)) (active_ids db)"
  note wfs = wf_dbD(1,2) [OF wf]
  have wfd: "hm_wf defs" and get: "hm_get defs slot =
      (if live ?log slot = [] then None else Some (map projected (rev (live ?log slot))))" for slot
    using rel by (auto simp: stacks_rel_def)
  have vals: "\<exists>slot. live ?log slot \<noteq> [] \<and> s = map projected (rev (live ?log slot)) \<and> hm_get defs slot = Some s \<and> k = slot"
    if "(k, s) \<in> set defs" for k s
    using that get [of k] map_of_is_SomeI [OF wfd, of k s] by (auto split: if_splits)
  have xs: "?xs = map (\<lambda>(k, s). last s) defs"
  proof -
    have "List.map_filter stack_last (map snd m) = map (\<lambda>(k, s). last s) m"
      if "\<forall>e \<in> set m. snd e \<noteq> []" for m :: definition_stacks
      using that by (induction m) (auto simp: List.map_filter_simps stack_last_def)
    then show ?thesis using vals by fastforce
  qed
  have last: "last (map projected (rev (live ?log slot))) = projected (hd (live ?log slot))"
    if "live ?log slot \<noteq> []" for slot using that by (cases "live ?log slot") auto
  have slot: "pf_slot (last s) = k" if "(k, s) \<in> set defs" for k s
  proof -
    from vals [OF that] have k: "live ?log k \<noteq> []" "s = map projected (rev (live ?log k))" by auto
    then have "rec_slot (hd (live ?log k)) = k" using live_mem [of "hd (live ?log k)" ?log k] by simp
    with last [OF k(1)] k(2) show ?thesis by (simp add: projected_def)
  qed
  have "map pf_slot ?xs = map fst defs"
    unfolding xs map_map by (rule map_cong [OF refl]) (use slot in auto)
  then have dxs: "distinct ?xs" using wfd by (metis distinct_map)
  have ids: "rec_id (?log ! i) = i \<and> (\<exists>slot. live ?log slot \<noteq> [] \<and> hd (live ?log slot) = ?log ! i)"
    if "i \<in> set (active_ids db)" for i
  proof -
    from that obtain slot where "first_id (live ?log slot) = Some i"
      using set_head_values [OF wfs(1)] by (auto simp: active_ids_def)
    from first_id_live [OF wfs(2) this] show ?thesis
      by (auto simp: record_at_def split: if_splits) (metis list.sel(1) list.simps(3))
  qed
  have map_ids: "map pf_record_id ?ys = active_ids db"
    using ids by (simp add: map_idI projected_def)
  then have dys: "distinct ?ys" and sorted: "sorted (map pf_record_id ?ys)"
    by (metis active_ids_def active_record_ids_def distinct_map distinct_sorted_list_of_set,
        simp only: active_ids_def active_record_ids_def sorted_sorted_list_of_set)
  have "set ?xs = {projected (hd (live ?log slot)) | slot. live ?log slot \<noteq> []}"
  proof -
    have "projected (hd (live ?log slot)) \<in> set ?xs" if "live ?log slot \<noteq> []" for slot
      using that get [of slot] last [OF that] unfolding xs
      by (force dest!: map_of_SomeD)
    moreover have "\<exists>slot. x = projected (hd (live ?log slot)) \<and> live ?log slot \<noteq> []" if "x \<in> set ?xs" for x
      using that vals last unfolding xs by fastforce
    ultimately show ?thesis by blast
  qed
  also have "\<dots> = set ?ys"
  proof -
    have "projected (hd (live ?log slot)) \<in> set ?ys" if ne: "live ?log slot \<noteq> []" for slot
    proof -
      from ne obtain r rs where r: "live ?log slot = r # rs" by (cases "live ?log slot") auto
      then have "record_at (store db) (rec_id r) = Some r"
        using live_record_at [OF wfs(2), of r slot] by simp
      moreover have "rec_id r \<in> set (active_ids db)"
        unfolding active_ids_def set_active_record_ids set_head_values [OF wfs(1)]
        using r by (auto intro!: exI [of _ slot])
      ultimately show ?thesis using r by (auto simp: record_at_def split: if_splits intro!: image_eqI)
    qed
    moreover have "\<exists>slot. x = projected (hd (live ?log slot)) \<and> live ?log slot \<noteq> []" if "x \<in> set ?ys" for x
    proof -
      from that obtain i where i: "i \<in> set (active_ids db)" "x = projected (?log ! i)"
        by (auto simp del: set_active_record_ids)
      with ids [OF i(1)] show ?thesis by metis
    qed
    ultimately show ?thesis by blast
  qed
  finally have set: "set ?xs = set ?ys" .
  then show "mset ?xs = mset ?ys" using dxs dys by (simp only: set_eq_iff_mset_eq_distinct)
  show "sorted (map pf_record_id ?ys)" by (rule sorted)
  have "distinct (map pf_record_id ?ys)"
    unfolding map_ids by (simp add: active_ids_def active_record_ids_def)
  then show "inj_on pf_record_id (set ?xs)" unfolding set by (simp only: distinct_map)
qed

text \<open>Every observation of the projection is the observation of the kernel.\<close>

lemma from_frames_kernel:
  assumes "run_commands (map command_of (concat (map operations frames))) db_new = Some db"
  shows "wf_db db" and "stacks_rel (project_frames frames) (log (store db))"
    and "active (from_frames frames) = map (\<lambda>i. projected (log (store db) ! i)) (active_ids db)"
proof -
  have "stacks_rel ([], 0) (log (store db_new))"
    by (simp add: db_new_def empty_store_def stacks_rel_Nil)
  from project_operations_rel [OF wf_db_new this assms] show
    wf: "wf_db db" and rel: "stacks_rel (project_frames frames) (log (store db))"
    unfolding project_frames_fold by auto
  from active_records [OF wf, of "fst (project_frames frames)" "snd (project_frames frames)"] rel
  show "active (from_frames frames) = map (\<lambda>i. projected (log (store db) ! i)) (active_ids db)"
    by (simp add: from_frames_sel)
qed

lemma vp_query_kernel:
  assumes "run_commands (map command_of (concat (map operations frames))) db_new = Some db"
  shows "Some (vp_query ps opts (from_frames frames)) = Some (db_query ps opts db)"
proof -
  let ?p = "from_frames frames"
  note wf = from_frames_kernel(1) [OF assms]
  have fetch: "map (vp_fetch ?p) (vp_positions ?p) = map (db_fetch db) (active_ids db)"
  proof (rule nth_equalityI)
    fix k assume "k < length (map (vp_fetch ?p) (vp_positions ?p))"
    then have k: "k < length (active_ids db)" by (simp add: from_frames_kernel(3) [OF assms])
    then have "active_ids db ! k \<in> set (active_record_ids (store db))"
      by (metis active_ids_def nth_mem)
    from active_record [OF wf_dbD(1) [OF wf] this] k
    show "map (vp_fetch ?p) (vp_positions ?p) ! k = map (db_fetch db) (active_ids db) ! k"
      by (auto simp: from_frames_kernel(3) [OF assms] vp_fetch_def db_fetch_def projected_def record_at_def
          split: if_splits)
  qed (simp add: from_frames_kernel(3) [OF assms])
  have "map (vp_fetch ?p) (vp_candidates ?p pat b) = map (db_fetch db) (db_candidates db pat b)" for pat b
  proof -
    let ?m = "\<lambda>x. case x of None \<Rightarrow> False | Some (slot, f) \<Rightarrow> fact_matches pat b f"
    have "map (vp_fetch ?p) (vp_candidates ?p pat b) = filter ?m (map (vp_fetch ?p) (vp_positions ?p))"
      by (simp add: projection_query.candidates_filter [OF wf_from_frames] filter_map comp_def)
    also have "\<dots> = map (db_fetch db) (db_candidates db pat b)"
      by (simp only: fetch) (simp add: kernel_query.candidates_filter [OF wf] filter_map comp_def)
    finally show ?thesis .
  qed
  then show ?thesis
    unfolding vp_query_def db_query_def by (simp add: run_query_fetch_cong [where F = "vp_fetch ?p" and F' = "db_fetch db"])
qed

lemma vp_definitions_kernel:
  assumes "run_commands (map command_of (concat (map operations frames))) db_new = Some db"
  shows "Some (vp_definitions slot (from_frames frames)) = db_definitions slot db"
    and "Some (vp_resolve slot (from_frames frames)) = db_resolve slot db"
proof -
  note wf = from_frames_kernel(1) [OF assms]
  have get: "hm_get (definitions (from_frames frames)) slot =
      (if live (log (store db)) slot = [] then None
       else Some (map projected (rev (live (log (store db)) slot))))"
    using from_frames_kernel(2) [OF assms] by (simp add: stacks_rel_def from_frames_sel)
  show "Some (vp_definitions slot (from_frames frames)) = db_definitions slot db"
    by (simp add: db_definitions_stack [OF wf] vp_definitions_def get stack_def rev_map projected_def)
  show "Some (vp_resolve slot (from_frames frames)) = db_resolve slot db"
    by (cases "live (log (store db)) slot")
      (simp_all add: db_resolve_stack [OF wf] vp_resolve_def get stack_def stack_last_def projected_def)
qed

section \<open>Properties\<close>

text \<open>
  C7. The projection that VM-backed worlds build from their frames answers every query exactly
  as the reference kernel does after replaying the same operations: same rows, provenance,
  chosen path and metrics, with and without a limit; and it lists and resolves the same
  definitions.
\<close>

theorem projection_answers_as_kernel:
  "\<exists>db. run_commands (map command_of (concat (map operations frames))) db_new = Some db \<and>
     (\<forall>ps opts. vp_query ps opts (from_frames frames) = db_query ps opts db) \<and>
     (\<forall>slot. Some (vp_definitions slot (from_frames frames)) = db_definitions slot db \<and>
        Some (vp_resolve slot (from_frames frames)) = db_resolve slot db)"
proof -
  from run_commands_spec obtain db where
    db: "run_commands (map command_of (concat (map operations frames))) db_new = Some db" by blast
  from vp_query_kernel [OF db] vp_definitions_kernel [OF db] show ?thesis
    by (intro exI [of _ db]) (simp add: db)
qed

end
