(* ===== verification/World.thy ===== *)
theory World
  imports Kernel_Interface Projection
begin

text \<open>
  Worlds, candidate worlds and transactions (\<open>forthdb-world/src/lib.rs\<close>).  A world is an
  immutable snapshot with a position in a linear history; its kernel is owned, or rebuilt on
  demand from the history.  The kernel operations are the parameter \<open>K\<close>, see Kernel_Interface.
  The caches \<open>lazy_kernel\<close> and \<open>vm_query\<close> (\<open>OnceLock\<close>) are fields; reading them is separate from
  filling them (\<open>fill_kernel\<close>, \<open>fill_vm_query\<close>).  A history node with its parents is the list of
  its frames, newest first.  \<open>checked\<close> debug assertions count as panics.
\<close>

section \<open>Worlds\<close>

record 'k projection_base =
  pb_kernel :: 'k
  pb_version :: u64
  pb_next_entity :: u64

record 'k world =
  w_id :: world_id
  w_version :: u64
  w_next_entity :: u64
  w_operation_count :: nat
  w_active_slot_count :: nat
  w_record_count :: nat
  w_eager_kernel :: "'k option"
  w_lazy_kernel :: "'k option"
  w_vm_query :: "vm_query_projection option"
  w_projection_base :: "'k projection_base option"
  w_history :: "commit_frame list"
  w_history_prefix :: "commit_frame list option"

definition genesis :: "'k kernel_ops \<Rightarrow> 'k world" where
  "genesis K =
     \<lparr>w_id = GENESIS, w_version = 0, w_next_entity = 1, w_operation_count = 0,
      w_active_slot_count = 0, w_record_count = 0, w_eager_kernel = Some (k_new K),
      w_lazy_kernel = None, w_vm_query = None, w_projection_base = None, w_history = [],
      w_history_prefix = None\<rparr>"

fun apply_operation ::
  "'k kernel_ops \<Rightarrow> operation \<Rightarrow> 'k \<times> u64 \<Rightarrow> (candidate_error + 'k \<times> u64) option" where
  "apply_operation K (AllocateEntity e) (k, next) =
     (if e \<noteq> next then Some (Inl (AllocatorOperationMismatch next e))
      else let (actual, k') = k_entity K k
           in if actual \<noteq> e then Some (Inl (AllocatorOperationMismatch e actual))
              else Some (Inr (k', next + 1)))"
| "apply_operation K (Define slot f) (k, next) =
     map_option (\<lambda>(_, k'). Inr (k', next)) (k_define K slot f k)"
| "apply_operation K (Forget slot) (k, next) =
     map_option (\<lambda>(_, k'). Inr (k', next)) (k_forget K slot k)"

text \<open>The loop \<open>for operation in operations { apply_operation(...)?; }\<close>\<close>

fun apply_operations ::
  "'k kernel_ops \<Rightarrow> operation list \<Rightarrow> 'k \<times> u64 \<Rightarrow> (candidate_error + 'k \<times> u64) option" where
  "apply_operations K [] s = Some (Inr s)"
| "apply_operations K (x # xs) s = try_bind (apply_operation K x s) (apply_operations K xs)"

definition world_frames :: "'k world \<Rightarrow> commit_frame list" where
  "world_frames w =
     (case w_history_prefix w of None \<Rightarrow> [] | Some fs \<Rightarrow> fs) @ rev (w_history w)"

text \<open>\<open>materialize_kernel\<close>: replay what the projection base does not cover; \<open>expect\<close> and the
  debug assertion on the allocator panic.\<close>

fun replay_checked :: "'k kernel_ops \<Rightarrow> commit_frame list \<Rightarrow> 'k \<times> u64 \<Rightarrow> 'k option" where
  "replay_checked K [] s = Some (fst s)"
| "replay_checked K (f # fs) s =
     (case apply_operations K (operations f) s of
        Some (Inr s') \<Rightarrow> if snd s' = resulting_allocator f then replay_checked K fs s' else None
      | _ \<Rightarrow> None)"

definition materialize_kernel ::
  "'k kernel_ops \<Rightarrow> commit_frame list \<Rightarrow> 'k projection_base option \<Rightarrow> 'k option" where
  "materialize_kernel K history base =
     (let version = (case base of None \<Rightarrow> 0 | Some b \<Rightarrow> pb_version b);
          pending = takeWhile (\<lambda>f. \<not> resulting_version f \<le> version) history;
          start = (case base of None \<Rightarrow> (k_new K, 1) | Some b \<Rightarrow> (pb_kernel b, pb_next_entity b))
      in replay_checked K (rev pending) start)"

text \<open>The replay of a mapped history has no assertion on the allocator.\<close>

fun replay_all :: "'k kernel_ops \<Rightarrow> commit_frame list \<Rightarrow> 'k \<times> u64 \<Rightarrow> 'k option" where
  "replay_all K [] s = Some (fst s)"
| "replay_all K (f # fs) s =
     (case apply_operations K (operations f) s of Some (Inr s') \<Rightarrow> replay_all K fs s' | _ \<Rightarrow> None)"

definition world_kernel :: "'k kernel_ops \<Rightarrow> 'k world \<Rightarrow> 'k option" where
  "world_kernel K w =
     (case w_eager_kernel w of
        Some k \<Rightarrow> Some k
      | None \<Rightarrow>
          (case w_lazy_kernel w of
             Some k \<Rightarrow> Some k
           | None \<Rightarrow>
               if w_history_prefix w \<noteq> None then replay_all K (world_frames w) (k_new K, 1)
               else if w_history w = [] then None
               else materialize_kernel K (w_history w) (w_projection_base w)))"

definition fill_kernel :: "'k kernel_ops \<Rightarrow> 'k world \<Rightarrow> 'k world option" where
  "fill_kernel K w =
     (if w_eager_kernel w \<noteq> None then Some w
      else map_option (\<lambda>k. w\<lparr>w_lazy_kernel := Some k\<rparr>) (world_kernel K w))"

definition world_vm_query :: "'k world \<Rightarrow> vm_query_projection option" where
  "world_vm_query w =
     (case w_vm_query w of
        Some p \<Rightarrow> Some p
      | None \<Rightarrow> if w_history w = [] then None else Some (from_frames (world_frames w)))"

definition fill_vm_query :: "'k world \<Rightarrow> 'k world option" where
  "fill_vm_query w = map_option (\<lambda>p. w\<lparr>w_vm_query := Some p\<rparr>) (world_vm_query w)"

definition world_resolve :: "'k kernel_ops \<Rightarrow> slot_id \<Rightarrow> 'k world \<Rightarrow> fact option option" where
  "world_resolve K slot w =
     (if w_eager_kernel w = None then map_option (vp_resolve slot) (world_vm_query w)
      else Option.bind (world_kernel K w) (k_resolve K slot))"

definition world_definitions :: "'k kernel_ops \<Rightarrow> slot_id \<Rightarrow> 'k world \<Rightarrow> fact list option" where
  "world_definitions K slot w =
     (if w_eager_kernel w = None then map_option (vp_definitions slot) (world_vm_query w)
      else Option.bind (world_kernel K w) (k_definitions K slot))"

definition world_query ::
  "'k kernel_ops \<Rightarrow> pattern list \<Rightarrow> query_options \<Rightarrow> 'k world \<Rightarrow> query_result option" where
  "world_query K ps opts w =
     (if w_eager_kernel w = None then Option.bind (world_vm_query w) (vp_query ps opts)
      else Option.bind (world_kernel K w) (k_query K ps opts))"

definition world_display_name :: "'k kernel_ops \<Rightarrow> entity_id \<Rightarrow> 'k world \<Rightarrow> string option" where
  "world_display_name K e w =
     map_option (\<lambda>r. case r of
         Some f \<Rightarrow> (case object f of ALiteral s \<Rightarrow> s | AEntity _ \<Rightarrow> entity_to_string e)
       | None \<Rightarrow> entity_to_string e) (world_resolve K (display_slot e) w)"

section \<open>Reconstruction\<close>

definition reconstruct_frame ::
  "'k kernel_ops \<Rightarrow> commit_frame \<Rightarrow> 'k world \<times> 'k \<Rightarrow> (candidate_error + 'k world \<times> 'k) option" where
  "reconstruct_frame K frame s =
     (let (w, k) = s
      in if parent_world frame \<noteq> w_id w then Some (Inl (HistoryParentMismatch (w_id w) (parent_world frame)))
      else if parent_version frame \<noteq> w_version w
        then Some (Inl (HistoryVersionMismatch (w_version w) (parent_version frame)))
      else try_bind (apply_operations K (operations frame) (k, w_next_entity w)) (\<lambda>(k', next).
        if next \<noteq> resulting_allocator frame
        then Some (Inl (AllocatorStateMismatch (resulting_allocator frame) next))
        else try_bind (map_option (res_map_err KernelInvariant) (k_validate K k')) (\<lambda>_.
          let expected = calculate_world_id (parent_world frame) (resulting_version frame)
                           (resulting_allocator frame) (operations frame)
          in if expected \<noteq> resulting_world frame
             then Some (Inl (WorldIdentityMismatch expected (resulting_world frame)))
             else Some (Inr
               (w\<lparr>w_id := resulting_world frame, w_version := resulting_version frame,
                  w_next_entity := resulting_allocator frame,
                  w_operation_count := w_operation_count w + length (operations frame),
                  w_active_slot_count := k_active_slot_count K k',
                  w_record_count := k_record_count K k',
                  w_eager_kernel := None, w_lazy_kernel := None, w_vm_query := None,
                  w_history := frame # w_history w, w_history_prefix := None\<rparr>, k')))))"

fun reconstruct_frames ::
  "'k kernel_ops \<Rightarrow> commit_frame list \<Rightarrow> 'k world \<times> 'k \<Rightarrow> (candidate_error + 'k world \<times> 'k) option" where
  "reconstruct_frames K [] s = Some (Inr s)"
| "reconstruct_frames K (f # fs) s = try_bind (reconstruct_frame K f s) (reconstruct_frames K fs)"

definition reconstruct :: "'k kernel_ops \<Rightarrow> commit_frame list \<Rightarrow> (candidate_error + 'k world) option" where
  "reconstruct K frames =
     try_bind (reconstruct_frames K frames (genesis K, k_new K))
       (\<lambda>(w, k). Some (Inr (w\<lparr>w_eager_kernel := Some k\<rparr>)))"

text \<open>A world published by the virtual machine: no kernel, only the history and, when the base
  had a kernel at hand, where to start replaying.\<close>

definition from_vm_epoch ::
  "'k world \<Rightarrow> operation list \<Rightarrow> u64 \<Rightarrow> nat \<Rightarrow> nat \<Rightarrow> 'k world \<times> commit_frame" where
  "from_vm_epoch base ops next active_slots record_count =
     (let kernel = (case w_lazy_kernel base of Some k \<Rightarrow> Some k | None \<Rightarrow> w_eager_kernel base);
          pbase = (case kernel of
              Some k \<Rightarrow> Some \<lparr>pb_kernel = k, pb_version = w_version base, pb_next_entity = w_next_entity base\<rparr>
            | None \<Rightarrow> w_projection_base base);
          version = w_version base + 1;
          wid = calculate_world_id (w_id base) version next ops;
          frame = \<lparr>parent_world = w_id base, resulting_world = wid, parent_version = w_version base,
                   resulting_version = version, resulting_allocator = next, operations = ops\<rparr>
      in (\<lparr>w_id = wid, w_version = version, w_next_entity = next,
           w_operation_count = w_operation_count base + length ops,
           w_active_slot_count = active_slots, w_record_count = record_count,
           w_eager_kernel = None, w_lazy_kernel = None, w_vm_query = None,
           w_projection_base = pbase, w_history = frame # w_history base,
           w_history_prefix = w_history_prefix base\<rparr>, frame))"

section \<open>Candidates and transactions\<close>

record 'k candidate_world =
  c_base_world :: world_id
  c_base_version :: u64
  c_id :: world_id
  c_version :: u64
  c_next_entity :: u64
  c_base_operation_count :: nat
  c_operations :: "operation list"
  c_kernel :: 'k

definition construct_from_state ::
  "'k kernel_ops \<Rightarrow> world_id \<Rightarrow> u64 \<Rightarrow> u64 \<Rightarrow> nat \<Rightarrow> 'k \<Rightarrow> operation list \<Rightarrow>
   (candidate_error + 'k candidate_world) option" where
  "construct_from_state K base_world base_version base_next base_count base_kernel ops =
     try_bind (apply_operations K ops (base_kernel, base_next)) (\<lambda>(k, next).
     try_bind (map_option (res_map_err KernelInvariant) (k_validate K k)) (\<lambda>_.
       let version = base_version + 1
       in Some (Inr \<lparr>c_base_world = base_world, c_base_version = base_version,
            c_id = calculate_world_id base_world version next ops, c_version = version,
            c_next_entity = next, c_base_operation_count = base_count, c_operations = ops,
            c_kernel = k\<rparr>)))"

definition construct ::
  "'k kernel_ops \<Rightarrow> 'k world \<Rightarrow> operation list \<Rightarrow> (candidate_error + 'k candidate_world) option" where
  "construct K base ops =
     (case world_kernel K base of
        None \<Rightarrow> None
      | Some k \<Rightarrow> construct_from_state K (w_id base) (w_version base) (w_next_entity base)
                    (w_operation_count base) k ops)"

definition candidate_frame :: "'k candidate_world \<Rightarrow> commit_frame" where
  "candidate_frame c =
     \<lparr>parent_world = c_base_world c, resulting_world = c_id c, parent_version = c_base_version c,
      resulting_version = c_version c, resulting_allocator = c_next_entity c, operations = c_operations c\<rparr>"

definition into_world ::
  "'k kernel_ops \<Rightarrow> 'k candidate_world \<Rightarrow> commit_frame \<Rightarrow> commit_frame list \<Rightarrow> 'k world" where
  "into_world K c frame parent_history =
     \<lparr>w_id = c_id c, w_version = c_version c, w_next_entity = c_next_entity c,
      w_operation_count = c_base_operation_count c + length (c_operations c),
      w_active_slot_count = k_active_slot_count K (c_kernel c),
      w_record_count = k_record_count K (c_kernel c), w_eager_kernel = Some (c_kernel c),
      w_lazy_kernel = None, w_vm_query = None, w_projection_base = None,
      w_history = frame # parent_history, w_history_prefix = None\<rparr>"

record 'k transaction =
  tx_base :: "'k world"
  tx_next_entity :: u64
  tx_operations :: "operation list"

definition transaction_new :: "'k world \<Rightarrow> 'k transaction" where
  "transaction_new base = \<lparr>tx_base = base, tx_next_entity = w_next_entity base, tx_operations = []\<rparr>"

definition tx_entity :: "'k transaction \<Rightarrow> entity_id \<times> 'k transaction" where
  "tx_entity tx =
     (let e = tx_next_entity tx
      in (e, tx\<lparr>tx_next_entity := tx_next_entity tx + 1,
               tx_operations := tx_operations tx @ [AllocateEntity e]\<rparr>))"

definition tx_define :: "slot_id \<Rightarrow> fact \<Rightarrow> 'k transaction \<Rightarrow> 'k transaction" where
  "tx_define slot f tx = tx\<lparr>tx_operations := tx_operations tx @ [Define slot f]\<rparr>"

definition tx_forget :: "slot_id \<Rightarrow> 'k transaction \<Rightarrow> 'k transaction" where
  "tx_forget slot tx = tx\<lparr>tx_operations := tx_operations tx @ [Forget slot]\<rparr>"

definition tx_define_display_name :: "entity_id \<Rightarrow> string \<Rightarrow> 'k transaction \<Rightarrow> 'k transaction" where
  "tx_define_display_name e name tx =
     tx_define (display_slot e) (fact_new (AEntity e) ''display_name'' (ALiteral name)) tx"

definition tx_bind_symbol :: "string \<Rightarrow> symbol \<Rightarrow> entity_id \<Rightarrow> 'k transaction \<Rightarrow> 'k transaction" where
  "tx_bind_symbol namespace symb e tx =
     tx_define (symbol_slot namespace symb)
       (fact_new (ALiteral (namespace @ '':'' @ symb)) ''resolves_to'' (AEntity e)) tx"

definition tx_candidate :: "'k kernel_ops \<Rightarrow> 'k transaction \<Rightarrow> (candidate_error + 'k candidate_world) option" where
  "tx_candidate K tx = construct K (tx_base tx) (tx_operations tx)"

end
