(* ===== verification/Database.thy ===== *)
theory Database
  imports World "HOL-Library.Sublist"
begin

text \<open>
  Commit stores and the database (\<open>forthdb-world/src/lib.rs\<close>).  A store is an instance of the
  operations \<open>commit_store_ops\<close>; the locale \<open>commit_store\<close> is its contract (an append adds the
  frame or changes nothing).  The database is the current world, the store and the validators;
  its locks serialise commits, so a run is a sequence of steps.  The lemmas of the context
  \<open>kernel\<close> show what replaying a history does over any kernel; those of the locale \<open>database_of\<close>
  show that the store always reconstructs to the current world.
\<close>

section \<open>Stores\<close>

record ('s, 'e) commit_store_ops =
  cs_append :: "commit_frame \<Rightarrow> 's \<Rightarrow> ('e + unit) \<times> 's"
  cs_frames :: "'s \<Rightarrow> commit_frame list"
  cs_len :: "'s \<Rightarrow> nat"

text \<open>\<open>MemoryCommitStore\<close>; its error type \<open>Infallible\<close> has no values that are ever returned.\<close>

type_synonym memory_commit_store = "commit_frame list"

definition memory_append :: "commit_frame \<Rightarrow> memory_commit_store \<Rightarrow> (unit + unit) \<times> memory_commit_store" where
  "memory_append frame frames = (Inr (), frames @ [frame])"

definition memory_store :: "(memory_commit_store, unit) commit_store_ops" where
  "memory_store = \<lparr>cs_append = memory_append, cs_frames = (\<lambda>frames. frames), cs_len = length\<rparr>"

section \<open>The database\<close>

datatype 'e commit_error =
    StaleTransaction world_id world_id
  | CandidateFailed candidate_error
  | ValidationFailed string
  | StoreFailed 'e

type_synonym 'k validator = "'k candidate_world \<Rightarrow> string + unit"

record ('k, 's) database =
  db_current :: "'k world"
  db_store :: 's
  db_validators :: "'k validator list"

definition database_new ::
  "'k kernel_ops \<Rightarrow> ('s, 'e) commit_store_ops \<Rightarrow> 's \<Rightarrow> (candidate_error + ('k, 's) database) option" where
  "database_new K S s =
     try_bind (reconstruct K (cs_frames S s))
       (\<lambda>w. Some (Inr \<lparr>db_current = w, db_store = s, db_validators = []\<rparr>))"

definition db_begin :: "('k, 's) database \<Rightarrow> 'k transaction" where
  "db_begin db = transaction_new (db_current db)"

definition register_validator :: "'k validator \<Rightarrow> ('k, 's) database \<Rightarrow> ('k, 's) database" where
  "register_validator v db = db\<lparr>db_validators := db_validators db @ [v]\<rparr>"

fun run_validators :: "'k validator list \<Rightarrow> 'k candidate_world \<Rightarrow> string + unit" where
  "run_validators [] c = Inr ()"
| "run_validators (v # vs) c = res_bind (v c) (\<lambda>_. run_validators vs c)"

definition commit ::
  "'k kernel_ops \<Rightarrow> ('s, 'e) commit_store_ops \<Rightarrow> 'k transaction \<Rightarrow> ('k, 's) database \<Rightarrow>
   (('e commit_error + 'k world) \<times> ('k, 's) database) option" where
  "commit K S tx db =
     (let current = db_current db
      in if w_id (tx_base tx) \<noteq> w_id current
         then Some (Inl (StaleTransaction (w_id (tx_base tx)) (w_id current)), db)
      else case tx_candidate K tx of
          None \<Rightarrow> None
        | Some (Inl e) \<Rightarrow> Some (Inl (CandidateFailed e), db)
        | Some (Inr c) \<Rightarrow>
            (case run_validators (db_validators db) c of
               Inl e \<Rightarrow> Some (Inl (ValidationFailed e), db)
             | Inr _ \<Rightarrow>
                 let frame = candidate_frame c
                 in (case cs_append S frame (db_store db) of
                       (Inl e, s) \<Rightarrow> Some (Inl (StoreFailed e), db\<lparr>db_store := s\<rparr>)
                     | (Inr _, s) \<Rightarrow>
                         let w = into_world K c frame (w_history current)
                         in Some (Inr w, db\<lparr>db_current := w, db_store := s\<rparr>))))"

section \<open>Well-linked histories\<close>

text \<open>The allocator check of a batch: every allocation names the next identifier.\<close>

fun allocate_check :: "operation list \<Rightarrow> u64 \<Rightarrow> candidate_error + u64" where
  "allocate_check [] n = Inr n"
| "allocate_check (AllocateEntity e # xs) n =
     (if e \<noteq> n then Inl (AllocatorOperationMismatch n e) else allocate_check xs (n + 1))"
| "allocate_check (Define slot f # xs) n = allocate_check xs n"
| "allocate_check (Forget slot # xs) n = allocate_check xs n"

definition frame_ok :: "world_id \<times> u64 \<times> u64 \<Rightarrow> commit_frame \<Rightarrow> bool" where
  "frame_ok tip f \<longleftrightarrow>
     (case tip of (wid, version, next) \<Rightarrow>
       parent_world f = wid \<and> parent_version f = version \<and>
       allocate_check (operations f) next = Inr (resulting_allocator f) \<and>
       resulting_world f = calculate_world_id (parent_world f) (resulting_version f)
                             (resulting_allocator f) (operations f))"

definition frame_tip :: "commit_frame \<Rightarrow> world_id \<times> u64 \<times> u64" where
  "frame_tip f = (resulting_world f, resulting_version f, resulting_allocator f)"

fun well_linked_from :: "world_id \<times> u64 \<times> u64 \<Rightarrow> commit_frame list \<Rightarrow> bool" where
  "well_linked_from tip [] = True"
| "well_linked_from tip (f # fs) \<longleftrightarrow> frame_ok tip f \<and> well_linked_from (frame_tip f) fs"

definition well_linked :: "commit_frame list \<Rightarrow> bool" where
  "well_linked fs = well_linked_from (GENESIS, 0, 1) fs"

lemma well_linked_from_append:
  "well_linked_from tip (xs @ ys) \<longleftrightarrow> well_linked_from tip xs \<and> well_linked_from (foldl (\<lambda>_. frame_tip) tip xs) ys"
  by (induction xs arbitrary: tip) auto

definition frames_commands :: "commit_frame list \<Rightarrow> kernel_command list" where
  "frames_commands fs = map command_of (concat (map operations fs))"

definition frames_spec :: "commit_frame list \<Rightarrow> kernel_spec" where
  "frames_spec fs = spec_run (frames_commands fs)"

lemma allocate_check_append:
  "allocate_check (xs @ ys) n = res_bind (allocate_check xs n) (allocate_check ys)"
  by (induction xs n rule: allocate_check.induct) auto

lemma apply_operations_append:
  "apply_operations K (xs @ ys) s = try_bind (apply_operations K xs s) (apply_operations K ys)"
proof (induction xs arbitrary: s)
  case (Cons x xs)
  then have "apply_operations K (xs @ ys) = (\<lambda>s. try_bind (apply_operations K xs s) (apply_operations K ys))"
    by (rule ext)
  then show ?case by (simp add: try_bind_assoc)
qed simp

lemma reconstruct_frames_append:
  "reconstruct_frames K (xs @ ys) s = try_bind (reconstruct_frames K xs s) (reconstruct_frames K ys)"
proof (induction xs arbitrary: s)
  case (Cons x xs)
  then have "reconstruct_frames K (xs @ ys) = (\<lambda>s. try_bind (reconstruct_frames K xs s) (reconstruct_frames K ys))"
    by (rule ext)
  then show ?case by (simp add: try_bind_assoc)
qed simp

section \<open>Replaying over any kernel\<close>

context kernel
begin

lemma apply_operation_check:
  assumes "kinv k" and "n = spec_next_entity (kabs k)"
  shows "case allocate_check [x] n of
      Inl e \<Rightarrow> apply_operation K x (k, n) = Some (Inl e)
    | Inr n' \<Rightarrow> \<exists>k'. apply_operation K x (k, n) = Some (Inr (k', n')) \<and> kinv k' \<and>
        kabs k' = spec_command (command_of x) (kabs k) \<and> n' = spec_next_entity (kabs k')"
  using entity [OF assms(1)] def [OF assms(1)] forget [OF assms(1)] assms(2)
  by (cases x) fastforce+

lemma apply_operations_check:
  "kinv k \<Longrightarrow> n = spec_next_entity (kabs k) \<Longrightarrow>
   case allocate_check xs n of
     Inl e \<Rightarrow> apply_operations K xs (k, n) = Some (Inl e)
   | Inr n' \<Rightarrow> \<exists>k'. apply_operations K xs (k, n) = Some (Inr (k', n')) \<and> kinv k' \<and>
       kabs k' = fold spec_command (map command_of xs) (kabs k) \<and> n' = spec_next_entity (kabs k')"
proof (induction xs arbitrary: k n)
  case (Cons x xs)
  note head = apply_operation_check [OF Cons.prems, of x]
  have split: "allocate_check (x # xs) n = res_bind (allocate_check [x] n) (allocate_check xs)"
    using allocate_check_append [of "[x]" xs n] by simp
  show ?case
  proof (cases "allocate_check [x] n")
    case (Inl e)
    with head split show ?thesis by simp
  next
    case (Inr n1)
    with head obtain k1 where k1: "apply_operation K x (k, n) = Some (Inr (k1, n1))" "kinv k1"
      "kabs k1 = spec_command (command_of x) (kabs k)" "n1 = spec_next_entity (kabs k1)" by auto
    from Cons.IH [OF k1(2,4)] k1 split Inr show ?thesis
      by (auto split: sum.splits)
  qed
qed simp

text \<open>The state of the reconstruction loop after the frames \<open>fs\<close>.\<close>

definition loop_ok :: "commit_frame list \<Rightarrow> world_id \<times> u64 \<times> u64 \<Rightarrow> 'k world \<times> 'k \<Rightarrow> bool" where
  "loop_ok fs tip s \<longleftrightarrow>
     (case s of (w, k) \<Rightarrow>
       kinv k \<and> kabs k = frames_spec fs \<and> tip = (w_id w, w_version w, w_next_entity w) \<and>
       w_next_entity w = spec_next_entity (kabs k) \<and> w_history w = rev fs \<and>
       w_history_prefix w = None \<and> w_lazy_kernel w = None \<and> w_vm_query w = None \<and>
       w_projection_base w = None \<and> w_operation_count w = length (concat (map operations fs)) \<and>
       w_active_slot_count w = card {slot. spec_stacks (kabs k) slot \<noteq> []} \<and>
       w_record_count w = spec_records (kabs k))"

lemma loop_ok_genesis: "loop_ok [] (GENESIS, 0, 1) (genesis K, k_new K)"
  by (simp add: loop_ok_def genesis_def new_inv new_abs frames_spec_def frames_commands_def spec_run_def spec_new_def)

lemma frames_spec_snoc:
  "frames_spec (fs @ [f]) = fold spec_command (map command_of (operations f)) (frames_spec fs)"
  by (simp add: frames_spec_def frames_commands_def spec_run_def)

lemma reconstruct_frame_ok:
  assumes "loop_ok fs tip s" and "frame_ok tip f"
  shows "\<exists>s'. reconstruct_frame K f s = Some (Inr s') \<and> loop_ok (fs @ [f]) (frame_tip f) s'"
proof -
  obtain w k where s: "s = (w, k)" by (cases s)
  note ok = assms(1) [unfolded loop_ok_def s prod.case]
  note fo = assms(2) [unfolded frame_ok_def]
  from ok have kinv: "kinv k" and nxt: "w_next_entity w = spec_next_entity (kabs k)" by auto
  from apply_operations_check [OF kinv nxt, of "operations f"] ok fo
  obtain k' where k': "apply_operations K (operations f) (k, w_next_entity w) = Some (Inr (k', resulting_allocator f))"
    "kinv k'" "kabs k' = frames_spec (fs @ [f])" "resulting_allocator f = spec_next_entity (kabs k')"
    by (auto simp: frames_spec_snoc)
  show ?thesis
    using ok fo k' s
    by (simp add: reconstruct_frame_def Let_def validate loop_ok_def frame_tip_def active_slots records)
qed

lemma reconstruct_frame_bad:
  assumes "loop_ok fs tip s" and "\<not> frame_ok tip f"
  shows "\<exists>e. reconstruct_frame K f s = Some (Inl e)"
proof -
  obtain w k where s: "s = (w, k)" by (cases s)
  note ok = assms(1) [unfolded loop_ok_def s prod.case]
  from ok have kinv: "kinv k" and nxt: "w_next_entity w = spec_next_entity (kabs k)" by auto
  from apply_operations_check [OF kinv nxt, of "operations f"] show ?thesis
    using ok assms(2)
    by (cases "allocate_check (operations f) (w_next_entity w)")
      (auto simp: reconstruct_frame_def Let_def frame_ok_def validate s)
qed

lemma reconstruct_frames_iff:
  "loop_ok before tip s \<Longrightarrow>
   if well_linked_from tip fs
   then \<exists>s' tip'. reconstruct_frames K fs s = Some (Inr s') \<and> loop_ok (before @ fs) tip' s'
   else \<exists>e. reconstruct_frames K fs s = Some (Inl e)"
proof (induction fs arbitrary: before tip s)
  case (Cons f fs)
  show ?case
  proof (cases "frame_ok tip f")
    case True
    from reconstruct_frame_ok [OF Cons.prems True] obtain s1 where
      s1: "reconstruct_frame K f s = Some (Inr s1)" "loop_ok (before @ [f]) (frame_tip f) s1" by blast
    from Cons.IH [OF s1(2)] s1(1) True show ?thesis by auto
  next
    case False
    with reconstruct_frame_bad [OF Cons.prems False] show ?thesis by auto
  qed
qed auto

text \<open>What a reconstructed world is.\<close>

definition world_of :: "commit_frame list \<Rightarrow> 'k world \<Rightarrow> bool" where
  "world_of fs w \<longleftrightarrow>
     (\<exists>k. w_eager_kernel w = Some k \<and> loop_ok fs (w_id w, w_version w, w_next_entity w) (w, k))"

lemma reconstruct_iff:
  "if well_linked fs
   then \<exists>w. reconstruct K fs = Some (Inr w) \<and> world_of fs w
   else \<exists>e. reconstruct K fs = Some (Inl e)"
proof (cases "well_linked fs")
  case True
  with reconstruct_frames_iff [OF loop_ok_genesis, of fs] obtain w0 k tip where
    "reconstruct_frames K fs (genesis K, k_new K) = Some (Inr (w0, k))" "loop_ok fs tip (w0, k)"
    by (auto simp: well_linked_def)
  with True show ?thesis by (auto simp: reconstruct_def world_of_def loop_ok_def)
next
  case False
  with reconstruct_frames_iff [OF loop_ok_genesis, of fs] show ?thesis
    by (auto simp: well_linked_def reconstruct_def)
qed

lemma world_ofD:
  assumes "world_of fs w"
  obtains k where "w_eager_kernel w = Some k" "kinv k" "kabs k = frames_spec fs"
    "w_next_entity w = spec_next_entity (frames_spec fs)" "w_history w = rev fs"
    "w_history_prefix w = None" "w_lazy_kernel w = None" "w_vm_query w = None"
    "w_projection_base w = None" "w_operation_count w = length (concat (map operations fs))"
    "w_active_slot_count w = card {slot. spec_stacks (frames_spec fs) slot \<noteq> []}"
    "w_record_count w = spec_records (frames_spec fs)"
  using assms by (auto simp: world_of_def loop_ok_def)

lemma world_of_observations:
  assumes "world_of fs w"
  shows "world_frames w = fs"
    and "world_definitions K slot w = Some (spec_stacks (frames_spec fs) slot)"
    and "world_resolve K slot w = Some (top (spec_stacks (frames_spec fs) slot))"
  by (rule world_ofD [OF assms];
      simp add: world_frames_def world_definitions_def world_resolve_def world_kernel_def definitions resolve)+

lemma reconstruct_world_of:
  assumes "reconstruct K fs = Some (Inr w)"
  shows "world_of fs w" and "well_linked fs"
  using reconstruct_iff [of fs] assms by (auto split: if_splits)

lemma reconstruct_frames_tip:
  "reconstruct_frames K fs s = Some (Inr s') \<Longrightarrow> loop_ok b tip s \<Longrightarrow> loop_ok (b @ fs) tip' s' \<Longrightarrow>
   tip' = foldl (\<lambda>_. frame_tip) tip fs"
proof (induction fs arbitrary: b tip s)
  case Nil
  then show ?case by (auto simp: loop_ok_def)
next
  case (Cons f fs)
  then obtain s1 where s1: "reconstruct_frame K f s = Some (Inr s1)" "reconstruct_frames K fs s1 = Some (Inr s')"
    by (auto simp: try_bind_Inr)
  have "frame_ok tip f" using reconstruct_frame_bad [OF Cons.prems(2)] s1(1) by fastforce
  from reconstruct_frame_ok [OF Cons.prems(2) this] s1(1) have "loop_ok (b @ [f]) (frame_tip f) s1" by auto
  from Cons.IH [OF s1(2) this] Cons.prems(3) show ?case by simp
qed

lemma reconstruct_tip:
  assumes "reconstruct K fs = Some (Inr w)"
  shows "(w_id w, w_version w, w_next_entity w) = foldl (\<lambda>_. frame_tip) (GENESIS, 0, 1) fs"
proof -
  from assms obtain s' where s': "reconstruct_frames K fs (genesis K, k_new K) = Some (Inr s')"
    "w_id w = w_id (fst s')" "w_version w = w_version (fst s')" "w_next_entity w = w_next_entity (fst s')"
    by (auto simp: reconstruct_def try_bind_Inr)
  have "well_linked_from (GENESIS, 0, 1) fs"
    using reconstruct_world_of(2) [OF assms] by (simp add: well_linked_def)
  with reconstruct_frames_iff [OF loop_ok_genesis, of fs] s'(1) obtain tip where "loop_ok fs tip s'" by auto
  then have "loop_ok ([] @ fs) (w_id w, w_version w, w_next_entity w) s'"
    using s' by (auto simp: loop_ok_def)
  from reconstruct_frames_tip [OF s'(1) loop_ok_genesis this] show ?thesis .
qed

end

section \<open>The contract of a commit store\<close>

locale commit_store =
  fixes S :: "('s, 'e) commit_store_ops"
    and sinv :: "'s \<Rightarrow> bool"
  assumes append_ok: "sinv s \<Longrightarrow> cs_append S f s = (Inr u, s') \<Longrightarrow>
      sinv s' \<and> cs_frames S s' = cs_frames S s @ [f]"
    and append_error: "sinv s \<Longrightarrow> cs_append S f s = (Inl e, s') \<Longrightarrow>
      sinv s' \<and> cs_frames S s' = cs_frames S s"
    and len: "sinv s \<Longrightarrow> cs_len S s = length (cs_frames S s)"

interpretation memory: commit_store memory_store "\<lambda>_. True"
  by unfold_locales (auto simp: memory_store_def memory_append_def)

locale database_of = kernel K kinv kabs + commit_store S sinv
  for K :: "'k kernel_ops" and kinv :: "'k \<Rightarrow> bool" and kabs :: "'k \<Rightarrow> kernel_spec"
    and S :: "('s, 'e) commit_store_ops" and sinv :: "'s \<Rightarrow> bool"
begin

definition db_ok :: "('k, 's) database \<Rightarrow> bool" where
  "db_ok db \<longleftrightarrow> sinv (db_store db) \<and>
     reconstruct K (cs_frames S (db_store db)) = Some (Inr (db_current db))"

lemma database_new_ok: "sinv s \<Longrightarrow> database_new K S s = Some (Inr db) \<Longrightarrow> db_ok db \<and> db_store db = s"
  by (auto simp: database_new_def try_bind_Inr db_ok_def)

text \<open>The candidate of a transaction on a reconstructed world, and the world that reconstructing
  its frame gives, are the same.\<close>

lemma candidate_of_world:
  assumes "world_of fs w"
  shows "case allocate_check xs (w_next_entity w) of
      Inl e \<Rightarrow> construct K w xs = Some (Inl e)
    | Inr n \<Rightarrow> \<exists>c. construct K w xs = Some (Inr c) \<and> c_base_world c = w_id w \<and>
        c_base_version c = w_version w \<and> c_version c = w_version w + 1 \<and> c_next_entity c = n \<and>
        c_operations c = xs \<and> c_id c = calculate_world_id (w_id w) (w_version w + 1) n xs \<and>
        c_base_operation_count c = w_operation_count w \<and>
        apply_operations K xs (the (w_eager_kernel w), w_next_entity w) = Some (Inr (c_kernel c, n))"
proof -
  from world_ofD [OF assms] obtain k where k: "w_eager_kernel w = Some k" "kinv k" "kabs k = frames_spec fs"
    "w_next_entity w = spec_next_entity (kabs k)" by metis
  from apply_operations_check [OF k(2,4), of xs] k(1) show ?thesis
    by (cases "allocate_check xs (w_next_entity w)")
      (auto simp: construct_def construct_from_state_def world_kernel_def validate Let_def)
qed

lemma into_world_reconstructs:
  assumes cur: "reconstruct K fs = Some (Inr w)" and c: "construct K w xs = Some (Inr c)"
  shows "reconstruct K (fs @ [candidate_frame c]) = Some (Inr (into_world K c (candidate_frame c) (w_history w)))"
proof -
  note wo = reconstruct_world_of(1) [OF cur]
  from cur obtain w0 k where 0: "reconstruct_frames K fs (genesis K, k_new K) = Some (Inr (w0, k))"
    "w = w0\<lparr>w_eager_kernel := Some k\<rparr>"
    by (auto simp: reconstruct_def try_bind_Inr)
  from candidate_of_world [OF wo, of xs] c obtain n where n: "allocate_check xs (w_next_entity w) = Inr n"
    by (cases "allocate_check xs (w_next_entity w)") auto
  with candidate_of_world [OF wo, of xs] c have
    cs: "c_base_world c = w_id w" "c_base_version c = w_version w" "c_version c = w_version w + 1"
      "c_next_entity c = n" "c_operations c = xs" "c_id c = calculate_world_id (w_id w) (w_version w + 1) n xs"
      "c_base_operation_count c = w_operation_count w"
      "apply_operations K xs (k, w_next_entity w) = Some (Inr (c_kernel c, n))"
    using 0(2) by auto
  from wo obtain "w_projection_base w = None" "kinv k" "kabs k = frames_spec fs"
    "w_next_entity w = spec_next_entity (kabs k)"
    using 0(2) by (auto elim!: world_ofD)
  with apply_operations_check [of k "w_next_entity w" xs] n cs(8) have "kinv (c_kernel c)" by auto
  then have "k_validate K (c_kernel c) = Some (Inr ())" by (rule validate)
  then have "reconstruct_frame K (candidate_frame c) (w0, k) =
      Some (Inr ((into_world K c (candidate_frame c) (w_history w))\<lparr>w_eager_kernel := None\<rparr>, c_kernel c))"
    using 0(2) cs \<open>w_projection_base w = None\<close>
    by (simp add: reconstruct_frame_def candidate_frame_def into_world_def Let_def)
  with 0(1) show ?thesis
    by (simp add: reconstruct_def reconstruct_frames_append into_world_def)
qed

text \<open>A commit of a transaction that is based on the current world.\<close>

lemma commit_current:
  assumes ok: "db_ok db" and base: "tx_base tx = db_current db"
  shows "\<exists>r db'. commit K S tx db = Some (r, db') \<and> db_ok db' \<and> db_validators db' = db_validators db \<and>
    (case r of
       Inl e \<Rightarrow> db_current db' = db_current db \<and> cs_frames S (db_store db') = cs_frames S (db_store db)
     | Inr w \<Rightarrow> db_current db' = w \<and>
         (\<exists>f. cs_frames S (db_store db') = cs_frames S (db_store db) @ [f] \<and> operations f = tx_operations tx))"
proof -
  let ?fs = "cs_frames S (db_store db)"
  from ok have inv: "sinv (db_store db)" and cur: "reconstruct K ?fs = Some (Inr (db_current db))"
    by (auto simp: db_ok_def)
  note wo = reconstruct_world_of(1) [OF cur]
  show ?thesis
  proof (cases "tx_candidate K tx")
    case None
    with candidate_of_world [OF wo, of "tx_operations tx"] base show ?thesis
      by (auto simp: tx_candidate_def split: sum.splits)
  next
    case (Some res)
    show ?thesis
    proof (cases res)
      case (Inl e)
      with Some base ok show ?thesis by (simp add: commit_def Let_def)
    next
      case (Inr c)
      with Some base have c: "construct K (db_current db) (tx_operations tx) = Some (Inr c)"
        by (simp add: tx_candidate_def)
      with candidate_of_world [OF wo, of "tx_operations tx"] have ops: "c_operations c = tx_operations tx"
        by (auto split: sum.splits)
      obtain r s' where app: "cs_append S (candidate_frame c) (db_store db) = (r, s')"
        by (cases "cs_append S (candidate_frame c) (db_store db)")
      show ?thesis
      proof (cases "run_validators (db_validators db) c")
        case (Inl e)
        with Some Inr base ok show ?thesis by (simp add: commit_def Let_def)
      next
        case valid: (Inr u)
        show ?thesis
        proof (cases r)
          case (Inl e)
          with append_error [OF inv] app have "sinv s'" "cs_frames S s' = ?fs" by auto
          with Inl Some Inr base ok app valid show ?thesis
            using \<open>res = Inr c\<close> by (simp add: commit_def Let_def db_ok_def)
        next
          case (Inr u')
          with append_ok [OF inv] app have "sinv s'" "cs_frames S s' = ?fs @ [candidate_frame c]" by auto
          with Inr Some \<open>res = Inr c\<close> base ok app valid into_world_reconstructs [OF cur c] ops show ?thesis
            by (simp add: commit_def Let_def db_ok_def candidate_frame_def)
        qed
      qed
    qed
  qed
qed

lemma commit_stale:
  "w_id (tx_base tx) \<noteq> w_id (db_current db) \<Longrightarrow>
   commit K S tx db = Some (Inl (StaleTransaction (w_id (tx_base tx)) (w_id (db_current db))), db)"
  by (simp add: commit_def Let_def)

text \<open>A well-formed transaction is never refused for its own construction.\<close>

lemma commit_candidate_never_fails:
  assumes "db_ok db" and "tx_base tx = db_current db"
    and "allocate_check (tx_operations tx) (w_next_entity (tx_base tx)) = Inr n"
  shows "commit K S tx db \<noteq> Some (Inl (CandidateFailed e), db')"
proof -
  from assms(1) have cur: "reconstruct K (cs_frames S (db_store db)) = Some (Inr (db_current db))"
    by (simp add: db_ok_def)
  from candidate_of_world [OF reconstruct_world_of(1) [OF cur], of "tx_operations tx"] assms(2,3)
  obtain c where "tx_candidate K tx = Some (Inr c)" by (auto simp: tx_candidate_def)
  then show ?thesis by (auto simp: commit_def Let_def split: sum.splits prod.splits)
qed

end

end
