(* ===== verification/Sessions.thy ===== *)
theory Sessions
  imports Database
begin

text \<open>
  Interleaved transactions over one database.  A session is a database and the transactions that
  are open on it; its steps are the public operations of \<open>Database\<close> and \<open>Transaction\<close>
  (\<open>forthdb-world/src/lib.rs\<close>) in any order, each commit being atomic under \<open>commit_lock\<close>.  The
  invariant says that the store reconstructs to the current world and that every open
  transaction is based on a past world and allocates from its allocator.  It needs that the
  64-bit identities of the committed worlds are distinct, because the check for stale
  transactions compares identities.  The last section states the properties of worlds,
  databases and sessions on the reference kernel.
\<close>

section \<open>Steps\<close>

datatype tx_edit = EditEntity | EditDefine slot_id fact | EditForget slot_id

fun apply_edit :: "tx_edit \<Rightarrow> 'k transaction \<Rightarrow> 'k transaction" where
  "apply_edit EditEntity tx = snd (tx_entity tx)"
| "apply_edit (EditDefine slot f) tx = tx_define slot f tx"
| "apply_edit (EditForget slot) tx = tx_forget slot tx"

record ('k, 's) session =
  s_db :: "('k, 's) database"
  s_open :: "'k transaction list"

inductive session_step ::
  "'k kernel_ops \<Rightarrow> ('s, 'e) commit_store_ops \<Rightarrow> ('k, 's) session \<Rightarrow> ('k, 's) session \<Rightarrow> bool"
  for K :: "'k kernel_ops" and S :: "('s, 'e) commit_store_ops" where
  step_begin: "session_step K S s (s\<lparr>s_open := s_open s @ [db_begin (s_db s)]\<rparr>)"
| step_edit: "i < length (s_open s) \<Longrightarrow>
    session_step K S s (s\<lparr>s_open := (s_open s)[i := apply_edit x (s_open s ! i)]\<rparr>)"
| step_validator: "session_step K S s (s\<lparr>s_db := register_validator v (s_db s)\<rparr>)"
| step_commit: "i < length (s_open s) \<Longrightarrow> commit K S (s_open s ! i) (s_db s) = Some (r, db') \<Longrightarrow>
    session_step K S s (s\<lparr>s_db := db', s_open := remove_nth i (s_open s)\<rparr>)"

inductive session_reach ::
  "'k kernel_ops \<Rightarrow> ('s, 'e) commit_store_ops \<Rightarrow> 's \<Rightarrow> ('k, 's) session \<Rightarrow> bool"
  for K :: "'k kernel_ops" and S :: "('s, 'e) commit_store_ops" and s0 :: 's where
  reach_open: "database_new K S s0 = Some (Inr db) \<Longrightarrow> session_reach K S s0 \<lparr>s_db = db, s_open = []\<rparr>"
| reach_step: "session_reach K S s0 s \<Longrightarrow> session_step K S s s' \<Longrightarrow> session_reach K S s0 s'"

definition distinct_worlds :: "commit_frame list \<Rightarrow> bool" where
  "distinct_worlds fs \<longleftrightarrow> distinct (GENESIS # map resulting_world fs)"

lemma set_remove_nth: "set (remove_nth i xs) \<subseteq> set xs"
  by (auto simp: remove_nth_def dest: in_set_takeD in_set_dropD)

lemma allocate_check_snoc:
  "allocate_check (xs @ [x]) n = res_bind (allocate_check xs n) (allocate_check [x])"
  by (rule allocate_check_append)

section \<open>The invariant\<close>

context database_of
begin

definition open_ok :: "commit_frame list \<Rightarrow> 'k transaction \<Rightarrow> bool" where
  "open_ok fs tx \<longleftrightarrow>
     (\<exists>n \<le> length fs. reconstruct K (take n fs) = Some (Inr (tx_base tx))) \<and>
     allocate_check (tx_operations tx) (w_next_entity (tx_base tx)) = Inr (tx_next_entity tx)"

definition session_ok :: "('k, 's) session \<Rightarrow> bool" where
  "session_ok s \<longleftrightarrow> db_ok (s_db s) \<and>
     (\<forall>tx \<in> set (s_open s). open_ok (cs_frames S (db_store (s_db s))) tx)"

lemma open_ok_grow: "open_ok fs tx \<Longrightarrow> open_ok (fs @ gs) tx"
  by (auto simp: open_ok_def) (metis append_Nil2 cancel_comm_monoid_add_class.diff_cancel
      diff_is_0_eq take0 take_append trans_le_add1)

lemma open_ok_edit: "open_ok fs tx \<Longrightarrow> open_ok fs (apply_edit x tx)"
  by (cases x)
    (auto simp: open_ok_def tx_entity_def tx_define_def tx_forget_def Let_def allocate_check_snoc)

lemma reconstruct_take_id:
  assumes "reconstruct K (take n fs) = Some (Inr w)" and "n \<le> length fs"
  shows "w_id w = (GENESIS # map resulting_world fs) ! n"
proof -
  have "w_id w = fst (foldl (\<lambda>_. frame_tip) (GENESIS, 0, 1) (take n fs))"
    using reconstruct_tip [OF assms(1)] by (metis fst_conv)
  also have "\<dots> = (GENESIS # map resulting_world fs) ! n"
    using assms(2) by (cases n) (simp_all add: take_Suc_conv_app_nth frame_tip_def)
  finally show ?thesis .
qed

text \<open>With distinct identities, the check on the identity finds exactly the current world.\<close>

lemma fresh_is_current:
  assumes "db_ok db" and "open_ok (cs_frames S (db_store db)) tx"
    and dist: "distinct_worlds (cs_frames S (db_store db))"
    and id: "w_id (tx_base tx) = w_id (db_current db)"
  shows "tx_base tx = db_current db"
proof -
  let ?fs = "cs_frames S (db_store db)"
  from assms(2) obtain n where n: "n \<le> length ?fs" "reconstruct K (take n ?fs) = Some (Inr (tx_base tx))"
    by (auto simp: open_ok_def)
  from assms(1) have cur: "reconstruct K (take (length ?fs) ?fs) = Some (Inr (db_current db))"
    by (simp add: db_ok_def)
  have "(GENESIS # map resulting_world ?fs) ! n = (GENESIS # map resulting_world ?fs) ! length ?fs"
    using reconstruct_take_id [OF n(2,1)] reconstruct_take_id [OF cur] id by simp
  then have "n = length ?fs"
    using dist n(1) nth_eq_iff_index_eq [of "GENESIS # map resulting_world ?fs" n "length ?fs"]
    by (simp add: distinct_worlds_def)
  with n(2) cur show ?thesis by simp
qed

lemma commit_session:
  assumes "session_ok s" and "distinct_worlds (cs_frames S (db_store (s_db s)))" and "tx \<in> set (s_open s)"
  shows "\<exists>r db'. commit K S tx (s_db s) = Some (r, db') \<and> db_ok db' \<and>
    (case r of
       Inl e \<Rightarrow> db_current db' = db_current (s_db s) \<and>
         cs_frames S (db_store db') = cs_frames S (db_store (s_db s))
     | Inr w \<Rightarrow> tx_base tx = db_current (s_db s) \<and> db_current db' = w \<and>
         (\<exists>f. cs_frames S (db_store db') = cs_frames S (db_store (s_db s)) @ [f] \<and>
            operations f = tx_operations tx)) \<and>
    (\<forall>e. r \<noteq> Inl (CandidateFailed e))"
proof (cases "w_id (tx_base tx) = w_id (db_current (s_db s))")
  case True
  from assms(1,3) have ok: "db_ok (s_db s)" "open_ok (cs_frames S (db_store (s_db s))) tx"
    by (auto simp: session_ok_def)
  note base = fresh_is_current [OF ok assms(2) True]
  from ok(2) have alloc: "allocate_check (tx_operations tx) (w_next_entity (tx_base tx)) = Inr (tx_next_entity tx)"
    by (simp add: open_ok_def)
  from commit_current [OF ok(1) base] obtain r db' where
    "commit K S tx (s_db s) = Some (r, db')" "db_ok db'" "case r of
       Inl e \<Rightarrow> db_current db' = db_current (s_db s) \<and> cs_frames S (db_store db') = cs_frames S (db_store (s_db s))
     | Inr w \<Rightarrow> db_current db' = w \<and>
         (\<exists>f. cs_frames S (db_store db') = cs_frames S (db_store (s_db s)) @ [f] \<and> operations f = tx_operations tx)"
    by blast
  with base commit_candidate_never_fails [OF ok(1) base alloc] show ?thesis
    by (intro exI [of _ r] exI [of _ db']) (auto split: sum.splits)
next
  case False
  with commit_stale [OF False] assms(1) show ?thesis by (simp add: session_ok_def)
qed

lemma session_step_ok:
  assumes "session_ok s" and step: "session_step K S s s'"
    and dist: "distinct_worlds (cs_frames S (db_store (s_db s)))"
  shows "session_ok s' \<and> prefix (cs_frames S (db_store (s_db s))) (cs_frames S (db_store (s_db s')))"
  using step
proof cases
  case step_begin
  have "reconstruct K (cs_frames S (db_store (s_db s))) = Some (Inr (db_current (s_db s)))"
    using assms(1) by (simp add: session_ok_def db_ok_def)
  then have "open_ok (cs_frames S (db_store (s_db s))) (db_begin (s_db s))"
    by (auto simp: open_ok_def db_begin_def transaction_new_def intro!: exI [of _ "length (cs_frames S (db_store (s_db s)))"])
  with step_begin assms(1) show ?thesis by (simp add: session_ok_def)
next
  case (step_edit i x)
  then show ?thesis
    using assms(1) set_update_subset_insert [of "s_open s" i]
    by (fastforce simp: session_ok_def intro: open_ok_edit)
next
  case (step_validator v)
  with assms(1) show ?thesis by (simp add: session_ok_def register_validator_def db_ok_def)
next
  case (step_commit i r db')
  from commit_session [OF assms(1) dist, of "s_open s ! i"] step_commit have
    "db_ok db'" and "\<exists>gs. cs_frames S (db_store db') = cs_frames S (db_store (s_db s)) @ gs"
    by (auto split: sum.splits)
  with step_commit(1) assms(1) set_remove_nth [of i "s_open s"] show ?thesis
    by (fastforce simp: session_ok_def intro: open_ok_grow)
qed

lemma distinct_worlds_prefix: "prefix fs gs \<Longrightarrow> distinct_worlds gs \<Longrightarrow> distinct_worlds fs"
  by (auto simp: distinct_worlds_def prefix_def)

lemma commit_store_grows:
  assumes "sinv (db_store db)" and "commit K S tx db = Some (r, db')"
  shows "sinv (db_store db') \<and> prefix (cs_frames S (db_store db)) (cs_frames S (db_store db'))"
  using assms append_ok [OF assms(1)] append_error [OF assms(1)]
  by (auto simp: commit_def Let_def split: if_splits option.splits sum.splits prod.splits)

lemma session_step_grows:
  assumes "session_step K S s s'" and "sinv (db_store (s_db s))"
  shows "sinv (db_store (s_db s')) \<and>
    prefix (cs_frames S (db_store (s_db s))) (cs_frames S (db_store (s_db s')))"
  using assms commit_store_grows by cases (auto simp: register_validator_def)

lemma session_reach_ok:
  assumes "sinv s0" and "session_reach K S s0 s"
  shows "sinv (db_store (s_db s)) \<and>
    (distinct_worlds (cs_frames S (db_store (s_db s))) \<longrightarrow> session_ok s)"
  using assms(2)
proof induction
  case (reach_open db)
  with database_new_ok [OF assms(1)] show ?case by (auto simp: session_ok_def db_ok_def)
next
  case (reach_step s s')
  with session_step_grows [OF reach_step.hyps(2)] session_step_ok [OF _ reach_step.hyps(2)] distinct_worlds_prefix
  show ?case by blast
qed

end

section \<open>Properties\<close>

interpretation reference_memory: database_of reference_kernel wf_db abs_db memory_store "\<lambda>_. True"
  by unfold_locales

text \<open>
  C13. Recovery accepts exactly the well-linked histories (parents, versions, allocations,
  allocator states and identities all match), never panics, and the world it builds shows the
  stacks, the allocator and the counts of all operations of the history.
\<close>

theorem reconstruct_exact:
  "if well_linked fs
   then \<exists>w. reconstruct reference_kernel fs = Some (Inr w) \<and> world_frames w = fs \<and>
     w_next_entity w = spec_next_entity (frames_spec fs) \<and>
     w_operation_count w = length (concat (map operations fs)) \<and>
     w_record_count w = spec_records (frames_spec fs) \<and>
     w_active_slot_count w = card {slot. spec_stacks (frames_spec fs) slot \<noteq> []} \<and>
     (\<forall>slot. world_definitions reference_kernel slot w = Some (spec_stacks (frames_spec fs) slot))
   else \<exists>e. reconstruct reference_kernel fs = Some (Inl e)"
proof (cases "well_linked fs")
  case True
  with reference.reconstruct_iff [of fs] obtain w where
    w: "reconstruct reference_kernel fs = Some (Inr w)" "reference.world_of fs w" by auto
  from reference.world_ofD [OF w(2)] reference.world_of_observations [OF w(2)] w(1) True
  show ?thesis by metis
next
  case False
  with reference.reconstruct_iff [of fs] show ?thesis by simp
qed

text \<open>
  C2. Sessions are serialisable.  In every reachable state whose committed worlds have distinct
  identities, committing any open transaction does not panic and is never refused for its own
  construction.  Either it succeeds: then the transaction was based on the current world and
  exactly one frame with exactly its operations is appended; or it fails: then current world
  and history are unchanged.  In both cases reconstructing the stored history gives the
  current world.
\<close>

theorem session_commit_serialisable:
  assumes "session_reach reference_kernel memory_store [] s" and "distinct_worlds (db_store (s_db s))"
    and "tx \<in> set (s_open s)"
  shows "\<exists>r db. commit reference_kernel memory_store tx (s_db s) = Some (r, db) \<and>
    reconstruct reference_kernel (db_store db) = Some (Inr (db_current db)) \<and>
    (case r of
       Inl e \<Rightarrow> (\<forall>c. e \<noteq> CandidateFailed c) \<and> db_current db = db_current (s_db s) \<and>
         db_store db = db_store (s_db s)
     | Inr w \<Rightarrow> tx_base tx = db_current (s_db s) \<and> db_current db = w \<and>
         (\<exists>f. db_store db = db_store (s_db s) @ [f] \<and> operations f = tx_operations tx))"
proof -
  have frames: "cs_frames memory_store = (\<lambda>fs. fs)" by (simp add: memory_store_def)
  have ok: "reference_memory.session_ok s"
    using reference_memory.session_reach_ok [OF _ assms(1)] assms(2) by (simp add: frames)
  from reference_memory.commit_session [OF ok _ assms(3), unfolded frames, OF assms(2)] obtain r db where
    "commit reference_kernel memory_store tx (s_db s) = Some (r, db)" "reference_memory.db_ok db"
    "case r of
       Inl e \<Rightarrow> db_current db = db_current (s_db s) \<and> db_store db = db_store (s_db s)
     | Inr w \<Rightarrow> tx_base tx = db_current (s_db s) \<and> db_current db = w \<and>
         (\<exists>f. db_store db = db_store (s_db s) @ [f] \<and> operations f = tx_operations tx)"
    "\<forall>e. r \<noteq> Inl (CandidateFailed e)" by blast
  then show ?thesis
    by (intro exI [of _ r] exI [of _ db]) (auto simp: reference_memory.db_ok_def frames split: sum.splits)
qed

definition sample_database :: "(forth_db, memory_commit_store) database" where
  "sample_database = \<lparr>db_current = genesis reference_kernel, db_store = [], db_validators = []\<rparr>"

lemma sample_database_new: "database_new reference_kernel memory_store [] = Some (Inr sample_database)"
  by (simp add: database_new_def memory_store_def reconstruct_def genesis_def sample_database_def)

theorem session_commit_serialisable_witness:
  "\<exists>r db. commit reference_kernel memory_store (apply_edit EditEntity (db_begin sample_database)) sample_database =
     Some (r, db) \<and> reconstruct reference_kernel (db_store db) = Some (Inr (db_current db))"
proof -
  let ?tx = "db_begin sample_database"
  let ?s = "\<lparr>s_db = sample_database, s_open = [apply_edit EditEntity ?tx]\<rparr>"
  have "session_reach reference_kernel memory_store [] \<lparr>s_db = sample_database, s_open = []\<rparr>"
    by (rule reach_open [OF sample_database_new])
  from reach_step [OF this step_begin]
  have "session_reach reference_kernel memory_store [] \<lparr>s_db = sample_database, s_open = [?tx]\<rparr>" by simp
  from reach_step [OF this step_edit [of 0 _ _ _ EditEntity]]
  have "session_reach reference_kernel memory_store [] ?s" by simp
  from session_commit_serialisable [OF this] show ?thesis
    by (fastforce simp: sample_database_def distinct_worlds_def)
qed

text \<open>
  The first of two concurrent commits wins: once a transaction has committed and its world
  has a new identity, any transaction that was begun on the same base is refused as stale and
  changes nothing, over any kernel and store.
\<close>

theorem first_committer_wins:
  assumes "commit K S tx1 db = Some (Inr w, db1)" and "tx_base tx2 = tx_base tx1"
    and "w_id w \<noteq> w_id (tx_base tx1)"
  shows "commit K S tx2 db1 = Some (Inl (StaleTransaction (w_id (tx_base tx1)) (w_id w)), db1)"
  using assms by (auto simp: commit_def Let_def split: if_splits option.splits sum.splits prod.splits)

text \<open>The world that an empty first commit leads to; its identity is not that of genesis.\<close>

definition sample_world :: "forth_db world" where
  "sample_world =
     into_world reference_kernel
       \<lparr>c_base_world = GENESIS, c_base_version = 0, c_id = calculate_world_id GENESIS 1 1 [], c_version = 1,
        c_next_entity = 1, c_base_operation_count = 0, c_operations = [], c_kernel = db_new\<rparr>
       \<lparr>parent_world = GENESIS, resulting_world = calculate_world_id GENESIS 1 1 [], parent_version = 0,
        resulting_version = 1, resulting_allocator = 1, operations = []\<rparr> []"

lemma sample_candidate:
  "tx_candidate reference_kernel (db_begin sample_database) = Some (Inr
     \<lparr>c_base_world = GENESIS, c_base_version = 0, c_id = calculate_world_id GENESIS 1 1 [], c_version = 1,
      c_next_entity = 1, c_base_operation_count = 0, c_operations = [], c_kernel = db_new\<rparr>)"
  using reference.validate [of db_new]
  by (simp add: tx_candidate_def construct_def construct_from_state_def db_begin_def transaction_new_def
      sample_database_def genesis_def world_kernel_def reference_kernel_def wf_db_new)

lemma sample_commit:
  "commit reference_kernel memory_store (db_begin sample_database) sample_database =
   Some (Inr sample_world, \<lparr>db_current = sample_world, db_store = w_history sample_world, db_validators = []\<rparr>)"
  using sample_candidate
  by (simp add: commit_def db_begin_def transaction_new_def sample_database_def genesis_def Let_def
      candidate_frame_def memory_store_def memory_append_def sample_world_def into_world_def)

lemma sample_identity: "calculate_world_id GENESIS 1 1 [] \<noteq> GENESIS"
  by code_simp

theorem first_committer_wins_witness:
  "commit reference_kernel memory_store (db_begin sample_database)
     \<lparr>db_current = sample_world, db_store = w_history sample_world, db_validators = []\<rparr> =
   Some (Inl (StaleTransaction GENESIS (w_id sample_world)),
     \<lparr>db_current = sample_world, db_store = w_history sample_world, db_validators = []\<rparr>)"
proof -
  have base: "w_id (tx_base (db_begin sample_database)) = GENESIS"
    by (simp add: db_begin_def transaction_new_def sample_database_def genesis_def)
  have "w_id sample_world \<noteq> GENESIS" using sample_identity by (simp add: sample_world_def into_world_def)
  then show ?thesis
    using first_committer_wins [OF sample_commit refl] by (simp add: base)
qed

text \<open>
  Validators gate publication: a world is only published when every registered validator
  accepted its candidate, and the published world is that candidate; when a validator rejects,
  the commit reports it and nothing changes.
\<close>

theorem validators_gate_commit:
  assumes "commit K S tx db = Some (r, db')" and "tx_candidate K tx = Some (Inr c)"
    and "w_id (tx_base tx) = w_id (db_current db)"
  shows "(\<exists>v e. v \<in> set (db_validators db) \<and> v c = Inl e \<and> r = Inl (ValidationFailed e) \<and> db' = db) \<or>
    ((\<forall>v \<in> set (db_validators db). v c = Inr ()) \<and>
      (case r of
         Inl e \<Rightarrow> \<exists>se. e = StoreFailed se \<and> db_current db' = db_current db
       | Inr w \<Rightarrow> w_id w = c_id c \<and> w_eager_kernel w = Some (c_kernel c)))"
proof -
  have run: "case run_validators vs c of
      Inl e \<Rightarrow> \<exists>v \<in> set vs. v c = Inl e | Inr _ \<Rightarrow> \<forall>v \<in> set vs. v c = Inr ()" for vs
  proof (induction vs)
    case (Cons v vs)
    then show ?case by (cases "v c") (auto split: sum.splits)
  qed simp
  show ?thesis
    using assms run [of "db_validators db"]
    by (auto simp: commit_def Let_def into_world_def split: sum.splits prod.splits)
qed

theorem validators_gate_commit_witness:
  "w_id sample_world = calculate_world_id GENESIS 1 1 [] \<and> w_eager_kernel sample_world = Some db_new"
proof -
  have "w_id (tx_base (db_begin sample_database)) = w_id (db_current sample_database)"
    by (simp add: db_begin_def transaction_new_def)
  from validators_gate_commit [OF sample_commit sample_candidate this] show ?thesis
    by (simp add: sample_database_def)
qed

end
