(* ===== verification/World_Views.thy ===== *)
theory World_Views
  imports Database
begin

text \<open>
  Worlds published by the virtual machine (\<open>World::from_vm_epoch\<close>, \<open>World::kernel\<close>,
  \<open>HistoryNode::materialize_kernel\<close>, \<open>World::vm_query\<close> in \<open>forthdb-world/src/lib.rs\<close>).  Such a world owns
  no kernel; it has a history and possibly an older kernel to start from.  The relation
  \<open>vm_world\<close> generates these worlds, with the on-demand caches filled at any moment; the lemmas
  show that whatever the caches and the starting point, the kernel that is rebuilt and the
  projection that answers queries are those of the whole history.
\<close>

section \<open>The worlds\<close>

definition numbered :: "commit_frame list \<Rightarrow> bool" where
  "numbered fs \<longleftrightarrow> (\<forall>i < length fs. resulting_version (fs ! i) = word_of_nat (Suc i))"

inductive vm_world :: "'k kernel_ops \<Rightarrow> commit_frame list \<Rightarrow> 'k world \<Rightarrow> bool" for K :: "'k kernel_ops" where
  vm_reconstruct: "reconstruct K fs = Some (Inr w) \<Longrightarrow> numbered fs \<Longrightarrow> vm_world K fs w"
| vm_epoch: "vm_world K fs base \<Longrightarrow> allocate_check ops (w_next_entity base) = Inr nxt \<Longrightarrow>
    from_vm_epoch base ops nxt active_slots record_count = (w, f) \<Longrightarrow> vm_world K (fs @ [f]) w"
| vm_fill_kernel: "vm_world K fs w \<Longrightarrow> fill_kernel K w = Some w' \<Longrightarrow> vm_world K fs w'"
| vm_fill_query: "vm_world K fs w \<Longrightarrow> fill_vm_query w = Some w' \<Longrightarrow> vm_world K fs w'"

definition allocators_ok :: "commit_frame list \<Rightarrow> bool" where
  "allocators_ok fs \<longleftrightarrow> (\<forall>i < length fs.
     allocate_check (operations (fs ! i)) (spec_next_entity (frames_spec (take i fs))) =
       Inr (resulting_allocator (fs ! i)))"

lemma numbered_snoc: "numbered (fs @ [f]) \<longleftrightarrow> numbered fs \<and> resulting_version f = word_of_nat (Suc (length fs))"
  by (auto simp: numbered_def nth_append less_Suc_eq)

lemma allocators_ok_snoc:
  "allocators_ok (fs @ [f]) \<longleftrightarrow> allocators_ok fs \<and>
     allocate_check (operations f) (spec_next_entity (frames_spec fs)) = Inr (resulting_allocator f)"
  by (auto simp: allocators_ok_def nth_append less_Suc_eq)

lemma allocate_check_spec:
  "allocate_check xs (spec_next_entity s) = Inr n \<Longrightarrow>
   spec_next_entity (fold spec_command (map command_of xs) s) = n"
proof (induction xs arbitrary: s)
  case (Cons x xs)
  then show ?case by (cases x) (auto split: if_splits)
qed simp

lemma frame_ok_allocator:
  "frame_ok t f \<Longrightarrow> allocate_check (operations f) (snd (snd t)) = Inr (resulting_allocator f)"
  by (cases t) (simp add: frame_ok_def)

lemma frame_tip_sel [simp]:
  "fst (snd (frame_tip f)) = resulting_version f" "snd (snd (frame_tip f)) = resulting_allocator f"
  by (simp_all add: frame_tip_def)

text \<open>The frames that a base of version \<open>n\<close> does not cover are those after the first \<open>n\<close>.\<close>

lemma unat_version: "n < 2 ^ 64 \<Longrightarrow> unat (word_of_nat n :: u64) = n"
  by (simp add: unat_of_nat)

lemma pending_frames:
  assumes "numbered fs" and "length fs < 2 ^ 64" and "n \<le> length fs"
  shows "rev (takeWhile (\<lambda>f. \<not> resulting_version f \<le> word_of_nat n) (rev fs)) = drop n fs"
proof -
  have later: "\<not> resulting_version f \<le> word_of_nat n" if "f \<in> set (rev (drop n fs))" for f
  proof -
    from that obtain i where "i < length fs - n" "f = fs ! (n + i)" by (auto simp: in_set_conv_nth)
    with assms(1) have "resulting_version f = word_of_nat (Suc (n + i))"
      unfolding numbered_def by (metis add.commute less_diff_conv)
    moreover have "unat (word_of_nat (Suc (n + i)) :: u64) = Suc (n + i)"
      by (rule unat_version) (use \<open>i < length fs - n\<close> assms(2) in simp)
    moreover have "unat (word_of_nat n :: u64) = n"
      by (rule unat_version) (use assms(2,3) in simp)
    ultimately show ?thesis by (simp only: word_le_nat_alt not_le lessI)
  qed
  have earlier: "resulting_version (last (take n fs)) \<le> word_of_nat n" if "take n fs \<noteq> []"
  proof -
    from that have "0 < n" "last (take n fs) = fs ! (n - 1)"
      using assms(3) by (auto simp: last_conv_nth)
    with assms show ?thesis by (simp add: numbered_def)
  qed
  have "takeWhile (\<lambda>f. \<not> resulting_version f \<le> word_of_nat n) (rev (drop n fs) @ rev (take n fs)) = rev (drop n fs)"
    using later earlier by (cases "take n fs" rule: rev_cases) (auto simp: takeWhile_append2 takeWhile_append)
  moreover have "rev fs = rev (drop n fs) @ rev (take n fs)"
    by (metis append_take_drop_id rev_append)
  ultimately show ?thesis by simp
qed

context kernel
begin

lemma replay_checked_ok:
  assumes "allocators_ok fs" and "n \<le> length fs"
  shows "kinv k \<Longrightarrow> kabs k = frames_spec (take n fs) \<Longrightarrow> a = spec_next_entity (kabs k) \<Longrightarrow>
    \<exists>k'. replay_checked K (drop n fs) (k, a) = Some k' \<and> kinv k' \<and> kabs k' = frames_spec fs"
  using assms(2)
proof (induction "length fs - n" arbitrary: n k a)
  case 0
  then show ?case by simp
next
  case (Suc m)
  then have n: "n < length fs" by simp
  then have split: "drop n fs = fs ! n # drop (Suc n) fs" by (simp add: Cons_nth_drop_Suc)
  have "allocate_check (operations (fs ! n)) a = Inr (resulting_allocator (fs ! n))"
    using assms(1) n Suc.prems by (simp add: allocators_ok_def)
  with apply_operations_check [OF Suc.prems(1,3), of "operations (fs ! n)"] obtain k' where
    k': "apply_operations K (operations (fs ! n)) (k, a) = Some (Inr (k', resulting_allocator (fs ! n)))"
      "kinv k'" "kabs k' = fold spec_command (map command_of (operations (fs ! n))) (kabs k)"
      "resulting_allocator (fs ! n) = spec_next_entity (kabs k')" by auto
  have "kabs k' = frames_spec (take (Suc n) fs)"
    using k'(3) n Suc.prems(2) by (simp add: take_Suc_conv_app_nth frames_spec_snoc)
  with Suc.hyps(1) [of "Suc n" k' "resulting_allocator (fs ! n)"] Suc.hyps(2) k' n
  show ?case by (simp add: split)
qed

definition base_ok :: "commit_frame list \<Rightarrow> 'k projection_base \<Rightarrow> bool" where
  "base_ok fs b \<longleftrightarrow> (\<exists>n \<le> length fs. pb_version b = word_of_nat n \<and> kinv (pb_kernel b) \<and>
     kabs (pb_kernel b) = frames_spec (take n fs) \<and> pb_next_entity b = spec_next_entity (kabs (pb_kernel b)))"

definition holds :: "commit_frame list \<Rightarrow> 'k \<Rightarrow> bool" where
  "holds fs k \<longleftrightarrow> kinv k \<and> kabs k = frames_spec fs"

definition view_ok :: "commit_frame list \<Rightarrow> 'k world \<Rightarrow> bool" where
  "view_ok fs w \<longleftrightarrow>
     w_history w = rev fs \<and> w_history_prefix w = None \<and> numbered fs \<and> allocators_ok fs \<and>
     w_version w = word_of_nat (length fs) \<and> w_next_entity w = spec_next_entity (frames_spec fs) \<and>
     (\<forall>k. w_eager_kernel w = Some k \<longrightarrow> holds fs k) \<and> (\<forall>k. w_lazy_kernel w = Some k \<longrightarrow> holds fs k) \<and>
     (\<forall>b. w_projection_base w = Some b \<longrightarrow> base_ok fs b) \<and>
     (fs = [] \<longrightarrow> w_eager_kernel w \<noteq> None) \<and>
     (\<forall>p. w_vm_query w = Some p \<longrightarrow> p = from_frames fs)"

lemma materialize_ok:
  assumes "numbered fs" and "allocators_ok fs" and "length fs < 2 ^ 64"
    and "\<forall>b. base = Some b \<longrightarrow> base_ok fs b"
  shows "\<exists>k. materialize_kernel K (rev fs) base = Some k \<and> holds fs k"
proof (cases base)
  case None
  have "kabs (k_new K) = frames_spec (take 0 fs)" "1 = spec_next_entity (kabs (k_new K))"
    by (simp_all add: new_abs frames_spec_def frames_commands_def spec_run_def spec_new_def)
  with replay_checked_ok [OF assms(2), of 0 "k_new K" 1] new_inv obtain k where
    "replay_checked K fs (k_new K, 1) = Some k" "kinv k" "kabs k = frames_spec fs" by auto
  with None pending_frames [OF assms(1,3), of 0] show ?thesis
    by (simp add: materialize_kernel_def Let_def holds_def)
next
  case (Some b)
  with assms(4) obtain n where n: "n \<le> length fs" "pb_version b = word_of_nat n" "kinv (pb_kernel b)"
    "kabs (pb_kernel b) = frames_spec (take n fs)" "pb_next_entity b = spec_next_entity (kabs (pb_kernel b))"
    by (auto simp: base_ok_def)
  from replay_checked_ok [OF assms(2) n(1,3,4,5)] Some n(2) pending_frames [OF assms(1,3) n(1)]
  show ?thesis by (simp add: materialize_kernel_def Let_def holds_def)
qed

lemma world_kernel_ok:
  assumes "view_ok fs w" and "length fs < 2 ^ 64"
  shows "\<exists>k. world_kernel K w = Some k \<and> holds fs k"
  using assms materialize_ok [of fs "w_projection_base w"]
  by (auto simp: world_kernel_def view_ok_def split: option.splits)

lemma world_vm_query_ok:
  assumes "view_ok fs w" and "fs \<noteq> []"
  shows "world_vm_query w = Some (from_frames fs)"
  using assms by (auto simp: world_vm_query_def view_ok_def world_frames_def split: option.splits)

lemma view_ok_epoch:
  assumes "view_ok fs base" and "allocate_check ops (w_next_entity base) = Inr nxt"
    and "from_vm_epoch base ops nxt active_slots record_count = (w, f)"
  shows "view_ok (fs @ [f]) w"
proof -
  have f: "operations f = ops" "resulting_allocator f = nxt" "resulting_version f = word_of_nat (Suc (length fs))"
    and w: "w_history w = f # w_history base" "w_history_prefix w = w_history_prefix base"
      "w_version w = word_of_nat (Suc (length fs))" "w_next_entity w = nxt" "w_eager_kernel w = None"
      "w_lazy_kernel w = None" "w_vm_query w = None"
    using assms(1,3) by (auto simp: from_vm_epoch_def Let_def view_ok_def)
  have held: "base_ok (fs @ [f]) \<lparr>pb_kernel = k, pb_version = w_version base, pb_next_entity = w_next_entity base\<rparr>"
    if "holds fs k" for k
    using that assms(1) by (auto simp: base_ok_def holds_def view_ok_def intro!: exI [of _ "length fs"])
  have grow: "base_ok fs b \<Longrightarrow> base_ok (fs @ [f]) b" for b
    by (auto simp: base_ok_def) (metis diff_is_0_eq le_SucI self_append_conv take0 take_append)
  have "base_ok (fs @ [f]) b" if "w_projection_base w = Some b" for b
    using that assms(1,3) held grow
    by (auto simp: from_vm_epoch_def Let_def view_ok_def split: option.splits)
  moreover have "spec_next_entity (frames_spec (fs @ [f])) = nxt"
  proof -
    from assms(2) show ?thesis
      using assms(1) allocate_check_spec [of ops "frames_spec fs" nxt]
      by (simp add: frames_spec_snoc f view_ok_def)
  qed
  ultimately show ?thesis
    using assms(1,2) f w
    by (simp add: view_ok_def numbered_snoc allocators_ok_snoc)
qed

lemma view_ok_reconstruct:
  assumes "reconstruct K fs = Some (Inr w)" and "numbered fs"
  shows "view_ok fs w"
proof -
  have linked: "well_linked fs" and wo: "world_of fs w"
    using reconstruct_iff [of fs] assms(1) by (auto split: if_splits)
  have "allocators_ok fs \<and> snd (snd tip) = spec_next_entity (frames_spec fs) \<and>
      (fs \<noteq> [] \<longrightarrow> fst (snd tip) = resulting_version (last fs)) \<and> (fs = [] \<longrightarrow> fst (snd tip) = 0)"
    if "well_linked fs" and "tip = foldl (\<lambda>_. frame_tip) (GENESIS, 0, 1) fs" for tip fs
    using that
  proof (induction fs arbitrary: tip rule: rev_induct)
    case Nil
    then show ?case
      by (simp add: allocators_ok_def frames_spec_def frames_commands_def spec_run_def spec_new_def)
  next
    case (snoc f fs)
    have linked_snoc: "well_linked_from t (xs @ [f]) \<longleftrightarrow>
        well_linked_from t xs \<and> frame_ok (foldl (\<lambda>_. frame_tip) t xs) f" for t xs
      by (induction xs arbitrary: t) auto
    let ?t = "foldl (\<lambda>_. frame_tip) (GENESIS, 0, 1) fs"
    from snoc.prems(1) have fs: "well_linked fs" and f: "frame_ok ?t f"
      by (simp_all add: well_linked_def linked_snoc)
    note IH = snoc.IH [OF fs refl]
    have alloc: "allocate_check (operations f) (spec_next_entity (frames_spec fs)) = Inr (resulting_allocator f)"
      using frame_ok_allocator [OF f] IH by simp
    have "tip = frame_tip f" using snoc.prems(2) by simp
    then show ?case
      using IH alloc allocate_check_spec [OF alloc] by (simp add: allocators_ok_snoc frames_spec_snoc)
  qed
  note hist = this [OF linked refl]
  have "w_version w = fst (snd (foldl (\<lambda>_. frame_tip) (GENESIS, 0, 1) fs))"
  proof -
    have step: "reconstruct_frame K f s = Some (Inr s') \<Longrightarrow> w_version (fst s') = resulting_version f" for f s s'
      by (auto simp: reconstruct_frame_def Let_def try_bind_Inr split: if_splits prod.splits)
    have "reconstruct_frames K fs s = Some (Inr s') \<Longrightarrow> w_version (fst s) = fst (snd t) \<Longrightarrow>
        w_version (fst s') = fst (snd (foldl (\<lambda>_. frame_tip) t fs))" for s s' t
    proof (induction fs arbitrary: s t)
      case (Cons f fs)
      then obtain s1 where s1: "reconstruct_frame K f s = Some (Inr s1)" "reconstruct_frames K fs s1 = Some (Inr s')"
        by (auto simp: try_bind_Inr)
      from Cons.IH [OF s1(2), of "frame_tip f"] step [OF s1(1)] show ?case by simp
    qed simp
    then show ?thesis
      using assms(1) by (auto simp: reconstruct_def try_bind_Inr genesis_def)
  qed
  moreover have "resulting_version (last fs) = word_of_nat (length fs)" if "fs \<noteq> []"
    using that assms(2) by (simp add: numbered_def last_conv_nth)
      (metis Suc_pred diff_Suc_less length_greater_0_conv of_nat_Suc)
  ultimately have "w_version w = word_of_nat (length fs)" using hist by (cases "fs = []") auto
  with hist assms(2) wo show ?thesis
    by (elim world_ofD) (auto simp: view_ok_def holds_def)
qed

lemma vm_world_view_ok:
  "vm_world K fs w \<Longrightarrow> length fs < 2 ^ 64 \<Longrightarrow> view_ok fs w"
proof (induction rule: vm_world.induct)
  case (vm_reconstruct fs w)
  then show ?case by (intro view_ok_reconstruct)
next
  case (vm_epoch fs base ops nxt active_slots record_count w f)
  then show ?case by (intro view_ok_epoch [of fs base ops nxt active_slots record_count]) auto
next
  case (vm_fill_kernel fs w w')
  then have ok: "view_ok fs w" by blast
  from world_kernel_ok [OF ok vm_fill_kernel.prems] vm_fill_kernel.hyps(2) ok show ?case
    by (auto simp: fill_kernel_def view_ok_def split: if_splits)
next
  case (vm_fill_query fs w w')
  then have ok: "view_ok fs w" by blast
  then have "w_history w = rev fs" "w_history_prefix w = None" by (auto simp: view_ok_def)
  moreover from ok have "w_vm_query w = None \<or> w_vm_query w = Some (from_frames fs)"
    by (cases "w_vm_query w") (auto simp: view_ok_def)
  ultimately have "world_vm_query w = None \<or> world_vm_query w = Some (from_frames fs)"
    by (auto simp: world_vm_query_def world_frames_def)
  with vm_fill_query.hyps(2) ok show ?case by (auto simp: fill_vm_query_def view_ok_def)
qed

end

section \<open>Properties\<close>

text \<open>The kernel that replays a history from scratch.\<close>

lemma frames_run: "\<exists>db. run_commands (frames_commands fs) db_new = Some db \<and> abs_db db = frames_spec fs"
  using run_commands_spec [of "frames_commands fs"] by (auto simp: frames_spec_def)

lemma vm_world_views:
  assumes "vm_world reference_kernel fs w" and "length fs < 2 ^ 64"
  shows "world_frames w = fs \<and>
    (\<exists>db. world_kernel reference_kernel w = Some db \<and> abs_db db = frames_spec fs) \<and>
    (\<forall>slot. world_definitions reference_kernel slot w = Some (spec_stacks (frames_spec fs) slot) \<and>
       world_resolve reference_kernel slot w = Some (top (spec_stacks (frames_spec fs) slot)))"
proof -
  have ok: "reference.view_ok fs w" by (rule reference.vm_world_view_ok [OF assms])
  from reference.world_kernel_ok [OF ok assms(2)] obtain k where
    k: "world_kernel reference_kernel w = Some k" "wf_db k" "abs_db k = frames_spec fs"
    by (auto simp: reference.holds_def)
  from frames_run obtain db where db: "run_commands (frames_commands fs) db_new = Some db" "abs_db db = frames_spec fs"
    by blast
  have frames: "world_frames w = fs" using ok by (simp add: reference.view_ok_def world_frames_def)
  show ?thesis
  proof (cases "w_eager_kernel w")
    case None
    with ok have "fs \<noteq> []" by (auto simp: reference.view_ok_def)
    from reference.world_vm_query_ok [OF ok this] vp_definitions_kernel [OF db(1) [unfolded frames_commands_def]]
    show ?thesis
      using k None frames db(2) from_frames_kernel(1) [OF db(1) [unfolded frames_commands_def]]
      by (auto simp: world_definitions_def world_resolve_def db_definitions_stack db_resolve_stack)
        (metis abs_db_sel(1) option.inject)+
  next
    case (Some e)
    with k frames show ?thesis
      by (auto simp: world_definitions_def world_resolve_def reference.definitions reference.resolve)
  qed
qed

text \<open>
  C8. Every world that recovery and the virtual machine publish shows the stacks of its whole
  history, whether a kernel is owned, rebuilt from an older kernel, or not there at all, and
  whichever caches happen to be filled: \<open>definitions\<close> and \<open>resolve\<close> agree with replaying all
  frames on a new kernel, and the kernel that is rebuilt on demand holds the same stacks.
\<close>

theorem world_views_replay_history:
  assumes "vm_world reference_kernel fs w" and "length fs < 2 ^ 64"
  shows "world_frames w = fs \<and>
    (\<exists>db. world_kernel reference_kernel w = Some db \<and> abs_db db = frames_spec fs) \<and>
    (\<forall>slot. world_definitions reference_kernel slot w = Some (spec_stacks (frames_spec fs) slot) \<and>
       world_resolve reference_kernel slot w = Some (top (spec_stacks (frames_spec fs) slot)))"
  by (rule vm_world_views [OF assms])

definition sample_fact :: fact where
  "sample_fact = fact_new (AEntity 1) ''title'' (ALiteral ''Emma'')"

definition sample_epoch :: "forth_db world \<times> commit_frame" where
  "sample_epoch =
     from_vm_epoch (genesis reference_kernel) [AllocateEntity 1, Define ''book/title'' sample_fact] 2 1 1"

theorem world_views_replay_history_witness:
  "vm_world reference_kernel [snd sample_epoch] (fst sample_epoch) \<and>
   world_frames (fst sample_epoch) = [snd sample_epoch] \<and>
   world_resolve reference_kernel ''book/title'' (fst sample_epoch) = Some (Some sample_fact)"
proof -
  have "vm_world reference_kernel [] (genesis reference_kernel)"
    by (rule vm_reconstruct) (simp_all add: reconstruct_def genesis_def numbered_def)
  from vm_epoch [OF this, of "[AllocateEntity 1, Define ''book/title'' sample_fact]" 2 1 1
      "fst sample_epoch" "snd sample_epoch"]
  have w: "vm_world reference_kernel [snd sample_epoch] (fst sample_epoch)"
    by (simp add: sample_epoch_def genesis_def)
  have "spec_stacks (frames_spec [snd sample_epoch]) ''book/title'' = [sample_fact]"
    by (simp add: frames_spec_def frames_commands_def spec_run_def spec_new_def sample_epoch_def
        from_vm_epoch_def Let_def)
  with world_views_replay_history [OF w] w show ?thesis by simp
qed

end
