(* ===== verification/File_Store.thy ===== *)
theory File_Store
  imports Log_File Sessions
begin

text \<open>
  The durable commit store (\<open>FileCommitStore\<close> in \<open>forthdb-world/src/file_store.rs\<close>).  The file is
  its bytes; the operating system's answers to the I/O calls of one operation are an argument of
  the model (\<open>append_io\<close>, \<open>open_io\<close>), so that every error path is a branch: a write may stop after
  any number of bytes, a sync or a truncation may fail.  The contract \<open>commit_store\<close> of the
  world layer holds for it.  The lemmas relate the bytes to the frames that are held in memory.
\<close>

section \<open>The store\<close>

text \<open>The answers to \<open>seek\<close>, \<open>write_all\<close> and \<open>sync_data\<close> of one append, and whether the truncation of
  a rollback takes effect.  A failing write leaves a prefix of the record.\<close>

record append_io =
  io_seek :: "io_error option"
  io_write :: "(nat \<times> io_error) option"
  io_sync :: "io_error option"
  io_rollback_works :: bool

definition io_fine :: append_io where
  "io_fine = \<lparr>io_seek = None, io_write = None, io_sync = None, io_rollback_works = True\<rparr>"

record file_commit_store =
  fs_bytes :: "byte list"
  fs_frames :: "commit_frame list"
  fs_recovered_tail_bytes :: nat
  fs_io :: "append_io list"

definition validate_append :: "file_commit_store \<Rightarrow> commit_frame \<Rightarrow> file_store_error + unit" where
  "validate_append st frame =
     res_map_err (\<lambda>e. NonLinearAppend (Nonlinear e)) (check_position (fs_frames st) frame)"

definition rollback_failed_append :: "append_io \<Rightarrow> nat \<Rightarrow> file_commit_store \<Rightarrow> file_commit_store" where
  "rollback_failed_append io start st =
     (if io_rollback_works io then st\<lparr>fs_bytes := take start (fs_bytes st)\<rparr> else st)"

text \<open>The answers to the next append are the first of \<open>fs_io\<close>; when it is empty nothing fails.\<close>

definition next_io :: "file_commit_store \<Rightarrow> append_io \<times> file_commit_store" where
  "next_io st = (if fs_io st = [] then (io_fine, st) else (hd (fs_io st), st\<lparr>fs_io := tl (fs_io st)\<rparr>))"

definition file_append ::
  "commit_frame \<Rightarrow> file_commit_store \<Rightarrow> (file_store_error + unit) \<times> file_commit_store" where
  "file_append frame st =
     (case validate_append st frame of
        Inl e \<Rightarrow> (Inl e, st)
      | Inr _ \<Rightarrow>
     (case encode_record frame of
        Inl e \<Rightarrow> (Inl e, st)
      | Inr bytes \<Rightarrow>
          let (io, st) = next_io st in
     (case io_seek io of
        Some e \<Rightarrow> (Inl (IoError e), st)
      | None \<Rightarrow>
          let start = length (fs_bytes st) in
     (case io_write io of
        Some (k, e) \<Rightarrow>
          (Inl (IoError e),
           rollback_failed_append io start (st\<lparr>fs_bytes := fs_bytes st @ take k bytes\<rparr>))
      | None \<Rightarrow>
          let st = st\<lparr>fs_bytes := fs_bytes st @ bytes\<rparr> in
     (case io_sync io of
        Some e \<Rightarrow> (Inl (IoError e), rollback_failed_append io start st)
      | None \<Rightarrow> (Inr (), st\<lparr>fs_frames := fs_frames st @ [frame], fs_recovered_tail_bytes := 0\<rparr>))))))"

definition file_store_ops :: "(file_commit_store, file_store_error) commit_store_ops" where
  "file_store_ops =
     \<lparr>cs_append = file_append, cs_frames = fs_frames, cs_len = (\<lambda>st. length (fs_frames st))\<rparr>"

section \<open>Opening\<close>

text \<open>The answers to the calls of \<open>open\<close>, in the order the code makes them, and to those of the
  appends that follow.\<close>

record open_io =
  oi_open :: "io_error option"
  oi_metadata :: "io_error option"
  oi_header :: "(nat \<times> io_error) option"
  oi_header_sync :: "io_error option"
  oi_read :: "io_error option"
  oi_set_len :: "io_error option"
  oi_tail_sync :: "io_error option"
  oi_seek_end :: "io_error option"
  oi_appends :: "append_io list"

definition open_fine :: open_io where
  "open_fine = \<lparr>oi_open = None, oi_metadata = None, oi_header = None, oi_header_sync = None,
     oi_read = None, oi_set_len = None, oi_tail_sync = None, oi_seek_end = None, oi_appends = []\<rparr>"

fun io_check :: "io_error option \<Rightarrow> file_store_error + unit" where
  "io_check None = Inr ()"
| "io_check (Some e) = Inl (IoError e)"

text \<open>The result and the bytes of the file afterwards.  An outer \<open>None\<close> is a panic.\<close>

definition write_file_header :: "open_io \<Rightarrow> byte list \<Rightarrow> (file_store_error + unit) \<times> byte list" where
  "write_file_header io bytes =
     (case oi_header io of
        Some (k, e) \<Rightarrow> (Inl (IoError e), take k file_header)
      | None \<Rightarrow> (io_check (oi_header_sync io), file_header))"

text \<open>The seek to the start and the read have one answer, \<open>oi_read\<close>: the code fails alike on both.\<close>

definition open_bytes ::
  "'k kernel_ops \<Rightarrow> open_io \<Rightarrow> byte list \<Rightarrow> ((file_store_error + file_commit_store) \<times> byte list) option" where
  "open_bytes K io bytes =
     (case io_check (oi_read io) of
        Inl e \<Rightarrow> Some (Inl e, bytes)
      | Inr _ \<Rightarrow>
     (case decode_file bytes of
        Inl e \<Rightarrow> Some (Inl e, bytes)
      | Inr (frames, last_good) \<Rightarrow>
          let tail = length bytes - last_good;
              cut = (if tail = 0 then Inr () else io_check (oi_set_len io));
              kept = (if tail = 0 \<or> oi_set_len io \<noteq> None then bytes else take last_good bytes)
          in (case res_bind cut (\<lambda>_. if tail = 0 then Inr () else io_check (oi_tail_sync io)) of
                Inl e \<Rightarrow> Some (Inl e, kept)
              | Inr _ \<Rightarrow>
                  map_option (\<lambda>r. (case r of
                      Inl e \<Rightarrow> Inl (HistoryError e)
                    | Inr _ \<Rightarrow>
                        res_map (\<lambda>_. \<lparr>fs_bytes = kept, fs_frames = frames,
                            fs_recovered_tail_bytes = tail, fs_io = oi_appends io\<rparr>) (io_check (oi_seek_end io)), kept))
                    (reconstruct K frames))))"

definition file_open ::
  "'k kernel_ops \<Rightarrow> open_io \<Rightarrow> byte list \<Rightarrow> ((file_store_error + file_commit_store) \<times> byte list) option" where
  "file_open K io bytes =
     (case res_bind (io_check (oi_open io)) (\<lambda>_. io_check (oi_metadata io)) of
        Inl e \<Rightarrow> Some (Inl e, bytes)
      | Inr _ \<Rightarrow>
          if bytes = [] then
            (case write_file_header io bytes of
               (Inl e, bytes1) \<Rightarrow> Some (Inl e, bytes1)
             | (Inr _, bytes1) \<Rightarrow> open_bytes K io bytes1)
          else open_bytes K io bytes)"

section \<open>The contract of a store\<close>

interpretation file_store: commit_store file_store_ops "\<lambda>_. True"
  by unfold_locales
    (auto simp: file_store_ops_def file_append_def next_io_def rollback_failed_append_def Let_def
      split: sum.splits option.splits prod.splits if_splits)

section \<open>Bytes and frames\<close>

text \<open>The file holds exactly the frames that the store answers with.\<close>

definition file_ok :: "file_commit_store \<Rightarrow> bool" where
  "file_ok st \<longleftrightarrow> fs_bytes st = file_header @ records (fs_frames st) \<and>
     (\<forall>f \<in> set (fs_frames st). encodable f) \<and> linear (fs_frames st)"

lemma encode_record_Inr:
  "encode_record f = Inr bytes \<longleftrightarrow> length (encode_payload f) \<le> MAX_FRAME_BYTES \<and> bytes = frame_record f"
  by (auto simp: encode_record_def frame_record_def Let_def)

lemma file_append_ok:
  assumes "file_ok st" and "valid_frame f" and "file_append f st = (Inr u, st')"
  shows "file_ok st'" and "fs_frames st' = fs_frames st @ [f]"
  using assms
  by (auto simp: file_append_def validate_append_def file_ok_def next_io_def Let_def encode_record_Inr
      encodable_def linear_snoc split: sum.splits option.splits prod.splits if_splits)

lemma file_append_error:
  assumes "file_ok st" and "file_append f st = (Inl e, st')" and "list_all io_rollback_works (fs_io st)"
  shows "file_ok st'" and "fs_frames st' = fs_frames st"
  using assms
  by (auto simp: file_append_def file_ok_def next_io_def rollback_failed_append_def Let_def io_fine_def
      list_all_iff split: sum.splits option.splits prod.splits if_splits)

lemma file_append_io:
  "file_append f st = (r, st') \<Longrightarrow> list_all io_rollback_works (fs_io st) \<Longrightarrow> list_all io_rollback_works (fs_io st')"
  by (cases "fs_io st")
    (auto simp: file_append_def next_io_def rollback_failed_append_def Let_def
      split: sum.splits option.splits prod.splits if_splits)

text \<open>Reopening the bytes of a log, complete or cut inside its last record.\<close>

lemma file_open_good:
  assumes dec: "decode_file bytes = Inr (fs, good)" and rec: "reconstruct K fs = Some (Inr w)"
    and "bytes \<noteq> []" and "good \<le> length bytes"
  shows "\<exists>st. file_open K open_fine bytes = Some (Inr st, take good bytes) \<and>
    fs_frames st = fs \<and> fs_bytes st = take good bytes \<and> fs_recovered_tail_bytes st = length bytes - good"
  using assms by (auto simp: file_open_def open_bytes_def open_fine_def Let_def)

lemma file_header_nonempty [simp]: "file_header \<noteq> []"
  by (simp add: file_header_def FILE_MAGIC_def as_bytes_def)

lemma file_open_torn:
  assumes "\<forall>f \<in> set fs. encodable f" and "linear fs" and "encodable f" and "k < length (frame_record f)"
    and "reconstruct K fs = Some (Inr w)"
  shows "\<exists>st. file_open K open_fine (file_header @ records fs @ take k (frame_record f)) =
      Some (Inr st, file_header @ records fs) \<and> file_ok st \<and> fs_frames st = fs \<and> fs_recovered_tail_bytes st = k"
  using file_open_good [OF decode_file_torn [OF assms(1-4)] assms(5)] assms
  by (auto simp: file_ok_def)

lemma file_open_complete:
  assumes "\<forall>f \<in> set fs. encodable f" and "linear fs" and "reconstruct K fs = Some (Inr w)"
  shows "\<exists>st. file_open K open_fine (file_header @ records fs) = Some (Inr st, file_header @ records fs) \<and>
    file_ok st \<and> fs_frames st = fs \<and> fs_recovered_tail_bytes st = 0"
  using file_open_good [OF decode_file_roundtrip [OF assms(1,2)] assms(3)] assms
  by (auto simp: file_ok_def)

section \<open>Sessions over the file store\<close>

interpretation reference_file: database_of reference_kernel wf_db abs_db file_store_ops "\<lambda>_. True"
  by unfold_locales

lemma commit_store_change:
  assumes "commit K S tx db = Some (r, db')"
  shows "db_store db' = db_store db \<or> (\<exists>f q. cs_append S f (db_store db) = (q, db_store db'))"
  using assms
  by (auto simp: commit_def Let_def split: if_splits option.splits sum.splits prod.splits)

lemma session_store_change:
  assumes "session_step K S s s'"
  shows "db_store (s_db s') = db_store (s_db s) \<or>
    (\<exists>f q. cs_append S f (db_store (s_db s)) = (q, db_store (s_db s')))"
  using assms by cases (auto simp: register_validator_def dest: commit_store_change)

lemma file_session_ok:
  assumes "session_reach reference_kernel file_store_ops st0 s" and "file_ok st0"
    and "list_all io_rollback_works (fs_io st0)"
  shows "list_all io_rollback_works (fs_io (db_store (s_db s))) \<and>
    ((\<forall>f \<in> set (fs_frames (db_store (s_db s))). valid_frame f) \<longrightarrow> file_ok (db_store (s_db s)))"
  using assms(1)
proof induction
  case (reach_open db)
  then have "db_store db = st0" by (auto simp: database_new_def try_bind_Inr)
  with assms(2,3) show ?case by simp
next
  case (reach_step s s')
  let ?st = "db_store (s_db s)" and ?st' = "db_store (s_db s')"
  from session_store_change [OF reach_step.hyps(2)] consider (same) "?st' = ?st"
    | (append) f q where "file_append f ?st = (q, ?st')" by (auto simp: file_store_ops_def)
  then show ?case
  proof cases
    case same
    with reach_step.IH show ?thesis by simp
  next
    case append
    have io: "list_all io_rollback_works (fs_io ?st')"
      using file_append_io [OF append] reach_step.IH by blast
    moreover have "file_ok ?st'" if valid: "\<forall>f \<in> set (fs_frames ?st'). valid_frame f"
    proof (cases q)
      case (Inl e)
      have "fs_frames ?st' = fs_frames ?st"
        using file_store.append_error [where s = ?st and f = f and e = e and s' = ?st'] append Inl by (simp add: file_store_ops_def)
      with valid reach_step.IH file_append_error(1) [of ?st f e ?st'] append Inl show ?thesis by simp
    next
      case (Inr u)
      have "fs_frames ?st' = fs_frames ?st @ [f]"
        using file_store.append_ok [where s = ?st and f = f and s' = ?st'] append Inr by (simp add: file_store_ops_def)
      with valid reach_step.IH file_append_ok(1) [of ?st f u ?st'] append Inr show ?thesis by simp
    qed
    ultimately show ?thesis by blast
  qed
qed

lemma linear_version: "linear fs \<Longrightarrow> unat (snd (expected_tip fs)) = length fs"
proof (induction fs rule: rev_induct)
  case (snoc f fs)
  then have "unat (snd (expected_tip fs)) = length fs" "check_position fs f = Inr ()"
    by (simp_all add: linear_snoc)
  then show ?case
    by (auto simp: check_position_def expected_tip_def checked_add_one_u64 unat_Suc_u64 split: if_splits option.splits)
qed (simp add: expected_tip_def)

lemma tip_version: "fst (snd (foldl (\<lambda>_. frame_tip) (GENESIS, 0, 1) fs)) = snd (expected_tip fs)"
  by (cases fs rule: rev_cases) (simp_all add: expected_tip_def frame_tip_def)

lemma file_append_position:
  assumes "file_append f st = (r, st')"
  shows "fs_frames st' = fs_frames st \<or> check_position (fs_frames st) f = Inr () \<and> fs_frames st' = fs_frames st @ [f]"
  using assms
  by (cases "check_position (fs_frames st) f")
    (auto simp: file_append_def validate_append_def next_io_def rollback_failed_append_def Let_def
      split: sum.splits option.splits prod.splits if_splits)

text \<open>The versions in the file tell worlds apart, whatever their identities are.\<close>

lemma file_commit_base:
  assumes ok: "reference_file.session_ok s" and lin: "linear (fs_frames (db_store (s_db s)))" and tx: "tx \<in> set (s_open s)"
    and run: "commit reference_kernel file_store_ops tx (s_db s) = Some (Inr w, db')"
  shows "tx_base tx = db_current (s_db s)"
proof -
  let ?fs = "fs_frames (db_store (s_db s))"
  have frames: "cs_frames file_store_ops = fs_frames" by (simp add: file_store_ops_def)
  obtain n where n: "n \<le> length ?fs" "reconstruct reference_kernel (take n ?fs) = Some (Inr (tx_base tx))"
    using ok tx by (auto simp: reference_file.session_ok_def reference_file.open_ok_def frames)
  have cur: "reconstruct reference_kernel ?fs = Some (Inr (db_current (s_db s)))"
    using ok by (simp add: reference_file.session_ok_def reference_file.db_ok_def frames)
  obtain c u st where c: "tx_candidate reference_kernel tx = Some (Inr c)"
    "file_append (candidate_frame c) (db_store (s_db s)) = (Inr u, st)"
    using run by (auto simp: commit_def Let_def file_store_ops_def split: if_splits option.splits sum.splits prod.splits)
  have "c_base_version c = w_version (tx_base tx)"
    using c(1) by (auto simp: tx_candidate_def construct_def construct_from_state_def try_bind_Inr Let_def split: option.splits)
  moreover have "parent_version (candidate_frame c) = snd (expected_tip ?fs)"
    using c(2) by (auto simp: file_append_def validate_append_def check_position_def split: sum.splits prod.splits if_splits)
  moreover have "w_version (tx_base tx) = snd (expected_tip (take n ?fs))"
    using reference.reconstruct_tip [OF n(2)] tip_version [of "take n ?fs"] by (metis fst_conv snd_conv)
  ultimately have "snd (expected_tip (take n ?fs)) = snd (expected_tip ?fs)"
    by (simp add: candidate_frame_def)
  moreover have "linear (take n ?fs)"
    using lin by (metis append_take_drop_id linear_appendD)
  ultimately have "n = length ?fs"
    using linear_version [OF lin] linear_version [of "take n ?fs"] n(1) by simp
  then show ?thesis
    using n(2) cur by simp
qed

lemma file_commit_ok:
  assumes ok: "reference_file.session_ok s" and lin: "linear (fs_frames (db_store (s_db s)))" and tx: "tx \<in> set (s_open s)"
    and run: "commit reference_kernel file_store_ops tx (s_db s) = Some (r, db')"
  shows "reference_file.db_ok db'" and "linear (fs_frames (db_store db'))"
    and "\<exists>gs. fs_frames (db_store db') = fs_frames (db_store (s_db s)) @ gs"
proof -
  have frames: "cs_frames file_store_ops = fs_frames" by (simp add: file_store_ops_def)
  have db: "reference_file.db_ok (s_db s)"
    using ok by (simp add: reference_file.session_ok_def)
  show "reference_file.db_ok db'"
  proof (cases r)
    case (Inl e)
    then have "db_current db' = db_current (s_db s) \<and> fs_frames (db_store db') = fs_frames (db_store (s_db s))"
      using run file_store.append_error [where s = "db_store (s_db s)"]
      by (auto simp: commit_def Let_def frames split: if_splits option.splits sum.splits prod.splits)
    then show ?thesis
      using db by (simp add: reference_file.db_ok_def frames)
  next
    case (Inr w)
    then show ?thesis
      using reference_file.commit_current [OF db file_commit_base [OF ok lin tx]] run by auto
  qed
  have "fs_frames (db_store db') = fs_frames (db_store (s_db s)) \<or>
      (\<exists>f. check_position (fs_frames (db_store (s_db s))) f = Inr () \<and>
        fs_frames (db_store db') = fs_frames (db_store (s_db s)) @ [f])"
    using commit_store_change [OF run] by (auto simp: file_store_ops_def dest!: file_append_position)
  then show "linear (fs_frames (db_store db'))" "\<exists>gs. fs_frames (db_store db') = fs_frames (db_store (s_db s)) @ gs"
    using lin by (auto simp: linear_snoc)
qed

lemma file_session_reach:
  assumes "session_reach reference_kernel file_store_ops st0 s" and "linear (fs_frames st0)"
  shows "reference_file.session_ok s \<and> linear (fs_frames (db_store (s_db s)))"
  using assms(1)
proof induction
  case (reach_open db)
  then show ?case
    using reference_file.database_new_ok [of st0 db] assms(2) by (simp add: reference_file.session_ok_def)
next
  case (reach_step s s')
  have frames: "cs_frames file_store_ops = fs_frames" by (simp add: file_store_ops_def)
  note ok = reach_step.IH
  from reach_step.hyps(2) show ?case
  proof cases
    case step_begin
    have "reference_file.open_ok (fs_frames (db_store (s_db s))) (db_begin (s_db s))"
      using ok
      by (auto simp: reference_file.session_ok_def reference_file.db_ok_def reference_file.open_ok_def frames db_begin_def
          transaction_new_def intro!: exI [of _ "length (fs_frames (db_store (s_db s)))"])
    with step_begin ok show ?thesis by (simp add: reference_file.session_ok_def frames)
  next
    case (step_edit i x)
    then show ?thesis
      using ok set_update_subset_insert [of "s_open s" i]
      by (fastforce simp: reference_file.session_ok_def frames intro: reference_file.open_ok_edit)
  next
    case (step_validator v)
    then show ?thesis
      using ok by (simp add: reference_file.session_ok_def register_validator_def reference_file.db_ok_def)
  next
    case (step_commit i r db')
    then have tx: "s_open s ! i \<in> set (s_open s)" by simp
    note one = file_commit_ok [OF _ _ tx step_commit(3)]
    show ?thesis
      using ok one step_commit(1) set_remove_nth [of i "s_open s"]
      by (fastforce simp: reference_file.session_ok_def frames intro: reference_file.open_ok_grow)
  qed
qed


section \<open>Properties\<close>

definition empty_file_store :: "append_io list \<Rightarrow> file_commit_store" where
  "empty_file_store ios =
     \<lparr>fs_bytes = file_header, fs_frames = [], fs_recovered_tail_bytes = 0, fs_io = ios\<rparr>"

lemma empty_file_store_ok [simp]: "file_ok (empty_file_store ios)"
  by (simp add: file_ok_def empty_file_store_def linear_def)

text \<open>
  C3. Committed worlds are durable.  Take any session over the file store, with any I/O errors in
  between, in which every rollback of a failed append takes effect and every committed frame is
  within the limits of the format: at most a million operations, with strings of UTF-8, which
  those of Rust are.  Closing and reopening the file then finds exactly the committed frames,
  truncates nothing, and opening a database on it gives the current world.  The identities of the
  worlds need not be distinct: the store compares versions as well.  The last properties of this
  theory show what goes wrong without the two conditions.
\<close>

theorem file_store_reopens_current_world:
  assumes "session_reach reference_kernel file_store_ops st0 s" and "file_ok st0"
    and "list_all io_rollback_works (fs_io st0)"
    and "\<forall>f \<in> set (fs_frames (db_store (s_db s))). valid_frame f"
  shows "\<exists>st db. file_open reference_kernel open_fine (fs_bytes (db_store (s_db s))) =
      Some (Inr st, fs_bytes (db_store (s_db s))) \<and>
    fs_frames st = fs_frames (db_store (s_db s)) \<and> fs_recovered_tail_bytes st = 0 \<and>
    database_new reference_kernel file_store_ops st = Some (Inr db) \<and> db_current db = db_current (s_db s)"
proof -
  let ?st = "db_store (s_db s)"
  have frames: "cs_frames file_store_ops = fs_frames" by (simp add: file_store_ops_def)
  have rec: "reconstruct reference_kernel (fs_frames ?st) = Some (Inr (db_current (s_db s)))"
    using file_session_reach [OF assms(1)] assms(2)
    by (simp add: file_ok_def reference_file.session_ok_def reference_file.db_ok_def frames)
  have ok: "file_ok ?st" using file_session_ok [OF assms(1-3)] assms(4) by blast
  then have "fs_bytes ?st = file_header @ records (fs_frames ?st)" by (simp add: file_ok_def)
  with file_open_complete [OF _ _ rec] ok obtain st where
    "file_open reference_kernel open_fine (fs_bytes ?st) = Some (Inr st, fs_bytes ?st)"
    "fs_frames st = fs_frames ?st" "fs_recovered_tail_bytes st = 0"
    unfolding file_ok_def by metis
  then show ?thesis using rec by (auto simp: database_new_def frames)
qed

definition session_sample :: commit_frame where
  "session_sample =
     (let ops = [AllocateEntity 1, Define ''s'' (fact_new (AEntity 1) ''p'' (ALiteral ''x''))]
      in \<lparr>parent_world = GENESIS, resulting_world = calculate_world_id GENESIS 1 2 ops, parent_version = 0,
          resulting_version = 1, resulting_allocator = 2, operations = ops\<rparr>)"

lemma session_sample_facts:
  "encodable session_sample" "valid_frame session_sample" "check_position [] session_sample = Inr ()"
proof -
  have ascii: "rust_string ''s''" "rust_string ''p''" "rust_string ''x''"
    by (simp_all add: rust_string_def as_bytes_def byte_of_char_def utf8_valid_ascii)
  show valid: "valid_frame session_sample"
    by (simp add: valid_frame_def session_sample_def valid_string_def small_def fact_new_def ascii Let_def)
  have "length (encode_payload session_sample) = 95"
    by (simp add: encode_payload_def session_sample_def put_string_def fact_new_def Let_def)
  then show "encodable session_sample" using valid by (simp add: encodable_def MAX_FRAME_BYTES_def)
  show "check_position [] session_sample = Inr ()"
    by (simp add: check_position_def expected_tip_def session_sample_def checked_add_u64_def Let_def)
qed

definition session_edits :: "forth_db transaction \<Rightarrow> forth_db transaction" where
  "session_edits tx =
     apply_edit (EditDefine ''s'' (fact_new (AEntity 1) ''p'' (ALiteral ''x''))) (apply_edit EditEntity tx)"

lemma session_sample_commit:
  assumes "db_current db = genesis reference_kernel" and "db_validators db = []"
  shows "\<exists>w. commit reference_kernel file_store_ops (session_edits (db_begin db)) db =
    (case file_append session_sample (db_store db) of
       (Inl e, st) \<Rightarrow> Some (Inl (StoreFailed e), db\<lparr>db_store := st\<rparr>)
     | (Inr _, st) \<Rightarrow> Some (Inr w, db\<lparr>db_current := w, db_store := st\<rparr>))"
proof -
  let ?ops = "[AllocateEntity 1, Define ''s'' (fact_new (AEntity 1) ''p'' (ALiteral ''x''))]"
  have genesis: "reconstruct reference_kernel [] = Some (Inr (genesis reference_kernel))"
    by (simp add: reconstruct_def genesis_def)
  have tx: "tx_base (session_edits (db_begin db)) = genesis reference_kernel" "tx_operations (session_edits (db_begin db)) = ?ops"
    using assms(1)
    by (simp_all add: session_edits_def db_begin_def transaction_new_def tx_entity_def tx_define_def genesis_def Let_def)
  obtain c where c: "construct reference_kernel (genesis reference_kernel) ?ops = Some (Inr c)"
    "candidate_frame c = session_sample"
    using reference_file.candidate_of_world [OF reference.reconstruct_world_of(1) [OF genesis], of ?ops]
    by (auto simp: genesis_def candidate_frame_def session_sample_def Let_def)
  show ?thesis
    using assms tx c
    by (simp add: commit_def tx_candidate_def file_store_ops_def Let_def split: prod.split sum.split)
qed

theorem file_store_reopens_current_world_witness:
  "\<exists>s st db. session_reach reference_kernel file_store_ops (empty_file_store [io_fine\<lparr>io_write := Some (50, 28)\<rparr>]) s \<and>
    fs_frames (db_store (s_db s)) = [session_sample] \<and> fs_io (db_store (s_db s)) = [] \<and>
    file_open reference_kernel open_fine (fs_bytes (db_store (s_db s))) = Some (Inr st, fs_bytes (db_store (s_db s))) \<and>
    fs_frames st = [session_sample] \<and> database_new reference_kernel file_store_ops st = Some (Inr db) \<and>
    db_current db = db_current (s_db s)"
proof -
  let ?st0 = "empty_file_store [io_fine\<lparr>io_write := Some (50, 28)\<rparr>]"
  let ?db0 = "\<lparr>db_current = genesis reference_kernel, db_store = ?st0, db_validators = []\<rparr>"
  let ?db1 = "?db0\<lparr>db_store := empty_file_store []\<rparr>"
  let ?reach = "\<lambda>db txs. session_reach reference_kernel file_store_ops ?st0 \<lparr>s_db = db, s_open = txs\<rparr>"
  have attempt: "?reach db [session_edits (db_begin db)]" if "?reach db []" for db
  proof -
    have "?reach db [db_begin db]"
      using reach_step [OF that step_begin] by simp
    from reach_step [OF this step_edit [of 0 _ _ _ EditEntity]]
    have "?reach db [apply_edit EditEntity (db_begin db)]" by simp
    from reach_step [OF this step_edit [of 0 _ _ _ "EditDefine ''s'' (fact_new (AEntity 1) ''p'' (ALiteral ''x''))"]]
    show ?thesis by (simp add: session_edits_def)
  qed
  have failed: "file_append session_sample ?st0 = (Inl (IoError 28), empty_file_store [])"
    and stored: "file_append session_sample (empty_file_store []) =
      (Inr (), (empty_file_store [])\<lparr>fs_bytes := file_header @ frame_record session_sample, fs_frames := [session_sample]\<rparr>)"
    using session_sample_facts(3) encode_record_encodable [OF session_sample_facts(1)]
    by (simp_all add: file_append_def validate_append_def empty_file_store_def next_io_def io_fine_def
        rollback_failed_append_def Let_def)
  have "database_new reference_kernel file_store_ops ?st0 = Some (Inr ?db0)"
    by (simp add: database_new_def file_store_ops_def empty_file_store_def reconstruct_def genesis_def)
  from attempt [OF reach_open [OF this]] have 1: "?reach ?db0 [session_edits (db_begin ?db0)]" .
  have "commit reference_kernel file_store_ops (session_edits (db_begin ?db0)) ?db0 = Some (Inl (StoreFailed (IoError 28)), ?db1)"
    using session_sample_commit [of ?db0] failed by simp
  with reach_step [OF 1 step_commit [of 0]] have "?reach ?db1 []"
    by (simp add: remove_nth_def)
  from attempt [OF this] have 2: "?reach ?db1 [session_edits (db_begin ?db1)]" .
  obtain w db2 where db2: "commit reference_kernel file_store_ops (session_edits (db_begin ?db1)) ?db1 = Some (Inr w, db2)"
    "db_store db2 = (empty_file_store [])\<lparr>fs_bytes := file_header @ frame_record session_sample, fs_frames := [session_sample]\<rparr>"
    using session_sample_commit [of ?db1] stored by auto
  with reach_step [OF 2 step_commit [of 0]] have reach: "?reach db2 []"
    by (simp add: remove_nth_def)
  from file_store_reopens_current_world [OF this empty_file_store_ok] show ?thesis
    using reach db2(2) session_sample_facts(2)
    by (intro exI [of _ "\<lparr>s_db = db2, s_open = []\<rparr>"]) (auto simp: empty_file_store_def io_fine_def)
qed

text \<open>
  A crash while a record is being written loses only that commit: whatever prefix of the
  record reached the file, reopening keeps all earlier frames and cuts the file back to them.
\<close>

theorem append_crash_keeps_earlier_frames:
  assumes "file_ok st" and "reconstruct K (fs_frames st) = Some (Inr w)"
    and "encodable f" and "k < length (frame_record f)"
  shows "\<exists>st'. file_open K open_fine (fs_bytes st @ take k (frame_record f)) = Some (Inr st', fs_bytes st) \<and>
    file_ok st' \<and> fs_frames st' = fs_frames st \<and> fs_recovered_tail_bytes st' = k"
  using file_open_torn [OF _ _ assms(3,4,2)] assms(1) by (simp add: file_ok_def)

theorem append_crash_keeps_earlier_frames_witness:
  "\<exists>st'. file_open reference_kernel open_fine (file_header @ take 30 (frame_record sample_frame)) =
     Some (Inr st', file_header) \<and> fs_recovered_tail_bytes st' = 30"
proof -
  have "reconstruct reference_kernel (fs_frames (empty_file_store [])) = Some (Inr (genesis reference_kernel))"
    by (simp add: empty_file_store_def reconstruct_def genesis_def)
  from append_crash_keeps_earlier_frames [OF empty_file_store_ok this sample_frame_facts(4), of 30]
  show ?thesis using sample_frame_facts(2) by (auto simp: length_frame_record empty_file_store_def)
qed

text \<open>
  An append that reports an error leaves no trace, when the rollback takes effect: bytes and
  frames are as before; an append that succeeds adds exactly the record of its frame.
\<close>

theorem file_append_atomic:
  assumes "file_ok st" and "list_all io_rollback_works (fs_io st)" and "file_append f st = (r, st')"
  shows "case r of
      Inl e \<Rightarrow> fs_bytes st' = fs_bytes st \<and> fs_frames st' = fs_frames st
    | Inr _ \<Rightarrow> fs_bytes st' = fs_bytes st @ frame_record f \<and> fs_frames st' = fs_frames st @ [f]"
proof (cases r)
  case (Inl e)
  with file_append_error [OF assms(1) _ assms(2)] assms show ?thesis by (simp add: file_ok_def)
next
  case (Inr u)
  with assms(3) show ?thesis
    by (auto simp: file_append_def next_io_def Let_def encode_record_Inr
        split: sum.splits option.splits prod.splits if_splits)
qed

theorem file_append_atomic_witness:
  "file_append sample_frame (empty_file_store [io_fine\<lparr>io_write := Some (50, 28)\<rparr>]) =
     (Inl (IoError 28), empty_file_store []) \<and>
   fs_bytes (empty_file_store []) = fs_bytes (empty_file_store [io_fine\<lparr>io_write := Some (50, 28)\<rparr>])"
proof
  let ?st = "empty_file_store [io_fine\<lparr>io_write := Some (50, 28)\<rparr>]"
  show step: "file_append sample_frame ?st = (Inl (IoError 28), empty_file_store [])"
    using sample_frame_facts(5) encode_record_encodable [OF sample_frame_facts(4)]
    by (simp add: file_append_def validate_append_def empty_file_store_def next_io_def io_fine_def
        rollback_failed_append_def Let_def)
  have "list_all io_rollback_works (fs_io ?st)" by (simp add: empty_file_store_def io_fine_def)
  from file_append_atomic [OF empty_file_store_ok this step]
  show "fs_bytes (empty_file_store []) = fs_bytes ?st" by simp
qed

definition large_frame :: commit_frame where
  "large_frame =
     \<lparr>parent_world = GENESIS, resulting_world = 7, parent_version = 0, resulting_version = 1,
      resulting_allocator = 1, operations = replicate 1000001 (Forget [])\<rparr>"

lemma length_concat_replicate: "length (concat (replicate n xs)) = n * length xs"
  by (induction n) simp_all

lemma large_frame_facts:
  "length (encode_payload large_frame) = 9000057" "length (operations large_frame) = 1000001"
  "check_position [] large_frame = Inr ()"
proof -
  show n: "length (operations large_frame) = 1000001" by (simp only: large_frame_def commit_frame.simps length_replicate)
  have "length (concat (map put_operation (operations large_frame))) = 1000001 * 9"
    by (simp only: large_frame_def commit_frame.simps map_replicate length_concat_replicate)
      (simp add: put_string_def)
  then show "length (encode_payload large_frame) = 9000057" by (simp add: encode_payload_def)
  show "check_position [] large_frame = Inr ()"
    by (simp add: check_position_def expected_tip_def checked_add_u64_def)
      (simp only: large_frame_def commit_frame.simps, simp)
qed

text \<open>
  C37. The limit on operations is not checked on the way in: the store accepts and acknowledges
  a frame with 1000001 operations, and the file can then no longer be opened.
\<close>

theorem oversized_frame_cannot_be_reopened:
  "\<exists>st. file_append large_frame (empty_file_store []) = (Inr (), st) \<and>
     fs_frames st = [large_frame] \<and>
     file_open reference_kernel open_fine (fs_bytes st) =
       Some (Inl (CorruptFrame 16 (InvalidPayload (TooManyOperations 1000001))), fs_bytes st)"
proof -
  let ?p = "encode_payload large_frame"
  have len: "length ?p \<le> MAX_FRAME_BYTES" by (simp add: large_frame_facts MAX_FRAME_BYTES_def)
  have dec: "decode_payload ?p = Inl (TooManyOperations 1000001)"
    using decode_too_many_operations [OF MAX_FRAME_BYTES_small [OF len]] large_frame_facts(2) by simp
  have "decode_file (file_header @ frame_record large_frame) =
      Inl (CorruptFrame 16 (InvalidPayload (TooManyOperations 1000001)))"
    using decode_raw_record [of FRAME_MAGIC FRAME_TRAILER ?p file_header "checksum ?p" "[]" "[]" 16] len dec
    by (simp add: decode_file_header frame_record_raw)
  moreover have "encode_record large_frame = Inr (frame_record large_frame)"
    using len by (simp add: encode_record_Inr)
  ultimately show ?thesis
    using large_frame_facts(3)
    by (simp add: file_append_def validate_append_def empty_file_store_def next_io_def io_fine_def Let_def
        file_open_def open_bytes_def open_fine_def)
qed

text \<open>
  C38. A failed rollback is not noticed: when a write stops after one byte and the truncation
  fails too, the next append is acknowledged as durable behind the stray byte, and the file can
  then no longer be opened.
\<close>

theorem failed_rollback_loses_later_commit:
  assumes "file_ok st" and "fs_io st = [\<lparr>io_seek = None, io_write = Some (1, e), io_sync = None, io_rollback_works = False\<rparr>]"
    and "encodable f" and "check_position (fs_frames st) f = Inr ()"
  shows "\<exists>st1 st2. file_append f st = (Inl (IoError e), st1) \<and> file_append f st1 = (Inr (), st2) \<and>
    fs_frames st2 = fs_frames st @ [f] \<and>
    file_open K open_fine (fs_bytes st2) =
      Some (Inl (CorruptFrame (length (fs_bytes st)) BadFrameMagic), fs_bytes st2)"
proof -
  let ?st1 = "st\<lparr>fs_io := [], fs_bytes := fs_bytes st @ take 1 (frame_record f)\<rparr>"
  let ?bytes = "fs_bytes st @ take 1 (frame_record f) @ frame_record f"
  let ?st2 = "?st1\<lparr>fs_bytes := ?bytes, fs_frames := fs_frames st @ [f], fs_recovered_tail_bytes := 0\<rparr>"
  have enc: "encode_record f = Inr (frame_record f)" by (rule encode_record_encodable [OF assms(3)])
  have 1: "file_append f st = (Inl (IoError e), ?st1)"
    using assms(2,4) enc
    by (simp add: file_append_def validate_append_def next_io_def rollback_failed_append_def Let_def)
  have 2: "file_append f ?st1 = (Inr (), ?st2)"
    using assms(4) enc
    by (simp add: file_append_def validate_append_def next_io_def io_fine_def Let_def)
  have stray: "take 1 (frame_record f) = [byte_of_char CHR ''F'']" "slice (file_header @ records fs @ [byte_of_char CHR ''F''] @ frame_record f) (16 + length (records fs)) 4
      \<noteq> FRAME_MAGIC" for fs
    by (simp_all add: frame_record_def FRAME_MAGIC_def as_bytes_def slice_def byte_of_char_def)
  from assms(1) have bytes: "fs_bytes st = file_header @ records (fs_frames st)"
    and fs: "\<forall>f \<in> set (fs_frames st). encodable f" "linear (fs_frames st)" by (auto simp: file_ok_def)
  have "decode_frames ?bytes (16 + length (records (fs_frames st))) (fs_frames st) (16 + length (records (fs_frames st))) =
      Inl (CorruptFrame (length (fs_bytes st)) BadFrameMagic)"
    unfolding bytes stray(1) append_assoc using stray(2) [of "fs_frames st"]
    by (subst decode_frames.simps) (simp add: length_frame_record Let_def)
  then have "decode_file ?bytes = Inl (CorruptFrame (length (fs_bytes st)) BadFrameMagic)"
    using decode_file_records [OF fs, of "take 1 (frame_record f) @ frame_record f"] by (simp add: bytes)
  then have "file_open K open_fine (fs_bytes ?st2) =
      Some (Inl (CorruptFrame (length (fs_bytes st)) BadFrameMagic), fs_bytes ?st2)"
    using assms(1) by (simp add: file_open_def open_bytes_def open_fine_def file_ok_def)
  with 1 2 show ?thesis by (intro exI [of _ ?st1] exI [of _ ?st2]) simp
qed

theorem failed_rollback_loses_later_commit_witness:
  "\<exists>st1 st2. file_append sample_frame
       (empty_file_store [\<lparr>io_seek = None, io_write = Some (1, 5), io_sync = None, io_rollback_works = False\<rparr>]) =
     (Inl (IoError 5), st1) \<and> file_append sample_frame st1 = (Inr (), st2) \<and>
     file_open reference_kernel open_fine (fs_bytes st2) = Some (Inl (CorruptFrame 16 BadFrameMagic), fs_bytes st2)"
proof -
  let ?st = "empty_file_store [\<lparr>io_seek = None, io_write = Some (1, 5), io_sync = None, io_rollback_works = False\<rparr>]"
  have io: "fs_io ?st = [\<lparr>io_seek = None, io_write = Some (1, 5), io_sync = None, io_rollback_works = False\<rparr>]"
    and pos: "check_position (fs_frames ?st) sample_frame = Inr ()" and len: "length (fs_bytes ?st) = 16"
    by (simp_all add: empty_file_store_def sample_frame_facts)
  from failed_rollback_loses_later_commit [OF empty_file_store_ok io sample_frame_facts(4) pos, of reference_kernel]
  show ?thesis unfolding len by blast
qed

text \<open>
  A header that was only partly written is not recovered: when the first write stops
  early, every later attempt to open the file is refused.
\<close>

theorem torn_header_is_permanent:
  assumes "0 < k" and "k < 16"
  shows "file_open K (open_fine\<lparr>oi_header := Some (k, e)\<rparr>) [] = Some (Inl (IoError e), take k file_header) \<and>
    file_open K open_fine (take k file_header) = Some (Inl (InvalidHeader HeaderIncomplete), take k file_header)"
proof -
  have "take k file_header \<noteq> []" using assms by simp
  then show ?thesis
    using assms by (simp add: file_open_def open_bytes_def open_fine_def write_file_header_def decode_file_def)
qed

theorem torn_header_is_permanent_witness:
  "file_open reference_kernel open_fine (take 8 file_header) =
     Some (Inl (InvalidHeader HeaderIncomplete), take 8 file_header)"
  using torn_header_is_permanent [of 8 reference_kernel 5] by simp

end
