(* ===== verification/Shared_Map.thy ===== *)
theory Shared_Map
  imports Store "HOL-Library.DAList"
begin

text \<open>
  The containers of the structurally shared kernel (\<open>forthdb-core/src/shared_types_v5.rs\<close>): a log
  in chunks, hash maps spread over a directory of shards, and the signature of a set of records.
  The shards are maps of the third-party crate \<open>im\<close>; they are a parameter, the record
  \<open>pmap_ops\<close>, with the documented behaviour of a hash map as the locale \<open>persistent_map\<close> (and
  \<open>persistent_set\<close> for the record sets).  \<open>Arc\<close> and \<open>make_mut\<close> have no counterpart: a shared value
  is a value.  The lemmas show that a sharded map is the map of all its entries, whatever the
  hash, that its counter is the number of entries, and that the chunked log is the plain list.
\<close>

section \<open>Chunked log\<close>

definition LOG_CHUNK_CAPACITY :: nat where "LOG_CHUNK_CAPACITY = 1024"
definition HEAD_SHARDS :: nat where "HEAD_SHARDS = 4096"
definition HISTORY_SHARDS :: nat where "HISTORY_SHARDS = 1024"
definition INDEX_SHARDS :: nat where "INDEX_SHARDS = 4096"
definition SHARD_GROUP_SIZE :: nat where "SHARD_GROUP_SIZE = 64"

record 'a chunked_log =
  chunks :: "'a list list"
  clog_len :: nat

definition clog_new :: "'a chunked_log" where
  "clog_new = \<lparr>chunks = [], clog_len = 0\<rparr>"

text \<open>Indexing panics out of range.\<close>

definition clog_get :: "'a chunked_log \<Rightarrow> nat \<Rightarrow> 'a option" where
  "clog_get l i =
     (let c = i div LOG_CHUNK_CAPACITY; k = i mod LOG_CHUNK_CAPACITY
      in if c < length (chunks l) \<and> k < length (chunks l ! c) then Some (chunks l ! c ! k) else None)"

definition clog_push :: "'a \<Rightarrow> 'a chunked_log \<Rightarrow> nat \<times> 'a chunked_log" where
  "clog_push x l =
     (clog_len l,
      \<lparr>chunks =
         (if chunks l \<noteq> [] \<and> length (last (chunks l)) < LOG_CHUNK_CAPACITY
          then butlast (chunks l) @ [last (chunks l) @ [x]]
          else chunks l @ [[x]]),
       clog_len = clog_len l + 1\<rparr>)"

definition clog_list :: "'a chunked_log \<Rightarrow> 'a list" where
  "clog_list l = concat (chunks l)"

definition clog_wf :: "'a chunked_log \<Rightarrow> bool" where
  "clog_wf l \<longleftrightarrow>
     clog_len l = length (clog_list l) \<and>
     (\<forall>c \<in> set (butlast (chunks l)). length c = LOG_CHUNK_CAPACITY) \<and>
     (chunks l \<noteq> [] \<longrightarrow> last (chunks l) \<noteq> [] \<and> length (last (chunks l)) \<le> LOG_CHUNK_CAPACITY)"

lemma clog_new_wf [simp]: "clog_wf clog_new" "clog_list clog_new = []"
  by (simp_all add: clog_wf_def clog_new_def clog_list_def)

lemma concat_blocks_nth:
  "\<forall>b \<in> set bs. length b = n \<Longrightarrow> i < n * length bs \<Longrightarrow> concat bs ! i = bs ! (i div n) ! (i mod n)"
proof (induction bs arbitrary: i)
  case (Cons b bs)
  show ?case
  proof (cases "i < n")
    case True
    then show ?thesis using Cons.prems by (simp add: nth_append)
  next
    case False
    with Cons.prems have "concat bs ! (i - n) = bs ! ((i - n) div n) ! ((i - n) mod n)"
      by (intro Cons.IH) auto
    moreover from False Cons.prems have "0 < n" by (cases n) auto
    ultimately show ?thesis
      using False Cons.prems by (simp add: nth_append le_div_geq le_mod_geq)
  qed
qed simp

lemma length_concat_blocks: "\<forall>b \<in> set bs. length b = n \<Longrightarrow> length (concat bs) = n * length bs"
  by (induction bs) auto

lemma clog_split:
  assumes "clog_wf l"
  obtains "chunks l = []"
  | full z where "chunks l = full @ [z]" "\<forall>c \<in> set full. length c = LOG_CHUNK_CAPACITY"
      "z \<noteq> []" "length z \<le> LOG_CHUNK_CAPACITY" "length (concat full) = LOG_CHUNK_CAPACITY * length full"
proof (cases "chunks l" rule: rev_cases)
  case Nil
  then show ?thesis by (rule that(1))
next
  case (snoc full z)
  with assms show ?thesis
    by (intro that(2) [of full z]) (auto simp: clog_wf_def length_concat_blocks)
qed

lemma clog_get_list:
  assumes "clog_wf l"
  shows "clog_get l i = (if i < length (clog_list l) then Some (clog_list l ! i) else None)"
  using assms
proof (cases rule: clog_split)
  case 1
  then show ?thesis by (simp add: clog_get_def clog_list_def)
next
  case (2 full z)
  let ?n = LOG_CHUNK_CAPACITY
  have n: "0 < ?n" by (simp add: LOG_CHUNK_CAPACITY_def)
  show ?thesis
  proof (cases "i < ?n * length full")
    case True
    then have "i div ?n < length full" using n by (simp add: div_less_iff_less_mult mult.commute)
    with True 2 n show ?thesis
      using concat_blocks_nth [OF 2(2), of i]
      by (auto simp: clog_get_def clog_list_def Let_def nth_append)
  next
    case False
    define j where "j = i - ?n * length full"
    with False have i: "i = j + ?n * length full" by simp
    then have "i div ?n = length full + j div ?n" "i mod ?n = j mod ?n"
      using n by (simp_all add: LOG_CHUNK_CAPACITY_def)
    moreover have "j div ?n = 0 \<longleftrightarrow> j < ?n" using n by (simp add: div_eq_0_iff)
    moreover have "j div ?n = 0 \<Longrightarrow> j mod ?n = j" using n by (simp add: div_eq_0_iff)
    ultimately show ?thesis
      using 2 i by (auto simp: clog_get_def clog_list_def Let_def nth_append)
  qed
qed

lemma clog_push_list [simp]: "clog_list (snd (clog_push x l)) = clog_list l @ [x]"
  by (cases "chunks l" rule: rev_cases) (simp_all add: clog_push_def clog_list_def)

lemma clog_push_fst: "clog_wf l \<Longrightarrow> fst (clog_push x l) = length (clog_list l)"
  by (simp add: clog_push_def clog_wf_def)

lemma clog_push_wf:
  assumes "clog_wf l"
  shows "clog_wf (snd (clog_push x l))"
  using assms
proof (cases rule: clog_split)
  case 1
  with assms show ?thesis by (simp add: clog_wf_def clog_push_def clog_list_def LOG_CHUNK_CAPACITY_def)
next
  case (2 full z)
  with assms show ?thesis
    by (auto simp: clog_wf_def clog_push_def clog_list_def LOG_CHUNK_CAPACITY_def butlast_append)
qed

section \<open>Third-party persistent maps and sets\<close>

text \<open>
  \<open>im::HashMap\<close> and \<open>im::HashSet\<close>.  Writing through \<open>get_mut\<close> is inserting at a present key.
\<close>

record ('k, 'v, 'm) pmap_ops =
  pm_new :: 'm
  pm_get :: "'m \<Rightarrow> 'k \<Rightarrow> 'v option"
  pm_insert :: "'k \<Rightarrow> 'v \<Rightarrow> 'm \<Rightarrow> 'm"
  pm_remove :: "'k \<Rightarrow> 'm \<Rightarrow> 'm"
  pm_is_empty :: "'m \<Rightarrow> bool"
  pm_iter :: "'m \<Rightarrow> ('k \<times> 'v) list"

record ('a, 's) pset_ops =
  ps_new :: 's
  ps_insert :: "'a \<Rightarrow> 's \<Rightarrow> 's"
  ps_remove :: "'a \<Rightarrow> 's \<Rightarrow> 's"
  ps_is_empty :: "'s \<Rightarrow> bool"
  ps_iter :: "'s \<Rightarrow> 'a list"

locale persistent_map =
  fixes P :: "('k, 'v, 'm) pmap_ops"
  assumes get_new: "pm_get P (pm_new P) k = None"
    and get_insert: "pm_get P (pm_insert P k v m) k' = (if k' = k then Some v else pm_get P m k')"
    and get_remove: "pm_get P (pm_remove P k m) k' = (if k' = k then None else pm_get P m k')"
    and is_empty: "pm_is_empty P m \<longleftrightarrow> pm_iter P m = []"
    and iter_distinct: "distinct (map fst (pm_iter P m))"
    and iter_get: "map_of (pm_iter P m) k = pm_get P m k"
begin

lemma iter_mem: "(k, v) \<in> set (pm_iter P m) \<longleftrightarrow> pm_get P m k = Some v"
  using map_of_eq_Some_iff [OF iter_distinct, of m k v] by (simp add: iter_get)

lemma empty_get: "pm_is_empty P m \<longleftrightarrow> (\<forall>k. pm_get P m k = None)"
proof
  assume "pm_is_empty P m"
  then have "pm_iter P m = []" by (simp only: is_empty)
  then show "\<forall>k. pm_get P m k = None" by (simp flip: iter_get)
next
  assume none: "\<forall>k. pm_get P m k = None"
  have "(k, v) \<notin> set (pm_iter P m)" for k v using none by (simp add: iter_mem)
  then have "pm_iter P m = []" by (metis list.set_intros(1) neq_Nil_conv surj_pair)
  then show "pm_is_empty P m" by (simp only: is_empty)
qed

end

locale persistent_set =
  fixes R :: "('a, 's) pset_ops"
  assumes iter_new: "ps_iter R (ps_new R) = []"
    and iter_insert: "set (ps_iter R (ps_insert R x s)) = insert x (set (ps_iter R s))"
    and iter_remove: "set (ps_iter R (ps_remove R x s)) = set (ps_iter R s) - {x}"
    and set_is_empty: "ps_is_empty R s \<longleftrightarrow> ps_iter R s = []"
    and set_distinct: "distinct (ps_iter R s)"

text \<open>The laws hold of association lists with distinct keys.\<close>

definition alist_ops :: "('k, 'v, ('k, 'v) alist) pmap_ops" where
  "alist_ops =
     \<lparr>pm_new = DAList.empty, pm_get = DAList.lookup, pm_insert = DAList.update, pm_remove = DAList.delete,
      pm_is_empty = (\<lambda>m. DAList.impl_of m = []), pm_iter = DAList.impl_of\<rparr>"

definition alist_set_ops :: "('a, ('a, unit) alist) pset_ops" where
  "alist_set_ops =
     \<lparr>ps_new = DAList.empty, ps_insert = (\<lambda>x. DAList.update x ()), ps_remove = DAList.delete,
      ps_is_empty = (\<lambda>m. DAList.impl_of m = []), ps_iter = (\<lambda>m. map fst (DAList.impl_of m))\<rparr>"

lemma lookup_update': "DAList.lookup (DAList.update k v m) k' = (if k' = k then Some v else DAList.lookup m k')"
  by (simp add: DAList.lookup_update)

interpretation alist_map: persistent_map alist_ops
proof
qed (simp_all add: alist_ops_def lookup_update' flip: DAList.lookup.rep_eq)

lemma set_keys_alist: "set (map fst (DAList.impl_of m)) = {k. DAList.lookup m k \<noteq> None}"
  by (auto simp: DAList.lookup.rep_eq map_of_eq_None_iff)

interpretation alist_set: persistent_set alist_set_ops
proof
  show "ps_iter alist_set_ops (ps_new alist_set_ops) = []"
    by (simp add: alist_set_ops_def DAList.empty_def Alist_inverse)
  fix x :: 'a and s :: "('a, unit) alist"
  show "set (ps_iter alist_set_ops (ps_insert alist_set_ops x s)) = insert x (set (ps_iter alist_set_ops s))"
    "set (ps_iter alist_set_ops (ps_remove alist_set_ops x s)) = set (ps_iter alist_set_ops s) - {x}"
    by (auto simp: alist_set_ops_def set_keys_alist lookup_update' simp del: set_map split: if_splits)
  show "ps_is_empty alist_set_ops s \<longleftrightarrow> ps_iter alist_set_ops s = []"
    "distinct (ps_iter alist_set_ops s)"
    by (simp_all add: alist_set_ops_def)
qed


section \<open>Sharded maps\<close>

record ('k, 'v, 'm) shard_params =
  sp_map :: "('k, 'v, 'm) pmap_ops"
  sp_bytes :: "'k \<Rightarrow> byte list"
  sp_shards :: nat

record 'm sharded_map =
  sm_groups :: "'m option list option list"
  sm_len :: nat

definition sm_new :: "('k, 'v, 'm) shard_params \<Rightarrow> 'm sharded_map" where
  "sm_new E = \<lparr>sm_groups = replicate (sp_shards E div SHARD_GROUP_SIZE) None, sm_len = 0\<rparr>"

text \<open>Masking with a power of two minus one.\<close>

definition shard_index :: "('k, 'v, 'm) shard_params \<Rightarrow> 'k \<Rightarrow> nat" where
  "shard_index E k = unat (fnv_bytes fnv_offset_basis (sp_bytes E k) AND word_of_nat (sp_shards E - 1))"

definition directory_indices :: "('k, 'v, 'm) shard_params \<Rightarrow> 'k \<Rightarrow> nat \<times> nat" where
  "directory_indices E k =
     (let s = shard_index E k in (s div SHARD_GROUP_SIZE, s AND (SHARD_GROUP_SIZE - 1)))"

definition sm_get :: "('k, 'v, 'm) shard_params \<Rightarrow> 'm sharded_map \<Rightarrow> 'k \<Rightarrow> 'v option" where
  "sm_get E m k =
     (let (g, l) = directory_indices E k
      in Option.bind (sm_groups m ! g) (\<lambda>grp. Option.bind (grp ! l) (\<lambda>shard. pm_get (sp_map E) shard k)))"

text \<open>Writing through \<open>get_mut\<close>: the code reads the value, changes it in place and leaves the counter.\<close>

definition sm_update :: "('k, 'v, 'm) shard_params \<Rightarrow> 'k \<Rightarrow> ('v \<Rightarrow> 'v) \<Rightarrow> 'm sharded_map \<Rightarrow> 'm sharded_map" where
  "sm_update E k f m =
     (let (g, l) = directory_indices E k
      in case sm_groups m ! g of
           None \<Rightarrow> m
         | Some grp \<Rightarrow>
             (case grp ! l of
                None \<Rightarrow> m
              | Some shard \<Rightarrow>
                  (case pm_get (sp_map E) shard k of
                     None \<Rightarrow> m
                   | Some v \<Rightarrow>
                       m\<lparr>sm_groups := (sm_groups m)
                           [g := Some (grp[l := Some (pm_insert (sp_map E) k (f v) shard)])]\<rparr>)))"

definition sm_insert :: "('k, 'v, 'm) shard_params \<Rightarrow> 'k \<Rightarrow> 'v \<Rightarrow> 'm sharded_map \<Rightarrow> 'm sharded_map" where
  "sm_insert E k v m =
     (let (g, l) = directory_indices E k;
          grp = (case sm_groups m ! g of None \<Rightarrow> replicate SHARD_GROUP_SIZE None | Some grp \<Rightarrow> grp);
          shard = (case grp ! l of None \<Rightarrow> pm_new (sp_map E) | Some shard \<Rightarrow> shard)
      in \<lparr>sm_groups = (sm_groups m)[g := Some (grp[l := Some (pm_insert (sp_map E) k v shard)])],
          sm_len = (if pm_get (sp_map E) shard k = None then sm_len m + 1 else sm_len m)\<rparr>)"

definition sm_remove :: "('k, 'v, 'm) shard_params \<Rightarrow> 'k \<Rightarrow> 'm sharded_map \<Rightarrow> 'm sharded_map" where
  "sm_remove E k m =
     (let (g, l) = directory_indices E k
      in case sm_groups m ! g of
           None \<Rightarrow> m
         | Some grp \<Rightarrow>
             (case grp ! l of
                None \<Rightarrow> m
              | Some shard \<Rightarrow>
                  let shard' = pm_remove (sp_map E) k shard;
                      grp' = grp[l := (if pm_is_empty (sp_map E) shard' then None else Some shard')]
                  in \<lparr>sm_groups = (sm_groups m)
                        [g := (if \<forall>s \<in> set grp'. s = None then None else Some grp')],
                      sm_len = (if pm_get (sp_map E) shard k = None then sm_len m else sm_len m - 1)\<rparr>))"

definition group_shards :: "'m option list option \<Rightarrow> 'm option list" where
  "group_shards g = (case g of None \<Rightarrow> [] | Some grp \<Rightarrow> grp)"

definition populated_shards :: "'m sharded_map \<Rightarrow> nat" where
  "populated_shards m =
     length (filter (\<lambda>s. s \<noteq> None) (concat (map group_shards (sm_groups m))))"

definition sm_iter :: "('k, 'v, 'm) shard_params \<Rightarrow> 'm sharded_map \<Rightarrow> ('k \<times> 'v) list" where
  "sm_iter E m =
     concat (map (pm_iter (sp_map E)) (List.map_filter id (concat (map group_shards (sm_groups m)))))"

definition sm_values :: "('k, 'v, 'm) shard_params \<Rightarrow> 'm sharded_map \<Rightarrow> 'v list" where
  "sm_values E m = map snd (sm_iter E m)"


subsection \<open>The directory as one array of shards\<close>

definition flat :: "'m sharded_map \<Rightarrow> 'm option list" where
  "flat m = concat (map (\<lambda>g. case g of None \<Rightarrow> replicate SHARD_GROUP_SIZE None | Some grp \<Rightarrow> grp) (sm_groups m))"

definition sm_shape :: "('k, 'v, 'm) shard_params \<Rightarrow> 'm sharded_map \<Rightarrow> bool" where
  "sm_shape E m \<longleftrightarrow>
     length (sm_groups m) * SHARD_GROUP_SIZE = sp_shards E \<and>
     (\<forall>grp. Some grp \<in> set (sm_groups m) \<longrightarrow> length grp = SHARD_GROUP_SIZE)"

definition shards_ok :: "('k, 'v, 'm) shard_params \<Rightarrow> bool" where
  "shards_ok E \<longleftrightarrow> (\<exists>k. 6 \<le> k \<and> k < 64 \<and> sp_shards E = 2 ^ k)"

lemma shards_ok_sizes:
  "sp_shards E = HEAD_SHARDS \<Longrightarrow> shards_ok E" "sp_shards E = HISTORY_SHARDS \<Longrightarrow> shards_ok E"
  "sp_shards E = INDEX_SHARDS \<Longrightarrow> shards_ok E"
  unfolding shards_ok_def HEAD_SHARDS_def HISTORY_SHARDS_def INDEX_SHARDS_def
  by (intro exI [of _ 12], simp, intro exI [of _ 10], simp, intro exI [of _ 12], simp)

lemma shard_index_less:
  assumes "shards_ok E"
  shows "shard_index E k < sp_shards E"
proof -
  from assms obtain n where n: "n < 64" "sp_shards E = 2 ^ n" by (auto simp: shards_ok_def)
  have "(word_of_nat (2 ^ n - 1) :: u64) = mask n"
    by (simp add: mask_eq_exp_minus_1 of_nat_diff)
  then have "shard_index E k = unat (take_bit n (fnv_bytes fnv_offset_basis (sp_bytes E k)))"
    by (simp add: shard_index_def n take_bit_eq_mask)
  also have "\<dots> < 2 ^ n" by (simp add: unsigned_take_bit_eq)
  finally show ?thesis by (simp add: n)
qed

lemma directory_indices_eq:
  "directory_indices E k = (shard_index E k div SHARD_GROUP_SIZE, shard_index E k mod SHARD_GROUP_SIZE)"
proof -
  have "s AND 63 = s mod 64" for s :: nat
    using take_bit_eq_mask [of 6 s] by (simp add: take_bit_eq_mod mask_eq_exp_minus_1)
  then show ?thesis by (simp add: directory_indices_def Let_def SHARD_GROUP_SIZE_def)
qed

lemma concat_blocks_update:
  "\<forall>b \<in> set bs. length b = n \<Longrightarrow> g < length bs \<Longrightarrow> l < n \<Longrightarrow>
   concat (bs[g := (bs ! g)[l := v]]) = (concat bs)[g * n + l := v]"
proof (induction bs arbitrary: g)
  case (Cons b bs)
  then show ?case
    by (cases g) (auto simp: list_update_append)
qed simp

abbreviation whole :: "'m option list option \<Rightarrow> 'm option list" where
  "whole g \<equiv> (case g of None \<Rightarrow> replicate SHARD_GROUP_SIZE None | Some grp \<Rightarrow> grp)"

lemma directory_bounds:
  assumes "shards_ok E" and "sm_shape E m"
  shows "shard_index E k div SHARD_GROUP_SIZE < length (sm_groups m)"
    and "shard_index E k mod SHARD_GROUP_SIZE < SHARD_GROUP_SIZE"
  using shard_index_less [OF assms(1), of k] assms(2)
  by (simp_all add: sm_shape_def div_less_iff_less_mult SHARD_GROUP_SIZE_def)

lemma directory_blocks:
  assumes "sm_shape E m"
  shows "\<forall>b \<in> set (map whole (sm_groups m)). length b = SHARD_GROUP_SIZE"
    and "length (flat m) = sp_shards E"
proof -
  show blocks: "\<forall>b \<in> set (map whole (sm_groups m)). length b = SHARD_GROUP_SIZE"
    using assms by (auto simp: sm_shape_def split: option.split)
  show "length (flat m) = sp_shards E"
    using length_concat_blocks [OF blocks] assms by (simp add: flat_def sm_shape_def mult.commute)
qed

lemma flat_nth:
  assumes "shards_ok E" and "sm_shape E m"
  shows "flat m ! shard_index E k =
    whole (sm_groups m ! (shard_index E k div SHARD_GROUP_SIZE)) ! (shard_index E k mod SHARD_GROUP_SIZE)"
proof -
  note d = directory_bounds [OF assms, of k]
  have "shard_index E k < SHARD_GROUP_SIZE * length (map whole (sm_groups m))"
    using shard_index_less [OF assms(1), of k] assms(2) by (simp add: sm_shape_def mult.commute)
  from concat_blocks_nth [OF directory_blocks(1) [OF assms(2)] this] d(1) show ?thesis by (simp add: flat_def)
qed

lemma flat_update:
  assumes "shards_ok E" and "sm_shape E m"
    and "whole g = (whole (sm_groups m ! (shard_index E k div SHARD_GROUP_SIZE)))[shard_index E k mod SHARD_GROUP_SIZE := v]"
  shows "flat (m\<lparr>sm_groups := (sm_groups m)[shard_index E k div SHARD_GROUP_SIZE := g], sm_len := n\<rparr>) =
    (flat m)[shard_index E k := v]"
proof -
  note d = directory_bounds [OF assms(1,2), of k]
  show ?thesis
    using concat_blocks_update [OF directory_blocks(1) [OF assms(2)] _ d(2), of "shard_index E k div SHARD_GROUP_SIZE" v] d(1)
    by (simp add: flat_def map_update assms(3))
qed

lemma sm_get_flat:
  assumes "shards_ok E" and "sm_shape E m"
  shows "sm_get E m k = Option.bind (flat m ! shard_index E k) (\<lambda>shard. pm_get (sp_map E) shard k)"
  using directory_bounds(1,2) [OF assms, of k]
  by (auto simp: sm_get_def directory_indices_eq flat_nth [OF assms] split: option.split)

lemma concat_map_filter_groups:
  "List.map_filter id (concat (map group_shards gs)) = List.map_filter id (concat (map whole gs))"
proof (induction gs)
  case (Cons g gs)
  have "List.map_filter id (replicate n None) = []" for n
    by (induction n) (simp_all add: List.map_filter_simps)
  with Cons show ?case
    by (auto simp: group_shards_def List.map_filter_def split: option.split)
qed simp


subsection \<open>A sharded map is the map of its entries\<close>

definition entries :: "('k, 'v, 'm) shard_params \<Rightarrow> 'm option \<Rightarrow> ('k \<times> 'v) list" where
  "entries E s = (case s of None \<Rightarrow> [] | Some shard \<Rightarrow> pm_iter (sp_map E) shard)"

definition placed :: "('k, 'v, 'm) shard_params \<Rightarrow> 'm option list \<Rightarrow> bool" where
  "placed E fl \<longleftrightarrow>
     (\<forall>i < length fl. \<forall>k v. (k, v) \<in> set (entries E (fl ! i)) \<longrightarrow> shard_index E k = i)"

definition sm_wf :: "('k, 'v, 'm) shard_params \<Rightarrow> 'm sharded_map \<Rightarrow> bool" where
  "sm_wf E m \<longleftrightarrow> sm_shape E m \<and> placed E (flat m) \<and> sm_len m = card {k. sm_get E m k \<noteq> None}"

lemma placedD: "placed E fl \<Longrightarrow> i < length fl \<Longrightarrow> (k, v) \<in> set (entries E (fl ! i)) \<Longrightarrow> shard_index E k = i"
  unfolding placed_def by blast

lemma sm_iter_flat: "sm_iter E m = concat (map (entries E) (flat m))"
proof -
  have "concat (map (pm_iter (sp_map E)) (List.map_filter id xs)) = concat (map (entries E) xs)" for xs
    by (induction xs) (auto simp: List.map_filter_simps entries_def split: option.split)
  then show ?thesis by (simp add: sm_iter_def concat_map_filter_groups flat_def)
qed

lemma whole_collapse:
  "length xs = SHARD_GROUP_SIZE \<Longrightarrow> whole (if \<forall>s \<in> set xs. s = None then None else Some xs) = xs"
  by (auto intro!: replicate_eqI [symmetric])

locale sharded =
  fixes E :: "('k, 'v, 'm) shard_params"
  assumes map_laws: "persistent_map (sp_map E)"
    and shards: "shards_ok E"
begin

lemmas laws = persistent_map.get_new [OF map_laws] persistent_map.get_insert [OF map_laws]
  persistent_map.get_remove [OF map_laws]

lemma entries_mem: "(k, v) \<in> set (entries E s) \<longleftrightarrow> Option.bind s (\<lambda>sh. pm_get (sp_map E) sh k) = Some v"
  by (cases s) (simp_all add: entries_def persistent_map.iter_mem [OF map_laws])

lemma entries_distinct: "distinct (map fst (entries E s))"
  by (simp add: entries_def persistent_map.iter_distinct [OF map_laws] split: option.split)

lemma placed_distinct: "placed E fl \<Longrightarrow> distinct (map fst (concat (map (entries E) fl)))"
proof (induction fl rule: rev_induct)
  case (snoc s fl)
  have "placed E fl" using snoc.prems by (force simp: placed_def nth_append)
  moreover have "shard_index E k = length fl" if "(k, v) \<in> set (entries E s)" for k v
    using placedD [OF snoc.prems, of "length fl" k v] that by simp
  moreover have "shard_index E k < length fl" if "(k, v) \<in> set (concat (map (entries E) fl))" for k v
    using placedD [OF \<open>placed E fl\<close>] that by (fastforce simp: in_set_conv_nth [of _ fl])
  ultimately show ?case
    using snoc.IH entries_distinct [of s] by fastforce
qed simp

lemma iter_mem:
  assumes "sm_wf E m"
  shows "(k, v) \<in> set (sm_iter E m) \<longleftrightarrow> sm_get E m k = Some v"
proof -
  have wf: "sm_shape E m" "placed E (flat m)" using assms by (simp_all add: sm_wf_def)
  have len: "length (flat m) = sp_shards E" by (rule directory_blocks(2) [OF wf(1)])
  have "(k, v) \<in> set (sm_iter E m) \<longleftrightarrow> (\<exists>i < length (flat m). (k, v) \<in> set (entries E (flat m ! i)))"
    by (auto simp: sm_iter_flat in_set_conv_nth [of _ "flat m"] intro!: bexI [OF _ nth_mem])
  also have "\<dots> \<longleftrightarrow> (k, v) \<in> set (entries E (flat m ! shard_index E k))"
    using placedD [OF wf(2)] shard_index_less [OF shards, of k] len by metis
  finally show ?thesis by (simp add: entries_mem sm_get_flat [OF shards wf(1)])
qed

lemma iter_map:
  assumes "sm_wf E m"
  shows "hm_wf (sm_iter E m)" and "hm_get (sm_iter E m) = sm_get E m"
    and "sm_len m = length (sm_iter E m)"
proof -
  show d: "hm_wf (sm_iter E m)"
    using assms placed_distinct by (simp add: sm_wf_def sm_iter_flat)
  show g: "hm_get (sm_iter E m) = sm_get E m"
    using map_of_eq_Some_iff [OF d] iter_mem [OF assms]
    by (intro ext) (metis not_Some_eq)
  have "{k. sm_get E m k \<noteq> None} = set (map fst (sm_iter E m))"
    unfolding g [symmetric] by (auto simp: map_of_eq_None_iff)
  then show "sm_len m = length (sm_iter E m)"
    using assms distinct_card [OF d] by (simp add: sm_wf_def)
qed

lemma finite_dom: "sm_wf E m \<Longrightarrow> finite {k. sm_get E m k \<noteq> None}"
  using finite_dom_map_of [of "sm_iter E m"] by (simp add: iter_map dom_def)

text \<open>Every operation replaces one shard by one that differs at one key.\<close>

lemma change_one:
  assumes wf: "sm_wf E m" and g: "whole g = (whole (sm_groups m ! (shard_index E k div SHARD_GROUP_SIZE)))
      [shard_index E k mod SHARD_GROUP_SIZE := s]"
    and gl: "\<And>grp. g = Some grp \<Longrightarrow> length grp = SHARD_GROUP_SIZE"
    and s: "\<And>k'. Option.bind s (\<lambda>sh. pm_get (sp_map E) sh k') =
      (if k' = k then r else Option.bind (flat m ! shard_index E k) (\<lambda>sh. pm_get (sp_map E) sh k'))"
    and n: "n = (case r of None \<Rightarrow> (if sm_get E m k = None then sm_len m else sm_len m - 1)
      | Some _ \<Rightarrow> (if sm_get E m k = None then sm_len m + 1 else sm_len m))"
  shows "sm_wf E (m\<lparr>sm_groups := (sm_groups m)[shard_index E k div SHARD_GROUP_SIZE := g], sm_len := n\<rparr>)"
    and "sm_get E (m\<lparr>sm_groups := (sm_groups m)[shard_index E k div SHARD_GROUP_SIZE := g], sm_len := n\<rparr>) k' =
      (if k' = k then r else sm_get E m k')"
proof -
  define m' where m': "m' = m\<lparr>sm_groups := (sm_groups m)[shard_index E k div SHARD_GROUP_SIZE := g], sm_len := n\<rparr>"
  have shape: "sm_shape E m" and placed: "placed E (flat m)" using wf by (simp_all add: sm_wf_def)
  have shape': "sm_shape E m'"
    using shape gl by (fastforce simp: sm_shape_def m' dest: set_update_subset_insert [THEN subsetD])
  have flat': "flat m' = (flat m)[shard_index E k := s]"
    unfolding m' by (rule flat_update [OF shards shape g])
  have len: "length (flat m) = sp_shards E" by (rule directory_blocks(2) [OF shape])
  note less = shard_index_less [OF shards]
  have get': "sm_get E m' k' = (if k' = k then r else sm_get E m k')" for k'
    unfolding sm_get_flat [OF shards shape'] sm_get_flat [OF shards shape] flat'
    using less [of k] s [of k'] by (auto simp: nth_list_update len)
  have "placed E (flat m')"
    unfolding placed_def flat'
  proof (intro allI impI)
    fix i k1 v assume i: "i < length ((flat m)[shard_index E k := s])"
      and mem: "(k1, v) \<in> set (entries E ((flat m)[shard_index E k := s] ! i))"
    show "shard_index E k1 = i"
    proof (cases "i = shard_index E k \<and> k1 \<noteq> k")
      case True
      with mem i s [of k1] have "(k1, v) \<in> set (entries E (flat m ! i))" by (simp add: entries_mem)
      with placedD [OF placed] i show ?thesis by simp
    next
      case False
      with mem i placedD [OF placed, of i k1 v] show ?thesis
        by (cases "shard_index E k = i") (auto simp: nth_list_update_neq)
    qed
  qed
  moreover have "sm_len m' = card {k'. sm_get E m' k' \<noteq> None}"
  proof -
    have "{k'. sm_get E m' k' \<noteq> None} =
        (if r = None then {k'. sm_get E m k' \<noteq> None} - {k} else insert k {k'. sm_get E m k' \<noteq> None})"
      by (auto simp: get')
    then show ?thesis
      using finite_dom [OF wf] wf
      by (auto simp: m' n sm_wf_def card_insert_if card_Diff_singleton_if split: option.split)
  qed
  ultimately have "sm_wf E m'" using shape' by (simp add: sm_wf_def)
  then show "sm_wf E (m\<lparr>sm_groups := (sm_groups m)[shard_index E k div SHARD_GROUP_SIZE := g], sm_len := n\<rparr>)"
    by (simp only: m')
  show "sm_get E (m\<lparr>sm_groups := (sm_groups m)[shard_index E k div SHARD_GROUP_SIZE := g], sm_len := n\<rparr>) k' =
      (if k' = k then r else sm_get E m k')"
    using get' by (simp only: m')
qed

lemma wf_new: "sm_wf E (sm_new E)" "sm_get E (sm_new E) k = None"
proof -
  have dvd: "sp_shards E div SHARD_GROUP_SIZE * SHARD_GROUP_SIZE = sp_shards E"
  proof -
    obtain n where "6 \<le> n" "sp_shards E = 2 ^ n" using shards by (auto simp: shards_ok_def)
    then have "sp_shards E = 2 ^ 6 * 2 ^ (n - 6)" by (simp only: power_add [symmetric] le_add_diff_inverse)
    then show ?thesis by (simp add: SHARD_GROUP_SIZE_def)
  qed
  then have shape: "sm_shape E (sm_new E)" by (simp add: sm_shape_def sm_new_def)
  have none: "flat (sm_new E) ! i = None" if "i < length (flat (sm_new E))" for i
  proof -
    have "x = None" if "x \<in> set (flat (sm_new E))" for x
      using that by (auto simp: flat_def sm_new_def)
    then show ?thesis using that nth_mem by blast
  qed
  have get: "sm_get E (sm_new E) k = None" for k
    using none shard_index_less [OF shards, of k]
    by (simp add: sm_get_flat [OF shards shape] directory_blocks(2) [OF shape])
  moreover have "placed E (flat (sm_new E))" by (simp add: placed_def none entries_def)
  ultimately show "sm_wf E (sm_new E)" "sm_get E (sm_new E) k = None"
    using shape by (simp_all add: sm_wf_def) (simp add: sm_new_def)
qed

lemma shard_found:
  assumes "sm_wf E m"
  shows "flat m ! shard_index E k =
      Option.bind (sm_groups m ! (shard_index E k div SHARD_GROUP_SIZE)) (\<lambda>grp. grp ! (shard_index E k mod SHARD_GROUP_SIZE))"
    and "sm_get E m k = Option.bind (flat m ! shard_index E k) (\<lambda>shard. pm_get (sp_map E) shard k)"
    and "sm_groups m ! (shard_index E k div SHARD_GROUP_SIZE) = Some grp \<Longrightarrow> length grp = SHARD_GROUP_SIZE"
proof -
  have shape: "sm_shape E m" using assms by (simp add: sm_wf_def)
  note b = directory_bounds [OF shards shape, of k]
  show "flat m ! shard_index E k =
      Option.bind (sm_groups m ! (shard_index E k div SHARD_GROUP_SIZE)) (\<lambda>grp. grp ! (shard_index E k mod SHARD_GROUP_SIZE))"
    using b(2) by (simp add: flat_nth [OF shards shape] split: option.split)
  show "sm_get E m k = Option.bind (flat m ! shard_index E k) (\<lambda>shard. pm_get (sp_map E) shard k)"
    by (rule sm_get_flat [OF shards shape])
  show "sm_groups m ! (shard_index E k div SHARD_GROUP_SIZE) = Some grp \<Longrightarrow> length grp = SHARD_GROUP_SIZE"
    using shape nth_mem [OF b(1)] by (auto simp: sm_shape_def)
qed

lemma insert_ok:
  assumes wf: "sm_wf E m"
  shows "sm_wf E (sm_insert E k v m)" and "sm_get E (sm_insert E k v m) k' = (if k' = k then Some v else sm_get E m k')"
proof -
  let ?g = "shard_index E k div SHARD_GROUP_SIZE" and ?l = "shard_index E k mod SHARD_GROUP_SIZE"
  let ?grp = "whole (sm_groups m ! ?g)"
  let ?shard = "case ?grp ! ?l of None \<Rightarrow> pm_new (sp_map E) | Some shard \<Rightarrow> shard"
  have l: "?l < SHARD_GROUP_SIZE" by (simp add: SHARD_GROUP_SIZE_def)
  have len: "length ?grp = SHARD_GROUP_SIZE" using shard_found(3) [OF wf, of k] by (auto split: option.split)
  have fl: "flat m ! shard_index E k = ?grp ! ?l"
    using l by (simp add: shard_found(1) [OF wf] split: option.split)
  have get: "pm_get (sp_map E) ?shard k' = Option.bind (flat m ! shard_index E k) (\<lambda>sh. pm_get (sp_map E) sh k')" for k'
    unfolding fl by (simp add: laws split: option.split)
  have eq: "sm_insert E k v m = m\<lparr>sm_groups := (sm_groups m)[?g := Some (?grp[?l := Some (pm_insert (sp_map E) k v ?shard)])],
      sm_len := (if sm_get E m k = None then sm_len m + 1 else sm_len m)\<rparr>"
    by (simp add: sm_insert_def directory_indices_eq Let_def get shard_found(2) [OF wf])
  show "sm_wf E (sm_insert E k v m)" "sm_get E (sm_insert E k v m) k' = (if k' = k then Some v else sm_get E m k')"
    unfolding eq
    by (rule change_one [OF wf, where k = k and r = "Some v" and s = "Some (pm_insert (sp_map E) k v ?shard)"];
        use len in \<open>simp add: laws get\<close>)+
qed

lemma update_ok:
  assumes wf: "sm_wf E m"
  shows "sm_wf E (sm_update E k f m)"
    and "sm_get E (sm_update E k f m) k' = (if k' = k then map_option f (sm_get E m k) else sm_get E m k')"
proof -
  let ?g = "shard_index E k div SHARD_GROUP_SIZE" and ?l = "shard_index E k mod SHARD_GROUP_SIZE"
  have "sm_wf E (sm_update E k f m) \<and>
    sm_get E (sm_update E k f m) k' = (if k' = k then map_option f (sm_get E m k) else sm_get E m k')"
  proof (cases "sm_get E m k")
    case None
    then have "sm_update E k f m = m"
      by (auto simp: sm_update_def directory_indices_eq shard_found(1,2) [OF wf] split: option.split)
    with None wf show ?thesis by simp
  next
    case (Some v)
    then obtain grp shard where g: "sm_groups m ! ?g = Some grp" "grp ! ?l = Some shard" "pm_get (sp_map E) shard k = Some v"
      by (auto simp: shard_found(1,2) [OF wf] bind_eq_Some_conv)
    then have eq: "sm_update E k f m =
        m\<lparr>sm_groups := (sm_groups m)[?g := Some (grp[?l := Some (pm_insert (sp_map E) k (f v) shard)])], sm_len := sm_len m\<rparr>"
      by (simp add: sm_update_def directory_indices_eq)
    have fl: "flat m ! shard_index E k = Some shard" by (simp add: shard_found(1) [OF wf] g)
    note len = shard_found(3) [OF wf g(1)]
    have "sm_wf E (sm_update E k f m)"
      "sm_get E (sm_update E k f m) k' = (if k' = k then Some (f v) else sm_get E m k')"
      unfolding eq
      by (rule change_one [OF wf, where k = k and r = "Some (f v)" and s = "Some (pm_insert (sp_map E) k (f v) shard)"];
          use len Some in \<open>simp add: laws g fl\<close>)+
    with Some show ?thesis by simp
  qed
  then show "sm_wf E (sm_update E k f m)"
    "sm_get E (sm_update E k f m) k' = (if k' = k then map_option f (sm_get E m k) else sm_get E m k')"
    by simp_all
qed

lemma remove_ok:
  assumes wf: "sm_wf E m"
  shows "sm_wf E (sm_remove E k m)" and "sm_get E (sm_remove E k m) k' = (if k' = k then None else sm_get E m k')"
proof -
  let ?g = "shard_index E k div SHARD_GROUP_SIZE" and ?l = "shard_index E k mod SHARD_GROUP_SIZE"
  have "sm_wf E (sm_remove E k m) \<and> sm_get E (sm_remove E k m) k' = (if k' = k then None else sm_get E m k')"
  proof (cases "flat m ! shard_index E k")
    case None
    then have "sm_remove E k m = m"
      by (auto simp: sm_remove_def directory_indices_eq shard_found(1) [OF wf] split: option.split)
    with None wf show ?thesis by (simp add: shard_found(2) [OF wf])
  next
    case (Some shard)
    then obtain grp where g: "sm_groups m ! ?g = Some grp" "grp ! ?l = Some shard"
      by (auto simp: shard_found(1) [OF wf] bind_eq_Some_conv)
    let ?shard = "if pm_is_empty (sp_map E) (pm_remove (sp_map E) k shard) then None
      else Some (pm_remove (sp_map E) k shard)"
    let ?grp = "grp[?l := ?shard]"
    note len = shard_found(3) [OF wf g(1)]
    have eq: "sm_remove E k m = m\<lparr>sm_groups := (sm_groups m)[?g := (if \<forall>s \<in> set ?grp. s = None then None else Some ?grp)],
        sm_len := (if sm_get E m k = None then sm_len m else sm_len m - 1)\<rparr>"
      by (simp add: sm_remove_def directory_indices_eq g Let_def shard_found(2) [OF wf] Some)
    have get: "Option.bind ?shard (\<lambda>sh. pm_get (sp_map E) sh k') =
        (if k' = k then None else pm_get (sp_map E) shard k')" for k'
      using persistent_map.empty_get [OF map_laws, of "pm_remove (sp_map E) k shard"] by (simp add: laws)
    have whole_grp: "whole (if \<forall>s \<in> set ?grp. s = None then None else Some ?grp) = ?grp"
      by (rule whole_collapse) (simp add: len)
    have "sm_wf E (sm_remove E k m)" "sm_get E (sm_remove E k m) k' = (if k' = k then None else sm_get E m k')"
      unfolding eq
      by (rule change_one [OF wf, where k = k and r = None and s = ?shard];
          (simp only: whole_grp g option.case | use len Some get in \<open>force split: if_splits\<close>))+
    then show ?thesis by simp
  qed
  then show "sm_wf E (sm_remove E k m)" "sm_get E (sm_remove E k m) k' = (if k' = k then None else sm_get E m k')"
    by simp_all
qed

end

section \<open>Properties\<close>

datatype ('k, 'v) map_command = MInsert 'k 'v | MRemove 'k

fun sm_command where
  "sm_command E (MInsert k v) m = sm_insert E k v m"
| "sm_command E (MRemove k) m = sm_remove E k m"

fun plain_command where
  "plain_command (MInsert k v) f = f(k \<mapsto> v)"
| "plain_command (MRemove k) f = f(k := None)"

lemma sm_commands:
  assumes "sharded E"
  shows "sm_wf E (fold (sm_command E) cs (sm_new E)) \<and>
    sm_get E (fold (sm_command E) cs (sm_new E)) = fold plain_command cs Map.empty"
proof (induction cs rule: rev_induct)
  case Nil
  then show ?case by (simp add: sharded.wf_new [OF assms] fun_eq_iff)
next
  case (snoc c cs)
  then show ?case
    using sharded.insert_ok [OF assms] sharded.remove_ok [OF assms] by (cases c) (auto simp: fun_eq_iff)
qed

text \<open>
  A sharded map is a map: after any insertions and removals, whatever the hash of the keys,
  lookup is the lookup of the plain map, the counter is the number of keys, and iterating gives
  each key once with its value.
\<close>

theorem sharded_map_is_map:
  assumes "persistent_map (sp_map E)" and "shards_ok E"
  shows "sm_get E (fold (sm_command E) cs (sm_new E)) = fold plain_command cs Map.empty \<and>
    sm_len (fold (sm_command E) cs (sm_new E)) = card (dom (fold plain_command cs Map.empty)) \<and>
    distinct (map fst (sm_iter E (fold (sm_command E) cs (sm_new E)))) \<and>
    map_of (sm_iter E (fold (sm_command E) cs (sm_new E))) = fold plain_command cs Map.empty"
proof -
  have E: "sharded E" using assms by (rule sharded.intro)
  note m = sm_commands [OF E, of cs]
  then show ?thesis
    using sharded.iter_map [OF E] by (auto simp: sm_wf_def dom_def)
qed

theorem sharded_map_is_map_witness:
  "sm_len (fold (sm_command \<lparr>sp_map = alist_ops, sp_bytes = (\<lambda>b. [b]), sp_shards = 64\<rparr>)
     [MInsert 1 ''a'', MInsert (2 :: byte) ''b'', MInsert 1 ''c'', MRemove 2]
     (sm_new \<lparr>sp_map = alist_ops, sp_bytes = (\<lambda>b. [b]), sp_shards = 64\<rparr>)) = 1"
proof -
  let ?E = "\<lparr>sp_map = alist_ops, sp_bytes = (\<lambda>b :: byte. [b]), sp_shards = 64\<rparr> ::
    (byte, string, (byte, string) alist) shard_params"
  have "shards_ok ?E" by (auto simp: shards_ok_def intro: exI [of _ 6])
  then show ?thesis
    using sharded_map_is_map [of ?E "[MInsert 1 ''a'', MInsert 2 ''b'', MInsert 1 ''c'', MRemove 2]"]
    by (simp add: alist_map.persistent_map_axioms dom_def)
qed

end
