(* ===== verification/Shared_Store.thy ===== *)
theory Shared_Store
  imports Shared_Map View
begin

text \<open>
  The definition store and the current view of the structurally shared kernel
  (\<open>SharedDefinitionStore\<close> in \<open>shared_types_v5.rs\<close>, \<open>SharedCurrentView\<close> in \<open>shared_view_v2.rs\<close>).
  The third-party maps are the record \<open>im_maps\<close>, one field for each type at which the code uses
  them, and their laws the locale \<open>im_maps\<close>.  The lemmas show that a signature determines itself
  from the set of active records, and that every index keeps the inverse image of its key
  function: the contract \<open>record_index\<close> of the reference view, met by the sharded indexes.
\<close>

section \<open>Keys as the standard hasher writes them\<close>

text \<open>
  Derived \<open>Hash\<close>: a string writes its bytes and \<open>0xff\<close>, an enum its discriminant as eight bytes,
  structs and tuples their parts in order.
\<close>

definition hash_str :: "string \<Rightarrow> byte list" where
  "hash_str s = as_bytes s @ [0xFF]"

fun hash_key_atom :: "atom \<Rightarrow> byte list" where
  "hash_key_atom (AEntity e) = le_bytes 8 (0 :: u64) @ le_bytes 8 e"
| "hash_key_atom (ALiteral l) = le_bytes 8 (1 :: u64) @ hash_str l"

definition hash_pair :: "('a \<Rightarrow> byte list) \<Rightarrow> ('b \<Rightarrow> byte list) \<Rightarrow> 'a \<times> 'b \<Rightarrow> byte list" where
  "hash_pair f g p = f (fst p) @ g (snd p)"

definition hash_key_fact :: "fact \<Rightarrow> byte list" where
  "hash_key_fact f = hash_key_atom (subject f) @ hash_str (predicate f) @ hash_key_atom (object f)"

section \<open>Signatures\<close>

record active_signature =
  sig_count :: nat
  sig_xor :: u64
  sig_sum :: u64

definition sig_new :: active_signature where
  "sig_new = \<lparr>sig_count = 0, sig_xor = 0, sig_sum = 0\<rparr>"

definition record_token :: "record_id \<Rightarrow> u64" where
  "record_token i =
     (let v = word_of_nat i + 0x9e3779b97f4a7c15;
          v = (v XOR drop_bit 30 v) * 0xbf58476d1ce4e5b9;
          v = (v XOR drop_bit 27 v) * 0x94d049bb133111eb
      in v XOR drop_bit 31 v)"

definition sig_add :: "record_id \<Rightarrow> active_signature \<Rightarrow> active_signature" where
  "sig_add i s =
     (let t = record_token i
      in \<lparr>sig_count = sig_count s + 1, sig_xor = sig_xor s XOR t, sig_sum = sig_sum s + t\<rparr>)"

definition sig_remove :: "record_id \<Rightarrow> active_signature \<Rightarrow> active_signature" where
  "sig_remove i s =
     (let t = record_token i
      in \<lparr>sig_count = sig_count s - 1, sig_xor = sig_xor s XOR t, sig_sum = sig_sum s - t\<rparr>)"

text \<open>The signature of a set of records, which both the store and the view maintain.\<close>

definition sig_of :: "record_id set \<Rightarrow> active_signature" where
  "sig_of A = Finite_Set.fold sig_add sig_new A"

lemma sig_add_commute: "sig_add i (sig_add j s) = sig_add j (sig_add i s)"
  by (simp add: sig_add_def Let_def ac_simps)

lemma sig_remove_add [simp]: "sig_remove i (sig_add i s) = s"
  by (simp add: sig_add_def sig_remove_def Let_def xor.assoc)

interpretation sig_fold: comp_fun_commute sig_add
  by unfold_locales (simp add: fun_eq_iff sig_add_commute)

lemma sig_of_empty [simp]: "sig_of {} = sig_new"
  by (simp add: sig_of_def)

lemma sig_of_insert: "finite A \<Longrightarrow> i \<notin> A \<Longrightarrow> sig_of (insert i A) = sig_add i (sig_of A)"
  by (simp add: sig_of_def)

lemma sig_of_remove: "finite A \<Longrightarrow> i \<in> A \<Longrightarrow> sig_of (A - {i}) = sig_remove i (sig_of A)"
  using sig_of_insert [of "A - {i}" i] by (simp add: insert_absorb)

lemma sig_of_list: "distinct is \<Longrightarrow> fold sig_add is sig_new = sig_of (set is)"
  by (simp add: sig_of_def sig_fold.fold_set_fold_remdups distinct_remdups_id)

lemma sig_count_of: "finite A \<Longrightarrow> sig_count (sig_of A) = card A"
  by (induction A rule: finite_induct) (simp_all add: sig_of_insert sig_new_def sig_add_def Let_def)

section \<open>Sharded indexes\<close>

definition shared_insert_index ::
  "('k, 'r, 'm) shard_params \<Rightarrow> (record_id, 'r) pset_ops \<Rightarrow> 'k \<Rightarrow> record_id \<Rightarrow> 'm sharded_map \<Rightarrow> 'm sharded_map" where
  "shared_insert_index E R key i index =
     (case sm_get E index key of
        Some _ \<Rightarrow> sm_update E key (ps_insert R i) index
      | None \<Rightarrow> sm_insert E key (ps_insert R i (ps_new R)) index)"

definition shared_remove_index ::
  "('k, 'r, 'm) shard_params \<Rightarrow> (record_id, 'r) pset_ops \<Rightarrow> 'k \<Rightarrow> record_id \<Rightarrow> 'm sharded_map \<Rightarrow> 'm sharded_map" where
  "shared_remove_index E R key i index =
     (case sm_get E index key of
        None \<Rightarrow> index
      | Some b \<Rightarrow>
          let index' = sm_update E key (ps_remove R i) index
          in if ps_is_empty R (ps_remove R i b) then sm_remove E key index' else index')"

definition shared_replace_index ::
  "('k, 'r, 'm) shard_params \<Rightarrow> (record_id, 'r) pset_ops \<Rightarrow> 'k \<Rightarrow> record_id \<Rightarrow> record_id \<Rightarrow>
   'm sharded_map \<Rightarrow> 'm sharded_map" where
  "shared_replace_index E R key old_id new_id index =
     (case sm_get E index key of
        None \<Rightarrow> index
      | Some _ \<Rightarrow> sm_update E key (\<lambda>b. ps_insert R new_id (ps_remove R old_id b)) index)"

text \<open>The step that \<open>replace\<close> takes at each of the seven indexes.\<close>

definition move_index ::
  "('k, 'r, 'm) shard_params \<Rightarrow> (record_id, 'r) pset_ops \<Rightarrow> 'k \<Rightarrow> 'k \<Rightarrow> record_id \<Rightarrow> record_id \<Rightarrow>
   'm sharded_map \<Rightarrow> 'm sharded_map" where
  "move_index E R old_key new_key old_id new_id index =
     (if old_key = new_key then shared_replace_index E R old_key old_id new_id index
      else shared_insert_index E R new_key new_id (shared_remove_index E R old_key old_id index))"

definition shared_bucket ::
  "('k, 'r, 'm) shard_params \<Rightarrow> (record_id, 'r) pset_ops \<Rightarrow> 'm sharded_map \<Rightarrow> 'k \<Rightarrow> record_id set" where
  "shared_bucket E R index key =
     (case sm_get E index key of None \<Rightarrow> {} | Some b \<Rightarrow> set (ps_iter R b))"

definition shared_index_wf :: "('k, 'r, 'm) shard_params \<Rightarrow> (record_id, 'r) pset_ops \<Rightarrow> 'm sharded_map \<Rightarrow> bool" where
  "shared_index_wf E R index \<longleftrightarrow>
     sm_wf E index \<and> (\<forall>k b. sm_get E index k = Some b \<longrightarrow> ps_iter R b \<noteq> [])"

locale shared_index = sharded E + persistent_set R
  for E :: "('k, 'r, 'm) shard_params" and R :: "(record_id, 'r) pset_ops"
begin

lemma iter_nonempty [simp]: "ps_iter R (ps_insert R i b) \<noteq> []"
  using iter_insert [of i b] by auto

lemma set_nonempty: "ps_iter R b \<noteq> [] \<longleftrightarrow> set (ps_iter R b) \<noteq> {}"
  by simp

lemma insert_bucket:
  assumes "shared_index_wf E R m"
  shows "shared_index_wf E R (shared_insert_index E R k i m)"
    and "shared_bucket E R (shared_insert_index E R k i m) k' =
      (if k' = k then insert i (shared_bucket E R m k) else shared_bucket E R m k')"
  using assms
  by (auto simp: shared_insert_index_def shared_index_wf_def shared_bucket_def update_ok insert_ok
      iter_insert iter_new split: option.split if_splits)

lemma remove_bucket:
  assumes "shared_index_wf E R m"
  shows "shared_index_wf E R (shared_remove_index E R k i m)"
    and "shared_bucket E R (shared_remove_index E R k i m) k' =
      (if k' = k then shared_bucket E R m k - {i} else shared_bucket E R m k')"
proof -
  note wf = assms [unfolded shared_index_wf_def, THEN conjunct1]
  have *: "ps_iter R (ps_remove R i b) = [] \<longleftrightarrow> set (ps_iter R b) - {i} = {}" for b
    unfolding iter_remove [symmetric] by simp
  show "shared_index_wf E R (shared_remove_index E R k i m)"
    using assms
    by (auto simp: shared_remove_index_def shared_index_wf_def update_ok remove_ok
        set_is_empty Let_def split: option.split if_splits)
  show "shared_bucket E R (shared_remove_index E R k i m) k' =
      (if k' = k then shared_bucket E R m k - {i} else shared_bucket E R m k')"
    by (cases "sm_get E m k")
      (auto simp: shared_remove_index_def shared_bucket_def update_ok [OF wf] remove_ok [OF update_ok(1) [OF wf]]
        iter_remove set_is_empty * Let_def split: option.split)
qed

lemma replace_bucket:
  assumes "shared_index_wf E R m"
  shows "shared_index_wf E R (shared_replace_index E R k i j m)"
    and "shared_bucket E R (shared_replace_index E R k i j m) k' =
      (if k' = k \<and> shared_bucket E R m k \<noteq> {} then insert j (shared_bucket E R m k - {i})
       else shared_bucket E R m k')"
  using assms
  by (auto simp: shared_replace_index_def shared_index_wf_def shared_bucket_def update_ok
      iter_insert iter_remove split: option.split if_splits)

end

sublocale shared_index \<subseteq> record_index "sm_new E" "shared_insert_index E R" "shared_remove_index E R"
  "shared_bucket E R" "shared_index_wf E R"
proof
qed (simp_all add: insert_bucket remove_bucket wf_new shared_bucket_def [of _ _ "sm_new E"]
    shared_index_wf_def [of _ _ "sm_new E"])

context shared_index
begin

lemma union_buckets:
  assumes "shared_index_wf E R m"
  shows "List.set (concat (map (ps_iter R) (sm_values E m))) = (\<Union>k. shared_bucket E R m k)"
proof -
  have wf: "sm_wf E m" using assms by (simp add: shared_index_wf_def)
  have vals: "List.set (sm_values E m) = {v. \<exists>k. sm_get E m k = Some v}"
    unfolding sm_values_def set_hm_values [OF iter_map(1) [OF wf]] by (simp add: iter_map(2) [OF wf])
  show ?thesis
    unfolding set_concat set_map vals by (fastforce simp: shared_bucket_def split: option.splits)
qed

lemma covers_move:
  assumes "covers m key A" and "i \<in> A" and "key i = k" and "key j = k'"
  shows "covers (move_index E R k k' i j m) key (insert j (A - {i}))"
proof (cases "k = k'")
  case False
  then show ?thesis
    using covers_ins [OF covers_del [OF assms(1,3)] assms(4)] by (simp add: move_index_def)
next
  case True
  from assms have "shared_index_wf E R m" and look: "shared_bucket E R m x = {i \<in> A. key i = x}" for x
    by (simp_all add: covers_def)
  with True assms replace_bucket [OF this(1)] show ?thesis
    by (auto simp: covers_def move_index_def)
qed

end

section \<open>The store\<close>

datatype slot_history_node = SlotHistoryNode record_id "slot_history_node option"

record ('h, 's, 'r, 'a, 'p, 'ap, 'aa, 'pa, 'f) im_maps =
  im_head :: "(slot_id, record_id, 'h) pmap_ops"
  im_history :: "(slot_id, slot_history_node, 's) pmap_ops"
  im_set :: "(record_id, 'r) pset_ops"
  im_atom :: "(atom, 'r, 'a) pmap_ops"
  im_predicate :: "(predicate, 'r, 'p) pmap_ops"
  im_atom_predicate :: "(atom \<times> predicate, 'r, 'ap) pmap_ops"
  im_atom_atom :: "(atom \<times> atom, 'r, 'aa) pmap_ops"
  im_predicate_atom :: "(predicate \<times> atom, 'r, 'pa) pmap_ops"
  im_fact :: "(fact, 'r, 'f) pmap_ops"

abbreviation "head_map M \<equiv> \<lparr>sp_map = im_head M, sp_bytes = hash_str, sp_shards = HEAD_SHARDS\<rparr>"
abbreviation "history_map M \<equiv> \<lparr>sp_map = im_history M, sp_bytes = hash_str, sp_shards = HISTORY_SHARDS\<rparr>"
abbreviation "atom_map M \<equiv> \<lparr>sp_map = im_atom M, sp_bytes = hash_key_atom, sp_shards = INDEX_SHARDS\<rparr>"
abbreviation "predicate_map M \<equiv> \<lparr>sp_map = im_predicate M, sp_bytes = hash_str, sp_shards = INDEX_SHARDS\<rparr>"
abbreviation "sp_index M \<equiv>
  \<lparr>sp_map = im_atom_predicate M, sp_bytes = hash_pair hash_key_atom hash_str, sp_shards = INDEX_SHARDS\<rparr>"
abbreviation "so_index M \<equiv>
  \<lparr>sp_map = im_atom_atom M, sp_bytes = hash_pair hash_key_atom hash_key_atom, sp_shards = INDEX_SHARDS\<rparr>"
abbreviation "po_index M \<equiv>
  \<lparr>sp_map = im_predicate_atom M, sp_bytes = hash_pair hash_str hash_key_atom, sp_shards = INDEX_SHARDS\<rparr>"
abbreviation "fact_index M \<equiv> \<lparr>sp_map = im_fact M, sp_bytes = hash_key_fact, sp_shards = INDEX_SHARDS\<rparr>"

record ('h, 's) shared_store =
  sh_log :: "log_record chunked_log"
  sh_head :: "'h sharded_map"
  sh_slot_history :: "'s sharded_map"
  sh_signature :: active_signature

definition shared_store_new where
  "shared_store_new M =
     \<lparr>sh_log = clog_new, sh_head = sm_new (head_map M), sh_slot_history = sm_new (history_map M),
      sh_signature = sig_new\<rparr>"

definition sh_record :: "('h, 's) shared_store \<Rightarrow> record_id \<Rightarrow> log_record option" where
  "sh_record st i = clog_get (sh_log st) i"

definition append_slot_history where
  "append_slot_history M slot i st =
     st\<lparr>sh_slot_history := sm_insert (history_map M) slot
          (SlotHistoryNode i (sm_get (history_map M) (sh_slot_history st) slot)) (sh_slot_history st)\<rparr>"

definition replace_head where
  "replace_head M slot new_head st =
     (let st = (case sm_get (head_map M) (sh_head st) slot of
                  Some prev \<Rightarrow> st\<lparr>sh_signature := sig_remove prev (sh_signature st)\<rparr>
                | None \<Rightarrow> st)
      in case new_head of
           Some i \<Rightarrow> st\<lparr>sh_head := sm_insert (head_map M) slot i (sh_head st),
                        sh_signature := sig_add i (sh_signature st)\<rparr>
         | None \<Rightarrow> st\<lparr>sh_head := sm_remove (head_map M) slot (sh_head st)\<rparr>)"

definition shared_append_define where
  "shared_append_define M slot f st =
     (let prev = sm_get (head_map M) (sh_head st) slot;
          i = clog_len (sh_log st);
          r = \<lparr>rec_id = i, rec_kind = KDefine, rec_slot = slot, rec_fact = Some f,
               previous_head = prev, resulting_head = Some i\<rparr>;
          st = st\<lparr>sh_log := snd (clog_push r (sh_log st))\<rparr>
      in (i, replace_head M slot (Some i) (append_slot_history M slot i st)))"

definition shared_append_forget where
  "shared_append_forget M slot st =
     (let current = sm_get (head_map M) (sh_head st) slot
      in case (case current of None \<Rightarrow> Some None | Some c \<Rightarrow> map_option previous_head (sh_record st c)) of
           None \<Rightarrow> None
         | Some revealed \<Rightarrow>
             let i = clog_len (sh_log st);
                 r = \<lparr>rec_id = i, rec_kind = KForget, rec_slot = slot, rec_fact = None,
                      previous_head = current, resulting_head = revealed\<rparr>;
                 st = st\<lparr>sh_log := snd (clog_push r (sh_log st))\<rparr>
             in Some ((i, revealed), replace_head M slot revealed (append_slot_history M slot i st)))"

definition shared_resolve_record where
  "shared_resolve_record M slot st =
     (case sm_get (head_map M) (sh_head st) slot of
        None \<Rightarrow> Some None
      | Some i \<Rightarrow> map_option Some (sh_record st i))"

partial_function (option) shared_chain ::
  "('h, 's) shared_store \<Rightarrow> record_id option \<Rightarrow> log_record list option" where
  "shared_chain st next_id =
     (case next_id of
        None \<Rightarrow> Some []
      | Some i \<Rightarrow>
          Option.bind (sh_record st i) (\<lambda>r.
            if rec_kind r = KDefine
            then Option.bind (shared_chain st (previous_head r)) (\<lambda>rs. Some (r # rs))
            else None))"

declare shared_chain.simps [code]

definition shared_definitions where
  "shared_definitions M slot st = shared_chain st (sm_get (head_map M) (sh_head st) slot)"

fun node_ids :: "slot_history_node \<Rightarrow> record_id list" where
  "node_ids (SlotHistoryNode i prev) = i # (case prev of None \<Rightarrow> [] | Some n \<Rightarrow> node_ids n)"

definition shared_history where
  "shared_history M slot st =
     those (map (sh_record st)
       (rev (case sm_get (history_map M) (sh_slot_history st) slot of None \<Rightarrow> [] | Some n \<Rightarrow> node_ids n)))"

definition shared_active_slot_count :: "('h, 's) shared_store \<Rightarrow> nat" where
  "shared_active_slot_count st = sm_len (sh_head st)"

definition shared_record_count :: "('h, 's) shared_store \<Rightarrow> nat" where
  "shared_record_count st = clog_len (sh_log st)"

definition shared_validate_fast :: "('h, 's) shared_store \<Rightarrow> string + unit" where
  "shared_validate_fast st =
     (if sm_len (sh_head st) \<noteq> sig_count (sh_signature st)
      then Inl ''active-head count does not match tracked signature''
      else if sig_count (sh_signature st) > clog_len (sh_log st)
      then Inl ''active-head count exceeds record count''
      else Inr ())"

text \<open>The loop over the heads in \<open>validate_full\<close>.\<close>

fun shared_validate_heads :: "('h, 's) shared_store \<Rightarrow> record_id list \<Rightarrow> (string + unit) option" where
  "shared_validate_heads st [] = Some (Inr ())"
| "shared_validate_heads st (i # is) =
     (case sh_record st i of
        None \<Rightarrow> None
      | Some r \<Rightarrow>
          if rec_kind r \<noteq> KDefine \<or> rec_fact r = None
          then Some (Inl ''slot heads must be definition records'')
          else shared_validate_heads st is)"

definition shared_validate_full where
  "shared_validate_full M st =
     try_bind (shared_validate_heads st (sm_values (head_map M) (sh_head st)))
       (\<lambda>_. if fold sig_add (sm_values (head_map M) (sh_head st)) sig_new \<noteq> sh_signature st
            then Some (Inl ''active-head signature does not match full audit'')
            else Some (Inr ()))"

definition shared_active_record_ids where
  "shared_active_record_ids M st = sorted_list_of_set (set (sm_values (head_map M) (sh_head st)))"

section \<open>The view\<close>

record ('a, 'p, 'ap, 'aa, 'pa, 'f) shared_view =
  sv_subject :: "'a sharded_map"
  sv_predicate :: "'p sharded_map"
  sv_object :: "'a sharded_map"
  sv_subject_predicate :: "'ap sharded_map"
  sv_subject_object :: "'aa sharded_map"
  sv_predicate_object :: "'pa sharded_map"
  sv_exact :: "'f sharded_map"
  sv_signature :: active_signature

definition shared_view_new where
  "shared_view_new M =
     \<lparr>sv_subject = sm_new (atom_map M), sv_predicate = sm_new (predicate_map M),
      sv_object = sm_new (atom_map M), sv_subject_predicate = sm_new (sp_index M),
      sv_subject_object = sm_new (so_index M), sv_predicate_object = sm_new (po_index M),
      sv_exact = sm_new (fact_index M), sv_signature = sig_new\<rparr>"

definition sh_record_fact :: "('h, 's) shared_store \<Rightarrow> record_id \<Rightarrow> fact option" where
  "sh_record_fact st i = Option.bind (sh_record st i) rec_fact"

definition shared_view_add where
  "shared_view_add M i st v =
     map_option (\<lambda>f.
       \<lparr>sv_subject = shared_insert_index (atom_map M) (im_set M) (subject f) i (sv_subject v),
        sv_predicate = shared_insert_index (predicate_map M) (im_set M) (predicate f) i (sv_predicate v),
        sv_object = shared_insert_index (atom_map M) (im_set M) (object f) i (sv_object v),
        sv_subject_predicate =
          shared_insert_index (sp_index M) (im_set M) (subject f, predicate f) i (sv_subject_predicate v),
        sv_subject_object =
          shared_insert_index (so_index M) (im_set M) (subject f, object f) i (sv_subject_object v),
        sv_predicate_object =
          shared_insert_index (po_index M) (im_set M) (predicate f, object f) i (sv_predicate_object v),
        sv_exact = shared_insert_index (fact_index M) (im_set M) f i (sv_exact v),
        sv_signature = sig_add i (sv_signature v)\<rparr>) (sh_record_fact st i)"

definition shared_view_remove where
  "shared_view_remove M i st v =
     map_option (\<lambda>f.
       \<lparr>sv_subject = shared_remove_index (atom_map M) (im_set M) (subject f) i (sv_subject v),
        sv_predicate = shared_remove_index (predicate_map M) (im_set M) (predicate f) i (sv_predicate v),
        sv_object = shared_remove_index (atom_map M) (im_set M) (object f) i (sv_object v),
        sv_subject_predicate =
          shared_remove_index (sp_index M) (im_set M) (subject f, predicate f) i (sv_subject_predicate v),
        sv_subject_object =
          shared_remove_index (so_index M) (im_set M) (subject f, object f) i (sv_subject_object v),
        sv_predicate_object =
          shared_remove_index (po_index M) (im_set M) (predicate f, object f) i (sv_predicate_object v),
        sv_exact = shared_remove_index (fact_index M) (im_set M) f i (sv_exact v),
        sv_signature = sig_remove i (sv_signature v)\<rparr>) (sh_record_fact st i)"

definition shared_view_replace where
  "shared_view_replace M i j st v =
     Option.bind (sh_record_fact st i) (\<lambda>f. map_option (\<lambda>g.
       \<lparr>sv_subject = move_index (atom_map M) (im_set M) (subject f) (subject g) i j (sv_subject v),
        sv_predicate = move_index (predicate_map M) (im_set M) (predicate f) (predicate g) i j (sv_predicate v),
        sv_object = move_index (atom_map M) (im_set M) (object f) (object g) i j (sv_object v),
        sv_subject_predicate =
          move_index (sp_index M) (im_set M) (subject f, predicate f) (subject g, predicate g) i j
            (sv_subject_predicate v),
        sv_subject_object =
          move_index (so_index M) (im_set M) (subject f, object f) (subject g, object g) i j (sv_subject_object v),
        sv_predicate_object =
          move_index (po_index M) (im_set M) (predicate f, object f) (predicate g, object g) i j
            (sv_predicate_object v),
        sv_exact = move_index (fact_index M) (im_set M) f g i j (sv_exact v),
        sv_signature = sig_add j (sig_remove i (sv_signature v))\<rparr>) (sh_record_fact st j))"

definition collect_bucket :: "(record_id, 'r) pset_ops \<Rightarrow> 'r option \<Rightarrow> record_id list" where
  "collect_bucket R b = sort (case b of None \<Rightarrow> [] | Some s \<Rightarrow> ps_iter R s)"

definition shared_candidates where
  "shared_candidates M pat b st v =
     (case (resolved_atom (p_subject pat) b, resolved_predicate (p_predicate pat) b,
            resolved_atom (p_object pat) b) of
        (Some s, Some p, Some ob) \<Rightarrow> collect_bucket (im_set M) (sm_get (fact_index M) (sv_exact v) (fact_new s p ob))
      | (Some s, Some p, None) \<Rightarrow> collect_bucket (im_set M) (sm_get (sp_index M) (sv_subject_predicate v) (s, p))
      | (Some s, None, Some ob) \<Rightarrow> collect_bucket (im_set M) (sm_get (so_index M) (sv_subject_object v) (s, ob))
      | (None, Some p, Some ob) \<Rightarrow> collect_bucket (im_set M) (sm_get (po_index M) (sv_predicate_object v) (p, ob))
      | (Some s, None, None) \<Rightarrow> collect_bucket (im_set M) (sm_get (atom_map M) (sv_subject v) s)
      | (None, Some p, None) \<Rightarrow> collect_bucket (im_set M) (sm_get (predicate_map M) (sv_predicate v) p)
      | (None, None, Some ob) \<Rightarrow> collect_bucket (im_set M) (sm_get (atom_map M) (sv_object v) ob)
      | (None, None, None) \<Rightarrow> shared_active_record_ids M st)"

definition shared_view_validate_fast :: "('h, 's) shared_store \<Rightarrow> ('a, 'p, 'ap, 'aa, 'pa, 'f) shared_view \<Rightarrow> string + unit" where
  "shared_view_validate_fast st v =
     (if sv_signature v \<noteq> sh_signature st then Inl ''current indexes do not match active slot signature''
      else Inr ())"

definition shared_view_validate_full where
  "shared_view_validate_full M st v =
     (let indexed = sorted_list_of_set
            (set (concat (map (ps_iter (im_set M)) (sm_values (sp_index M) (sv_subject_predicate v)))))
      in if shared_active_record_ids M st \<noteq> indexed then Inl view_mismatch
         else if fold sig_add indexed sig_new \<noteq> sv_signature v
         then Inl ''current-index signature does not match full audit''
         else Inr ())"

definition view_populated_shards :: "('a, 'p, 'ap, 'aa, 'pa, 'f) shared_view \<Rightarrow> nat" where
  "view_populated_shards v =
     populated_shards (sv_subject v) + populated_shards (sv_predicate v) + populated_shards (sv_object v) +
     populated_shards (sv_subject_predicate v) + populated_shards (sv_subject_object v) +
     populated_shards (sv_predicate_object v) + populated_shards (sv_exact v)"

end
