(* ===== verification/Shared_Kernel.thy ===== *)
theory Shared_Kernel
  imports Shared_Store Kernel_Interface
begin

text \<open>
  The kernel the world layer is linked against (\<open>ForthDb\<close> in
  \<open>forthdb-core/src/shared_db_v2.rs\<close>, re-exported by \<open>shared_reaped.rs\<close>), over third-party
  persistent maps.  The relation \<open>parity\<close> ties one of its states to a state of the reference
  kernel; every operation keeps it and gives the same answer, so the two kernels cannot be told
  apart, and the shared kernel meets the contract \<open>kernel\<close> of the world layer.
\<close>

section \<open>The database\<close>

record ('h, 's, 'a, 'p, 'ap, 'aa, 'pa, 'f) shared_db =
  sdb_store :: "('h, 's) shared_store"
  sdb_view :: "('a, 'p, 'ap, 'aa, 'pa, 'f) shared_view"
  sdb_next_entity :: u64

definition shared_new where
  "shared_new M = \<lparr>sdb_store = shared_store_new M, sdb_view = shared_view_new M, sdb_next_entity = 1\<rparr>"

record structural_metrics =
  log_chunks :: nat
  active_head_shards :: nat
  slot_history_shards :: nat
  index_shards :: nat

definition shared_structural_metrics :: "('h, 's, 'a, 'p, 'ap, 'aa, 'pa, 'f) shared_db \<Rightarrow> structural_metrics" where
  "shared_structural_metrics s =
     \<lparr>log_chunks = length (chunks (sh_log (sdb_store s))),
      active_head_shards = populated_shards (sh_head (sdb_store s)),
      slot_history_shards = populated_shards (sh_slot_history (sdb_store s)),
      index_shards = view_populated_shards (sdb_view s)\<rparr>"

definition shared_entity ::
  "('h, 's, 'a, 'p, 'ap, 'aa, 'pa, 'f) shared_db \<Rightarrow> entity_id \<times> ('h, 's, 'a, 'p, 'ap, 'aa, 'pa, 'f) shared_db" where
  "shared_entity s = (sdb_next_entity s, s\<lparr>sdb_next_entity := sdb_next_entity s + 1\<rparr>)"

definition shared_define where
  "shared_define M slot f s =
     (let old_head = sm_get (head_map M) (sh_head (sdb_store s)) slot;
          (i, st) = shared_append_define M slot f (sdb_store s)
      in map_option (\<lambda>v. (i, s\<lparr>sdb_store := st, sdb_view := v\<rparr>))
           (case old_head of
              Some h \<Rightarrow> shared_view_replace M h i st (sdb_view s)
            | None \<Rightarrow> shared_view_add M i st (sdb_view s)))"

definition shared_forget where
  "shared_forget M slot s =
     (let old_head = sm_get (head_map M) (sh_head (sdb_store s)) slot
      in Option.bind (shared_append_forget M slot (sdb_store s)) (\<lambda>((i, revealed), st).
           map_option (\<lambda>v. (i, s\<lparr>sdb_store := st, sdb_view := v\<rparr>))
             (case (old_head, revealed) of
                (Some h, Some r) \<Rightarrow> shared_view_replace M h r st (sdb_view s)
              | (Some h, None) \<Rightarrow> shared_view_remove M h st (sdb_view s)
              | (None, Some r) \<Rightarrow> shared_view_add M r st (sdb_view s)
              | (None, None) \<Rightarrow> Some (sdb_view s))))"

definition shared_resolve where
  "shared_resolve M slot s =
     map_option (\<lambda>r. Option.bind r rec_fact) (shared_resolve_record M slot (sdb_store s))"

definition shared_db_definitions where
  "shared_db_definitions M slot s =
     map_option (List.map_filter rec_fact) (shared_definitions M slot (sdb_store s))"

definition shared_db_history where
  "shared_db_history M slot s = shared_history M slot (sdb_store s)"

definition shared_db_active_slot_count where
  "shared_db_active_slot_count s = shared_active_slot_count (sdb_store s)"

definition shared_db_record_count where
  "shared_db_record_count s = shared_record_count (sdb_store s)"

definition shared_define_display_name where
  "shared_define_display_name M e name s =
     shared_define M (display_slot e) (fact_new (AEntity e) ''display_name'' (ALiteral name)) s"

definition shared_display_name where
  "shared_display_name M e s =
     map_option (\<lambda>r. case r of
         Some f \<Rightarrow> (case object f of ALiteral l \<Rightarrow> l | AEntity _ \<Rightarrow> entity_to_string e)
       | None \<Rightarrow> entity_to_string e) (shared_resolve M (display_slot e) s)"

definition shared_bind_symbol where
  "shared_bind_symbol M namespace symb e s =
     shared_define M (symbol_slot namespace symb)
       (fact_new (ALiteral (namespace @ '':'' @ symb)) ''resolves_to'' (AEntity e)) s"

definition shared_resolve_symbol where
  "shared_resolve_symbol M namespace symb s =
     map_option (\<lambda>r. case r of
         Some f \<Rightarrow> (case object f of AEntity e \<Rightarrow> Some e | ALiteral _ \<Rightarrow> None)
       | None \<Rightarrow> None) (shared_resolve M (symbol_slot namespace symb) s)"

definition shared_compile_term where
  "shared_compile_term M namespace t s =
     (case t of
        SAtom a \<Rightarrow> Some (Inr (TAtom a))
      | SVariable x \<Rightarrow> Some (Inr (TVariable x))
      | SSymbol symb \<Rightarrow>
          map_option (\<lambda>r. case r of
              Some e \<Rightarrow> Inr (TAtom (AEntity e))
            | None \<Rightarrow> Inl (''unbound symbol '' @ namespace @ '':'' @ symb))
            (shared_resolve_symbol M namespace symb s))"

definition shared_compile_pattern where
  "shared_compile_pattern M namespace sub p ob s =
     try_bind (shared_compile_term M namespace sub s) (\<lambda>sub'.
     try_bind (shared_compile_term M namespace ob s) (\<lambda>ob'.
     Some (Inr (pattern_new sub' (PPredicate p) ob'))))"

definition shared_render_value where
  "shared_render_value M v s =
     (case v of BEntity e \<Rightarrow> shared_display_name M e s | BLiteral l \<Rightarrow> Some l | BPredicate p \<Rightarrow> Some p)"

definition shared_fetch where
  "shared_fetch s i =
     (case sh_record (sdb_store s) i of
        None \<Rightarrow> None
      | Some r \<Rightarrow> map_option (Pair (rec_slot r)) (rec_fact r))"

definition shared_query where
  "shared_query M patterns opts s =
     run_query (\<lambda>pat b. shared_candidates M pat b (sdb_store s) (sdb_view s)) (shared_fetch s) patterns opts"

definition shared_validate where
  "shared_validate s =
     (case shared_validate_fast (sdb_store s) of
        Inl e \<Rightarrow> Inl e
      | Inr _ \<Rightarrow> shared_view_validate_fast (sdb_store s) (sdb_view s))"

definition shared_db_validate_full where
  "shared_db_validate_full M s =
     try_bind (shared_validate_full M (sdb_store s))
       (\<lambda>_. Some (shared_view_validate_full M (sdb_store s) (sdb_view s)))"

section \<open>The laws of the third-party maps\<close>

locale im_laws =
  fixes M :: "('h, 's, 'r, 'a, 'p, 'ap, 'aa, 'pa, 'f) im_maps"
  assumes head: "persistent_map (im_head M)"
    and history: "persistent_map (im_history M)"
    and set: "persistent_set (im_set M)"
    and atom: "persistent_map (im_atom M)"
    and predicate: "persistent_map (im_predicate M)"
    and atom_predicate: "persistent_map (im_atom_predicate M)"
    and atom_atom: "persistent_map (im_atom_atom M)"
    and predicate_atom: "persistent_map (im_predicate_atom M)"
    and fact: "persistent_map (im_fact M)"

sublocale im_laws \<subseteq> heads: sharded "head_map M"
  by (rule sharded.intro) (simp_all add: head shards_ok_sizes)

sublocale im_laws \<subseteq> histories: sharded "history_map M"
  by (rule sharded.intro) (simp_all add: history shards_ok_sizes)

sublocale im_laws \<subseteq> atoms: shared_index "atom_map M" "im_set M"
  by (intro shared_index.intro sharded.intro set) (simp_all add: atom shards_ok_sizes)

sublocale im_laws \<subseteq> predicates: shared_index "predicate_map M" "im_set M"
  by (intro shared_index.intro sharded.intro set) (simp_all add: predicate shards_ok_sizes)

sublocale im_laws \<subseteq> sp: shared_index "sp_index M" "im_set M"
  by (intro shared_index.intro sharded.intro set) (simp_all add: atom_predicate shards_ok_sizes)

sublocale im_laws \<subseteq> so: shared_index "so_index M" "im_set M"
  by (intro shared_index.intro sharded.intro set) (simp_all add: atom_atom shards_ok_sizes)

sublocale im_laws \<subseteq> po: shared_index "po_index M" "im_set M"
  by (intro shared_index.intro sharded.intro set) (simp_all add: predicate_atom shards_ok_sizes)

sublocale im_laws \<subseteq> facts: shared_index "fact_index M" "im_set M"
  by (intro shared_index.intro sharded.intro set) (simp_all add: fact shards_ok_sizes)

section \<open>Parity with the reference kernel\<close>

text \<open>The step that \<open>define\<close> and \<open>forget\<close> take on the view, by the heads before and after.\<close>

definition view_step where
  "view_step M old_head new_head st v =
     (case (old_head, new_head) of
        (Some h, Some r) \<Rightarrow> shared_view_replace M h r st v
      | (Some h, None) \<Rightarrow> shared_view_remove M h st v
      | (None, Some r) \<Rightarrow> shared_view_add M r st v
      | (None, None) \<Rightarrow> Some v)"

definition head_change :: "record_id option \<Rightarrow> record_id option \<Rightarrow> record_id set \<Rightarrow> record_id set" where
  "head_change old_head new_head A =
     (case new_head of None \<Rightarrow> id | Some i \<Rightarrow> insert i) (case old_head of None \<Rightarrow> A | Some h \<Rightarrow> A - {h})"

lemma head_change_values:
  assumes "wf_store st" and "wf_store st'"
    and "\<And>s. s \<noteq> slot \<Longrightarrow> hm_get (head st') s = hm_get (head st) s"
  shows "set (hm_values (head st')) =
    head_change (hm_get (head st) slot) (hm_get (head st') slot) (set (hm_values (head st)))"
proof -
  have "set (hm_values (head st')) =
      (case hm_get (head st') slot of None \<Rightarrow> id | Some i \<Rightarrow> insert i)
        (case hm_get (head st) slot of None \<Rightarrow> set (hm_values (head st)) | Some i \<Rightarrow> set (hm_values (head st)) - {i})"
    by (rule active_update_head)
      (use assms wf_storeD(2) [OF assms(1)] wf_storeD(2) [OF assms(2)] heads_inject [OF assms(1)] in auto)
  then show ?thesis by (simp only: head_change_def)
qed

text \<open>A record that becomes the head of a slot is the head of no other.\<close>

lemma new_head_fresh:
  assumes "wf_store st" and "wf_store st'" and "\<And>s. s \<noteq> slot \<Longrightarrow> hm_get (head st') s = hm_get (head st) s"
    and "hm_get (head st') slot = Some i"
  shows "i \<notin> (case hm_get (head st) slot of None \<Rightarrow> set (hm_values (head st)) | Some h \<Rightarrow> set (hm_values (head st)) - {h})"
proof
  assume mem: "i \<in> (case hm_get (head st) slot of None \<Rightarrow> set (hm_values (head st)) | Some h \<Rightarrow> set (hm_values (head st)) - {h})"
  then have "i \<in> set (hm_values (head st))" by (auto split: option.splits)
  then obtain s where s: "hm_get (head st) s = Some i"
    unfolding set_hm_values [OF wf_storeD(2) [OF assms(1)]] by blast
  with mem have "s \<noteq> slot" by (auto split: option.splits)
  with s assms(3) have "hm_get (head st') s = Some i" by simp
  from heads_inject [OF assms(2) this assms(4)] \<open>s \<noteq> slot\<close> show False by simp
qed

lemma sig_head_change:
  assumes "wf_store st" and "wf_store st'" and "\<And>s. s \<noteq> slot \<Longrightarrow> hm_get (head st') s = hm_get (head st) s"
  shows "sig_of (set (hm_values (head st'))) =
    (case hm_get (head st') slot of None \<Rightarrow> id | Some i \<Rightarrow> sig_add i)
      ((case hm_get (head st) slot of None \<Rightarrow> id | Some h \<Rightarrow> sig_remove h) (sig_of (set (hm_values (head st)))))"
  using new_head_fresh [where slot = slot, OF assms] head_active [of st slot]
  by (cases "hm_get (head st) slot"; cases "hm_get (head st') slot")
    (simp_all add: head_change_values [OF assms] head_change_def sig_of_insert sig_of_remove del: set_map)

context im_laws
begin

definition view_holds where
  "view_holds F A v \<longleftrightarrow>
     atoms.covers (sv_subject v) (\<lambda>i. fact.subject (F i)) A \<and>
     predicates.covers (sv_predicate v) (\<lambda>i. fact.predicate (F i)) A \<and>
     atoms.covers (sv_object v) (\<lambda>i. fact.object (F i)) A \<and>
     sp.covers (sv_subject_predicate v) (\<lambda>i. (fact.subject (F i), fact.predicate (F i))) A \<and>
     so.covers (sv_subject_object v) (\<lambda>i. (fact.subject (F i), fact.object (F i))) A \<and>
     po.covers (sv_predicate_object v) (\<lambda>i. (fact.predicate (F i), fact.object (F i))) A \<and>
     facts.covers (sv_exact v) F A \<and> sv_signature v = sig_of A \<and> finite A"

lemma view_holds_new: "view_holds F {} (shared_view_new M)"
  by (simp add: view_holds_def shared_view_new_def atoms.covers_empty predicates.covers_empty
      sp.covers_empty so.covers_empty po.covers_empty facts.covers_empty)

lemma view_holds_cong:
  assumes "\<And>i. i \<in> A \<Longrightarrow> F i = G i"
  shows "view_holds F A v \<longleftrightarrow> view_holds G A v"
  unfolding view_holds_def
  using assms atoms.covers_cong [of A "\<lambda>i. fact.subject (F i)" "\<lambda>i. fact.subject (G i)"]
    predicates.covers_cong [of A "\<lambda>i. fact.predicate (F i)" "\<lambda>i. fact.predicate (G i)"]
    atoms.covers_cong [of A "\<lambda>i. fact.object (F i)" "\<lambda>i. fact.object (G i)"]
    sp.covers_cong [of A "\<lambda>i. (fact.subject (F i), fact.predicate (F i))" "\<lambda>i. (fact.subject (G i), fact.predicate (G i))"]
    so.covers_cong [of A "\<lambda>i. (fact.subject (F i), fact.object (F i))" "\<lambda>i. (fact.subject (G i), fact.object (G i))"]
    po.covers_cong [of A "\<lambda>i. (fact.predicate (F i), fact.object (F i))" "\<lambda>i. (fact.predicate (G i), fact.object (G i))"]
    facts.covers_cong [of A F G]
  by simp

lemma view_step_holds:
  assumes ok: "view_holds F A v"
    and old_head: "\<And>h. old_head = Some h \<Longrightarrow> h \<in> A \<and> sh_record_fact st h = Some (F h)"
    and new_head: "\<And>i. new_head = Some i \<Longrightarrow> sh_record_fact st i = Some (F i) \<and>
      i \<notin> (case old_head of None \<Rightarrow> A | Some h \<Rightarrow> A - {h})"
  shows "\<exists>v'. view_step M old_head new_head st v = Some v' \<and> view_holds F (head_change old_head new_head A) v'"
proof -
  note covers = ok [unfolded view_holds_def]
  note ins = atoms.covers_ins predicates.covers_ins sp.covers_ins so.covers_ins po.covers_ins facts.covers_ins
  note del = atoms.covers_del predicates.covers_del sp.covers_del so.covers_del po.covers_del facts.covers_del
  note move = atoms.covers_move predicates.covers_move sp.covers_move so.covers_move po.covers_move facts.covers_move
  show ?thesis
  proof (cases old_head)
    case None
    then show ?thesis
      using covers new_head
      by (cases new_head)
        (auto simp: view_step_def head_change_def shared_view_add_def view_holds_def sig_of_insert intro!: ins)
  next
    case (Some h)
    with old_head have h: "h \<in> A" "sh_record_fact st h = Some (F h)" by auto
    show ?thesis
    proof (cases new_head)
      case None
      with Some h covers show ?thesis
        by (auto simp: view_step_def head_change_def shared_view_remove_def view_holds_def sig_of_remove intro!: del)
    next
      case (Some i)
      with new_head \<open>old_head = Some h\<close> have "sh_record_fact st i = Some (F i)" "i \<notin> A - {h}" by auto
      with Some \<open>old_head = Some h\<close> h covers show ?thesis
        by (simp add: view_step_def head_change_def shared_view_replace_def view_holds_def
            sig_of_insert sig_of_remove move)
    qed
  qed
qed

definition store_parity where
  "store_parity st st0 \<longleftrightarrow>
     wf_store st0 \<and> clog_wf (sh_log st) \<and> clog_list (sh_log st) = log st0 \<and>
     sm_wf (head_map M) (sh_head st) \<and>
     (\<forall>slot. sm_get (head_map M) (sh_head st) slot = hm_get (head st0) slot) \<and>
     sm_wf (history_map M) (sh_slot_history st) \<and>
     (\<forall>slot. (case sm_get (history_map M) (sh_slot_history st) slot of None \<Rightarrow> [] | Some n \<Rightarrow> node_ids n) =
        rev (slot_ids (log st0) slot)) \<and>
     sh_signature st = sig_of (set (hm_values (head st0)))"

lemma store_parity_new: "store_parity (shared_store_new M) empty_store"
  by (simp add: store_parity_def shared_store_new_def empty_store_def [of] heads.wf_new histories.wf_new
      wf_empty_store [unfolded empty_store_def])

lemma parity_record: "store_parity st st0 \<Longrightarrow> sh_record st = record_at st0"
  by (simp add: fun_eq_iff store_parity_def sh_record_def record_at_def clog_get_list)

lemma parity_record_fact: "store_parity st st0 \<Longrightarrow> sh_record_fact st = record_fact st0"
  by (simp add: fun_eq_iff sh_record_fact_def record_fact_def parity_record)

lemma parity_head:
  "store_parity st st0 \<Longrightarrow> sm_get (head_map M) (sh_head st) slot = hm_get (head st0) slot"
  by (simp add: store_parity_def)

lemma parity_length: "store_parity st st0 \<Longrightarrow> clog_len (sh_log st) = length (log st0)"
  by (simp add: store_parity_def clog_wf_def)

text \<open>One record is pushed, one history grows and one head moves.\<close>

lemma push_record_parity:
  assumes par: "store_parity st st0" and wf': "wf_store st0'"
    and log: "log st0' = log st0 @ [r]" and slot: "rec_slot r = slot"
    and heads: "\<And>s. hm_get (head st0') s = (if s = slot then new_head else hm_get (head st0) s)"
  shows "store_parity (replace_head M slot new_head (append_slot_history M slot (clog_len (sh_log st))
    (st\<lparr>sh_log := snd (clog_push r (sh_log st))\<rparr>))) st0'"
proof -
  have wf: "wf_store st0" using par by (simp add: store_parity_def)
  have other: "s \<noteq> slot \<Longrightarrow> hm_get (head st0') s = hm_get (head st0) s" for s by (simp add: heads)
  have new_head: "hm_get (head st0') slot = new_head" by (simp add: heads)
  note sig = sig_head_change [where slot = slot, OF wf wf' other, unfolded new_head]
  show ?thesis
    using par wf' sig parity_length [OF par]
    by (cases new_head; cases "hm_get (head st0) slot")
      (auto simp: store_parity_def replace_head_def append_slot_history_def Let_def log slot_ids_snoc slot
        heads heads.insert_ok heads.remove_ok histories.insert_ok clog_push_wf split: option.split)
qed

lemma append_define_parity:
  assumes "store_parity st st0"
  shows "fst (shared_append_define M slot f st) = fst (fst (append_define slot f st0))"
    and "store_parity (snd (shared_append_define M slot f st)) (snd (append_define slot f st0))"
proof -
  have wf: "wf_store st0" using assms by (simp add: store_parity_def)
  show "fst (shared_append_define M slot f st) = fst (fst (append_define slot f st0))"
    by (simp add: shared_append_define_def append_define_def Let_def parity_length [OF assms])
  show "store_parity (snd (shared_append_define M slot f st)) (snd (append_define slot f st0))"
    unfolding shared_append_define_def Let_def snd_conv
    by (rule push_record_parity [OF assms wf_append_define [OF wf]])
      (simp_all add: append_define_eq parity_head [OF assms] parity_length [OF assms])
qed

lemma append_forget_parity:
  assumes "store_parity st st0" and "append_forget slot st0 = Some ((i, cur, revealed), st0')"
  shows "\<exists>st'. shared_append_forget M slot st = Some ((i, revealed), st') \<and> store_parity st' st0'"
proof -
  have wf: "wf_store st0" using assms by (simp add: store_parity_def)
  have rev: "(case hm_get (head st0) slot of None \<Rightarrow> Some None | Some c \<Rightarrow> map_option previous_head (record_at st0 c)) =
      Some revealed"
    and i: "i = length (log st0)"
    and st0': "log st0' = log st0 @ [\<lparr>rec_id = length (log st0), rec_kind = KForget, rec_slot = slot, rec_fact = None,
        previous_head = hm_get (head st0) slot, resulting_head = revealed\<rparr>]"
      "hm_get (head st0') s = (if s = slot then revealed else hm_get (head st0) s)" for s
    using assms(2) by (auto simp: append_forget_def Let_def split: option.splits)
  have "store_parity (replace_head M slot revealed (append_slot_history M slot (clog_len (sh_log st))
      (st\<lparr>sh_log := snd (clog_push \<lparr>rec_id = length (log st0), rec_kind = KForget, rec_slot = slot, rec_fact = None,
        previous_head = hm_get (head st0) slot, resulting_head = revealed\<rparr> (sh_log st))\<rparr>))) st0'"
    by (rule push_record_parity [OF assms(1) wf_append_forget [OF wf assms(2)] st0'(1)]) (simp_all add: st0'(2))
  with rev show ?thesis
    by (auto simp: shared_append_forget_def Let_def parity_head [OF assms(1)] parity_record [OF assms(1)]
        parity_length [OF assms(1)] i split: option.splits)
qed

definition parity where
  "parity s db \<longleftrightarrow>
     wf_db db \<and> store_parity (sdb_store s) (store db) \<and>
     view_holds (the_fact (store db)) (set (hm_values (head (store db)))) (sdb_view s) \<and>
     sdb_next_entity s = next_entity db"

lemma parity_new: "parity (shared_new M) db_new"
  using wf_db_new store_parity_new view_holds_new
  by (simp add: parity_def shared_new_def db_new_def) (simp add: empty_store_def)

lemma parity_view_step:
  assumes par: "parity s db" and par': "store_parity st' st0'"
    and log: "log st0' = log (store db) @ [r]"
    and heads: "\<And>s. s \<noteq> slot \<Longrightarrow> hm_get (head st0') s = hm_get (head (store db)) s"
  shows "\<exists>v'. view_step M (hm_get (head (store db)) slot) (hm_get (head st0') slot) st' (sdb_view s) = Some v' \<and>
    view_holds (the_fact st0') (set (hm_values (head st0'))) v'"
proof -
  let ?A = "set (hm_values (head (store db)))"
  have wf: "wf_store (store db)" and wf': "wf_store st0'"
    using par par' by (simp_all add: parity_def store_parity_def)
  note grow = the_fact_grow [OF log active_less [OF wf]]
  have ok: "view_holds (the_fact st0') ?A (sdb_view s)"
    using par view_holds_cong [of ?A "the_fact (store db)" "the_fact st0'" "sdb_view s"] grow(2) by (simp add: parity_def)
  have change: "set (hm_values (head st0')) =
      head_change (hm_get (head (store db)) slot) (hm_get (head st0') slot) ?A"
    by (rule head_change_values [OF wf wf' heads])
  show ?thesis
    unfolding change
  proof (rule view_step_holds [OF ok])
    fix h assume "hm_get (head (store db)) slot = Some h"
    then have "h \<in> ?A" by (rule head_active)
    then show "h \<in> ?A \<and> sh_record_fact st' h = Some (the_fact st0' h)"
      using grow(1,2) [of h] active_fact [OF wf] by (simp add: parity_record_fact [OF par'])
  next
    fix i assume i: "hm_get (head st0') slot = Some i"
    show "sh_record_fact st' i = Some (the_fact st0' i) \<and>
        i \<notin> (case hm_get (head (store db)) slot of None \<Rightarrow> ?A | Some h \<Rightarrow> ?A - {h})"
      using active_fact [OF wf' head_active [OF i]] new_head_fresh [where slot = slot, OF wf wf' heads i]
      by (simp add: parity_record_fact [OF par'])
  qed
qed

section \<open>Every operation keeps parity and gives the same answer\<close>

lemma define_parity:
  assumes par: "parity s db" and def: "db_define slot f db = Some (i, db')"
  shows "\<exists>s'. shared_define M slot f s = Some (i, s') \<and> parity s' db'"
proof -
  let ?ref = "snd (append_define slot f (store db))"
  have wf: "wf_db db" and st: "store_parity (sdb_store s) (store db)" using par by (simp_all add: parity_def)
  obtain v where db': "i = length (log (store db))" "db' = db\<lparr>store := ?ref, view := v\<rparr>" "wf_db db'"
    using db_define_ok [OF wf, of slot f] def by auto
  obtain st' where st': "shared_append_define M slot f (sdb_store s) = (i, st')" "store_parity st' ?ref"
    using append_define_parity [OF st, of slot f]
    by (cases "shared_append_define M slot f (sdb_store s)") (simp add: append_define_eq db'(1))
  have "log ?ref = log (store db) @ [\<lparr>rec_id = i, rec_kind = KDefine, rec_slot = slot,
      rec_fact = Some f, previous_head = hm_get (head (store db)) slot, resulting_head = Some i\<rparr>]"
    "hm_get (head ?ref) slot = Some i" "\<And>s. s \<noteq> slot \<Longrightarrow> hm_get (head ?ref) s = hm_get (head (store db)) s"
    by (simp_all add: append_define_eq db'(1))
  then obtain v' where
    "view_step M (hm_get (head (store db)) slot) (Some i) st' (sdb_view s) = Some v'"
    "view_holds (the_fact ?ref) (set (hm_values (head ?ref))) v'"
    using parity_view_step [where slot = slot, OF par st'(2)] by metis
  moreover have "shared_define M slot f s = map_option (\<lambda>v. (i, s\<lparr>sdb_store := st', sdb_view := v\<rparr>))
      (view_step M (hm_get (head (store db)) slot) (Some i) st' (sdb_view s))"
    by (simp add: shared_define_def view_step_def st'(1) parity_head [OF st] split: option.split)
  ultimately have "shared_define M slot f s = Some (i, s\<lparr>sdb_store := st', sdb_view := v'\<rparr>)" by simp
  moreover have "parity (s\<lparr>sdb_store := st', sdb_view := v'\<rparr>) db'"
    using par db'(3) st'(2) \<open>view_holds (the_fact ?ref) _ v'\<close> by (simp add: parity_def db'(2))
  ultimately show ?thesis by blast
qed

lemma forget_parity:
  assumes par: "parity s db" and forget: "db_forget slot db = Some (i, db')"
  shows "\<exists>s'. shared_forget M slot s = Some (i, s') \<and> parity s' db'"
proof -
  have wf: "wf_db db" and st: "store_parity (sdb_store s) (store db)" using par by (simp_all add: parity_def)
  obtain st0 v cur revealed where db':
    "append_forget slot (store db) = Some ((i, cur, revealed), st0)" "db' = db\<lparr>store := st0, view := v\<rparr>" "wf_db db'"
    using db_forget_ok [OF wf, of slot] forget append_forget_eq [OF wf_dbD(1) [OF wf], of slot] by auto
  then have st0: "\<exists>r. log st0 = log (store db) @ [r]" "hm_get (head st0) slot = revealed"
    "\<And>s. s \<noteq> slot \<Longrightarrow> hm_get (head st0) s = hm_get (head (store db)) s"
    by (auto simp: append_forget_def Let_def split: option.splits)
  from append_forget_parity [OF st db'(1)] obtain st' where
    st': "shared_append_forget M slot (sdb_store s) = Some ((i, revealed), st')" "store_parity st' st0" by blast
  from st0(1) obtain r where "log st0 = log (store db) @ [r]" by blast
  then obtain v' where
    "view_step M (hm_get (head (store db)) slot) revealed st' (sdb_view s) = Some v'"
    "view_holds (the_fact st0) (set (hm_values (head st0))) v'"
    using parity_view_step [where slot = slot, OF par st'(2)] st0(2,3) by metis
  moreover have "shared_forget M slot s = map_option (\<lambda>v. (i, s\<lparr>sdb_store := st', sdb_view := v\<rparr>))
      (view_step M (hm_get (head (store db)) slot) revealed st' (sdb_view s))"
    by (simp add: shared_forget_def view_step_def st'(1) parity_head [OF st])
  ultimately have "shared_forget M slot s = Some (i, s\<lparr>sdb_store := st', sdb_view := v'\<rparr>)" by simp
  moreover have "parity (s\<lparr>sdb_store := st', sdb_view := v'\<rparr>) db'"
    using par db'(3) st'(2) \<open>view_holds (the_fact st0) _ v'\<close> by (simp add: parity_def db'(2))
  ultimately show ?thesis by blast
qed

lemma entity_parity:
  "parity s db \<Longrightarrow> fst (shared_entity s) = fst (db_entity db) \<and> parity (snd (shared_entity s)) (snd (db_entity db))"
  by (simp add: parity_def shared_entity_def db_entity_def wf_db_def active_ids_def)

lemma chain_parity:
  assumes "store_parity st st0" and "chain st0 h = Some rs"
  shows "shared_chain st h = Some rs"
  using assms(2)
proof (induction rs arbitrary: h)
  case Nil
  then have "h = None"
    by (subst (asm) chain.simps) (auto simp: bind_eq_Some_conv split: option.splits if_splits)
  then show ?case by (simp add: shared_chain.simps)
next
  case (Cons r rs)
  then obtain i where "h = Some i" "record_at st0 i = Some r" "rec_kind r = KDefine"
    "chain st0 (previous_head r) = Some rs"
    by (subst (asm) (2) chain.simps) (auto simp: bind_eq_Some_conv split: option.splits if_splits)
  with Cons.IH show ?case
    by (subst shared_chain.simps) (simp add: parity_record [OF assms(1)])
qed

lemma definitions_parity:
  assumes "parity s db"
  shows "shared_db_definitions M slot s = db_definitions slot db"
proof -
  have st: "store_parity (sdb_store s) (store db)" and wf: "wf_store (store db)"
    using assms by (simp_all add: parity_def store_parity_def)
  have "chain (store db) (hm_get (head (store db)) slot) = Some (live (log (store db)) slot)"
    using store_definitions_live [OF wf, of slot] by (simp add: store_definitions_def)
  with chain_parity [OF st this] show ?thesis
    by (simp add: shared_db_definitions_def shared_definitions_def db_definitions_def store_definitions_def
        parity_head [OF st])
qed

lemma reads_parity:
  assumes "parity s db"
  shows "shared_resolve M slot s = db_resolve slot db"
    and "shared_db_history M slot s = db_history slot db"
    and "shared_db_active_slot_count s = db_active_slot_count db"
    and "shared_db_record_count s = db_record_count db"
    and "shared_fetch s = db_fetch db"
proof -
  have st: "store_parity (sdb_store s) (store db)" and wf: "wf_store (store db)"
    using assms by (simp_all add: parity_def store_parity_def)
  note rw = parity_head [OF st] parity_record [OF st] parity_length [OF st]
  show "shared_resolve M slot s = db_resolve slot db"
    by (simp add: shared_resolve_def db_resolve_def shared_resolve_record_def resolve_record_def rw split: option.split)
  show "shared_db_history M slot s = db_history slot db"
    using st wf_store_history [OF wf, of slot]
    by (simp add: shared_db_history_def db_history_def shared_history_def store_history_def rw store_parity_def)
  show "shared_fetch s = db_fetch db"
    by (simp add: fun_eq_iff shared_fetch_def db_fetch_def rw)
  show "shared_db_record_count s = db_record_count db"
    by (simp add: shared_db_record_count_def shared_record_count_def db_record_count_def store_record_count_def rw)
  have hd: "sm_wf (head_map M) (sh_head (sdb_store s))" using st by (simp add: store_parity_def)
  have "{k. sm_get (head_map M) (sh_head (sdb_store s)) k \<noteq> None} = set (map fst (head (store db)))"
    by (auto simp: rw map_of_eq_None_iff)
  then show "shared_db_active_slot_count s = db_active_slot_count db"
    using distinct_card [OF wf_storeD(2) [OF wf]] hd
    by (simp add: shared_db_active_slot_count_def shared_active_slot_count_def db_active_slot_count_def
        store_active_slot_count_def sm_wf_def)
qed

lemma head_values_parity:
  assumes "store_parity st st0"
  shows "set (sm_values (head_map M) (sh_head st)) = set (hm_values (head st0))"
    and "shared_active_record_ids M st = active_record_ids st0"
proof -
  have wf: "wf_store st0" and sm: "sm_wf (head_map M) (sh_head st)" using assms by (simp_all add: store_parity_def)
  show eq: "set (sm_values (head_map M) (sh_head st)) = set (hm_values (head st0))"
    unfolding sm_values_def set_hm_values [OF heads.iter_map(1) [OF sm]] set_hm_values [OF wf_storeD(2) [OF wf]]
    by (simp add: heads.iter_map(2) [OF sm] parity_head [OF assms])
  show "shared_active_record_ids M st = active_record_ids st0"
    by (simp only: shared_active_record_ids_def active_record_ids_def eq)
qed

lemma collect_bucket_set:
  "collect_bucket (im_set M) (sm_get E m k) = sorted_list_of_set (shared_bucket E (im_set M) m k)"
  using persistent_set.set_distinct [OF set]
  by (auto simp: collect_bucket_def shared_bucket_def sorted_list_of_set_sort_remdups distinct_remdups_id
      split: option.split)

lemma candidates_parity:
  assumes "parity s db"
  shows "shared_candidates M pat b (sdb_store s) (sdb_view s) = db_candidates db pat b"
proof -
  let ?F = "the_fact (store db)" and ?ids = "active_record_ids (store db)"
  have st: "store_parity (sdb_store s) (store db)" and wf: "wf_db db"
    and ok: "view_holds ?F (List.set ?ids) (sdb_view s)"
    using assms by (simp_all add: parity_def)
  have sorted_active: "sorted (filter P ?ids)" "distinct (filter P ?ids)" for P
    by (simp_all add: active_record_ids_def sorted_wrt_filter)
  have look: "sorted_list_of_set {i \<in> List.set ?ids. P i} = filter P ?ids" for P
  proof -
    have "{i \<in> List.set ?ids. P i} = List.set (filter P ?ids)" by auto
    then show ?thesis by (simp only: sorted_list_of_set.idem_if_sorted_distinct sorted_active)
  qed
  note covers = atoms.covers_look predicates.covers_look sp.covers_look so.covers_look po.covers_look facts.covers_look
  have "shared_candidates M pat b (sdb_store s) (sdb_view s) = filter (\<lambda>i. fact_matches pat b (?F i)) ?ids"
    using ok [unfolded view_holds_def] head_values_parity(2) [OF st]
    by (cases "resolved_atom (p_subject pat) b"; cases "resolved_predicate (p_predicate pat) b";
        cases "resolved_atom (p_object pat) b")
      (auto simp: shared_candidates_def collect_bucket_set covers look fact_matches_def fact_new_def
        simp del: set_active_record_ids intro!: filter_cong)
  also have "\<dots> = db_candidates db pat b"
    using wf unfolding db_candidates_def active_ids_def
    by (intro view_candidates_filter [symmetric]) (simp add: wf_db_def active_ids_def)
  finally show ?thesis .
qed

lemma query_parity:
  assumes "parity s db"
  shows "shared_query M ps opts s = db_query ps opts db"
proof -
  have "(\<lambda>pat b. shared_candidates M pat b (sdb_store s) (sdb_view s)) = db_candidates db"
    using candidates_parity [OF assms] by blast
  then show ?thesis by (simp add: shared_query_def db_query_def reads_parity(5) [OF assms])
qed

lemma names_parity:
  assumes "parity s db"
  shows "shared_display_name M e s = display_name e db"
    and "shared_resolve_symbol M namespace symb s = resolve_symbol namespace symb db"
    and "shared_compile_term M namespace t s = compile_term namespace t db"
    and "shared_compile_pattern M namespace sub p ob s = compile_pattern namespace sub p ob db"
    and "shared_render_value M v s = render_value v db"
proof -
  show name: "shared_display_name M e s = display_name e db" for e
    by (simp add: shared_display_name_def display_name_def reads_parity(1) [OF assms])
  show sym: "shared_resolve_symbol M namespace symb s = resolve_symbol namespace symb db" for symb
    by (simp add: shared_resolve_symbol_def resolve_symbol_def reads_parity(1) [OF assms])
  show trm: "shared_compile_term M namespace t s = compile_term namespace t db" for t
    by (cases t) (simp_all add: shared_compile_term_def compile_term_def sym)
  show "shared_compile_pattern M namespace sub p ob s = compile_pattern namespace sub p ob db"
  proof (cases "compile_term namespace sub db")
    case (Some r)
    then show ?thesis
      by (cases r; cases "compile_term namespace ob db"; cases "the (compile_term namespace ob db)")
        (simp_all add: shared_compile_pattern_def compile_pattern_def trm)
  qed (simp add: shared_compile_pattern_def compile_pattern_def trm)
  show "shared_render_value M v s = render_value v db"
    by (cases v) (simp_all add: shared_render_value_def render_value_def name)
qed

lemma validate_parity:
  assumes par: "parity s db"
  shows "shared_validate s = Inr ()"
proof -
  have st: "store_parity (sdb_store s) (store db)" and wf: "wf_store (store db)"
    and sig: "sv_signature (sdb_view s) = sh_signature (sdb_store s)"
    using par by (auto simp: parity_def store_parity_def view_holds_def)
  let ?A = "List.set (hm_values (head (store db)))"
  have len: "sm_len (sh_head (sdb_store s)) = store_active_slot_count (store db)"
    using reads_parity(3) [OF par]
    by (simp add: shared_db_active_slot_count_def shared_active_slot_count_def db_active_slot_count_def)
  have "distinct (hm_values (head (store db)))"
    using wf_storeD(2) [OF wf] heads_inject [OF wf] map_of_eq_Some_iff [OF wf_storeD(2) [OF wf]]
    by (intro distinct_map [THEN iffD2]) (auto simp: inj_on_def distinct_map)
  then have card: "card ?A = store_active_slot_count (store db)"
    by (simp add: store_active_slot_count_def distinct_card del: set_map)
  have "?A \<subseteq> {..<length (log (store db))}" using active_less [OF wf] by auto
  then have "card ?A \<le> length (log (store db))"
    using card_mono [of "{..<length (log (store db))}" ?A] by simp
  moreover have "sig_count (sh_signature (sdb_store s)) = card ?A"
    using st by (simp add: store_parity_def sig_count_of)
  ultimately show ?thesis
    using card len sig parity_length [OF st]
    by (simp add: shared_validate_def shared_validate_fast_def shared_view_validate_fast_def)
qed

lemma validate_heads_parity:
  "store_parity st st0 \<Longrightarrow> shared_validate_heads st is = validate_heads st0 is"
  by (induction "is") (simp_all add: parity_record split: option.split)

lemma validate_full_parity:
  assumes par: "parity s db"
  shows "shared_db_validate_full M s = Some (Inr ())"
proof -
  let ?st = "sdb_store s" and ?A = "List.set (hm_values (head (store db)))"
  have st: "store_parity ?st (store db)" and wf: "wf_store (store db)" and sm: "sm_wf (head_map M) (sh_head ?st)"
    and ok: "sp.covers (sv_subject_predicate (sdb_view s))
      (\<lambda>i. (fact.subject (the_fact (store db) i), fact.predicate (the_fact (store db) i))) ?A"
    and sigs: "sv_signature (sdb_view s) = sig_of ?A" "sh_signature ?st = sig_of ?A"
    using par by (auto simp: parity_def store_parity_def view_holds_def)
  have heads: "shared_validate_heads ?st (sm_values (head_map M) (sh_head ?st)) = Some (Inr ())"
    unfolding validate_heads_parity [OF st]
    using active_record [OF wf] head_values_parity(1) [OF st] by (intro validate_heads_ok) fastforce
  have "distinct (sm_values (head_map M) (sh_head ?st))"
    unfolding sm_values_def
    using heads.iter_map(1,2) [OF sm] heads_inject [OF wf] map_of_eq_Some_iff [OF heads.iter_map(1) [OF sm]]
    by (intro distinct_map [THEN iffD2]) (auto simp: inj_on_def distinct_map parity_head [OF st])
  then have fold: "fold sig_add (sm_values (head_map M) (sh_head ?st)) sig_new = sh_signature ?st"
    by (simp only: sig_of_list head_values_parity(1) [OF st] sigs)
  let ?m = "sv_subject_predicate (sdb_view s)"
  have "List.set (concat (map (ps_iter (im_set M)) (sm_values (sp_index M) ?m))) =
      (\<Union>k. shared_bucket (sp_index M) (im_set M) ?m k)"
    using ok by (intro sp.union_buckets) (simp add: sp.covers_def)
  also have "\<dots> = ?A" by (auto simp: sp.covers_look [OF ok])
  finally have indexed: "sorted_list_of_set (List.set (concat (map (ps_iter (im_set M)) (sm_values (sp_index M) ?m)))) =
      active_record_ids (store db)"
    by (simp only: active_record_ids_def)
  have "fold sig_add (active_record_ids (store db)) sig_new = sig_of ?A"
    by (simp add: sig_of_list active_record_ids_def)
  then show ?thesis
    by (simp add: shared_db_validate_full_def shared_validate_full_def heads fold
        shared_view_validate_full_def Let_def indexed head_values_parity(2) [OF st] sigs del: set_concat set_map)
qed

end

section \<open>Running commands\<close>

fun shared_run where
  "shared_run M [] s = Some s"
| "shared_run M (CEntity # cs) s = shared_run M cs (snd (shared_entity s))"
| "shared_run M (CDefine slot f # cs) s =
     Option.bind (shared_define M slot f s) (\<lambda>(_, s'). shared_run M cs s')"
| "shared_run M (CForget slot # cs) s =
     Option.bind (shared_forget M slot s) (\<lambda>(_, s'). shared_run M cs s')"

text \<open>What the world layer sees of the shared kernel.\<close>

definition shared_kernel where
  "shared_kernel M =
     \<lparr>k_new = shared_new M, k_entity = shared_entity, k_define = shared_define M, k_forget = shared_forget M,
      k_resolve = shared_resolve M, k_definitions = shared_db_definitions M, k_query = shared_query M,
      k_active_slot_count = shared_db_active_slot_count, k_record_count = shared_db_record_count,
      k_validate = (\<lambda>s. Some (shared_validate s))\<rparr>"

definition shared_abs where
  "shared_abs M s =
     \<lparr>spec_stacks = (\<lambda>slot. the (shared_db_definitions M slot s)),
      spec_next_entity = sdb_next_entity s, spec_records = shared_db_record_count s\<rparr>"

context im_laws
begin

lemma shared_run_parity:
  assumes "parity s db" and "run_commands cs db = Some db'"
  shows "\<exists>s'. shared_run M cs s = Some s' \<and> parity s' db'"
  using assms
proof (induction cs arbitrary: s db)
  case (Cons c cs)
  show ?case
  proof (cases c)
    case CEntity
    with Cons.prems Cons.IH entity_parity [OF Cons.prems(1)] show ?thesis by auto
  next
    case (CDefine slot f)
    with Cons.prems obtain i db1 where "db_define slot f db = Some (i, db1)" "run_commands cs db1 = Some db'"
      by (auto simp: bind_eq_Some_conv)
    with Cons.IH define_parity [OF Cons.prems(1)] CDefine show ?thesis by fastforce
  next
    case (CForget slot)
    with Cons.prems obtain i db1 where "db_forget slot db = Some (i, db1)" "run_commands cs db1 = Some db'"
      by (auto simp: bind_eq_Some_conv)
    with Cons.IH forget_parity [OF Cons.prems(1)] CForget show ?thesis by fastforce
  qed
qed simp

lemma shared_run_new: "\<exists>s db. shared_run M cs (shared_new M) = Some s \<and> run_commands cs db_new = Some db \<and> parity s db"
  using run_commands_spec [of cs] shared_run_parity [OF parity_new] by blast

lemma abs_parity: "parity s db \<Longrightarrow> shared_abs M s = abs_db db"
  using db_definitions_stack [of db] definitions_parity [of s db] reads_parity(4) [of s db]
  by (simp add: shared_abs_def abs_db_def fun_eq_iff) (simp add: parity_def)

lemma parity_wf: "parity s db \<Longrightarrow> wf_db db"
  by (simp add: parity_def)

definition shared_inv where
  "shared_inv s \<longleftrightarrow> (\<exists>db. parity s db)"

lemma shared_invE:
  assumes "shared_inv s"
  obtains db where "parity s db" "wf_db db" "shared_abs M s = abs_db db"
  using assms parity_wf abs_parity unfolding shared_inv_def by blast

lemma shared_kernel_step:
  assumes "shared_inv s"
  shows "\<exists>s'. shared_entity s = (spec_next_entity (shared_abs M s), s') \<and> shared_inv s' \<and>
      shared_abs M s' = spec_command CEntity (shared_abs M s)"
    and "\<exists>i s'. shared_define M slot f s = Some (i, s') \<and> shared_inv s' \<and>
      shared_abs M s' = spec_command (CDefine slot f) (shared_abs M s)"
    and "\<exists>i s'. shared_forget M slot s = Some (i, s') \<and> shared_inv s' \<and>
      shared_abs M s' = spec_command (CForget slot) (shared_abs M s)"
proof -
  from assms obtain db where par: "parity s db" "wf_db db" "shared_abs M s = abs_db db" by (rule shared_invE)
  note ref = reference.entity [OF par(2)] reference.def [OF par(2), of slot f] reference.forget [OF par(2), of slot]
  have "fst (shared_entity s) = next_entity db" using entity_parity [OF par(1)] by (simp add: db_entity_def)
  moreover have "parity (snd (shared_entity s)) (snd (db_entity db))" using entity_parity [OF par(1)] by simp
  ultimately show "\<exists>s'. shared_entity s = (spec_next_entity (shared_abs M s), s') \<and> shared_inv s' \<and>
      shared_abs M s' = spec_command CEntity (shared_abs M s)"
    using ref(1) abs_parity [of "snd (shared_entity s)" "snd (db_entity db)"] par(3)
    by (intro exI [of _ "snd (shared_entity s)"]) (auto simp: reference_kernel_def shared_inv_def prod_eq_iff)
  from ref(2) obtain i db' where "db_define slot f db = Some (i, db')"
      "abs_db db' = spec_command (CDefine slot f) (abs_db db)"
    by (auto simp: reference_kernel_def)
  with define_parity [OF par(1) this(1)] show "\<exists>i s'. shared_define M slot f s = Some (i, s') \<and> shared_inv s' \<and>
      shared_abs M s' = spec_command (CDefine slot f) (shared_abs M s)"
    unfolding shared_inv_def par(3) using abs_parity \<open>abs_db db' = _\<close> by metis
  from ref(3) obtain i db' where "db_forget slot db = Some (i, db')"
      "abs_db db' = spec_command (CForget slot) (abs_db db)"
    by (auto simp: reference_kernel_def)
  with forget_parity [OF par(1) this(1)] show "\<exists>i s'. shared_forget M slot s = Some (i, s') \<and> shared_inv s' \<and>
      shared_abs M s' = spec_command (CForget slot) (shared_abs M s)"
    unfolding shared_inv_def par(3) using abs_parity \<open>abs_db db' = _\<close> by metis
qed

lemma shared_kernel_reads:
  assumes "shared_inv s"
  shows "shared_resolve M slot s = Some (top (spec_stacks (shared_abs M s) slot))"
    and "shared_db_definitions M slot s = Some (spec_stacks (shared_abs M s) slot)"
    and "limit opts = None \<Longrightarrow> \<exists>res facts. shared_query M ps opts s = Some res \<and>
      mset facts = top_facts (shared_abs M s) \<and>
      map row_binding (rows res) = expected_bindings (distinct_rows opts) facts ps"
    and "shared_db_active_slot_count s = card {slot. spec_stacks (shared_abs M s) slot \<noteq> []}"
    and "shared_db_record_count s = spec_records (shared_abs M s)"
    and "shared_validate s = Inr ()"
proof -
  from assms obtain db where par: "parity s db" "wf_db db" "shared_abs M s = abs_db db" by (rule shared_invE)
  note ref = reference.resolve [OF par(2), of slot] reference.definitions [OF par(2), of slot]
    reference.query [OF par(2), of opts ps] reference.active_slots [OF par(2)] reference.records [OF par(2)]
  show "shared_resolve M slot s = Some (top (spec_stacks (shared_abs M s) slot))"
    "shared_db_definitions M slot s = Some (spec_stacks (shared_abs M s) slot)"
    "limit opts = None \<Longrightarrow> \<exists>res facts. shared_query M ps opts s = Some res \<and>
      mset facts = top_facts (shared_abs M s) \<and>
      map row_binding (rows res) = expected_bindings (distinct_rows opts) facts ps"
    "shared_db_active_slot_count s = card {slot. spec_stacks (shared_abs M s) slot \<noteq> []}"
    "shared_db_record_count s = spec_records (shared_abs M s)"
    "shared_validate s = Inr ()"
    using ref by (simp_all add: par(3) reference_kernel_def reads_parity [OF par(1)]
        definitions_parity [OF par(1)] query_parity [OF par(1)] validate_parity [OF par(1)])
qed

end

sublocale im_laws \<subseteq> shared: kernel "shared_kernel M" shared_inv "shared_abs M"
proof
  show "shared_inv (k_new (shared_kernel M))" "shared_abs M (k_new (shared_kernel M)) = spec_new"
    using parity_new abs_parity [OF parity_new] by (auto simp: shared_kernel_def shared_inv_def abs_db_new)
qed (simp_all only: shared_kernel_def kernel_ops.simps shared_kernel_step shared_kernel_reads)

section \<open>Properties\<close>

definition alist_maps where
  "alist_maps =
     \<lparr>im_head = alist_ops, im_history = alist_ops, im_set = alist_set_ops, im_atom = alist_ops,
      im_predicate = alist_ops, im_atom_predicate = alist_ops, im_atom_atom = alist_ops,
      im_predicate_atom = alist_ops, im_fact = alist_ops\<rparr>"

interpretation alist_kernel: im_laws alist_maps
  by (rule im_laws.intro)
    (simp_all add: alist_maps_def alist_map.persistent_map_axioms alist_set.persistent_set_axioms)

text \<open>
  C6. The structurally shared kernel cannot be told apart from the reference kernel: whatever
  persistent maps it is built on, after any sequence of commands it has not panicked, both
  validations pass, and every read, every query with any options (its rows, its plan and its
  metrics), every name and every compiled pattern is exactly the one of the reference kernel.
\<close>

theorem shared_kernel_parity:
  assumes "im_laws M"
  shows "\<exists>s db. shared_run M cs (shared_new M) = Some s \<and> run_commands cs db_new = Some db \<and>
    (\<forall>slot. shared_resolve M slot s = db_resolve slot db \<and>
       shared_db_definitions M slot s = db_definitions slot db \<and>
       shared_db_history M slot s = db_history slot db) \<and>
    shared_db_active_slot_count s = db_active_slot_count db \<and>
    shared_db_record_count s = db_record_count db \<and> fst (shared_entity s) = fst (db_entity db) \<and>
    (\<forall>ps opts. shared_query M ps opts s = db_query ps opts db) \<and>
    (\<forall>e. shared_display_name M e s = display_name e db) \<and>
    (\<forall>namespace sub p ob. shared_compile_pattern M namespace sub p ob s = compile_pattern namespace sub p ob db) \<and>
    (\<forall>v. shared_render_value M v s = render_value v db) \<and>
    shared_validate s = Inr () \<and> shared_db_validate_full M s = Some (Inr ())"
proof -
  from im_laws.shared_run_new [OF assms, of cs] obtain s db where
    run: "shared_run M cs (shared_new M) = Some s" "run_commands cs db_new = Some db" "im_laws.parity M s db"
    by blast
  note laws = im_laws.reads_parity [OF assms run(3)] im_laws.definitions_parity [OF assms run(3)]
    im_laws.query_parity [OF assms run(3)] im_laws.names_parity [OF assms run(3)]
    im_laws.validate_parity [OF assms run(3)] im_laws.validate_full_parity [OF assms run(3)]
    im_laws.entity_parity [OF assms run(3)]
  show ?thesis
    by (rule exI [of _ s], rule exI [of _ db]) (simp add: run laws)
qed

definition sample_fact :: fact where
  "sample_fact = \<lparr>subject = AEntity 1, predicate = ''name'', object = ALiteral ''x''\<rparr>"

theorem shared_kernel_parity_witness:
  "\<exists>s. shared_run alist_maps [CEntity, CDefine ''a'' sample_fact, CDefine ''b'' sample_fact, CForget ''a''] (shared_new alist_maps) = Some s \<and>
    shared_resolve alist_maps ''a'' s = Some None \<and> shared_resolve alist_maps ''b'' s = Some (Some sample_fact) \<and>
    fst (shared_entity s) = 2"
proof -
  let ?cs = "[CEntity, CDefine ''a'' sample_fact, CDefine ''b'' sample_fact, CForget ''a'']"
  from shared_kernel_parity [OF alist_kernel.im_laws_axioms, of ?cs] obtain s db where
    s: "shared_run alist_maps ?cs (shared_new alist_maps) = Some s" "run_commands ?cs db_new = Some db"
      "\<And>slot. shared_resolve alist_maps slot s = db_resolve slot db" "fst (shared_entity s) = fst (db_entity db)"
    by blast
  note ref = run_commands_reachable [OF s(2)]
  have "db_resolve slot db = Some (top (spec_stacks (spec_run ?cs) slot))" for slot
    using db_resolve_stack [OF ref(1), of slot] by (simp add: ref(2))
  with s ref(3) show ?thesis
    by (intro exI [of _ s]) (simp add: spec_run_def spec_new_def db_entity_def)
qed

end
