(* ===== verification/Stack_VM.thy ===== *)
theory Stack_VM
  imports Kernel
begin

text \<open>
  The semantic stack machine (\<open>forthdb-world/src/stack_vm.rs\<close>): instructions, arenas that are
  rolled back by moving a frontier, the workspace that executes intents, published roots, the
  three streams of index deltas and the compact snapshots built from them.  A record reference
  is a \<open>u32\<close> with \<open>NONE\<close> for no record.  An assertion of the code that fails is \<open>None\<close>; a
  rejected step keeps the state it has reached, because the rollback that follows restores the
  frontiers and not the cells.  \<open>VM_Exec\<close> and \<open>VM_Index\<close> hold the theorems.
\<close>

section \<open>Programs\<close>

type_synonym cell = u64
type_synonym slot_token = u32

abbreviation NONE :: u32 where
  "NONE \<equiv> - 1"

datatype opcode =
  OpExpectObject | OpAllocate | OpAllocateDiscard | OpLoadLocal | OpStoreLocal | OpPushCell
| OpDefine | OpForget | OpReject

definition opcode_from_u8 :: "byte \<Rightarrow> string + opcode" where
  "opcode_from_u8 b =
     (if b = 0 then Inr OpExpectObject
      else if b = 1 then Inr OpAllocate
      else if b = 2 then Inr OpAllocateDiscard
      else if b = 3 then Inr OpLoadLocal
      else if b = 4 then Inr OpStoreLocal
      else if b = 5 then Inr OpPushCell
      else if b = 6 then Inr OpDefine
      else if b = 7 then Inr OpForget
      else if b = 8 then Inr OpReject
      else Inl (''unknown opcode byte '' @ decimal (unat b)))"

fun opcode_u8 :: "opcode \<Rightarrow> byte" where
  "opcode_u8 OpExpectObject = 0"
| "opcode_u8 OpAllocate = 1"
| "opcode_u8 OpAllocateDiscard = 2"
| "opcode_u8 OpLoadLocal = 3"
| "opcode_u8 OpStoreLocal = 4"
| "opcode_u8 OpPushCell = 5"
| "opcode_u8 OpDefine = 6"
| "opcode_u8 OpForget = 7"
| "opcode_u8 OpReject = 8"

record instruction =
  i_opcode :: opcode
  i_argument :: u32
  i_immediate :: u64

definition instr_raw :: "opcode \<Rightarrow> u32 \<Rightarrow> u64 \<Rightarrow> instruction" where
  "instr_raw opc arg imm = \<lparr>i_opcode = opc, i_argument = arg, i_immediate = imm\<rparr>"

definition expect_object :: "slot_token \<Rightarrow> cell \<Rightarrow> instruction" where
  "expect_object slot expected = \<lparr>i_opcode = OpExpectObject, i_argument = slot, i_immediate = expected\<rparr>"

definition allocate :: instruction where
  "allocate = \<lparr>i_opcode = OpAllocate, i_argument = 0, i_immediate = 0\<rparr>"

definition allocate_discard :: instruction where
  "allocate_discard = \<lparr>i_opcode = OpAllocateDiscard, i_argument = 0, i_immediate = 0\<rparr>"

definition load_local :: "u32 \<Rightarrow> instruction" where
  "load_local n = \<lparr>i_opcode = OpLoadLocal, i_argument = n, i_immediate = 0\<rparr>"

definition store_local :: "u32 \<Rightarrow> instruction" where
  "store_local n = \<lparr>i_opcode = OpStoreLocal, i_argument = n, i_immediate = 0\<rparr>"

definition push_cell :: "cell \<Rightarrow> instruction" where
  "push_cell c = \<lparr>i_opcode = OpPushCell, i_argument = 0, i_immediate = c\<rparr>"

definition define_slot :: "slot_token \<Rightarrow> instruction" where
  "define_slot slot = \<lparr>i_opcode = OpDefine, i_argument = slot, i_immediate = 0\<rparr>"

definition forget_slot :: "slot_token \<Rightarrow> instruction" where
  "forget_slot slot = \<lparr>i_opcode = OpForget, i_argument = slot, i_immediate = 0\<rparr>"

definition reject :: instruction where
  "reject = \<lparr>i_opcode = OpReject, i_argument = 0, i_immediate = 0\<rparr>"

record intent_program =
  local_count :: u32
  instructions :: "instruction list"

section \<open>Records, deltas and roots\<close>

datatype vm_record_kind = RDefine | RForget

record fact_record =
  fr_kind :: vm_record_kind
  fr_slot :: slot_token
  fr_subject :: cell
  fr_predicate :: cell
  fr_object :: cell
  fr_previous :: u32
  fr_resulting :: u32

record slot_delta =
  sd_slot :: slot_token
  sd_previous :: u32
  sd_resulting :: u32

datatype index_permutation = Spo | Pos | Osp

record index_delta =
  id_permutation :: index_permutation
  id_added :: bool
  id_first :: cell
  id_second :: cell
  id_third :: cell
  id_record :: u32
  id_slot :: slot_token

record world_root =
  wr_parent :: u32
  wr_version :: u64
  wr_record_frontier :: u32
  wr_slot_delta_frontier :: u32
  wr_index_delta_frontier :: u32
  wr_allocator_head :: u64
  wr_world_id :: u64

datatype query_pattern =
  QSubject cell | QPredicate cell | QObject cell | QSubjectPredicate cell cell
| QSubjectObject cell cell | QPredicateObject cell cell | QExact cell cell cell

section \<open>Arenas\<close>

record 'a pod_arena =
  pa_data :: "'a list"
  pa_frontier :: nat

definition arena_new :: "'a pod_arena" where
  "arena_new = \<lparr>pa_data = [], pa_frontier = 0\<rparr>"

definition arena_restore :: "nat \<Rightarrow> 'a pod_arena \<Rightarrow> 'a pod_arena" where
  "arena_restore frontier a = a\<lparr>pa_frontier := frontier\<rparr>"

definition arena_push :: "'a \<Rightarrow> 'a pod_arena \<Rightarrow> (u32 \<times> 'a pod_arena) option" where
  "arena_push x a =
     (let i = pa_frontier a
      in if i < unat NONE
         then Some (word_of_nat i,
           \<lparr>pa_data = (if i = length (pa_data a) then pa_data a @ [x] else (pa_data a)[i := x]),
            pa_frontier = i + 1\<rparr>)
         else None)"

definition arena_get :: "'a pod_arena \<Rightarrow> u32 \<Rightarrow> 'a option" where
  "arena_get a i = (if unat i < pa_frontier a then Some (pa_data a ! unat i) else None)"

text \<open>The active slice; a frontier never passes the end of the data.\<close>

definition arena_active :: "'a pod_arena \<Rightarrow> 'a list" where
  "arena_active a = take (pa_frontier a) (pa_data a)"

section \<open>The workspace\<close>

record trial_checkpoint =
  cp_stack_pointer :: nat
  cp_frame_base :: nat
  cp_record_frontier :: nat
  cp_delta_frontier :: nat
  cp_index_delta_frontier :: nat
  cp_next_entity :: u64

datatype exec_error =
  ExplicitRejection | MissingExpectedValue | ExpectedValueMismatch | StackUnderflow | StackOverflow
| InvalidLocal | InvalidSlot

datatype execution_outcome = Accepted | Rejected exec_error

record workspace =
  ws_stack :: "cell list"
  ws_stack_pointer :: nat
  ws_frame_base :: nat
  ws_records :: "fact_record pod_arena"
  ws_deltas :: "slot_delta pod_arena"
  ws_index_deltas :: "index_delta pod_arena"
  ws_roots :: "world_root pod_arena"
  ws_accepted_heads :: "u32 list"
  ws_next_entity :: u64
  ws_last_root :: u32
  ws_version :: u64
  ws_semantic_hash :: u64
  ws_track_indexes :: bool
  ws_historical_delta_offset :: nat

definition workspace_new :: "nat \<Rightarrow> nat \<Rightarrow> bool \<Rightarrow> workspace" where
  "workspace_new slot_count stack_capacity track =
     \<lparr>ws_stack = replicate stack_capacity 0, ws_stack_pointer = 0, ws_frame_base = 0,
      ws_records = arena_new, ws_deltas = arena_new, ws_index_deltas = arena_new, ws_roots = arena_new,
      ws_accepted_heads = replicate slot_count NONE, ws_next_entity = 1, ws_last_root = NONE,
      ws_version = 0, ws_semantic_hash = fnv_offset_basis, ws_track_indexes = track,
      ws_historical_delta_offset = 0\<rparr>"

definition with_capacity :: "nat \<Rightarrow> nat \<Rightarrow> workspace" where
  "with_capacity slot_count stack_capacity = workspace_new slot_count stack_capacity False"

definition with_indexes :: "nat \<Rightarrow> nat \<Rightarrow> workspace" where
  "with_indexes slot_count stack_capacity = workspace_new slot_count stack_capacity True"

definition with_indexes_from :: "u64 \<Rightarrow> nat \<Rightarrow> nat \<Rightarrow> workspace" where
  "with_indexes_from entity slot_count stack_capacity =
     (workspace_new slot_count stack_capacity True)\<lparr>ws_next_entity := entity\<rparr>"

definition hash_value :: "u64 \<Rightarrow> u64 \<Rightarrow> u64" where
  "hash_value h v = (h XOR v) * fnv_prime"

fun kind_u64 :: "vm_record_kind \<Rightarrow> u64" where
  "kind_u64 RDefine = 0"
| "kind_u64 RForget = 1"

definition hash_record :: "u64 \<Rightarrow> fact_record \<Rightarrow> u64" where
  "hash_record h r =
     foldl hash_value h
       [kind_u64 (fr_kind r), ucast (fr_slot r), fr_subject r, fr_predicate r, fr_object r,
        ucast (fr_previous r), ucast (fr_resulting r)]"

text \<open>The check of the physical records, in the order of the loop.\<close>

definition physical_record_ok :: "nat \<Rightarrow> nat \<Rightarrow> fact_record \<Rightarrow> bool" where
  "physical_record_ok slots i r \<longleftrightarrow>
     \<not> (fr_kind r \<noteq> RDefine \<or> fr_resulting r \<noteq> word_of_nat i \<or>
        (fr_previous r \<noteq> NONE \<and> unat (fr_previous r) \<ge> i) \<or> unat (fr_slot r) \<ge> slots)"

fun check_physical_records :: "nat \<Rightarrow> nat \<Rightarrow> fact_record list \<Rightarrow> string + unit" where
  "check_physical_records slots i [] = Inr ()"
| "check_physical_records slots i (r # rs) =
     (if physical_record_ok slots i r then check_physical_records slots (Suc i) rs
      else Inl (''invalid physical fact record '' @ decimal i))"

definition from_physical_snapshot ::
  "u64 \<Rightarrow> fact_record list \<Rightarrow> u32 list \<Rightarrow> nat \<Rightarrow> string + workspace" where
  "from_physical_snapshot entity recs heads record_total =
     (if record_total < length recs then Inl ''snapshot retained records exceed total record count''
      else res_bind (check_physical_records (length heads) 0 recs) (\<lambda>_.
      if \<exists>h \<in> set heads. h \<noteq> NONE \<and> unat h \<ge> length recs
      then Inl ''physical snapshot head exceeds record arena''
      else Inr
        \<lparr>ws_stack = replicate 32 0, ws_stack_pointer = 0, ws_frame_base = 0,
         ws_records = \<lparr>pa_data = recs, pa_frontier = length recs\<rparr>, ws_deltas = arena_new,
         ws_index_deltas = arena_new, ws_roots = arena_new, ws_accepted_heads = heads,
         ws_next_entity = entity, ws_last_root = NONE, ws_version = 0,
         ws_semantic_hash = foldl hash_record fnv_offset_basis recs, ws_track_indexes = True,
         ws_historical_delta_offset = record_total\<rparr>))"

definition ensure_slot_count :: "nat \<Rightarrow> workspace \<Rightarrow> workspace" where
  "ensure_slot_count n w =
     (if length (ws_accepted_heads w) < n
      then w\<lparr>ws_accepted_heads := ws_accepted_heads w @ replicate (n - length (ws_accepted_heads w)) NONE\<rparr>
      else w)"

definition accepted_head :: "workspace \<Rightarrow> slot_token \<Rightarrow> exec_error + u32" where
  "accepted_head w slot =
     (if unat slot < length (ws_accepted_heads w) then Inr (ws_accepted_heads w ! unat slot)
      else Inl InvalidSlot)"

text \<open>The outer option is the panic of \<open>get\<close>.\<close>

definition resolve_fact_cells :: "workspace \<Rightarrow> slot_token \<Rightarrow> (cell \<times> cell \<times> cell) option option" where
  "resolve_fact_cells w slot =
     (case accepted_head w slot of
        Inl _ \<Rightarrow> Some None
      | Inr h \<Rightarrow>
          if h = NONE then Some None
          else map_option (\<lambda>r. Some (fr_subject r, fr_predicate r, fr_object r)) (arena_get (ws_records w) h))"

definition resolve_object :: "workspace \<Rightarrow> slot_token \<Rightarrow> cell option option" where
  "resolve_object w slot =
     (case accepted_head w slot of
        Inl _ \<Rightarrow> Some None
      | Inr h \<Rightarrow> if h = NONE then Some None else map_option (\<lambda>r. Some (fr_object r)) (arena_get (ws_records w) h))"

definition vm_record_count :: "workspace \<Rightarrow> nat" where
  "vm_record_count w = pa_frontier (ws_records w)"

definition vm_delta_count :: "workspace \<Rightarrow> nat" where
  "vm_delta_count w = ws_historical_delta_offset w + pa_frontier (ws_deltas w)"

definition vm_index_delta_count :: "workspace \<Rightarrow> nat" where
  "vm_index_delta_count w = pa_frontier (ws_index_deltas w)"

definition vm_active_slot_count :: "workspace \<Rightarrow> nat" where
  "vm_active_slot_count w = length (filter (\<lambda>h. h \<noteq> NONE) (ws_accepted_heads w))"

section \<open>Steps that may be rejected\<close>

text \<open>Outer option: a panic.  Left: the reason of the rejection.  The state is kept in both cases.\<close>

type_synonym 'a vm_result = "((exec_error + 'a) \<times> workspace) option"

fun vm_bind :: "'a vm_result \<Rightarrow> ('a \<Rightarrow> workspace \<Rightarrow> 'b vm_result) \<Rightarrow> 'b vm_result" where
  "vm_bind None k = None"
| "vm_bind (Some (Inl e, w)) k = Some (Inl e, w)"
| "vm_bind (Some (Inr x, w)) k = k x w"

definition vm_reserve :: "nat \<Rightarrow> workspace \<Rightarrow> unit vm_result" where
  "vm_reserve cells w =
     (if ws_stack_pointer w + cells > length (ws_stack w) then Some (Inl StackOverflow, w)
      else Some (Inr (), w\<lparr>ws_stack_pointer := ws_stack_pointer w + cells\<rparr>))"

definition vm_push :: "cell \<Rightarrow> workspace \<Rightarrow> unit vm_result" where
  "vm_push c w =
     (if ws_stack_pointer w = length (ws_stack w) then Some (Inl StackOverflow, w)
      else Some (Inr (), w\<lparr>ws_stack := (ws_stack w)[ws_stack_pointer w := c],
                            ws_stack_pointer := ws_stack_pointer w + 1\<rparr>))"

definition vm_pop :: "workspace \<Rightarrow> cell vm_result" where
  "vm_pop w =
     (if ws_stack_pointer w \<le> ws_frame_base w then Some (Inl StackUnderflow, w)
      else Some (Inr (ws_stack w ! (ws_stack_pointer w - 1)), w\<lparr>ws_stack_pointer := ws_stack_pointer w - 1\<rparr>))"

definition vm_local :: "nat \<Rightarrow> workspace \<Rightarrow> cell vm_result" where
  "vm_local n w =
     (let i = ws_frame_base w + n
      in if i \<ge> ws_stack_pointer w then Some (Inl InvalidLocal, w) else Some (Inr (ws_stack w ! i), w))"

definition vm_set_local :: "nat \<Rightarrow> cell \<Rightarrow> workspace \<Rightarrow> unit vm_result" where
  "vm_set_local n c w =
     (let i = ws_frame_base w + n
      in if i \<ge> ws_stack_pointer w then Some (Inl InvalidLocal, w)
         else Some (Inr (), w\<lparr>ws_stack := (ws_stack w)[i := c]\<rparr>))"

text \<open>The last delta of this trial for the slot, otherwise the accepted head.\<close>

definition resolve_trial_head :: "slot_token \<Rightarrow> nat \<Rightarrow> workspace \<Rightarrow> u32 vm_result" where
  "resolve_trial_head slot frontier w =
     (case accepted_head w slot of
        Inl e \<Rightarrow> Some (Inl e, w)
      | Inr h \<Rightarrow>
          (case find (\<lambda>d. sd_slot d = slot) (rev (drop frontier (arena_active (ws_deltas w)))) of
             Some d \<Rightarrow> Some (Inr (sd_resulting d), w)
           | None \<Rightarrow> Some (Inr h, w)))"

definition resolve_trial_object :: "slot_token \<Rightarrow> nat \<Rightarrow> workspace \<Rightarrow> cell option vm_result" where
  "resolve_trial_object slot frontier w =
     vm_bind (resolve_trial_head slot frontier w) (\<lambda>h w.
       if h = NONE then Some (Inr None, w)
       else map_option (\<lambda>r. (Inr (Some (fr_object r)), w)) (arena_get (ws_records w) h))"

fun push_index_deltas :: "index_delta list \<Rightarrow> workspace \<Rightarrow> workspace option" where
  "push_index_deltas [] w = Some w"
| "push_index_deltas (d # ds) w =
     Option.bind (arena_push d (ws_index_deltas w)) (\<lambda>(_, a). push_index_deltas ds (w\<lparr>ws_index_deltas := a\<rparr>))"

definition fact_index_deltas :: "fact_record \<Rightarrow> u32 \<Rightarrow> bool \<Rightarrow> index_delta list" where
  "fact_index_deltas r i add =
     [\<lparr>id_permutation = Spo, id_added = add, id_first = fr_subject r, id_second = fr_predicate r,
       id_third = fr_object r, id_record = i, id_slot = fr_slot r\<rparr>,
      \<lparr>id_permutation = Pos, id_added = add, id_first = fr_predicate r, id_second = fr_object r,
       id_third = fr_subject r, id_record = i, id_slot = fr_slot r\<rparr>,
      \<lparr>id_permutation = Osp, id_added = add, id_first = fr_object r, id_second = fr_subject r,
       id_third = fr_predicate r, id_record = i, id_slot = fr_slot r\<rparr>]"

definition append_fact_indexes :: "fact_record \<Rightarrow> u32 \<Rightarrow> bool \<Rightarrow> workspace \<Rightarrow> workspace option" where
  "append_fact_indexes r i add w = push_index_deltas (fact_index_deltas r i add) w"

definition append_index_transition :: "u32 \<Rightarrow> u32 \<Rightarrow> workspace \<Rightarrow> workspace option" where
  "append_index_transition previous resulting w =
     (if \<not> ws_track_indexes w then Some w
      else Option.bind
        (if previous \<noteq> NONE
         then Option.bind (arena_get (ws_records w) previous) (\<lambda>r. append_fact_indexes r previous False w)
         else Some w)
        (\<lambda>w. if resulting \<noteq> NONE
           then Option.bind (arena_get (ws_records w) resulting) (\<lambda>r. append_fact_indexes r resulting True w)
           else Some w))"

text \<open>The common end of \<open>define\<close> and \<open>forget\<close>: the record, its slot delta and its index deltas.\<close>

definition append_record :: "fact_record \<Rightarrow> workspace \<Rightarrow> unit vm_result" where
  "append_record r w =
     Option.bind (arena_push r (ws_records w)) (\<lambda>(_, recs).
     Option.bind (arena_push
         \<lparr>sd_slot = fr_slot r, sd_previous = fr_previous r, sd_resulting = fr_resulting r\<rparr> (ws_deltas w))
       (\<lambda>(_, deltas).
     map_option (\<lambda>w. (Inr (), w))
       (append_index_transition (fr_previous r) (fr_resulting r)
          (w\<lparr>ws_records := recs, ws_deltas := deltas\<rparr>))))"

definition vm_define :: "slot_token \<Rightarrow> cell \<Rightarrow> cell \<Rightarrow> cell \<Rightarrow> nat \<Rightarrow> workspace \<Rightarrow> unit vm_result" where
  "vm_define slot s p ob frontier w =
     vm_bind (resolve_trial_head slot frontier w) (\<lambda>previous w.
       append_record
         \<lparr>fr_kind = RDefine, fr_slot = slot, fr_subject = s, fr_predicate = p, fr_object = ob,
          fr_previous = previous, fr_resulting = word_of_nat (pa_frontier (ws_records w))\<rparr> w)"

definition vm_forget :: "slot_token \<Rightarrow> nat \<Rightarrow> workspace \<Rightarrow> unit vm_result" where
  "vm_forget slot frontier w =
     vm_bind (resolve_trial_head slot frontier w) (\<lambda>previous w.
       Option.bind (if previous = NONE then Some NONE else map_option fr_previous (arena_get (ws_records w) previous))
         (\<lambda>revealed.
            append_record
              \<lparr>fr_kind = RForget, fr_slot = slot, fr_subject = 0, fr_predicate = 0, fr_object = 0,
               fr_previous = previous, fr_resulting = revealed\<rparr> w))"

section \<open>Executing an intent\<close>

definition vm_checkpoint :: "workspace \<Rightarrow> trial_checkpoint" where
  "vm_checkpoint w =
     \<lparr>cp_stack_pointer = ws_stack_pointer w, cp_frame_base = ws_frame_base w,
      cp_record_frontier = pa_frontier (ws_records w), cp_delta_frontier = pa_frontier (ws_deltas w),
      cp_index_delta_frontier = pa_frontier (ws_index_deltas w), cp_next_entity = ws_next_entity w\<rparr>"

definition vm_rollback :: "trial_checkpoint \<Rightarrow> workspace \<Rightarrow> workspace" where
  "vm_rollback c w =
     w\<lparr>ws_stack_pointer := cp_stack_pointer c, ws_frame_base := cp_frame_base c,
       ws_records := arena_restore (cp_record_frontier c) (ws_records w),
       ws_deltas := arena_restore (cp_delta_frontier c) (ws_deltas w),
       ws_index_deltas := arena_restore (cp_index_delta_frontier c) (ws_index_deltas w),
       ws_next_entity := cp_next_entity c\<rparr>"

text \<open>Indexing the heads panics out of range.\<close>

fun move_heads :: "slot_delta list \<Rightarrow> u32 list \<Rightarrow> u32 list option" where
  "move_heads [] heads = Some heads"
| "move_heads (d # ds) heads =
     (if unat (sd_slot d) < length heads then move_heads ds (heads[unat (sd_slot d) := sd_resulting d]) else None)"

definition vm_accept :: "trial_checkpoint \<Rightarrow> workspace \<Rightarrow> workspace option" where
  "vm_accept c w =
     map_option (\<lambda>heads.
       w\<lparr>ws_accepted_heads := heads,
         ws_semantic_hash :=
           foldl hash_record (ws_semantic_hash w) (drop (cp_record_frontier c) (arena_active (ws_records w))),
         ws_stack_pointer := cp_stack_pointer c, ws_frame_base := cp_frame_base c\<rparr>)
       (move_heads (drop (cp_delta_frontier c) (arena_active (ws_deltas w))) (ws_accepted_heads w))"

definition execute_instruction :: "instruction \<Rightarrow> trial_checkpoint \<Rightarrow> workspace \<Rightarrow> unit vm_result" where
  "execute_instruction ins c w =
     (case i_opcode ins of
        OpExpectObject \<Rightarrow>
          if i_argument ins = - 1
          then Some (if ws_semantic_hash w \<noteq> i_immediate ins then Inl ExpectedValueMismatch else Inr (), w)
          else vm_bind (resolve_trial_object (i_argument ins) (cp_delta_frontier c) w) (\<lambda>found w.
            case found of
              Some actual \<Rightarrow> Some (if actual = i_immediate ins then Inr () else Inl ExpectedValueMismatch, w)
            | None \<Rightarrow> Some (Inl MissingExpectedValue, w))
      | OpAllocate \<Rightarrow>
          vm_push (ws_next_entity w) (w\<lparr>ws_next_entity := saturating_add_u64 (ws_next_entity w) 1\<rparr>)
      | OpAllocateDiscard \<Rightarrow> Some (Inr (), w\<lparr>ws_next_entity := saturating_add_u64 (ws_next_entity w) 1\<rparr>)
      | OpLoadLocal \<Rightarrow> vm_bind (vm_local (unat (i_argument ins)) w) vm_push
      | OpStoreLocal \<Rightarrow> vm_bind (vm_pop w) (vm_set_local (unat (i_argument ins)))
      | OpPushCell \<Rightarrow> vm_push (i_immediate ins) w
      | OpDefine \<Rightarrow>
          vm_bind (vm_pop w) (\<lambda>ob w. vm_bind (vm_pop w) (\<lambda>p w. vm_bind (vm_pop w) (\<lambda>s w.
            vm_define (i_argument ins) s p ob (cp_delta_frontier c) w)))
      | OpForget \<Rightarrow> vm_forget (i_argument ins) (cp_delta_frontier c) w
      | OpReject \<Rightarrow> Some (Inl ExplicitRejection, w))"

fun execute_loop :: "instruction list \<Rightarrow> trial_checkpoint \<Rightarrow> workspace \<Rightarrow> unit vm_result" where
  "execute_loop [] c w = Some (Inr (), w)"
| "execute_loop (i # is) c w = vm_bind (execute_instruction i c w) (\<lambda>_. execute_loop is c)"

definition execute_instructions ::
  "u32 \<Rightarrow> instruction list \<Rightarrow> workspace \<Rightarrow> (execution_outcome \<times> workspace) option" where
  "execute_instructions locals is w =
     (let c = vm_checkpoint w;
          w = w\<lparr>ws_frame_base := ws_stack_pointer w\<rparr>
      in case vm_bind (vm_reserve (unat locals) w) (\<lambda>_. execute_loop is c) of
           None \<Rightarrow> None
         | Some (Inl e, w) \<Rightarrow> Some (Rejected e, vm_rollback c w)
         | Some (Inr _, w) \<Rightarrow> map_option (Pair Accepted) (vm_accept c w))"

definition execute :: "intent_program \<Rightarrow> workspace \<Rightarrow> (execution_outcome \<times> workspace) option" where
  "execute prog w = execute_instructions (local_count prog) (instructions prog) w"

section \<open>Published roots and queries\<close>

definition publish_epoch :: "workspace \<Rightarrow> (world_root option \<times> workspace) option" where
  "publish_epoch w =
     Option.bind (if ws_last_root w = NONE then Some 0
                  else map_option (\<lambda>r. unat (wr_record_frontier r)) (arena_get (ws_roots w) (ws_last_root w)))
       (\<lambda>previous.
          if pa_frontier (ws_records w) = previous then Some (None, w)
          else
            let root = \<lparr>wr_parent = ws_last_root w, wr_version = ws_version w + 1,
                        wr_record_frontier = word_of_nat (pa_frontier (ws_records w)),
                        wr_slot_delta_frontier = word_of_nat (pa_frontier (ws_deltas w)),
                        wr_index_delta_frontier = word_of_nat (pa_frontier (ws_index_deltas w)),
                        wr_allocator_head = ws_next_entity w, wr_world_id = ws_semantic_hash w\<rparr>
            in map_option (\<lambda>(i, roots).
                 (Some root, w\<lparr>ws_version := ws_version w + 1, ws_last_root := i, ws_roots := roots\<rparr>))
                 (arena_push root (ws_roots w)))"

text \<open>A prefix of the active slice; slicing past its end panics.\<close>

definition active_prefix :: "'a pod_arena \<Rightarrow> u32 \<Rightarrow> 'a list option" where
  "active_prefix a n = (if unat n \<le> length (arena_active a) then Some (take (unat n) (arena_active a)) else None)"

definition resolve_object_at :: "workspace \<Rightarrow> world_root \<Rightarrow> slot_token \<Rightarrow> cell option option" where
  "resolve_object_at w root slot =
     Option.bind (active_prefix (ws_deltas w) (wr_slot_delta_frontier root)) (\<lambda>ds.
       case find (\<lambda>d. sd_slot d = slot) (rev ds) of
         None \<Rightarrow> Some None
       | Some d \<Rightarrow>
           if sd_resulting d = NONE then Some None
           else map_option (\<lambda>r. Some (fr_object r)) (arena_get (ws_records w) (sd_resulting d)))"

fun matches_index :: "index_delta \<Rightarrow> query_pattern \<Rightarrow> bool" where
  "matches_index d (QSubject s) \<longleftrightarrow> id_permutation d = Spo \<and> id_first d = s"
| "matches_index d (QPredicate p) \<longleftrightarrow> id_permutation d = Pos \<and> id_first d = p"
| "matches_index d (QObject ob) \<longleftrightarrow> id_permutation d = Osp \<and> id_first d = ob"
| "matches_index d (QSubjectPredicate s p) \<longleftrightarrow> id_permutation d = Spo \<and> id_first d = s \<and> id_second d = p"
| "matches_index d (QSubjectObject s ob) \<longleftrightarrow> id_permutation d = Osp \<and> id_first d = ob \<and> id_second d = s"
| "matches_index d (QPredicateObject p ob) \<longleftrightarrow> id_permutation d = Pos \<and> id_first d = p \<and> id_second d = ob"
| "matches_index d (QExact s p ob) \<longleftrightarrow>
     id_permutation d = Spo \<and> id_first d = s \<and> id_second d = p \<and> id_third d = ob"

text \<open>\<open>Iterator::position\<close> and \<open>Vec::swap_remove\<close>.\<close>

fun position :: "('a \<Rightarrow> bool) \<Rightarrow> 'a list \<Rightarrow> nat option" where
  "position P [] = None"
| "position P (x # xs) = (if P x then Some 0 else map_option Suc (position P xs))"

definition swap_remove :: "nat \<Rightarrow> 'a list \<Rightarrow> 'a list" where
  "swap_remove i xs = (if Suc i = length xs then butlast xs else butlast (xs[i := last xs]))"

text \<open>One turn of the loop over the deltas; \<open>item\<close> is what the caller collects.\<close>

definition apply_index_delta ::
  "(index_delta \<Rightarrow> 'a) \<Rightarrow> ('a \<Rightarrow> u32) \<Rightarrow> query_pattern \<Rightarrow> index_delta \<Rightarrow> 'a list \<Rightarrow> 'a list" where
  "apply_index_delta item key pat d active =
     (if \<not> matches_index d pat then active
      else if id_added d then active @ [item d]
      else case position (\<lambda>x. key x = id_record d) active of
          Some i \<Rightarrow> swap_remove i active
        | None \<Rightarrow> active)"

definition vm_query_slots :: "workspace \<Rightarrow> world_root \<Rightarrow> query_pattern \<Rightarrow> slot_token list option" where
  "vm_query_slots w root pat =
     Option.bind (active_prefix (ws_index_deltas w) (wr_index_delta_frontier root)) (\<lambda>ds.
       map_option sort
         (those (map (\<lambda>i. map_option fr_slot (arena_get (ws_records w) i))
            (fold (apply_index_delta id_record id pat) ds []))))"

section \<open>Compact snapshots\<close>

record compact_index_entry =
  ce_first :: cell
  ce_second :: cell
  ce_third :: cell
  ce_record :: u32
  ce_slot :: slot_token

record compact_base =
  cb_root :: world_root
  cb_spo :: "compact_index_entry list"
  cb_pos :: "compact_index_entry list"
  cb_osp :: "compact_index_entry list"

record layered_snapshot =
  ls_base :: compact_base
  ls_root :: world_root
  ls_tail :: "index_delta list"

definition entry_key :: "compact_index_entry \<Rightarrow> cell \<times> cell \<times> cell \<times> u32 \<times> slot_token" where
  "entry_key e = (ce_first e, ce_second e, ce_third e, ce_record e, ce_slot e)"

text \<open>The active index deltas in a \<open>BTreeMap\<close> by record.\<close>

definition compact_step :: "index_delta \<Rightarrow> (u32 \<times> index_delta) list \<Rightarrow> (u32 \<times> index_delta) list" where
  "compact_step d active =
     (if id_permutation d \<noteq> Spo then active
      else if id_added d then bt_insert (id_record d) d active
      else filter (\<lambda>(i, _). i \<noteq> id_record d) active)"

definition spo_entry :: "index_delta \<Rightarrow> compact_index_entry" where
  "spo_entry d = \<lparr>ce_first = id_first d, ce_second = id_second d, ce_third = id_third d,
     ce_record = id_record d, ce_slot = id_slot d\<rparr>"

definition pos_entry :: "index_delta \<Rightarrow> compact_index_entry" where
  "pos_entry d = \<lparr>ce_first = id_second d, ce_second = id_third d, ce_third = id_first d,
     ce_record = id_record d, ce_slot = id_slot d\<rparr>"

definition osp_entry :: "index_delta \<Rightarrow> compact_index_entry" where
  "osp_entry d = \<lparr>ce_first = id_third d, ce_second = id_first d, ce_third = id_second d,
     ce_record = id_record d, ce_slot = id_slot d\<rparr>"

definition vm_compact_base :: "workspace \<Rightarrow> world_root \<Rightarrow> compact_base option" where
  "vm_compact_base w root =
     map_option (\<lambda>ds.
       let active = map snd (fold compact_step ds [])
       in \<lparr>cb_root = root, cb_spo = sort_key entry_key (map spo_entry active),
           cb_pos = sort_key entry_key (map pos_entry active),
           cb_osp = sort_key entry_key (map osp_entry active)\<rparr>)
       (active_prefix (ws_index_deltas w) (wr_index_delta_frontier root))"

definition vm_layered_snapshot :: "workspace \<Rightarrow> compact_base \<Rightarrow> world_root \<Rightarrow> layered_snapshot option" where
  "vm_layered_snapshot w base root =
     (let start = wr_index_delta_frontier (cb_root base); stop = wr_index_delta_frontier root
      in if start \<le> stop
         then map_option (\<lambda>ds. \<lparr>ls_base = base, ls_root = root, ls_tail = drop (unat start) ds\<rparr>)
                (active_prefix (ws_index_deltas w) stop)
         else None)"

fun query_key :: "query_pattern \<Rightarrow> index_permutation \<times> cell list \<times> nat" where
  "query_key (QSubject s) = (Spo, [s, 0, 0], 1)"
| "query_key (QPredicate p) = (Pos, [p, 0, 0], 1)"
| "query_key (QObject ob) = (Osp, [ob, 0, 0], 1)"
| "query_key (QSubjectPredicate s p) = (Spo, [s, p, 0], 2)"
| "query_key (QSubjectObject s ob) = (Osp, [ob, s, 0], 2)"
| "query_key (QPredicateObject p ob) = (Pos, [p, ob, 0], 2)"
| "query_key (QExact s p ob) = (Spo, [s, p, ob], 3)"

text \<open>The order of slices is lexicographic; \<open>compare_prefix\<close> is given by its two tests.\<close>

definition prefix_key :: "compact_index_entry \<Rightarrow> nat \<Rightarrow> cell list" where
  "prefix_key e n = take n [ce_first e, ce_second e, ce_third e]"

text \<open>\<open>partition_point\<close> of a slice that is partitioned by the test, as a sorted slice is.\<close>

definition partition_point :: "('a \<Rightarrow> bool) \<Rightarrow> 'a list \<Rightarrow> nat" where
  "partition_point P xs = length (takeWhile P xs)"

definition compact_prefix_range :: "compact_index_entry list \<Rightarrow> cell list \<Rightarrow> nat \<Rightarrow> nat \<times> nat" where
  "compact_prefix_range es key n =
     (partition_point (\<lambda>e. prefix_key e n < take n key) es,
      partition_point (\<lambda>e. \<not> prefix_key e n > take n key) es)"

definition base_entries :: "layered_snapshot \<Rightarrow> query_pattern \<Rightarrow> compact_index_entry list \<times> cell list \<times> nat" where
  "base_entries snap pat =
     (let (perm, key, n) = query_key pat
      in (case perm of Spo \<Rightarrow> cb_spo (ls_base snap) | Pos \<Rightarrow> cb_pos (ls_base snap) | Osp \<Rightarrow> cb_osp (ls_base snap),
          key, n))"

definition snapshot_query_count :: "layered_snapshot \<Rightarrow> query_pattern \<Rightarrow> int" where
  "snapshot_query_count snap pat =
     (let (es, key, n) = base_entries snap pat; (a, b) = compact_prefix_range es key n
      in fold (\<lambda>d c. if matches_index d pat then c + (if id_added d then 1 else - 1) else c)
           (ls_tail snap) (int b - int a))"

text \<open>Slicing panics when the range is inverted.\<close>

definition snapshot_query_slots :: "layered_snapshot \<Rightarrow> query_pattern \<Rightarrow> slot_token list option" where
  "snapshot_query_slots snap pat =
     (let (es, key, n) = base_entries snap pat; (a, b) = compact_prefix_range es key n
      in if a \<le> b
         then Some (sort (map snd
           (fold (apply_index_delta (\<lambda>d. (id_record d, id_slot d)) fst pat) (ls_tail snap)
              (map (\<lambda>e. (ce_record e, ce_slot e)) (drop a (take b es))))))
         else None)"

definition active_fact_count :: "compact_base \<Rightarrow> nat" where
  "active_fact_count base = length (cb_spo base)"

end
