(* ===== verification/VM_Exec.thy ===== *)
theory VM_Exec
  imports Stack_VM
begin

text \<open>
  Executing an intent refines a reference machine that has no arenas, no frontiers and no
  rollback: a frame of cells, a stack of facts for every slot and the entity counter.  A rejected
  intent leaves everything a reader can see as it was; an accepted one moves it to the state of
  the reference machine.  The one thing the reference machine has to be told is what the frame
  finds in the cells of its locals, because the code does not clear them.
\<close>

section \<open>Arenas are lists\<close>

definition arena_ok :: "'a pod_arena \<Rightarrow> bool" where
  "arena_ok a \<longleftrightarrow> pa_frontier a \<le> length (pa_data a)"

named_theorems arena_simps

lemma arena_new_ok [arena_simps]: "arena_ok arena_new" "arena_active arena_new = []" "pa_frontier arena_new = 0"
  by (simp_all add: arena_ok_def arena_new_def arena_active_def)

lemma length_arena_active: "arena_ok a \<Longrightarrow> length (arena_active a) = pa_frontier a"
  by (simp add: arena_ok_def arena_active_def)

lemma arena_get_active:
  "arena_ok a \<Longrightarrow> arena_get a i = (if unat i < length (arena_active a) then Some (arena_active a ! unat i) else None)"
  by (simp add: arena_get_def arena_ok_def arena_active_def)

lemma arena_push_ok:
  assumes "arena_ok a" and "pa_frontier a < unat NONE"
  shows "\<exists>a'. arena_push x a = Some (word_of_nat (pa_frontier a), a') \<and> arena_ok a' \<and>
    arena_active a' = arena_active a @ [x] \<and> pa_frontier a' = Suc (pa_frontier a)"
proof (cases "pa_frontier a = length (pa_data a)")
  case True
  with assms show ?thesis
    by (intro exI [of _ "\<lparr>pa_data = pa_data a @ [x], pa_frontier = Suc (pa_frontier a)\<rparr>"])
      (simp add: arena_push_def arena_ok_def arena_active_def Let_def)
next
  case False
  with assms show ?thesis
    by (intro exI [of _ "\<lparr>pa_data = (pa_data a)[pa_frontier a := x], pa_frontier = Suc (pa_frontier a)\<rparr>"])
      (simp add: arena_push_def arena_ok_def arena_active_def Let_def take_Suc_conv_app_nth)
qed

lemma arena_restore_ok:
  assumes "arena_ok a" and "arena_active a = xs @ ys" and "n = length xs"
  shows "arena_ok (arena_restore n a)" and "arena_active (arena_restore n a) = xs"
    and "pa_frontier (arena_restore n a) = n"
proof -
  have le: "n \<le> pa_frontier a"
    using assms length_arena_active [OF assms(1)] by simp
  have "take n (pa_data a) = take n (arena_active a)"
    using le by (simp add: arena_active_def min_absorb1)
  with assms le show "arena_ok (arena_restore n a)" "arena_active (arena_restore n a) = xs"
    "pa_frontier (arena_restore n a) = n"
    by (simp_all add: arena_restore_def arena_ok_def arena_active_def)
qed

section \<open>Chains of facts\<close>

type_synonym vm_fact = "cell \<times> cell \<times> cell"

definition record_triple :: "fact_record \<Rightarrow> vm_fact" where
  "record_triple r = (fr_subject r, fr_predicate r, fr_object r)"

function vm_chain :: "fact_record list \<Rightarrow> u32 \<Rightarrow> vm_fact list" where
  "vm_chain recs h =
     (if h \<noteq> NONE \<and> unat h < length recs
      then record_triple (recs ! unat h) #
        (if unat (fr_previous (recs ! unat h)) < unat h then vm_chain recs (fr_previous (recs ! unat h)) else [])
      else [])"
  by pat_completeness auto
termination
  by (relation "measure (\<lambda>(recs, h). unat h)") auto

declare vm_chain.simps [simp del]

definition head_ok :: "fact_record list \<Rightarrow> u32 \<Rightarrow> bool" where
  "head_ok recs h \<longleftrightarrow> h = NONE \<or> (unat h < length recs \<and> fr_kind (recs ! unat h) = RDefine)"

definition records_ok :: "fact_record list \<Rightarrow> bool" where
  "records_ok recs \<longleftrightarrow>
     (\<forall>i < length recs. fr_previous (recs ! i) = NONE \<or>
        (unat (fr_previous (recs ! i)) < i \<and> fr_kind (recs ! unat (fr_previous (recs ! i))) = RDefine))"

lemma vm_chain_NONE [simp]: "vm_chain recs NONE = []"
  by (simp add: vm_chain.simps)

lemma vm_chain_append:
  "h = NONE \<or> unat h < length recs \<Longrightarrow> vm_chain (recs @ ext) h = vm_chain recs h"
proof (induction recs h rule: vm_chain.induct)
  case (1 recs h)
  show ?case
  proof (cases "h \<noteq> NONE \<and> unat h < length recs")
    case True
    with 1 show ?thesis
      by (subst (1 2) vm_chain.simps) (auto simp: nth_append)
  next
    case False
    with "1.prems" show ?thesis by auto
  qed
qed

lemma head_ok_append: "head_ok recs h \<Longrightarrow> head_ok (recs @ ext) h"
  by (auto simp: head_ok_def nth_append)

lemma head_ok_chain: "head_ok recs h \<Longrightarrow> vm_chain (recs @ ext) h = vm_chain recs h"
  by (rule vm_chain_append) (auto simp: head_ok_def)

lemma records_ok_previous:
  "records_ok recs \<Longrightarrow> unat h < length recs \<Longrightarrow> head_ok recs (fr_previous (recs ! unat h))"
  unfolding records_ok_def head_ok_def by (metis less_trans)

lemma unat_NONE_32: "unat NONE = 4294967295"
  by (simp add: unsigned_minus_1_eq_mask mask_eq_exp_minus_1)

lemma vm_chain_head:
  assumes "records_ok recs" and "head_ok recs h" and "h \<noteq> NONE"
  shows "vm_chain recs h = record_triple (recs ! unat h) # vm_chain recs (fr_previous (recs ! unat h))"
proof -
  from assms have h: "unat h < length recs" by (simp add: head_ok_def)
  have "fr_previous (recs ! unat h) = NONE \<or> unat (fr_previous (recs ! unat h)) < unat h"
    using assms(1) h by (auto simp: records_ok_def)
  moreover have "\<not> unat NONE < unat h" using unsigned_less [of h, where ?'a = nat] by (simp add: unat_NONE_32)
  ultimately show ?thesis using h assms(3) by (subst vm_chain.simps) auto
qed

lemma records_ok_snoc:
  assumes "records_ok recs" and "head_ok recs (fr_previous r)"
  shows "records_ok (recs @ [r])"
  unfolding records_ok_def
proof (intro allI impI)
  fix i assume i: "i < length (recs @ [r])"
  let ?p = "fr_previous ((recs @ [r]) ! i)"
  show "?p = NONE \<or> (unat ?p < i \<and> fr_kind ((recs @ [r]) ! unat ?p) = RDefine)"
  proof (cases "i = length recs")
    case True
    with assms(2) show ?thesis by (auto simp: head_ok_def nth_append)
  next
    case False
    with i have i': "i < length recs" by simp
    with assms(1) have "?p = NONE \<or> (unat ?p < i \<and> fr_kind (recs ! unat ?p) = RDefine)"
      by (simp add: records_ok_def nth_append)
    with i' show ?thesis by (auto simp: nth_append)
  qed
qed

lemma index_of_length:
  assumes "n < unat NONE"
  shows "unat (word_of_nat n :: u32) = n" and "(word_of_nat n :: u32) \<noteq> NONE"
proof -
  show "unat (word_of_nat n :: u32) = n"
    using assms by (simp add: unat_NONE_32 unat_of_nat)
  with assms show "(word_of_nat n :: u32) \<noteq> NONE" by (metis less_irrefl)
qed

section \<open>Heads\<close>

definition heads_after :: "slot_delta list \<Rightarrow> u32 list \<Rightarrow> u32 list" where
  "heads_after ds hs = fold (\<lambda>d hs. hs[unat (sd_slot d) := sd_resulting d]) ds hs"

lemma heads_after_simps [simp]:
  "heads_after [] hs = hs"
  "heads_after (ds @ [d]) hs = (heads_after ds hs)[unat (sd_slot d) := sd_resulting d]"
  "length (heads_after ds hs) = length hs"
proof -
  show "length (heads_after ds hs) = length hs"
    unfolding heads_after_def by (induction ds arbitrary: hs) auto
qed (simp_all add: heads_after_def)

lemma move_heads_after:
  "\<forall>d \<in> set ds. unat (sd_slot d) < length hs \<Longrightarrow> move_heads ds hs = Some (heads_after ds hs)"
  by (induction ds arbitrary: hs) (auto simp: heads_after_def)

lemma find_heads_after:
  assumes "unat slot < length hs"
  shows "(case find (\<lambda>d. sd_slot d = slot) (rev ds) of None \<Rightarrow> hs ! unat slot | Some d \<Rightarrow> sd_resulting d) =
    heads_after ds hs ! unat slot"
proof (induction ds rule: rev_induct)
  case (snoc d ds)
  then show ?case
    using assms by (cases "sd_slot d = slot") (auto simp: word_unat_eq_iff)
qed simp

definition facts_of :: "fact_record list \<Rightarrow> u32 list \<Rightarrow> slot_token \<Rightarrow> vm_fact list" where
  "facts_of recs hs slot = (if unat slot < length hs then vm_chain recs (hs ! unat slot) else [])"

lemma facts_of_append:
  "\<forall>h \<in> set hs. head_ok recs h \<Longrightarrow> facts_of (recs @ ext) hs = facts_of recs hs"
  by (auto simp: facts_of_def fun_eq_iff head_ok_chain)

lemma facts_of_update:
  "unat slot < length hs \<Longrightarrow>
   facts_of recs (hs[unat slot := h]) = (facts_of recs hs)(slot := vm_chain recs h)"
  by (auto simp: facts_of_def fun_eq_iff nth_list_update word_unat_eq_iff)

section \<open>The reference machine\<close>

record vm_spec =
  vs_facts :: "slot_token \<Rightarrow> vm_fact list"
  vs_next :: u64

text \<open>
  \<open>cap\<close> is the number of cells a frame may hold, \<open>slots\<close> the number of known slots and \<open>h\<close> the
  hash of the accepted records.  A frame holds the locals and, above them, the operands.
\<close>

definition ref_push :: "nat \<Rightarrow> cell \<Rightarrow> cell list \<times> vm_spec \<Rightarrow> exec_error + (cell list \<times> vm_spec)" where
  "ref_push cap c st =
     (if length (fst st) = cap then Inl StackOverflow else Inr (fst st @ [c], snd st))"

definition ref_step ::
  "nat \<Rightarrow> nat \<Rightarrow> u64 \<Rightarrow> instruction \<Rightarrow> cell list \<times> vm_spec \<Rightarrow> exec_error + (cell list \<times> vm_spec)" where
  "ref_step cap slots h ins st =
     (let (fr, s) = st; arg = i_argument ins; imm = i_immediate ins; n = length fr in
      case i_opcode ins of
        OpExpectObject \<Rightarrow>
          if arg = - 1 then (if h \<noteq> imm then Inl ExpectedValueMismatch else Inr st)
          else if unat arg \<ge> slots then Inl InvalidSlot
          else (case vs_facts s arg of
                  [] \<Rightarrow> Inl MissingExpectedValue
                | (_, _, ob) # _ \<Rightarrow> if ob = imm then Inr st else Inl ExpectedValueMismatch)
      | OpAllocate \<Rightarrow> ref_push cap (vs_next s) (fr, s\<lparr>vs_next := saturating_add_u64 (vs_next s) 1\<rparr>)
      | OpAllocateDiscard \<Rightarrow> Inr (fr, s\<lparr>vs_next := saturating_add_u64 (vs_next s) 1\<rparr>)
      | OpLoadLocal \<Rightarrow> if unat arg \<ge> n then Inl InvalidLocal else ref_push cap (fr ! unat arg) st
      | OpStoreLocal \<Rightarrow>
          if n = 0 then Inl StackUnderflow
          else if unat arg \<ge> n - 1 then Inl InvalidLocal
          else Inr ((butlast fr)[unat arg := last fr], s)
      | OpPushCell \<Rightarrow> ref_push cap imm st
      | OpDefine \<Rightarrow>
          if n < 3 then Inl StackUnderflow
          else if unat arg \<ge> slots then Inl InvalidSlot
          else Inr (take (n - 3) fr,
            s\<lparr>vs_facts := (vs_facts s)(arg := (fr ! (n - 3), fr ! (n - 2), fr ! (n - 1)) # vs_facts s arg)\<rparr>)
      | OpForget \<Rightarrow>
          if unat arg \<ge> slots then Inl InvalidSlot
          else Inr (fr, s\<lparr>vs_facts := (vs_facts s)(arg := tl (vs_facts s arg))\<rparr>)
      | OpReject \<Rightarrow> Inl ExplicitRejection)"

fun ref_run ::
  "nat \<Rightarrow> nat \<Rightarrow> u64 \<Rightarrow> instruction list \<Rightarrow> cell list \<times> vm_spec \<Rightarrow> exec_error + (cell list \<times> vm_spec)" where
  "ref_run cap slots h [] st = Inr st"
| "ref_run cap slots h (i # is) st = res_bind (ref_step cap slots h i st) (ref_run cap slots h is)"

text \<open>\<open>residue\<close> are the cells that the locals find.\<close>

definition ref_execute ::
  "nat \<Rightarrow> nat \<Rightarrow> u64 \<Rightarrow> cell list \<Rightarrow> intent_program \<Rightarrow> vm_spec \<Rightarrow> exec_error + vm_spec" where
  "ref_execute cap slots h residue prog s =
     (if unat (local_count prog) > cap then Inl StackOverflow
      else res_map snd (ref_run cap slots h (instructions prog) (take (unat (local_count prog)) residue, s)))"

section \<open>The state during a trial\<close>

definition ws_ok :: "workspace \<Rightarrow> bool" where
  "ws_ok w \<longleftrightarrow>
     arena_ok (ws_records w) \<and> arena_ok (ws_deltas w) \<and> arena_ok (ws_index_deltas w) \<and>
     records_ok (arena_active (ws_records w)) \<and>
     (\<forall>h \<in> set (ws_accepted_heads w). head_ok (arena_active (ws_records w)) h) \<and>
     ws_stack_pointer w \<le> length (ws_stack w)"

definition vm_abs :: "workspace \<Rightarrow> vm_spec" where
  "vm_abs w = \<lparr>vs_facts = facts_of (arena_active (ws_records w)) (ws_accepted_heads w), vs_next = ws_next_entity w\<rparr>"

text \<open>What no step of a trial changes.\<close>

definition same_world :: "workspace \<Rightarrow> workspace \<Rightarrow> bool" where
  "same_world w0 w \<longleftrightarrow>
     ws_accepted_heads w = ws_accepted_heads w0 \<and> ws_roots w = ws_roots w0 \<and> ws_last_root w = ws_last_root w0 \<and>
     ws_version w = ws_version w0 \<and> ws_semantic_hash w = ws_semantic_hash w0 \<and>
     ws_track_indexes w = ws_track_indexes w0 \<and> ws_historical_delta_offset w = ws_historical_delta_offset w0 \<and>
     length (ws_stack w) = length (ws_stack w0) \<and>
     take (ws_stack_pointer w0) (ws_stack w) = take (ws_stack_pointer w0) (ws_stack w0)"

text \<open>Every record comes with one slot delta and the index deltas of its transition.\<close>

definition delta_of :: "fact_record \<Rightarrow> slot_delta" where
  "delta_of r = \<lparr>sd_slot = fr_slot r, sd_previous = fr_previous r, sd_resulting = fr_resulting r\<rparr>"

definition index_transition :: "fact_record list \<Rightarrow> u32 \<Rightarrow> u32 \<Rightarrow> index_delta list" where
  "index_transition recs previous resulting =
     (if previous \<noteq> NONE then fact_index_deltas (recs ! unat previous) previous False else []) @
     (if resulting \<noteq> NONE then fact_index_deltas (recs ! unat resulting) resulting True else [])"

fun index_log :: "fact_record list \<Rightarrow> fact_record list \<Rightarrow> index_delta list" where
  "index_log recs [] = []"
| "index_log recs (r # ext) =
     index_transition (recs @ [r]) (fr_previous r) (fr_resulting r) @ index_log (recs @ [r]) ext"

lemma index_log_append:
  "index_log recs (xs @ ys) = index_log recs xs @ index_log (recs @ xs) ys"
  by (induction xs arbitrary: recs) simp_all

text \<open>What the code writes into a record, given the records and the heads before it.\<close>

definition resulting_head_of :: "fact_record list \<Rightarrow> fact_record \<Rightarrow> u32" where
  "resulting_head_of recs r =
     (case fr_kind r of
        RDefine \<Rightarrow> word_of_nat (length recs)
      | RForget \<Rightarrow> if fr_previous r = NONE then NONE else fr_previous (recs ! unat (fr_previous r)))"

fun well_logged :: "fact_record list \<Rightarrow> u32 list \<Rightarrow> fact_record list \<Rightarrow> bool" where
  "well_logged recs hs [] \<longleftrightarrow> True"
| "well_logged recs hs (r # ext) \<longleftrightarrow>
     unat (fr_slot r) < length hs \<and> fr_previous r = hs ! unat (fr_slot r) \<and> fr_resulting r = resulting_head_of recs r \<and>
     well_logged (recs @ [r]) (hs[unat (fr_slot r) := fr_resulting r]) ext"

lemma well_logged_append:
  "well_logged recs hs (xs @ ys) \<longleftrightarrow>
   well_logged recs hs xs \<and> well_logged (recs @ xs) (heads_after (map delta_of xs) hs) ys"
  by (induction xs arbitrary: recs hs) (auto simp: heads_after_def delta_of_def)

definition log_grown :: "workspace \<Rightarrow> workspace \<Rightarrow> bool" where
  "log_grown w0 w \<longleftrightarrow> (\<exists>ext.
     arena_active (ws_records w) = arena_active (ws_records w0) @ ext \<and>
     arena_active (ws_deltas w) = arena_active (ws_deltas w0) @ map delta_of ext \<and>
     arena_active (ws_index_deltas w) = arena_active (ws_index_deltas w0) @
       (if ws_track_indexes w0 then index_log (arena_active (ws_records w0)) ext else []) \<and>
     well_logged (arena_active (ws_records w0)) (ws_accepted_heads w0) ext)"

definition trial_deltas :: "workspace \<Rightarrow> workspace \<Rightarrow> slot_delta list" where
  "trial_deltas w0 w = drop (pa_frontier (ws_deltas w0)) (arena_active (ws_deltas w))"

definition trial_heads :: "workspace \<Rightarrow> workspace \<Rightarrow> u32 list" where
  "trial_heads w0 w = heads_after (trial_deltas w0 w) (ws_accepted_heads w0)"

definition frame_is :: "workspace \<Rightarrow> workspace \<Rightarrow> cell list \<Rightarrow> bool" where
  "frame_is w0 w fr \<longleftrightarrow>
     ws_frame_base w = ws_stack_pointer w0 \<and> ws_stack_pointer w = ws_stack_pointer w0 + length fr \<and>
     ws_stack_pointer w \<le> length (ws_stack w) \<and>
     take (length fr) (drop (ws_stack_pointer w0) (ws_stack w)) = fr"

definition trial :: "workspace \<Rightarrow> workspace \<Rightarrow> cell list \<Rightarrow> vm_spec \<Rightarrow> bool" where
  "trial w0 w fr s \<longleftrightarrow>
     same_world w0 w \<and> frame_is w0 w fr \<and>
     arena_ok (ws_records w) \<and> arena_ok (ws_deltas w) \<and> arena_ok (ws_index_deltas w) \<and> log_grown w0 w \<and>
     (\<forall>d \<in> set (trial_deltas w0 w). unat (sd_slot d) < length (ws_accepted_heads w0)) \<and>
     records_ok (arena_active (ws_records w)) \<and>
     (\<forall>h \<in> set (trial_heads w0 w). head_ok (arena_active (ws_records w)) h) \<and>
     s = \<lparr>vs_facts = facts_of (arena_active (ws_records w)) (trial_heads w0 w), vs_next = ws_next_entity w\<rparr>"

definition room :: "nat \<Rightarrow> workspace \<Rightarrow> bool" where
  "room k w \<longleftrightarrow>
     pa_frontier (ws_records w) + k \<le> unat NONE \<and> pa_frontier (ws_deltas w) + k \<le> unat NONE \<and>
     pa_frontier (ws_index_deltas w) + 6 * k \<le> unat NONE"

text \<open>Steps on the frame leave the rest alone.\<close>

lemma trial_frame:
  assumes "trial w0 w fr s" and "frame_is w0 (w\<lparr>ws_stack := stk, ws_stack_pointer := sp, ws_next_entity := n\<rparr>) fr'"
    and "length stk = length (ws_stack w)" and "take (ws_stack_pointer w0) stk = take (ws_stack_pointer w0) (ws_stack w)"
  shows "trial w0 (w\<lparr>ws_stack := stk, ws_stack_pointer := sp, ws_next_entity := n\<rparr>) fr' (s\<lparr>vs_next := n\<rparr>)"
  using assms by (simp add: trial_def same_world_def trial_deltas_def trial_heads_def log_grown_def)

lemma trial_stack:
  assumes "trial w0 w fr s" and "frame_is w0 (w\<lparr>ws_stack := stk, ws_stack_pointer := sp\<rparr>) fr'"
    and "length stk = length (ws_stack w)" and "take (ws_stack_pointer w0) stk = take (ws_stack_pointer w0) (ws_stack w)"
  shows "trial w0 (w\<lparr>ws_stack := stk, ws_stack_pointer := sp\<rparr>) fr' s"
  using assms by (simp add: trial_def same_world_def trial_deltas_def trial_heads_def log_grown_def)

lemma trial_next: "trial w0 w fr s \<Longrightarrow> vs_next s = ws_next_entity w"
  by (simp add: trial_def)

lemma push_trial:
  assumes "trial w0 w fr s"
  shows "case ref_push (length (ws_stack w0) - ws_stack_pointer w0) c (fr, s) of
      Inl e \<Rightarrow> vm_push c w = Some (Inl e, w)
    | Inr (fr', s') \<Rightarrow> \<exists>w'. vm_push c w = Some (Inr (), w') \<and> trial w0 w' fr' s' \<and>
        (\<forall>k. room k w' \<longleftrightarrow> room k w)"
proof -
  from assms have len: "length (ws_stack w) = length (ws_stack w0)" by (simp add: trial_def same_world_def)
  have fr: "ws_stack_pointer w = ws_stack_pointer w0 + length fr" "ws_stack_pointer w \<le> length (ws_stack w)"
    "take (length fr) (drop (ws_stack_pointer w0) (ws_stack w)) = fr" "ws_frame_base w = ws_stack_pointer w0"
    using assms by (simp_all add: trial_def frame_is_def)
  show ?thesis
  proof (cases "ws_stack_pointer w = length (ws_stack w)")
    case True
    then show ?thesis using fr len by (simp add: ref_push_def vm_push_def)
  next
    case False
    let ?stk = "(ws_stack w)[ws_stack_pointer w := c]"
    have "frame_is w0 (w\<lparr>ws_stack := ?stk, ws_stack_pointer := Suc (ws_stack_pointer w)\<rparr>) (fr @ [c])"
      using False fr by (simp add: frame_is_def take_Suc_conv_app_nth drop_update_swap)
    from trial_stack [OF assms this] have
      "trial w0 (w\<lparr>ws_stack := ?stk, ws_stack_pointer := Suc (ws_stack_pointer w)\<rparr>) (fr @ [c]) s"
      using fr by simp
    moreover have "length fr \<noteq> length (ws_stack w0) - ws_stack_pointer w0" using False fr len by simp
    ultimately show ?thesis using False by (simp add: ref_push_def vm_push_def room_def)
  qed
qed

lemma pop_trial:
  assumes "trial w0 w fr s"
  shows "if fr = [] then vm_pop w = Some (Inl StackUnderflow, w)
    else \<exists>w'. vm_pop w = Some (Inr (last fr), w') \<and> trial w0 w' (butlast fr) s \<and> (\<forall>k. room k w' \<longleftrightarrow> room k w)"
proof -
  have fr: "ws_stack_pointer w = ws_stack_pointer w0 + length fr" "ws_stack_pointer w \<le> length (ws_stack w)"
    "take (length fr) (drop (ws_stack_pointer w0) (ws_stack w)) = fr" "ws_frame_base w = ws_stack_pointer w0"
    using assms by (simp_all add: trial_def frame_is_def)
  show ?thesis
  proof (cases "fr = []")
    case True
    then show ?thesis using fr by (simp add: vm_pop_def)
  next
    case False
    then have pos: "0 < length fr" by simp
    have "butlast fr = take (length fr - 1) (take (length fr) (drop (ws_stack_pointer w0) (ws_stack w)))"
      unfolding fr(3) by (rule butlast_conv_take)
    then have "take (length fr - 1) (drop (ws_stack_pointer w0) (ws_stack w)) = butlast fr" by simp
    then have "frame_is w0 (w\<lparr>ws_stack := ws_stack w, ws_stack_pointer := ws_stack_pointer w - 1\<rparr>) (butlast fr)"
      using fr pos by (cases "length fr") (simp_all add: frame_is_def)
    from trial_stack [OF assms this] have "trial w0 (w\<lparr>ws_stack_pointer := ws_stack_pointer w - 1\<rparr>) (butlast fr) s"
      by simp
    moreover have "last fr = ws_stack w ! (ws_stack_pointer w - 1)"
    proof -
      have "last fr = fr ! (length fr - 1)" using False by (rule last_conv_nth)
      also have "\<dots> = take (length fr) (drop (ws_stack_pointer w0) (ws_stack w)) ! (length fr - 1)" by (simp only: fr(3))
      also have "\<dots> = ws_stack w ! (ws_stack_pointer w0 + (length fr - 1))" using pos fr(1,2) by simp
      finally show ?thesis using pos fr(1) by simp
    qed
    ultimately show ?thesis using False fr by (simp add: vm_pop_def room_def)
  qed
qed

lemma frame_nth:
  assumes "trial w0 w fr s" and "n < length fr"
  shows "ws_stack w ! (ws_stack_pointer w0 + n) = fr ! n"
proof -
  have fr: "ws_stack_pointer w0 + length fr \<le> length (ws_stack w)"
    "take (length fr) (drop (ws_stack_pointer w0) (ws_stack w)) = fr"
    using assms(1) by (simp_all add: trial_def frame_is_def)
  have "fr ! n = take (length fr) (drop (ws_stack_pointer w0) (ws_stack w)) ! n" by (simp only: fr(2))
  with assms(2) fr(1) show ?thesis by simp
qed

lemma local_trial:
  assumes "trial w0 w fr s"
  shows "vm_local n w = Some (if n \<ge> length fr then Inl InvalidLocal else Inr (fr ! n), w)"
  using frame_nth [OF assms, of n] assms
  by (auto simp: vm_local_def Let_def trial_def frame_is_def)

lemma set_local_trial:
  assumes "trial w0 w fr s"
  shows "if n \<ge> length fr then vm_set_local n c w = Some (Inl InvalidLocal, w)
    else \<exists>w'. vm_set_local n c w = Some (Inr (), w') \<and> trial w0 w' (fr[n := c]) s \<and> (\<forall>k. room k w' \<longleftrightarrow> room k w)"
proof -
  have fr: "ws_stack_pointer w = ws_stack_pointer w0 + length fr" "ws_stack_pointer w \<le> length (ws_stack w)"
    "take (length fr) (drop (ws_stack_pointer w0) (ws_stack w)) = fr" "ws_frame_base w = ws_stack_pointer w0"
    using assms by (simp_all add: trial_def frame_is_def)
  show ?thesis
  proof (cases "n \<ge> length fr")
    case True
    then show ?thesis using fr by (simp add: vm_set_local_def)
  next
    case False
    let ?stk = "(ws_stack w)[ws_stack_pointer w0 + n := c]"
    have "take (length fr) (drop (ws_stack_pointer w0) ?stk) =
        (take (length fr) (drop (ws_stack_pointer w0) (ws_stack w)))[n := c]"
      by (simp add: drop_update_swap take_update_swap)
    then have "frame_is w0 (w\<lparr>ws_stack := ?stk, ws_stack_pointer := ws_stack_pointer w\<rparr>) (fr[n := c])"
      using fr by (simp add: frame_is_def)
    from trial_stack [OF assms this] have "trial w0 (w\<lparr>ws_stack := ?stk\<rparr>) (fr[n := c]) s" by simp
    then show ?thesis using False fr by (simp add: vm_set_local_def room_def)
  qed
qed

lemma trial_head_ok:
  assumes "trial w0 w fr s" and "unat slot < length (ws_accepted_heads w0)"
  shows "head_ok (arena_active (ws_records w)) (trial_heads w0 w ! unat slot)"
    and "vs_facts s slot = vm_chain (arena_active (ws_records w)) (trial_heads w0 w ! unat slot)"
  using assms by (simp_all add: trial_def trial_heads_def facts_of_def)

lemma resolve_trial_head_ok:
  assumes "trial w0 w fr s"
  shows "resolve_trial_head slot (pa_frontier (ws_deltas w0)) w =
    Some (if unat slot < length (ws_accepted_heads w0) then Inr (trial_heads w0 w ! unat slot) else Inl InvalidSlot, w)"
proof -
  have same: "ws_accepted_heads w = ws_accepted_heads w0" using assms by (simp add: trial_def same_world_def)
  show ?thesis
  proof (cases "unat slot < length (ws_accepted_heads w0)")
    case True
    from find_heads_after [OF this, of "trial_deltas w0 w"] True show ?thesis
      by (auto simp: resolve_trial_head_def accepted_head_def same trial_heads_def trial_deltas_def split: option.splits)
  next
    case False
    then show ?thesis by (simp add: resolve_trial_head_def accepted_head_def same)
  qed
qed

section \<open>Appending a record\<close>

lemma push_index_deltas_ok:
  "arena_ok (ws_index_deltas w) \<Longrightarrow> pa_frontier (ws_index_deltas w) + length ds \<le> unat NONE \<Longrightarrow>
   \<exists>a. push_index_deltas ds w = Some (w\<lparr>ws_index_deltas := a\<rparr>) \<and> arena_ok a \<and>
     arena_active a = arena_active (ws_index_deltas w) @ ds \<and>
     pa_frontier a = pa_frontier (ws_index_deltas w) + length ds"
proof (induction ds arbitrary: w)
  case Nil
  then show ?case by (intro exI [of _ "ws_index_deltas w"]) simp
next
  case (Cons d ds)
  from arena_push_ok [OF Cons.prems(1), of d] Cons.prems(2) obtain a where
    a: "arena_push d (ws_index_deltas w) = Some (word_of_nat (pa_frontier (ws_index_deltas w)), a)" "arena_ok a"
      "arena_active a = arena_active (ws_index_deltas w) @ [d]" "pa_frontier a = Suc (pa_frontier (ws_index_deltas w))"
    by auto
  from Cons.IH [of "w\<lparr>ws_index_deltas := a\<rparr>"] a Cons.prems(2) show ?case by auto
qed

lemma push_index_deltas_append:
  "push_index_deltas (xs @ ys) w = Option.bind (push_index_deltas xs w) (push_index_deltas ys)"
proof (induction xs arbitrary: w)
  case (Cons d xs)
  then show ?case by (cases "arena_push d (ws_index_deltas w)") auto
qed simp

lemma length_index_transition: "length (index_transition recs p r) \<le> 6"
  by (simp add: index_transition_def fact_index_deltas_def)

lemma append_index_transition_ok:
  assumes "arena_ok (ws_records w)" and "arena_ok (ws_index_deltas w)"
    and "head_ok (arena_active (ws_records w)) previous" and "head_ok (arena_active (ws_records w)) resulting"
    and "pa_frontier (ws_index_deltas w) + 6 \<le> unat NONE"
  shows "\<exists>a. append_index_transition previous resulting w = Some (w\<lparr>ws_index_deltas := a\<rparr>) \<and> arena_ok a \<and>
    arena_active a = arena_active (ws_index_deltas w) @
      (if ws_track_indexes w then index_transition (arena_active (ws_records w)) previous resulting else []) \<and>
    pa_frontier a \<le> pa_frontier (ws_index_deltas w) + 6"
proof -
  have get: "arena_get (ws_records w) h = Some (arena_active (ws_records w) ! unat h)"
    if "head_ok (arena_active (ws_records w)) h" "h \<noteq> NONE" for h
    using that assms(1) by (simp add: arena_get_active head_ok_def)
  have "append_index_transition previous resulting w =
      push_index_deltas (if ws_track_indexes w then index_transition (arena_active (ws_records w)) previous resulting else []) w"
  proof (cases "ws_track_indexes w \<and> previous \<noteq> NONE \<and> resulting \<noteq> NONE")
    case True
    from push_index_deltas_ok [OF assms(2), of "fact_index_deltas (arena_active (ws_records w) ! unat previous) previous False"] assms(5)
    obtain a where "push_index_deltas (fact_index_deltas (arena_active (ws_records w) ! unat previous) previous False) w =
        Some (w\<lparr>ws_index_deltas := a\<rparr>)"
      by (auto simp: fact_index_deltas_def)
    with True assms(3,4) show ?thesis
      by (simp add: append_index_transition_def index_transition_def push_index_deltas_append get append_fact_indexes_def)
  next
    case False
    then show ?thesis
      using assms(3,4) by (auto simp: append_index_transition_def index_transition_def get append_fact_indexes_def)
  qed
  moreover have "length (if ws_track_indexes w then index_transition (arena_active (ws_records w)) previous resulting else []) \<le> 6"
    by (simp add: length_index_transition)
  ultimately show ?thesis
    using push_index_deltas_ok [OF assms(2), of "if ws_track_indexes w then index_transition (arena_active (ws_records w)) previous resulting else []"] assms(5)
    by auto
qed

lemma append_record_trial:
  assumes w0: "ws_ok w0" and tr: "trial w0 w fr s" and room: "room (Suc k) w"
    and slot: "unat (fr_slot r) < length (ws_accepted_heads w0)"
    and prev: "head_ok (arena_active (ws_records w)) (fr_previous r)"
    and res: "head_ok (arena_active (ws_records w) @ [r]) (fr_resulting r)"
    and logged: "fr_previous r = trial_heads w0 w ! unat (fr_slot r)"
      "fr_resulting r = resulting_head_of (arena_active (ws_records w)) r"
  shows "\<exists>w'. append_record r w = Some (Inr (), w') \<and> room k w' \<and>
    trial w0 w' fr (s\<lparr>vs_facts := (vs_facts s)(fr_slot r := vm_chain (arena_active (ws_records w) @ [r]) (fr_resulting r))\<rparr>)"
proof -
  let ?recs = "arena_active (ws_records w)"
  have ok: "arena_ok (ws_records w)" "arena_ok (ws_deltas w)" "arena_ok (ws_index_deltas w)" "records_ok ?recs"
    and same: "same_world w0 w"
    and heads: "\<forall>h \<in> set (trial_heads w0 w). head_ok ?recs h"
    using tr by (simp_all add: trial_def)
  have fits: "pa_frontier (ws_records w) < unat NONE" "pa_frontier (ws_deltas w) < unat NONE"
    "pa_frontier (ws_index_deltas w) + 6 \<le> unat NONE"
    using room by (simp_all add: room_def)
  obtain ra where ra: "arena_push r (ws_records w) = Some (word_of_nat (pa_frontier (ws_records w)), ra)" "arena_ok ra"
    "arena_active ra = ?recs @ [r]" "pa_frontier ra = Suc (pa_frontier (ws_records w))"
    using arena_push_ok [OF ok(1) fits(1), of r] by blast
  obtain da where da: "arena_push (delta_of r) (ws_deltas w) = Some (word_of_nat (pa_frontier (ws_deltas w)), da)"
    "arena_ok da" "arena_active da = arena_active (ws_deltas w) @ [delta_of r]" "pa_frontier da = Suc (pa_frontier (ws_deltas w))"
    using arena_push_ok [OF ok(2) fits(2), of "delta_of r"] by blast
  let ?w1 = "w\<lparr>ws_records := ra, ws_deltas := da\<rparr>"
  have "head_ok (?recs @ [r]) (fr_previous r)" using prev by (rule head_ok_append)
  then obtain ia where ia: "append_index_transition (fr_previous r) (fr_resulting r) ?w1 = Some (?w1\<lparr>ws_index_deltas := ia\<rparr>)"
    "arena_ok ia" "arena_active ia = arena_active (ws_index_deltas w) @
      (if ws_track_indexes w then index_transition (?recs @ [r]) (fr_previous r) (fr_resulting r) else [])"
    "pa_frontier ia \<le> pa_frontier (ws_index_deltas w) + 6"
    using append_index_transition_ok [of ?w1 "fr_previous r" "fr_resulting r"] ra(2,3) ok(3) res fits(3) by auto
  let ?w' = "w\<lparr>ws_records := ra, ws_deltas := da, ws_index_deltas := ia\<rparr>"
  have run: "append_record r w = Some (Inr (), ?w')"
    using ra(1) da(1) ia(1) by (simp add: append_record_def delta_of_def)
  have room': "room k ?w'"
    using room ra(4) da(4) ia(4) by (simp add: room_def)
  have grown: "log_grown w0 ?w'"
  proof -
    from tr obtain ext where ext: "?recs = arena_active (ws_records w0) @ ext"
      "arena_active (ws_deltas w) = arena_active (ws_deltas w0) @ map delta_of ext"
      "arena_active (ws_index_deltas w) = arena_active (ws_index_deltas w0) @
        (if ws_track_indexes w0 then index_log (arena_active (ws_records w0)) ext else [])"
      "well_logged (arena_active (ws_records w0)) (ws_accepted_heads w0) ext"
      by (auto simp: trial_def log_grown_def)
    have "trial_heads w0 w = heads_after (map delta_of ext) (ws_accepted_heads w0)"
      using ext(2) w0 by (simp add: trial_heads_def trial_deltas_def ws_ok_def length_arena_active)
    then have "well_logged (arena_active (ws_records w0)) (ws_accepted_heads w0) (ext @ [r])"
      using ext(1,4) logged slot by (simp add: well_logged_append)
    moreover have "ws_track_indexes w = ws_track_indexes w0" using same by (simp add: same_world_def)
    ultimately show ?thesis
      using ext(1-3) ra(3) da(3) ia(3)
      unfolding log_grown_def by (intro exI [of _ "ext @ [r]"]) (simp add: index_log_append)
  qed
  have deltas: "trial_deltas w0 ?w' = trial_deltas w0 w @ [delta_of r]"
    using da(3) tr w0 length_arena_active [of "ws_deltas w0"]
    by (auto simp: trial_deltas_def trial_def log_grown_def ws_ok_def)
  then have hds: "trial_heads w0 ?w' = (trial_heads w0 w)[unat (fr_slot r) := fr_resulting r]"
    by (simp add: trial_heads_def delta_of_def)
  have ok': "records_ok (?recs @ [r])" by (rule records_ok_snoc [OF ok(4) prev])
  have heads': "\<forall>h \<in> set (trial_heads w0 ?w'). head_ok (?recs @ [r]) h"
    using heads res set_update_subset_insert [of "trial_heads w0 w" "unat (fr_slot r)" "fr_resulting r"]
    by (auto simp: hds head_ok_append)
  have facts: "facts_of (?recs @ [r]) (trial_heads w0 ?w') =
      (facts_of ?recs (trial_heads w0 w))(fr_slot r := vm_chain (?recs @ [r]) (fr_resulting r))"
    unfolding hds using slot heads by (simp add: facts_of_update facts_of_append trial_heads_def)
  have "trial w0 ?w' fr (s\<lparr>vs_facts := (vs_facts s)(fr_slot r := vm_chain (?recs @ [r]) (fr_resulting r))\<rparr>)"
    using tr grown ok' heads' facts deltas slot ra(2,3) da(2) ia(2) same
    by (simp add: trial_def same_world_def frame_is_def delta_of_def)
  with run room' show ?thesis by blast
qed

lemma define_trial:
  assumes w0: "ws_ok w0" and tr: "trial w0 w fr s" and room: "room (Suc k) w"
  shows "if unat slot < length (ws_accepted_heads w0)
    then \<exists>w'. vm_define slot a b c (pa_frontier (ws_deltas w0)) w = Some (Inr (), w') \<and> room k w' \<and>
      trial w0 w' fr (s\<lparr>vs_facts := (vs_facts s)(slot := (a, b, c) # vs_facts s slot)\<rparr>)
    else vm_define slot a b c (pa_frontier (ws_deltas w0)) w = Some (Inl InvalidSlot, w)"
proof (cases "unat slot < length (ws_accepted_heads w0)")
  case True
  let ?recs = "arena_active (ws_records w)" and ?prev = "trial_heads w0 w ! unat slot"
  let ?n = "word_of_nat (pa_frontier (ws_records w)) :: u32"
  let ?r = "\<lparr>fr_kind = RDefine, fr_slot = slot, fr_subject = a, fr_predicate = b, fr_object = c,
    fr_previous = ?prev, fr_resulting = ?n\<rparr>"
  note prev = trial_head_ok [OF tr True]
  have ok: "arena_ok (ws_records w)" "records_ok ?recs" using tr by (simp_all add: trial_def)
  have n: "unat ?n = length ?recs" "?n \<noteq> NONE"
    using index_of_length [of "pa_frontier (ws_records w)"] room length_arena_active [OF ok(1)]
    by (simp_all add: room_def)
  then have res: "head_ok (?recs @ [?r]) ?n" by (simp add: head_ok_def)
  have "vm_chain (?recs @ [?r]) ?n = (a, b, c) # vs_facts s slot"
    using vm_chain_head [OF records_ok_snoc [OF ok(2)] res n(2)] prev n(1)
    by (simp add: record_triple_def head_ok_chain)
  moreover have "?n = resulting_head_of ?recs ?r"
    using length_arena_active [OF ok(1)] by (simp add: resulting_head_of_def)
  ultimately show ?thesis
    using append_record_trial [OF w0 tr room, of ?r] prev(1) res True
    by (simp add: vm_define_def resolve_trial_head_ok [OF tr])
next
  case False
  then show ?thesis by (simp add: vm_define_def resolve_trial_head_ok [OF tr])
qed

lemma forget_trial:
  assumes w0: "ws_ok w0" and tr: "trial w0 w fr s" and room: "room (Suc k) w"
  shows "if unat slot < length (ws_accepted_heads w0)
    then \<exists>w'. vm_forget slot (pa_frontier (ws_deltas w0)) w = Some (Inr (), w') \<and> room k w' \<and>
      trial w0 w' fr (s\<lparr>vs_facts := (vs_facts s)(slot := tl (vs_facts s slot))\<rparr>)
    else vm_forget slot (pa_frontier (ws_deltas w0)) w = Some (Inl InvalidSlot, w)"
proof (cases "unat slot < length (ws_accepted_heads w0)")
  case True
  let ?recs = "arena_active (ws_records w)" and ?prev = "trial_heads w0 w ! unat slot"
  let ?rev = "if ?prev = NONE then NONE else fr_previous (?recs ! unat ?prev)"
  let ?r = "\<lparr>fr_kind = RForget, fr_slot = slot, fr_subject = 0, fr_predicate = 0, fr_object = 0,
    fr_previous = ?prev, fr_resulting = ?rev\<rparr>"
  note prev = trial_head_ok [OF tr True]
  have ok: "arena_ok (ws_records w)" "records_ok ?recs" using tr by (simp_all add: trial_def)
  have rev: "head_ok ?recs ?rev"
    using prev(1) records_ok_previous [OF ok(2), of ?prev] by (auto simp: head_ok_def)
  have chain: "vm_chain (?recs @ [?r]) ?rev = tl (vs_facts s slot)"
    using head_ok_chain [OF rev, of "[?r]"] prev vm_chain_head [OF ok(2) prev(1)] by auto
  have get: "(if ?prev = NONE then Some NONE else map_option fr_previous (arena_get (ws_records w) ?prev)) = Some ?rev"
    using prev(1) by (auto simp: arena_get_active [OF ok(1)] head_ok_def)
  have "?rev = resulting_head_of ?recs ?r" by (simp add: resulting_head_of_def)
  with append_record_trial [OF w0 tr room, of ?r] True prev(1) head_ok_append [OF rev] chain show ?thesis
    by (simp add: vm_forget_def resolve_trial_head_ok [OF tr] get)
next
  case False
  then show ?thesis by (simp add: vm_forget_def resolve_trial_head_ok [OF tr])
qed

section \<open>An intent\<close>

definition vm_cap :: "workspace \<Rightarrow> nat" where
  "vm_cap w = length (ws_stack w) - ws_stack_pointer w"

definition vm_slots :: "workspace \<Rightarrow> nat" where
  "vm_slots w = length (ws_accepted_heads w)"

text \<open>The state and the result of one step of the two machines.\<close>

definition step_agrees ::
  "workspace \<Rightarrow> nat \<Rightarrow> unit vm_result \<Rightarrow> exec_error + (cell list \<times> vm_spec) \<Rightarrow> bool" where
  "step_agrees w0 k r ref \<longleftrightarrow>
     (\<exists>w fr s. (case ref of
          Inl e \<Rightarrow> r = Some (Inl e, w)
        | Inr st \<Rightarrow> r = Some (Inr (), w) \<and> st = (fr, s)) \<and>
        trial w0 w fr s \<and> room k w)"

lemma step_agrees_Inl: "trial w0 w fr s \<Longrightarrow> room k w \<Longrightarrow> step_agrees w0 k (Some (Inl e, w)) (Inl e)"
  by (auto simp: step_agrees_def)

lemma step_agrees_Inr: "trial w0 w fr s \<Longrightarrow> room k w \<Longrightarrow> step_agrees w0 k (Some (Inr (), w)) (Inr (fr, s))"
  by (auto simp: step_agrees_def)

lemma room_less: "room (Suc k) w \<Longrightarrow> room k w"
  by (simp add: room_def)

lemma push_agrees:
  assumes "trial w0 w fr s" and "room (Suc k) w"
  shows "step_agrees w0 k (vm_push c w) (ref_push (vm_cap w0) c (fr, s))"
  using push_trial [OF assms(1), of c] assms room_less [OF assms(2)]
  by (cases "ref_push (vm_cap w0) c (fr, s)")
    (auto simp: vm_cap_def step_agrees_def split: prod.splits)

lemma trial_alloc:
  assumes "trial w0 w fr s"
  shows "trial w0 (w\<lparr>ws_next_entity := n\<rparr>) fr (s\<lparr>vs_next := n\<rparr>)"
proof -
  have "frame_is w0 (w\<lparr>ws_stack := ws_stack w, ws_stack_pointer := ws_stack_pointer w, ws_next_entity := n\<rparr>) fr"
    using assms by (simp add: trial_def frame_is_def)
  from trial_frame [OF assms this] show ?thesis by simp
qed

lemma pop3_trial:
  assumes tr: "trial w0 w fr s" and n: "3 \<le> length fr"
  shows "\<exists>w'. vm_bind (vm_pop w) (\<lambda>c w. vm_bind (vm_pop w) (\<lambda>b w. vm_bind (vm_pop w) (\<lambda>a w. F a b c w))) =
      F (fr ! (length fr - 3)) (fr ! (length fr - 2)) (fr ! (length fr - 1)) w' \<and>
    trial w0 w' (take (length fr - 3) fr) s \<and> (\<forall>k. room k w' \<longleftrightarrow> room k w)"
proof -
  obtain fr' a b c where fr: "fr = fr' @ [a, b, c]"
  proof
    show "fr = take (length fr - 3) fr @ [fr ! (length fr - 3), fr ! (length fr - 2), fr ! (length fr - 1)]"
    proof -
      have "drop (length fr - 3) fr = [fr ! (length fr - 3), fr ! (length fr - 2), fr ! (length fr - 1)]"
        using n by (intro nth_equalityI) (auto simp: less_Suc_eq nth_Cons' numeral_3_eq_3 numeral_2_eq_2)
      then show ?thesis by (metis append_take_drop_id)
    qed
  qed
  from pop_trial [OF tr] obtain w1 where 1: "vm_pop w = Some (Inr c, w1)" "trial w0 w1 (fr' @ [a, b]) s"
      "\<forall>k. room k w1 \<longleftrightarrow> room k w"
    by (auto simp: fr butlast_append)
  from pop_trial [OF 1(2)] obtain w2 where 2: "vm_pop w1 = Some (Inr b, w2)" "trial w0 w2 (fr' @ [a]) s"
      "\<forall>k. room k w2 \<longleftrightarrow> room k w1"
    by (auto simp: butlast_append)
  from pop_trial [OF 2(2)] obtain w3 where 3: "vm_pop w2 = Some (Inr a, w3)" "trial w0 w3 fr' s"
      "\<forall>k. room k w3 \<longleftrightarrow> room k w2"
    by auto
  from 1 2 3 show ?thesis by (intro exI [of _ w3]) (simp add: fr nth_append)
qed

lemma pop_short_trial:
  assumes tr: "trial w0 w fr s" and n: "length fr < 3"
  shows "\<exists>w' fr'. vm_bind (vm_pop w) (\<lambda>c w. vm_bind (vm_pop w) (\<lambda>b w. vm_bind (vm_pop w) (\<lambda>a w. F a b c w))) =
      Some (Inl StackUnderflow, w') \<and> trial w0 w' fr' s \<and> (\<forall>k. room k w' \<longleftrightarrow> room k w)"
proof -
  have empty: "vm_pop v = Some (Inl StackUnderflow, v)" if "trial w0 v [] s" for v
    using pop_trial [OF that] by simp
  consider "fr = []" | c where "fr = [c]" | b c where "fr = [b, c]"
    using n by (cases fr; cases "tl fr"; cases "tl (tl fr)") auto
  then show ?thesis
  proof cases
    case 1
    with tr empty show ?thesis by fastforce
  next
    case (2 c)
    from pop_trial [OF tr] 2 obtain w1 where "vm_pop w = Some (Inr c, w1)" "trial w0 w1 [] s"
        "\<forall>k. room k w1 \<longleftrightarrow> room k w"
      by auto
    with empty show ?thesis by fastforce
  next
    case (3 b c)
    from pop_trial [OF tr] 3 obtain w1 where 1: "vm_pop w = Some (Inr c, w1)" "trial w0 w1 [b] s"
        "\<forall>k. room k w1 \<longleftrightarrow> room k w"
      by auto
    from pop_trial [OF 1(2)] obtain w2 where "vm_pop w1 = Some (Inr b, w2)" "trial w0 w2 [] s"
        "\<forall>k. room k w2 \<longleftrightarrow> room k w1"
      by auto
    with 1 empty show ?thesis by fastforce
  qed
qed

lemma resolve_trial_object_ok:
  assumes tr: "trial w0 w fr s"
  shows "resolve_trial_object slot (pa_frontier (ws_deltas w0)) w =
    Some (if unat slot < length (ws_accepted_heads w0)
      then Inr (case vs_facts s slot of [] \<Rightarrow> None | (a, b, c) # _ \<Rightarrow> Some c) else Inl InvalidSlot, w)"
proof (cases "unat slot < length (ws_accepted_heads w0)")
  case True
  note head = trial_head_ok [OF tr True]
  have ok: "arena_ok (ws_records w)" "records_ok (arena_active (ws_records w))" using tr by (simp_all add: trial_def)
  show ?thesis
  proof (cases "trial_heads w0 w ! unat slot = NONE")
    case True
    with head(2) show ?thesis by (simp add: resolve_trial_object_def resolve_trial_head_ok [OF tr])
  next
    case False
    with head(1) vm_chain_head [OF ok(2) head(1) False] show ?thesis
      by (auto simp: resolve_trial_object_def resolve_trial_head_ok [OF tr] arena_get_active [OF ok(1)]
          head_ok_def head(2) record_triple_def)
  qed
next
  case False
  then show ?thesis by (simp add: resolve_trial_object_def resolve_trial_head_ok [OF tr])
qed

lemma instruction_agrees:
  assumes w0: "ws_ok w0" and tr: "trial w0 w fr s" and room: "room (Suc k) w"
  shows "step_agrees w0 k (execute_instruction ins (vm_checkpoint w0) w)
    (ref_step (vm_cap w0) (vm_slots w0) (ws_semantic_hash w0) ins (fr, s))"
proof -
  let ?arg = "i_argument ins"
  have hash: "ws_semantic_hash w = ws_semantic_hash w0" using tr by (simp add: trial_def same_world_def)
  have cp: "cp_delta_frontier (vm_checkpoint w0) = pa_frontier (ws_deltas w0)" by (simp add: vm_checkpoint_def)
  note room' = room_less [OF room]
  note Inl = step_agrees_Inl [OF tr room'] and Inr = step_agrees_Inr [OF tr room']
  show ?thesis
  proof (cases "i_opcode ins")
    case OpExpectObject
    show ?thesis
    proof (cases "?arg = - 1")
      case True
      with OpExpectObject show ?thesis
        using Inl [of ExpectedValueMismatch] Inr by (simp add: execute_instruction_def ref_step_def hash)
    next
      case False
      with OpExpectObject show ?thesis
        using Inl Inr
        by (cases "vs_facts s ?arg")
          (auto simp: execute_instruction_def ref_step_def cp resolve_trial_object_ok [OF tr] vm_slots_def)
    qed
  next
    case OpAllocate
    have "room (Suc k) (w\<lparr>ws_next_entity := saturating_add_u64 (ws_next_entity w) 1\<rparr>)" using room by (simp add: room_def)
    from push_agrees [OF trial_alloc [OF tr] this] OpAllocate show ?thesis
      by (simp add: execute_instruction_def ref_step_def trial_next [OF tr])
  next
    case OpAllocateDiscard
    with trial_alloc [OF tr] room' show ?thesis
      by (auto simp: execute_instruction_def ref_step_def trial_next [OF tr] room_def intro!: step_agrees_Inr)
  next
    case OpLoadLocal
    with push_agrees [OF tr room, of "fr ! unat ?arg"] Inl [of InvalidLocal] show ?thesis
      by (simp add: execute_instruction_def ref_step_def local_trial [OF tr])
  next
    case OpStoreLocal
    show ?thesis
    proof (cases "fr = []")
      case True
      with pop_trial [OF tr] OpStoreLocal Inl [of StackUnderflow] show ?thesis
        by (simp add: execute_instruction_def ref_step_def)
    next
      case False
      with pop_trial [OF tr] obtain w1 where 1: "vm_pop w = Some (Inr (last fr), w1)" "trial w0 w1 (butlast fr) s"
          "\<forall>k. room k w1 \<longleftrightarrow> room k w"
        by auto
      with set_local_trial [OF 1(2), of "unat ?arg" "last fr"] False OpStoreLocal room' show ?thesis
        by (auto simp: execute_instruction_def ref_step_def step_agrees_def split: if_splits)
    qed
  next
    case OpPushCell
    with push_agrees [OF tr room] show ?thesis by (simp add: execute_instruction_def ref_step_def)
  next
    case OpDefine
    let ?F = "\<lambda>a b c w. vm_define ?arg a b c (pa_frontier (ws_deltas w0)) w"
    show ?thesis
    proof (cases "length fr < 3")
      case True
      with pop_short_trial [OF tr True, of ?F] OpDefine room' show ?thesis
        by (auto simp: execute_instruction_def ref_step_def cp step_agrees_def)
    next
      case False
      with pop3_trial [OF tr, of ?F] obtain w1 where 1:
        "execute_instruction ins (vm_checkpoint w0) w =
           ?F (fr ! (length fr - 3)) (fr ! (length fr - 2)) (fr ! (length fr - 1)) w1"
        "trial w0 w1 (take (length fr - 3) fr) s" "\<forall>k. room k w1 \<longleftrightarrow> room k w"
        using OpDefine by (auto simp: execute_instruction_def cp)
      have "room (Suc k) w1" using 1(3) room by simp
      from define_trial [OF w0 1(2) this, of ?arg "fr ! (length fr - 3)" "fr ! (length fr - 2)" "fr ! (length fr - 1)"]
        1 False OpDefine room' show ?thesis
        by (auto simp: ref_step_def step_agrees_def vm_slots_def Let_def split: if_splits)
    qed
  next
    case OpForget
    with forget_trial [OF w0 tr room, of ?arg] Inl [of InvalidSlot] show ?thesis
      by (auto simp: execute_instruction_def ref_step_def cp step_agrees_def vm_slots_def Let_def split: if_splits)
  next
    case OpReject
    with Inl [of ExplicitRejection] show ?thesis by (simp add: execute_instruction_def ref_step_def)
  qed
qed

lemma loop_agrees:
  assumes w0: "ws_ok w0" and "trial w0 w fr s" and "room (length is + k) w"
  shows "\<exists>j \<ge> k. step_agrees w0 j (execute_loop is (vm_checkpoint w0) w)
    (ref_run (vm_cap w0) (vm_slots w0) (ws_semantic_hash w0) is (fr, s))"
  using assms(2,3)
proof (induction "is" arbitrary: w fr s)
  case Nil
  then show ?case by (auto simp: step_agrees_def)
next
  case (Cons i "is")
  from Cons.prems have "room (Suc (length is + k)) w" by simp
  from instruction_agrees [OF w0 Cons.prems(1) this, of i]
  show ?case
  proof (cases "ref_step (vm_cap w0) (vm_slots w0) (ws_semantic_hash w0) i (fr, s)")
    case (Inl e)
    with \<open>step_agrees w0 (length is + k) _ _\<close> show ?thesis
      by (intro exI [of _ "length is + k"]) (fastforce simp: step_agrees_def)
  next
    case (Inr st)
    with \<open>step_agrees w0 (length is + k) _ _\<close> obtain w1 fr1 s1 where
      1: "execute_instruction i (vm_checkpoint w0) w = Some (Inr (), w1)" "st = (fr1, s1)"
        "trial w0 w1 fr1 s1" "room (length is + k) w1"
      by (auto simp: step_agrees_def)
    from Cons.IH [OF 1(3,4)] Inr 1(1,2) show ?thesis by simp
  qed
qed

section \<open>What a reader sees\<close>

text \<open>The cells below the stack pointer and the active slices; not the cells beyond them.\<close>

definition visible where
  "visible w =
     (take (ws_stack_pointer w) (ws_stack w), length (ws_stack w), ws_stack_pointer w, ws_frame_base w,
      arena_active (ws_records w), arena_active (ws_deltas w), arena_active (ws_index_deltas w),
      ws_roots w, ws_accepted_heads w, ws_next_entity w, ws_last_root w, ws_version w, ws_semantic_hash w,
      ws_track_indexes w, ws_historical_delta_offset w)"

lemma rollback_visible:
  assumes w0: "ws_ok w0" and tr: "trial w0 w fr s"
  shows "visible (vm_rollback (vm_checkpoint w0) w) = visible w0" and "ws_ok (vm_rollback (vm_checkpoint w0) w)"
proof -
  have ok: "arena_ok (ws_records w)" "arena_ok (ws_deltas w)" "arena_ok (ws_index_deltas w)"
    and same: "same_world w0 w" and grown: "log_grown w0 w"
    using tr by (simp_all add: trial_def)
  have len: "pa_frontier (ws_records w0) = length (arena_active (ws_records w0))"
    "pa_frontier (ws_deltas w0) = length (arena_active (ws_deltas w0))"
    "pa_frontier (ws_index_deltas w0) = length (arena_active (ws_index_deltas w0))"
    using w0 by (simp_all add: ws_ok_def length_arena_active)
  obtain ext where ext: "arena_active (ws_records w) = arena_active (ws_records w0) @ ext"
    "arena_active (ws_deltas w) = arena_active (ws_deltas w0) @ map delta_of ext"
    "arena_active (ws_index_deltas w) = arena_active (ws_index_deltas w0) @
      (if ws_track_indexes w0 then index_log (arena_active (ws_records w0)) ext else [])"
    using grown by (auto simp: log_grown_def)
  note restored = arena_restore_ok [OF ok(1) ext(1) len(1)] arena_restore_ok [OF ok(2) ext(2) len(2)]
    arena_restore_ok [OF ok(3) ext(3) len(3)]
  show "visible (vm_rollback (vm_checkpoint w0) w) = visible w0"
    using same restored by (simp add: visible_def vm_rollback_def vm_checkpoint_def same_world_def)
  show "ws_ok (vm_rollback (vm_checkpoint w0) w)"
    using same restored w0 by (simp add: ws_ok_def vm_rollback_def vm_checkpoint_def same_world_def)
qed

lemma accept_ok:
  assumes w0: "ws_ok w0" and tr: "trial w0 w fr s"
  shows "\<exists>w'. vm_accept (vm_checkpoint w0) w = Some w' \<and> ws_ok w' \<and> vm_abs w' = s \<and> log_grown w0 w' \<and>
    ws_accepted_heads w' = trial_heads w0 w \<and>
    (\<exists>ext. arena_active (ws_records w') = arena_active (ws_records w0) @ ext \<and>
       ws_semantic_hash w' = foldl hash_record (ws_semantic_hash w0) ext) \<and>
    ws_stack_pointer w' = ws_stack_pointer w0 \<and> ws_frame_base w' = ws_frame_base w0 \<and>
    length (ws_stack w') = length (ws_stack w0) \<and> ws_roots w' = ws_roots w0 \<and> ws_last_root w' = ws_last_root w0 \<and>
    ws_version w' = ws_version w0 \<and> ws_track_indexes w' = ws_track_indexes w0"
proof -
  have same: "same_world w0 w" and grown: "log_grown w0 w"
    and slots: "\<forall>d \<in> set (trial_deltas w0 w). unat (sd_slot d) < length (ws_accepted_heads w0)"
    using tr by (simp_all add: trial_def)
  have len: "pa_frontier (ws_records w0) = length (arena_active (ws_records w0))"
    using w0 by (simp add: ws_ok_def length_arena_active)
  obtain ext where ext: "arena_active (ws_records w) = arena_active (ws_records w0) @ ext"
    using grown by (auto simp: log_grown_def)
  have heads: "move_heads (drop (pa_frontier (ws_deltas w0)) (arena_active (ws_deltas w))) (ws_accepted_heads w) =
      Some (trial_heads w0 w)"
    using move_heads_after [OF slots] same by (simp add: trial_deltas_def trial_heads_def same_world_def)
  have le: "ws_stack_pointer w0 \<le> length (ws_stack w)" using tr by (simp add: trial_def frame_is_def)
  let ?w' = "w\<lparr>ws_accepted_heads := trial_heads w0 w,
      ws_semantic_hash := foldl hash_record (ws_semantic_hash w0) ext,
      ws_stack_pointer := ws_stack_pointer w0, ws_frame_base := ws_frame_base w0\<rparr>"
  have "vm_accept (vm_checkpoint w0) w = Some ?w'"
    using same by (simp add: vm_accept_def vm_checkpoint_def heads) (simp add: ext len same_world_def)
  then show ?thesis
    using tr same grown le ext
    by (intro exI [of _ ?w']) (simp add: ws_ok_def vm_abs_def trial_def same_world_def log_grown_def)
qed

lemma trial_start:
  assumes "ws_ok w" and "n \<le> vm_cap w"
  shows "trial w (w\<lparr>ws_frame_base := ws_stack_pointer w, ws_stack_pointer := ws_stack_pointer w + n\<rparr>)
    (take n (drop (ws_stack_pointer w) (ws_stack w))) (vm_abs w)"
  using assms
  by (auto simp: trial_def same_world_def frame_is_def ws_ok_def log_grown_def trial_deltas_def trial_heads_def
      vm_abs_def vm_cap_def length_arena_active)

lemma execute_cases_room:
  assumes ok: "ws_ok w" and room: "room (length (instructions prog) + k) w"
  shows "case ref_execute (vm_cap w) (vm_slots w) (ws_semantic_hash w) (drop (ws_stack_pointer w) (ws_stack w)) prog (vm_abs w) of
      Inl e \<Rightarrow> \<exists>w'. execute prog w = Some (Rejected e, w') \<and> visible w' = visible w \<and> ws_ok w'
    | Inr s \<Rightarrow> \<exists>w1 fr w'. trial w w1 fr s \<and> vm_accept (vm_checkpoint w) w1 = Some w' \<and> room k w1 \<and>
        execute prog w = Some (Accepted, w')"
proof -
  let ?n = "unat (local_count prog)" and ?w = "w\<lparr>ws_frame_base := ws_stack_pointer w\<rparr>"
  have sp: "ws_stack_pointer w \<le> length (ws_stack w)" using ok by (simp add: ws_ok_def)
  show ?thesis
  proof (cases "?n > vm_cap w")
    case True
    with sp have "vm_reserve ?n ?w = Some (Inl StackOverflow, ?w)" by (simp add: vm_reserve_def vm_cap_def)
    then have run: "execute prog w = Some (Rejected StackOverflow, vm_rollback (vm_checkpoint w) ?w)"
      by (simp add: execute_def execute_instructions_def Let_def)
    have "trial w ?w [] (vm_abs w)" using trial_start [OF ok, of 0] by simp
    from rollback_visible [OF ok this] run True show ?thesis by (simp add: ref_execute_def)
  next
    case False
    let ?w1 = "w\<lparr>ws_frame_base := ws_stack_pointer w, ws_stack_pointer := ws_stack_pointer w + ?n\<rparr>"
    let ?fr = "take ?n (drop (ws_stack_pointer w) (ws_stack w))"
    have reserve: "vm_reserve ?n ?w = Some (Inr (), ?w1)"
      using False sp by (simp add: vm_reserve_def vm_cap_def)
    have tr: "trial w ?w1 ?fr (vm_abs w)" using False by (intro trial_start ok) simp
    have "room (length (instructions prog) + k) ?w1" using room by (simp add: room_def)
    from loop_agrees [OF ok tr this] obtain j where j: "k \<le> j" and agrees:
      "step_agrees w j (execute_loop (instructions prog) (vm_checkpoint w) ?w1)
        (ref_run (vm_cap w) (vm_slots w) (ws_semantic_hash w) (instructions prog) (?fr, vm_abs w))" by blast
    show ?thesis
    proof (cases "ref_run (vm_cap w) (vm_slots w) (ws_semantic_hash w) (instructions prog) (?fr, vm_abs w)")
      case (Inl e)
      with agrees obtain w2 fr s where
        2: "execute_loop (instructions prog) (vm_checkpoint w) ?w1 = Some (Inl e, w2)" "trial w w2 fr s"
        by (auto simp: step_agrees_def)
      then have "execute prog w = Some (Rejected e, vm_rollback (vm_checkpoint w) w2)"
        by (simp add: execute_def execute_instructions_def Let_def reserve)
      with rollback_visible [OF ok 2(2)] Inl False show ?thesis by (simp add: ref_execute_def)
    next
      case (Inr st)
      with agrees obtain w2 fr s where
        2: "execute_loop (instructions prog) (vm_checkpoint w) ?w1 = Some (Inr (), w2)" "st = (fr, s)" "trial w w2 fr s"
          "room k w2"
        using j by (auto simp: step_agrees_def room_def)
      from accept_ok [OF ok 2(3)] obtain w3 where 3: "vm_accept (vm_checkpoint w) w2 = Some w3" by blast
      then have "execute prog w = Some (Accepted, w3)"
        using 2(1) by (simp add: execute_def execute_instructions_def Let_def reserve)
      with 2 3 Inr False show ?thesis by (auto simp: ref_execute_def)
    qed
  qed
qed

lemmas execute_cases = execute_cases_room [where k = 0, simplified]

lemma workspace_new_ok: "ws_ok (workspace_new slots cells track)"
  by (simp add: ws_ok_def workspace_new_def arena_simps records_ok_def head_ok_def)

lemma workspace_new_abs: "vm_abs (workspace_new slots cells track) = \<lparr>vs_facts = (\<lambda>_. []), vs_next = 1\<rparr>"
  by (simp add: vm_abs_def workspace_new_def arena_simps facts_of_def fun_eq_iff)

section \<open>Reading the accepted state\<close>

lemma resolve_object_abs:
  assumes "ws_ok w"
  shows "resolve_object w slot = Some (case vs_facts (vm_abs w) slot of [] \<Rightarrow> None | (a, b, c) # _ \<Rightarrow> Some c)"
    and "resolve_fact_cells w slot = Some (case vs_facts (vm_abs w) slot of [] \<Rightarrow> None | t # _ \<Rightarrow> Some t)"
proof -
  let ?recs = "arena_active (ws_records w)" and ?h = "ws_accepted_heads w ! unat slot"
  have ok: "arena_ok (ws_records w)" "records_ok ?recs" using assms by (simp_all add: ws_ok_def)
  have "resolve_object w slot = Some (case vs_facts (vm_abs w) slot of [] \<Rightarrow> None | (a, b, c) # _ \<Rightarrow> Some c) \<and>
      resolve_fact_cells w slot = Some (case vs_facts (vm_abs w) slot of [] \<Rightarrow> None | t # _ \<Rightarrow> Some t)"
  proof (cases "unat slot < length (ws_accepted_heads w)")
    case True
    then have head: "head_ok ?recs ?h" using assms by (simp add: ws_ok_def)
    show ?thesis
    proof (cases "?h = NONE")
      case True
      then show ?thesis by (simp add: resolve_object_def resolve_fact_cells_def accepted_head_def vm_abs_def facts_of_def)
    next
      case False
      with head have "unat ?h < length ?recs" by (simp add: head_ok_def)
      with True False vm_chain_head [OF ok(2) head False] show ?thesis
        by (simp add: resolve_object_def resolve_fact_cells_def accepted_head_def vm_abs_def facts_of_def
            arena_get_active [OF ok(1)] record_triple_def)
    qed
  next
    case False
    then show ?thesis by (simp add: resolve_object_def resolve_fact_cells_def accepted_head_def vm_abs_def facts_of_def)
  qed
  then show "resolve_object w slot = Some (case vs_facts (vm_abs w) slot of [] \<Rightarrow> None | (a, b, c) # _ \<Rightarrow> Some c)"
    "resolve_fact_cells w slot = Some (case vs_facts (vm_abs w) slot of [] \<Rightarrow> None | t # _ \<Rightarrow> Some t)" by simp_all
qed

section \<open>Definite assignment\<close>

text \<open>
  \<open>assigned\<close> follows which cells of the frame have been written by the program itself; it accepts
  a program that never moves a cell it has not written.
\<close>

fun assigned :: "bool list \<Rightarrow> instruction list \<Rightarrow> bool" where
  "assigned fl [] = True"
| "assigned fl (i # is) =
     (case i_opcode i of
        OpAllocate \<Rightarrow> assigned (fl @ [True]) is
      | OpPushCell \<Rightarrow> assigned (fl @ [True]) is
      | OpLoadLocal \<Rightarrow> unat (i_argument i) < length fl \<longrightarrow> fl ! unat (i_argument i) \<and> assigned (fl @ [True]) is
      | OpStoreLocal \<Rightarrow>
          fl \<noteq> [] \<and> unat (i_argument i) < length fl - 1 \<longrightarrow>
          last fl \<and> assigned ((butlast fl)[unat (i_argument i) := True]) is
      | OpDefine \<Rightarrow>
          3 \<le> length fl \<longrightarrow> fl ! (length fl - 3) \<and> fl ! (length fl - 2) \<and> fl ! (length fl - 1) \<and>
          assigned (take (length fl - 3) fl) is
      | _ \<Rightarrow> assigned fl is)"

definition agree :: "bool list \<Rightarrow> cell list \<Rightarrow> cell list \<Rightarrow> bool" where
  "agree fl xs ys \<longleftrightarrow> length xs = length fl \<and> length ys = length fl \<and> (\<forall>i < length fl. fl ! i \<longrightarrow> xs ! i = ys ! i)"

lemma agree_push: "agree fl xs ys \<Longrightarrow> agree (fl @ [True]) (xs @ [c]) (ys @ [c])"
  by (auto simp: agree_def nth_append less_Suc_eq)

lemma agree_take: "agree fl xs ys \<Longrightarrow> agree (take n fl) (take n xs) (take n ys)"
  by (auto simp: agree_def)

lemma agree_update:
  "agree fl xs ys \<Longrightarrow> n < length fl \<Longrightarrow> agree (fl[n := True]) (xs[n := c]) (ys[n := c])"
  by (auto simp: agree_def nth_list_update)

lemma assigned_run:
  "assigned fl is \<Longrightarrow> agree fl xs ys \<Longrightarrow>
   res_map snd (ref_run cap slots h is (xs, s)) = res_map snd (ref_run cap slots h is (ys, s))"
proof (induction "is" arbitrary: fl xs ys s)
  case (Cons i "is")
  have len: "length xs = length fl" "length ys = length fl" using Cons.prems(2) by (simp_all add: agree_def)
  then have empty: "xs = [] \<longleftrightarrow> fl = []" "ys = [] \<longleftrightarrow> fl = []" by auto
  have eq: "n < length fl \<Longrightarrow> fl ! n \<Longrightarrow> xs ! n = ys ! n" for n using Cons.prems(2) by (simp add: agree_def)
  have push: "assigned (fl @ [True]) is \<Longrightarrow>
      res_map snd (res_bind (ref_push cap c (xs, s')) (ref_run cap slots h is)) =
      res_map snd (res_bind (ref_push cap c (ys, s')) (ref_run cap slots h is))" for c s'
    using Cons.IH [OF _ agree_push [OF Cons.prems(2)]] by (simp add: ref_push_def len)
  show ?case
  proof (cases "i_opcode i")
    case OpStoreLocal
    show ?thesis
    proof (cases "fl \<noteq> [] \<and> unat (i_argument i) < length fl - 1")
      case True
      with OpStoreLocal Cons.prems(1) have fl: "last fl" "assigned ((butlast fl)[unat (i_argument i) := True]) is" by simp_all
      from True len have ne: "xs \<noteq> []" "ys \<noteq> []" by auto
      have last: "last xs = last ys"
        using eq [of "length fl - 1"] fl(1) True len ne by (simp add: last_conv_nth)
      have "agree ((butlast fl)[unat (i_argument i) := True]) ((butlast xs)[unat (i_argument i) := last ys])
          ((butlast ys)[unat (i_argument i) := last ys])"
        using True agree_take [OF Cons.prems(2), of "length fl - 1"] by (intro agree_update) (simp_all add: butlast_conv_take len)
      from Cons.IH [OF fl(2) this] True last OpStoreLocal ne show ?thesis by (simp add: ref_step_def Let_def len)
    next
      case False
      then show ?thesis using OpStoreLocal by (auto simp: ref_step_def Let_def len empty)
    qed
  next
    case OpDefine
    with Cons.IH [OF _ agree_take [OF Cons.prems(2)]] Cons.prems(1) eq show ?thesis
      by (auto simp: ref_step_def Let_def len)
  next
    case OpLoadLocal
    with Cons.prems(1) push eq show ?thesis by (auto simp: ref_step_def Let_def len)
  next
    case OpAllocate
    with Cons.prems(1) push show ?thesis by (simp add: ref_step_def Let_def)
  next
    case OpPushCell
    with Cons.prems(1) push show ?thesis by (simp add: ref_step_def Let_def)
  next
    case OpExpectObject
    with Cons.prems Cons.IH [OF _ Cons.prems(2)] show ?thesis
      by (cases "vs_facts s (i_argument i)") (auto simp: ref_step_def Let_def)
  qed (use Cons.prems Cons.IH [OF _ Cons.prems(2)] in \<open>auto simp: ref_step_def Let_def\<close>)
qed simp

lemma room_visible:
  assumes "ws_ok v" and "ws_ok w" and "visible v = visible w"
  shows "room k v \<longleftrightarrow> room k w"
  using assms length_arena_active [of "ws_records v"] length_arena_active [of "ws_records w"]
    length_arena_active [of "ws_deltas v"] length_arena_active [of "ws_deltas w"]
    length_arena_active [of "ws_index_deltas v"] length_arena_active [of "ws_index_deltas w"]
  by (simp add: room_def ws_ok_def visible_def)

lemma execute_refines:
  assumes "ws_ok w" and "room (length (instructions prog)) w"
  shows "case ref_execute (vm_cap w) (vm_slots w) (ws_semantic_hash w) (drop (ws_stack_pointer w) (ws_stack w)) prog (vm_abs w) of
      Inl e \<Rightarrow> \<exists>w'. execute prog w = Some (Rejected e, w') \<and> visible w' = visible w \<and> ws_ok w'
    | Inr s \<Rightarrow> \<exists>w'. execute prog w = Some (Accepted, w') \<and> vm_abs w' = s \<and> ws_ok w' \<and> log_grown w w' \<and>
        (\<exists>ext. arena_active (ws_records w') = arena_active (ws_records w) @ ext \<and>
           ws_semantic_hash w' = foldl hash_record (ws_semantic_hash w) ext)"
proof (cases "ref_execute (vm_cap w) (vm_slots w) (ws_semantic_hash w) (drop (ws_stack_pointer w) (ws_stack w)) prog (vm_abs w)")
  case (Inl e)
  with execute_cases [OF assms] show ?thesis by simp
next
  case (Inr s)
  with execute_cases [OF assms] obtain w1 fr w' where
    1: "trial w w1 fr s" "vm_accept (vm_checkpoint w) w1 = Some w'" "execute prog w = Some (Accepted, w')" by auto
  with accept_ok [OF assms(1) 1(1)] Inr show ?thesis by auto
qed

lemma execute_rejected:
  assumes "ws_ok w" and "room (length (instructions prog)) w" and "execute prog w = Some (Rejected e, w')"
  shows "visible w' = visible w" and "ws_ok w'"
  using execute_refines [OF assms(1,2)] assms(3) by (auto split: sum.splits)

section \<open>Properties\<close>

text \<open>
  C14. Executing an intent refines the reference machine.  If the reference machine refuses, the
  workspace rejects with the same reason and everything readable (records, deltas, heads, roots,
  allocator, hash, cells below the stack pointer) is as before; otherwise it accepts and its
  facts and its allocator are those of the reference machine.  No assertion fails while the
  arenas have room for one record per instruction.
\<close>

theorem vm_execute_refines:
  assumes "ws_ok w" and "room (length (instructions prog)) w"
  shows "case ref_execute (vm_cap w) (vm_slots w) (ws_semantic_hash w) (drop (ws_stack_pointer w) (ws_stack w)) prog (vm_abs w) of
      Inl e \<Rightarrow> \<exists>w'. execute prog w = Some (Rejected e, w') \<and> visible w' = visible w \<and> ws_ok w'
    | Inr s \<Rightarrow> \<exists>w'. execute prog w = Some (Accepted, w') \<and> vm_abs w' = s \<and> ws_ok w' \<and>
        (\<exists>ext. arena_active (ws_records w') = arena_active (ws_records w) @ ext \<and>
           ws_semantic_hash w' = foldl hash_record (ws_semantic_hash w) ext)"
  using execute_refines [OF assms] by (auto split: sum.splits)

definition sample_prog :: intent_program where
  "sample_prog = \<lparr>local_count = 1, instructions =
     [allocate, store_local 0, load_local 0, push_cell 5, push_cell 9, define_slot 0, expect_object 0 9]\<rparr>"

lemma room_new: "k \<le> 1000 \<Longrightarrow> room k (workspace_new slots cells track)"
  by (simp add: room_def workspace_new_def arena_simps unat_NONE_32)

lemmas instruction_defs = allocate_def allocate_discard_def store_local_def load_local_def push_cell_def
  define_slot_def forget_slot_def expect_object_def reject_def

theorem vm_execute_refines_witness:
  "\<exists>w'. execute sample_prog (workspace_new 2 8 True) = Some (Accepted, w') \<and>
    vs_facts (vm_abs w') 0 = [(1, 5, 9)] \<and> vs_next (vm_abs w') = 2"
  using vm_execute_refines [OF workspace_new_ok room_new, of sample_prog 2 8 True]
  by (auto simp: sample_prog_def ref_execute_def ref_step_def ref_push_def Let_def instruction_defs
      workspace_new_abs vm_cap_def vm_slots_def saturating_add_u64_def workspace_new_def [of 2 8 True, THEN arg_cong [where f = ws_stack]]
      workspace_new_def [of 2 8 True, THEN arg_cong [where f = ws_stack_pointer]]
      workspace_new_def [of 2 8 True, THEN arg_cong [where f = ws_accepted_heads]])

text \<open>The rejected program leaves a cell behind; the reading program loads it as its local.\<close>

definition leaving_prog :: intent_program where
  "leaving_prog = \<lparr>local_count = 0, instructions = [push_cell 7, reject]\<rparr>"

definition reading_prog :: intent_program where
  "reading_prog = \<lparr>local_count = 1, instructions = [push_cell 1, push_cell 2, load_local 0, define_slot 0]\<rparr>"

lemma leaving_prog_run:
  "\<exists>w. execute leaving_prog (workspace_new 2 8 True) = Some (Rejected ExplicitRejection, w) \<and>
    visible w = visible (workspace_new 2 8 True) \<and> ws_ok w \<and> ws_stack w ! 0 = 7"
proof -
  have "\<exists>w. execute leaving_prog (workspace_new 2 8 True) = Some (Rejected ExplicitRejection, w) \<and> ws_stack w ! 0 = 7"
    by (simp add: execute_def execute_instructions_def leaving_prog_def vm_reserve_def Let_def workspace_new_def
        execute_instruction_def instruction_defs vm_push_def vm_rollback_def)
  moreover have "room (length (instructions leaving_prog)) (workspace_new 2 8 True)"
    by (rule room_new) (simp add: leaving_prog_def)
  ultimately show ?thesis
    using execute_rejected [OF workspace_new_ok] by blast
qed

text \<open>
  A program that writes its locals before it reads them depends on nothing that is not
  readable: on two workspaces that look the same it gives the same outcome and the same facts,
  whatever earlier intents left in their cells.
\<close>

theorem vm_assigned_deterministic:
  assumes "ws_ok v" and "ws_ok w" and "visible v = visible w"
    and "room (length (instructions prog)) w"
    and "assigned (replicate (unat (local_count prog)) False) (instructions prog)"
  shows "\<exists>res v' w'. execute prog v = Some (res, v') \<and> execute prog w = Some (res, w') \<and> vm_abs v' = vm_abs w'"
proof -
  let ?n = "unat (local_count prog)"
  have same: "ws_stack_pointer v = ws_stack_pointer w" "length (ws_stack v) = length (ws_stack w)"
    "arena_active (ws_records v) = arena_active (ws_records w)" "arena_active (ws_deltas v) = arena_active (ws_deltas w)"
    "arena_active (ws_index_deltas v) = arena_active (ws_index_deltas w)" "ws_accepted_heads v = ws_accepted_heads w"
    "ws_next_entity v = ws_next_entity w" "ws_semantic_hash v = ws_semantic_hash w"
    using assms(3) by (simp_all add: visible_def)
  then have abs: "vm_abs v = vm_abs w" and caps: "vm_cap v = vm_cap w" "vm_slots v = vm_slots w"
    by (simp_all add: vm_abs_def vm_cap_def vm_slots_def)
  have room: "room (length (instructions prog)) v"
    using assms(4) room_visible [OF assms(1-3)] by simp
  have "ref_execute (vm_cap w) (vm_slots w) (ws_semantic_hash w) (drop (ws_stack_pointer w) (ws_stack v)) prog (vm_abs w) =
      ref_execute (vm_cap w) (vm_slots w) (ws_semantic_hash w) (drop (ws_stack_pointer w) (ws_stack w)) prog (vm_abs w)"
  proof (cases "?n > vm_cap w")
    case False
    then have "agree (replicate ?n False) (take ?n (drop (ws_stack_pointer w) (ws_stack v)))
        (take ?n (drop (ws_stack_pointer w) (ws_stack w)))"
      using same by (simp add: agree_def vm_cap_def)
    from assigned_run [OF assms(5) this] show ?thesis by (simp add: ref_execute_def)
  qed (simp add: ref_execute_def)
  then show ?thesis
    using execute_refines [OF assms(1) room] execute_refines [OF assms(2,4)] assms(3) abs
    by (auto simp: same caps abs visible_def vm_abs_def split: sum.splits)
qed

theorem vm_assigned_deterministic_witness:
  "\<exists>w res v' w'. execute leaving_prog (workspace_new 2 8 True) = Some (Rejected ExplicitRejection, w) \<and>
    execute sample_prog (workspace_new 2 8 True) = Some (res, v') \<and> execute sample_prog w = Some (res, w') \<and>
    vm_abs v' = vm_abs w'"
proof -
  from leaving_prog_run obtain w where
    w: "execute leaving_prog (workspace_new 2 8 True) = Some (Rejected ExplicitRejection, w)"
      "visible w = visible (workspace_new 2 8 True)" "ws_ok w" by blast
  have "room (length (instructions sample_prog)) w"
    using room_visible [OF w(3) workspace_new_ok w(2)] room_new by (simp add: sample_prog_def)
  from vm_assigned_deterministic [OF workspace_new_ok w(3) w(2) [symmetric] this] w(1) show ?thesis
    by (simp add: sample_prog_def instruction_defs)
qed

text \<open>
  C36. The locals of an intent are not cleared: after a rejected intent that changed nothing a
  reader can see, a program that loads a local before storing it defines a fact with the cell
  the rejected intent left behind.
\<close>

theorem vm_locals_leak:
  "\<exists>w. execute leaving_prog (workspace_new 2 8 True) = Some (Rejected ExplicitRejection, w) \<and>
    visible w = visible (workspace_new 2 8 True) \<and>
    (\<exists>a. execute reading_prog (workspace_new 2 8 True) = Some (Accepted, a) \<and> resolve_object a 0 = Some (Some 0)) \<and>
    (\<exists>b. execute reading_prog w = Some (Accepted, b) \<and> resolve_object b 0 = Some (Some 7))"
proof -
  from leaving_prog_run obtain w where
    w: "execute leaving_prog (workspace_new 2 8 True) = Some (Rejected ExplicitRejection, w)"
      "visible w = visible (workspace_new 2 8 True)" "ws_ok w" "ws_stack w ! 0 = 7" by blast
  have same: "vm_cap v = 8" "vm_slots v = 2" "vm_abs v = \<lparr>vs_facts = (\<lambda>_. []), vs_next = 1\<rparr>" "ws_stack_pointer v = 0"
      "ws_stack v \<noteq> []" if "visible v = visible (workspace_new 2 8 True)" for v
    using that workspace_new_abs [of 2 8 True]
    by (auto simp: visible_def vm_cap_def vm_slots_def vm_abs_def) (auto simp: workspace_new_def)
  have run: "\<exists>a. execute reading_prog v = Some (Accepted, a) \<and> resolve_object a 0 = Some (Some (ws_stack v ! 0))"
    if "ws_ok v" "visible v = visible (workspace_new 2 8 True)" for v
  proof -
    note v = same [OF that(2)]
    have room: "room (length (instructions reading_prog)) v"
      using room_visible [OF that(1) workspace_new_ok that(2)] room_new by (simp add: reading_prog_def)
    obtain c cs where "ws_stack v = c # cs" using v(5) by (cases "ws_stack v") simp_all
    with execute_refines [OF that(1) room] v show ?thesis
      by (auto simp: reading_prog_def ref_execute_def ref_step_def ref_push_def Let_def instruction_defs
          resolve_object_abs nth_append)
  qed
  have "ws_stack (workspace_new 2 8 True) ! 0 = 0" by (simp add: workspace_new_def)
  with run [OF workspace_new_ok refl] run [OF w(3,2)] w show ?thesis by auto
qed

end
