(* ===== verification/VM_Index.thy ===== *)
theory VM_Index
  imports VM_Exec
begin

text \<open>
  The log of a workspace: its records are exactly what the code writes for a history of
  definitions and forgettings, its slot deltas and index deltas are determined by the records,
  and its heads are what the slot deltas leave.  Executing intents, publishing epochs and adding
  slots (\<open>vm_step\<close>) keep this and only extend the records.  For one query pattern, replaying the
  index deltas collects the visible facts that match it.
\<close>

section \<open>The log of a workspace\<close>

definition logged :: "workspace \<Rightarrow> bool" where
  "logged w \<longleftrightarrow> room 0 w \<and> (\<exists>n.
     well_logged [] (replicate n NONE) (arena_active (ws_records w)) \<and>
     arena_active (ws_deltas w) = map delta_of (arena_active (ws_records w)) \<and>
     arena_active (ws_index_deltas w) =
       (if ws_track_indexes w then index_log [] (arena_active (ws_records w)) else []) \<and>
     ws_accepted_heads w = heads_after (map delta_of (arena_active (ws_records w))) (replicate n NONE))"

lemma logged_cong:
  "ws_records v = ws_records w \<Longrightarrow> ws_deltas v = ws_deltas w \<Longrightarrow> ws_index_deltas v = ws_index_deltas w \<Longrightarrow>
   ws_track_indexes v = ws_track_indexes w \<Longrightarrow> ws_accepted_heads v = ws_accepted_heads w \<Longrightarrow> logged v \<longleftrightarrow> logged w"
  by (simp only: logged_def room_def)

lemma workspace_new_logged: "logged (workspace_new slots cells track)"
  by (auto simp: logged_def workspace_new_def arena_simps room_def)

lemma heads_after_append: "heads_after (xs @ ys) hs = heads_after ys (heads_after xs hs)"
  by (simp add: heads_after_def)

lemma execute_logged:
  assumes ok: "ws_ok w" and logged: "logged w" and room: "room (length (instructions prog)) w"
    and run: "execute prog w = Some (res, w')"
  shows "ws_ok w'" and "logged w'" and "\<exists>ext. arena_active (ws_records w') = arena_active (ws_records w) @ ext"
    and "ws_roots w' = ws_roots w" and "ws_last_root w' = ws_last_root w" and "ws_track_indexes w' = ws_track_indexes w"
proof -
  have "ws_ok w' \<and> logged w' \<and> (\<exists>ext. arena_active (ws_records w') = arena_active (ws_records w) @ ext) \<and>
      ws_roots w' = ws_roots w \<and> ws_last_root w' = ws_last_root w \<and> ws_track_indexes w' = ws_track_indexes w"
  proof (cases "ref_execute (vm_cap w) (vm_slots w) (ws_semantic_hash w) (drop (ws_stack_pointer w) (ws_stack w)) prog (vm_abs w)")
    case (Inl e)
    with execute_cases [OF ok room] run have same: "visible w' = visible w" "ws_ok w'" by auto
    from room_visible [OF same(2) ok same(1)] logged have "room 0 w'" by (simp add: logged_def)
    with same logged show ?thesis by (auto simp: visible_def logged_def)
  next
    case (Inr s)
    with execute_cases [OF ok room] run obtain w1 fr where
      1: "trial w w1 fr s" "vm_accept (vm_checkpoint w) w1 = Some w'" "room 0 w1" by auto
    with accept_ok [OF ok 1(1)] have acc: "ws_ok w'" "log_grown w w'" "ws_accepted_heads w' = trial_heads w w1"
      "ws_roots w' = ws_roots w" "ws_last_root w' = ws_last_root w" "ws_track_indexes w' = ws_track_indexes w" by auto
    have arenas: "ws_records w' = ws_records w1" "ws_deltas w' = ws_deltas w1" "ws_index_deltas w' = ws_index_deltas w1"
      using 1(2) by (auto simp: vm_accept_def)
    then have room': "room 0 w'" using 1(3) by (simp add: room_def)
    from acc(2) obtain ext where ext: "arena_active (ws_records w') = arena_active (ws_records w) @ ext"
      "arena_active (ws_deltas w') = arena_active (ws_deltas w) @ map delta_of ext"
      "arena_active (ws_index_deltas w') = arena_active (ws_index_deltas w) @
        (if ws_track_indexes w then index_log (arena_active (ws_records w)) ext else [])"
      "well_logged (arena_active (ws_records w)) (ws_accepted_heads w) ext"
      by (auto simp: log_grown_def)
    have heads: "ws_accepted_heads w' = heads_after (map delta_of ext) (ws_accepted_heads w)"
      using ext(2) ok acc(3) arenas by (simp add: trial_heads_def trial_deltas_def ws_ok_def length_arena_active)
    from logged obtain n where "well_logged [] (replicate n NONE) (arena_active (ws_records w))"
      "arena_active (ws_deltas w) = map delta_of (arena_active (ws_records w))"
      "arena_active (ws_index_deltas w) = (if ws_track_indexes w then index_log [] (arena_active (ws_records w)) else [])"
      "ws_accepted_heads w = heads_after (map delta_of (arena_active (ws_records w))) (replicate n NONE)"
      by (auto simp: logged_def)
    with ext heads acc room' have "logged w'"
      unfolding logged_def by (intro conjI [OF room'] exI [of _ n]) (simp add: well_logged_append index_log_append heads_after_append)
    with acc ext(1) show ?thesis by blast
  qed
  then show "ws_ok w'" "logged w'" "\<exists>ext. arena_active (ws_records w') = arena_active (ws_records w) @ ext"
    "ws_roots w' = ws_roots w" "ws_last_root w' = ws_last_root w" "ws_track_indexes w' = ws_track_indexes w" by simp_all
qed

lemma heads_after_extend:
  "\<forall>d \<in> set ds. unat (sd_slot d) < length hs \<Longrightarrow> heads_after ds (hs @ zs) = heads_after ds hs @ zs"
  by (induction ds arbitrary: hs) (simp_all add: heads_after_def list_update_append)

lemma well_logged_ConsD:
  assumes "well_logged recs hs (r # ext)"
  shows "unat (fr_slot r) < length hs" and "fr_previous r = hs ! unat (fr_slot r)"
    and "fr_resulting r = resulting_head_of recs r"
    and "well_logged (recs @ [r]) (hs[unat (fr_slot r) := fr_resulting r]) ext"
  using assms unfolding well_logged.simps by blast+

lemma well_logged_extend:
  "well_logged recs hs ext \<Longrightarrow> well_logged recs (hs @ zs) ext \<and> (\<forall>d \<in> set (map delta_of ext). unat (sd_slot d) < length hs)"
proof (induction ext arbitrary: recs hs)
  case (Cons r ext)
  note r = well_logged_ConsD [OF Cons.prems]
  note IH = Cons.IH [OF r(4)]
  have upd: "(hs @ zs)[unat (fr_slot r) := fr_resulting r] = hs[unat (fr_slot r) := fr_resulting r] @ zs"
    "(hs @ zs) ! unat (fr_slot r) = hs ! unat (fr_slot r)" "unat (fr_slot r) < length (hs @ zs)"
    using r(1) by (simp_all add: list_update_append nth_append)
  have "well_logged recs (hs @ zs) (r # ext)"
    unfolding well_logged.simps upd using IH r(2,3) upd(3) by blast
  with IH r(1) show ?case by (simp add: delta_of_def del: well_logged.simps)
qed simp

lemma ensure_slot_count_ok:
  assumes "ws_ok w" and "logged w"
  shows "ws_ok (ensure_slot_count k w)" and "logged (ensure_slot_count k w)"
    and "arena_active (ws_records (ensure_slot_count k w)) = arena_active (ws_records w)"
    and "vs_facts (vm_abs (ensure_slot_count k w)) = vs_facts (vm_abs w)"
proof -
  show "ws_ok (ensure_slot_count k w)"
    using assms(1) by (auto simp: ws_ok_def ensure_slot_count_def head_ok_def)
  show "arena_active (ws_records (ensure_slot_count k w)) = arena_active (ws_records w)"
    by (simp add: ensure_slot_count_def)
  show "vs_facts (vm_abs (ensure_slot_count k w)) = vs_facts (vm_abs w)"
    by (auto simp: vm_abs_def ensure_slot_count_def facts_of_def fun_eq_iff nth_append)
  from assms(2) obtain n where n: "well_logged [] (replicate n NONE) (arena_active (ws_records w))"
    "arena_active (ws_deltas w) = map delta_of (arena_active (ws_records w))"
    "arena_active (ws_index_deltas w) = (if ws_track_indexes w then index_log [] (arena_active (ws_records w)) else [])"
    "ws_accepted_heads w = heads_after (map delta_of (arena_active (ws_records w))) (replicate n NONE)"
    by (auto simp: logged_def)
  have len: "length (ws_accepted_heads w) = n" using n(4) by simp
  let ?zs = "replicate (k - n) NONE"
  note ext = well_logged_extend [OF n(1), of ?zs]
  from ext have wl: "well_logged [] (replicate n NONE @ ?zs) (arena_active (ws_records w))" by blast
  have hd: "heads_after (map delta_of (arena_active (ws_records w))) (replicate n NONE @ ?zs) = ws_accepted_heads w @ ?zs"
    unfolding n(4) using ext by (intro heads_after_extend) blast
  show "logged (ensure_slot_count k w)"
  proof (cases "n < k")
    case True
    then have rep: "replicate n NONE @ ?zs = replicate k NONE" by (simp flip: replicate_add)
    have "ensure_slot_count k w = w\<lparr>ws_accepted_heads := ws_accepted_heads w @ ?zs\<rparr>"
      using True len by (simp add: ensure_slot_count_def)
    then show ?thesis
      using wl hd n(2,3) assms(2) unfolding logged_def rep by (simp add: room_def) (intro exI [of _ k], simp)
  next
    case False
    with len assms(2) show ?thesis by (simp add: ensure_slot_count_def)
  qed
qed

lemma publish_epoch_same:
  assumes "publish_epoch w = Some (r, w')"
  obtains a b c where "w' = w\<lparr>ws_version := a, ws_last_root := b, ws_roots := c\<rparr>"
proof -
  have "\<exists>a b c. w' = w\<lparr>ws_version := a, ws_last_root := b, ws_roots := c\<rparr>"
  proof (cases "w' = w")
    case True
    then show ?thesis by (intro exI [of _ "ws_version w"] exI [of _ "ws_last_root w"] exI [of _ "ws_roots w"]) simp
  next
    case False
    with assms show ?thesis
      by (auto simp: publish_epoch_def Let_def bind_eq_Some_conv split: if_splits)
  qed
  with that show thesis by blast
qed

lemma publish_epoch_ok:
  assumes "ws_ok w" and "logged w" and "publish_epoch w = Some (r, w')"
  shows "ws_ok w'" and "logged w'" and "arena_active (ws_records w') = arena_active (ws_records w)"
    and "vm_abs w' = vm_abs w" and "ws_track_indexes w' = ws_track_indexes w"
proof -
  from assms(3) obtain a b c where w': "w' = w\<lparr>ws_version := a, ws_last_root := b, ws_roots := c\<rparr>"
    by (rule publish_epoch_same)
  with assms(1) show "ws_ok w'" "arena_active (ws_records w') = arena_active (ws_records w)"
    "vm_abs w' = vm_abs w" "ws_track_indexes w' = ws_track_indexes w"
    by (simp_all add: ws_ok_def vm_abs_def)
  have "logged w' \<longleftrightarrow> logged w" by (rule logged_cong) (simp_all add: w')
  with assms(2) show "logged w'" by simp
qed

section \<open>Steps of a workspace\<close>

inductive vm_step :: "workspace \<Rightarrow> workspace \<Rightarrow> bool" where
  step_execute: "room (length (instructions prog)) w \<Longrightarrow> execute prog w = Some (res, w') \<Longrightarrow> vm_step w w'"
| step_publish: "publish_epoch w = Some (r, w') \<Longrightarrow> vm_step w w'"
| step_slots: "vm_step w (ensure_slot_count k w)"

definition vm_start :: "workspace \<Rightarrow> bool" where
  "vm_start w \<longleftrightarrow> (\<exists>slots cells entity. w = with_indexes_from entity slots cells)"

inductive vm_reach :: "workspace \<Rightarrow> workspace \<Rightarrow> bool" where
  reach_refl: "vm_reach w w"
| reach_step: "vm_reach u v \<Longrightarrow> vm_step v w \<Longrightarrow> vm_reach u w"

lemma vm_step_ok:
  assumes "vm_step w w'" and "ws_ok w" and "logged w"
  shows "ws_ok w' \<and> logged w' \<and> ws_track_indexes w' = ws_track_indexes w \<and>
    (\<exists>ext. arena_active (ws_records w') = arena_active (ws_records w) @ ext)"
  using assms(1)
proof cases
  case (step_execute prog res)
  with execute_logged [OF assms(2,3)] show ?thesis by blast
next
  case (step_publish r)
  with publish_epoch_ok [OF assms(2,3)] show ?thesis by simp
next
  case (step_slots k)
  with ensure_slot_count_ok [OF assms(2,3), of k] show ?thesis by (auto simp: ensure_slot_count_def)
qed

lemma vm_reach_ok:
  assumes "vm_reach u w" and "ws_ok u" and "logged u"
  shows "ws_ok w \<and> logged w \<and> ws_track_indexes w = ws_track_indexes u \<and>
    (\<exists>ext. arena_active (ws_records w) = arena_active (ws_records u) @ ext)"
  using assms
proof (induction rule: vm_reach.induct)
  case (reach_step u v w)
  then have v: "ws_ok v" "logged v" "ws_track_indexes v = ws_track_indexes u"
    "\<exists>ext. arena_active (ws_records v) = arena_active (ws_records u) @ ext" by blast+
  from vm_step_ok [OF reach_step.hyps(2) v(1,2)] v(3,4) show ?case by auto
qed simp

lemma vm_start_ok: "vm_start w \<Longrightarrow> ws_ok w \<and> logged w \<and> ws_track_indexes w"
proof -
  assume "vm_start w"
  then obtain slots cells entity where w: "w = with_indexes_from entity slots cells" by (auto simp: vm_start_def)
  have "logged w \<longleftrightarrow> logged (workspace_new slots cells True)"
    by (rule logged_cong) (simp_all add: w with_indexes_from_def)
  moreover have "ws_ok w" using workspace_new_ok [of slots cells True] by (simp add: w with_indexes_from_def ws_ok_def)
  ultimately show ?thesis using workspace_new_logged by (simp add: w with_indexes_from_def workspace_new_def)
qed

section \<open>Queries on the index streams\<close>

fun qmatch :: "query_pattern \<Rightarrow> vm_fact \<Rightarrow> bool" where
  "qmatch (QSubject s) (a, b, c) \<longleftrightarrow> a = s"
| "qmatch (QPredicate p) (a, b, c) \<longleftrightarrow> b = p"
| "qmatch (QObject ob) (a, b, c) \<longleftrightarrow> c = ob"
| "qmatch (QSubjectPredicate s p) (a, b, c) \<longleftrightarrow> a = s \<and> b = p"
| "qmatch (QSubjectObject s ob) (a, b, c) \<longleftrightarrow> a = s \<and> c = ob"
| "qmatch (QPredicateObject p ob) (a, b, c) \<longleftrightarrow> b = p \<and> c = ob"
| "qmatch (QExact s p ob) (a, b, c) \<longleftrightarrow> a = s \<and> b = p \<and> c = ob"

lemma position_Some: "position P xs = Some i \<Longrightarrow> i < length xs \<and> P (xs ! i)"
  by (induction xs arbitrary: i) (auto split: if_splits)

lemma position_None: "position P xs = None \<longleftrightarrow> (\<forall>x \<in> set xs. \<not> P x)"
  by (induction xs) auto

lemma position_map: "position P (map f xs) = position (\<lambda>x. P (f x)) xs"
  by (induction xs) simp_all

lemma mset_swap_remove:
  assumes "i < length xs"
  shows "mset (swap_remove i xs) = mset xs - {#xs ! i#}"
proof (cases xs rule: rev_cases)
  case (snoc ys y)
  show ?thesis
  proof (cases "i = length ys")
    case False
    with assms snoc have "i < length ys" by simp
    with snoc show ?thesis by (simp add: swap_remove_def nth_append list_update_append mset_update)
  qed (simp add: snoc swap_remove_def)
qed (use assms in simp)

lemma map_swap_remove: "i < length xs \<Longrightarrow> map f (swap_remove i xs) = swap_remove i (map f xs)"
  by (cases xs rule: rev_cases) (simp_all add: swap_remove_def map_butlast map_update last_map)

definition delta_item :: "index_delta \<Rightarrow> u32 \<times> slot_token" where
  "delta_item d = (id_record d, id_slot d)"

lemma apply_index_delta_fst:
  "map fst (apply_index_delta delta_item fst pat d xs) = apply_index_delta id_record id pat d (map fst xs)"
  by (auto simp: apply_index_delta_def delta_item_def position_map map_swap_remove split: option.splits dest: position_Some)

lemma fold_index_fst:
  "map fst (fold (apply_index_delta delta_item fst pat) ds xs) = fold (apply_index_delta id_record id pat) ds (map fst xs)"
  by (induction ds arbitrary: xs) (simp_all add: apply_index_delta_fst)

definition drop_item :: "u32 \<Rightarrow> (u32 \<times> slot_token) list \<Rightarrow> (u32 \<times> slot_token) list" where
  "drop_item i xs = (case position (\<lambda>x. fst x = i) xs of Some j \<Rightarrow> swap_remove j xs | None \<Rightarrow> xs)"

lemma fold_fact_deltas:
  "fold (apply_index_delta delta_item fst pat) (fact_index_deltas r i add) xs =
     (if \<not> qmatch pat (record_triple r) then xs else if add then xs @ [(i, fr_slot r)] else drop_item i xs)"
  by (cases pat) (auto simp: fact_index_deltas_def apply_index_delta_def record_triple_def delta_item_def drop_item_def)

lemma mset_drop_item:
  assumes "(i, s) \<in> set xs" and "\<forall>x \<in> set xs. fst x = i \<longrightarrow> x = (i, s)"
  shows "mset (drop_item i xs) = mset xs - {#(i, s)#}"
proof (cases "position (\<lambda>x. fst x = i) xs")
  case None
  with assms(1) show ?thesis by (auto simp: position_None)
next
  case (Some j)
  with position_Some [OF Some] assms(2) have "xs ! j = (i, s)" "j < length xs" by auto
  with Some show ?thesis by (simp add: drop_item_def mset_swap_remove)
qed

text \<open>The visible records that match a pattern, with their slots.\<close>

definition hit :: "fact_record list \<Rightarrow> query_pattern \<Rightarrow> u32 \<Rightarrow> bool" where
  "hit recs pat h \<longleftrightarrow> h \<noteq> NONE \<and> qmatch pat (record_triple (recs ! unat h))"

definition hits :: "fact_record list \<Rightarrow> query_pattern \<Rightarrow> u32 list \<Rightarrow> (u32 \<times> slot_token) multiset" where
  "hits recs pat hs = image_mset (\<lambda>h. (h, fr_slot (recs ! unat h))) (filter_mset (hit recs pat) (mset hs))"

lemma hit_append: "head_ok recs h \<Longrightarrow> hit (recs @ ext) pat h = hit recs pat h"
  by (auto simp: hit_def head_ok_def nth_append)

lemma hits_append:
  assumes "\<forall>h \<in> set hs. head_ok recs h"
  shows "hits (recs @ ext) pat hs = hits recs pat hs"
proof -
  have "filter_mset (hit (recs @ ext) pat) (mset hs) = filter_mset (hit recs pat) (mset hs)"
    using assms by (intro filter_mset_cong) (simp_all add: hit_append)
  then show ?thesis
    unfolding hits_def using assms by (auto intro!: image_mset_cong simp: hit_def head_ok_def nth_append)
qed

lemma hits_update:
  assumes "k < length hs"
  shows "hits recs pat (hs[k := h]) =
    hits recs pat hs - (if hit recs pat (hs ! k) then {#(hs ! k, fr_slot (recs ! unat (hs ! k)))#} else {#}) +
    (if hit recs pat h then {#(h, fr_slot (recs ! unat h))#} else {#})"
proof -
  from assms have "hs ! k \<in># mset hs" by simp
  then obtain M where M: "mset hs = add_mset (hs ! k) M" by (metis mset_add)
  with assms show ?thesis by (simp add: hits_def mset_update)
qed

lemma index_fold_step:
  assumes heads: "\<forall>h \<in> set hs. head_ok recs h" and slot: "k < length hs" and res: "head_ok (recs @ [r]) h"
    and xs: "mset xs = hits recs pat hs"
  shows "mset (fold (apply_index_delta delta_item fst pat) (index_transition (recs @ [r]) (hs ! k) h) xs) =
    hits (recs @ [r]) pat (hs[k := h])"
proof -
  let ?recs = "recs @ [r]" and ?p = "hs ! k"
  let ?one = "\<lambda>h. if hit ?recs pat h then {#(h, fr_slot (?recs ! unat h))#} else {#}"
  have xs': "mset xs = hits ?recs pat hs" using xs hits_append [OF heads] by simp
  have item: "x = (fst x, fr_slot (?recs ! unat (fst x)))" if "x \<in> set xs" for x
  proof -
    have "x \<in># hits ?recs pat hs" using that xs' by (metis set_mset_mset)
    then show ?thesis by (auto simp: hits_def)
  qed
  let ?ys = "fold (apply_index_delta delta_item fst pat)
      (if ?p \<noteq> NONE then fact_index_deltas (?recs ! unat ?p) ?p False else []) xs"
  have ys: "mset ?ys = mset xs - ?one ?p"
  proof (cases "hit ?recs pat ?p")
    case True
    then have "(?p, fr_slot (?recs ! unat ?p)) \<in># hits ?recs pat hs" using slot by (auto simp: hits_def)
    then have "(?p, fr_slot (?recs ! unat ?p)) \<in> set xs" using xs' by (metis set_mset_mset)
    then have "mset (drop_item ?p xs) = mset xs - {#(?p, fr_slot (?recs ! unat ?p))#}"
      using item by (intro mset_drop_item) force+
    with True show ?thesis by (simp add: hit_def fold_fact_deltas)
  next
    case False
    then show ?thesis by (auto simp: hit_def fold_fact_deltas)
  qed
  have "fold (apply_index_delta delta_item fst pat) (index_transition ?recs ?p h) xs =
      fold (apply_index_delta delta_item fst pat) (if h \<noteq> NONE then fact_index_deltas (?recs ! unat h) h True else []) ?ys"
    by (simp add: index_transition_def)
  also have "mset \<dots> = mset ?ys + ?one h"
    by (auto simp: hit_def fold_fact_deltas)
  finally show ?thesis
    unfolding ys xs' hits_update [OF slot] .
qed

text \<open>Heads and links stay within the slot.\<close>

definition linked :: "fact_record list \<Rightarrow> u32 list \<Rightarrow> bool" where
  "linked recs hs \<longleftrightarrow> records_ok recs \<and>
     (\<forall>k < length hs. head_ok recs (hs ! k) \<and> (hs ! k \<noteq> NONE \<longrightarrow> unat (fr_slot (recs ! unat (hs ! k))) = k)) \<and>
     (\<forall>i < length recs. fr_previous (recs ! i) \<noteq> NONE \<longrightarrow> fr_slot (recs ! unat (fr_previous (recs ! i))) = fr_slot (recs ! i))"

lemma linked_step:
  assumes linked: "linked recs hs" and len: "length recs < unat NONE" and slot: "unat (fr_slot r) < length hs"
    and prev: "fr_previous r = hs ! unat (fr_slot r)" and res: "fr_resulting r = resulting_head_of recs r"
  shows "head_ok (recs @ [r]) (fr_resulting r)" and "linked (recs @ [r]) (hs[unat (fr_slot r) := fr_resulting r])"
proof -
  let ?k = "unat (fr_slot r)" and ?h = "fr_resulting r"
  from linked slot have p: "head_ok recs (fr_previous r)"
    "fr_previous r \<noteq> NONE \<Longrightarrow> unat (fr_slot (recs ! unat (fr_previous r))) = ?k"
    unfolding linked_def prev by blast+
  have h: "head_ok (recs @ [r]) ?h \<and> (?h \<noteq> NONE \<longrightarrow> unat (fr_slot ((recs @ [r]) ! unat ?h)) = ?k)"
  proof (cases "fr_kind r")
    case RDefine
    then have "?h = word_of_nat (length recs)" using res by (simp add: resulting_head_of_def)
    with RDefine index_of_length [OF len] show ?thesis by (simp add: head_ok_def nth_append)
  next
    case RForget
    show ?thesis
    proof (cases "fr_previous r = NONE")
      case True
      with RForget res show ?thesis by (simp add: resulting_head_of_def head_ok_def)
    next
      case False
      with p(1) have i: "unat (fr_previous r) < length recs" by (simp add: head_ok_def)
      have hd: "?h = fr_previous (recs ! unat (fr_previous r))" using RForget res False by (simp add: resulting_head_of_def)
      have ok: "head_ok recs ?h" using linked i unfolding hd linked_def by (intro records_ok_previous) simp_all
      have "unat (fr_slot (recs ! unat ?h)) = ?k" if "?h \<noteq> NONE"
        using linked i that p(2) [OF False] unfolding linked_def hd by metis
      moreover have "?h \<noteq> NONE \<Longrightarrow> unat ?h < length recs" using ok by (simp add: head_ok_def)
      ultimately show ?thesis using head_ok_append [OF ok, of "[r]"] by (auto simp: nth_append)
    qed
  qed
  then show "head_ok (recs @ [r]) ?h" by simp
  show "linked (recs @ [r]) (hs[?k := ?h])"
    unfolding linked_def
  proof (intro conjI allI impI)
    show "records_ok (recs @ [r])" using linked p(1) by (intro records_ok_snoc) (simp_all add: linked_def)
    fix k assume k: "k < length (hs[?k := ?h])"
    have old: "head_ok recs (hs ! k) \<and> (hs ! k \<noteq> NONE \<longrightarrow> unat (fr_slot (recs ! unat (hs ! k))) = k)"
      using linked k by (simp add: linked_def)
    then show "head_ok (recs @ [r]) (hs[?k := ?h] ! k)"
      using h k by (cases "k = ?k") (auto simp: head_ok_append)
    assume "hs[?k := ?h] ! k \<noteq> NONE"
    then show "unat (fr_slot ((recs @ [r]) ! unat (hs[?k := ?h] ! k))) = k"
      using h old k by (cases "k = ?k") (auto simp: head_ok_def nth_append)
  next
    fix i assume i: "i < length (recs @ [r])" and n: "fr_previous ((recs @ [r]) ! i) \<noteq> NONE"
    show "fr_slot ((recs @ [r]) ! unat (fr_previous ((recs @ [r]) ! i))) = fr_slot ((recs @ [r]) ! i)"
    proof (cases "i = length recs")
      case True
      with n p show ?thesis by (auto simp: nth_append head_ok_def word_unat_eq_iff)
    next
      case False
      with i have i: "i < length recs" by simp
      moreover have "unat (fr_previous (recs ! i)) < i" using linked i n by (auto simp: linked_def records_ok_def nth_append)
      ultimately show ?thesis using linked n by (simp add: linked_def nth_append)
    qed
  qed
qed

text \<open>What every transition keeps holds after replaying the index deltas of a log.\<close>

lemma index_log_invariant:
  assumes "well_logged recs hs ext" and "linked recs hs" and "length recs + length ext \<le> unat NONE"
    and "P recs hs x"
    and step: "\<And>recs hs r k h x. linked recs hs \<Longrightarrow> linked (recs @ [r]) (hs[k := h]) \<Longrightarrow> k < length hs \<Longrightarrow> P recs hs x \<Longrightarrow>
      P (recs @ [r]) (hs[k := h]) (fold f (index_transition (recs @ [r]) (hs ! k) h) x)"
  shows "linked (recs @ ext) (heads_after (map delta_of ext) hs) \<and>
    P (recs @ ext) (heads_after (map delta_of ext) hs) (fold f (index_log recs ext) x)"
  using assms(1-4)
proof (induction ext arbitrary: recs hs x)
  case Nil
  then show ?case by simp
next
  case (Cons r ext)
  note slot = well_logged_ConsD(1) [OF Cons.prems(1)] and prev = well_logged_ConsD(2) [OF Cons.prems(1)]
    and res = well_logged_ConsD(3) [OF Cons.prems(1)] and wl = well_logged_ConsD(4) [OF Cons.prems(1)]
  have len: "length recs < unat NONE" using Cons.prems(3) by simp
  note linked' = linked_step [OF Cons.prems(2) len slot prev res]
  let ?x = "fold f (index_transition (recs @ [r]) (fr_previous r) (fr_resulting r)) x"
  have x: "P (recs @ [r]) (hs[unat (fr_slot r) := fr_resulting r]) ?x"
    unfolding prev by (rule step [OF Cons.prems(2) linked'(2) slot Cons.prems(4)])
  have split: "index_log recs (r # ext) =
      index_transition (recs @ [r]) (fr_previous r) (fr_resulting r) @ index_log (recs @ [r]) ext" by simp
  have after: "heads_after (map delta_of (r # ext)) hs = heads_after (map delta_of ext) (hs[unat (fr_slot r) := fr_resulting r])"
    by (simp add: heads_after_def delta_of_def)
  have "length (recs @ [r]) + length ext \<le> unat NONE" using Cons.prems(3) by simp
  from Cons.IH [OF wl linked'(2) this x] show ?case
    unfolding split after by (simp del: index_log.simps)
qed

lemma linked_heads: "linked recs hs \<Longrightarrow> \<forall>h \<in> set hs. head_ok recs h"
  by (auto simp: linked_def in_set_conv_nth)

lemma index_fold:
  assumes "well_logged recs hs ext" and "linked recs hs" and "length recs + length ext \<le> unat NONE"
    and "mset xs = hits recs pat hs"
  shows "linked (recs @ ext) (heads_after (map delta_of ext) hs) \<and>
    mset (fold (apply_index_delta delta_item fst pat) (index_log recs ext) xs) =
      hits (recs @ ext) pat (heads_after (map delta_of ext) hs)"
proof (rule index_log_invariant [OF assms(1-3), where P = "\<lambda>recs hs xs. mset xs = hits recs pat hs"])
  fix recs hs r k h xs
  assume 1: "linked recs hs" "linked (recs @ [r]) (hs[k := h])" "k < length hs" "mset xs = hits recs pat hs"
  then have "head_ok (recs @ [r]) h" unfolding linked_def by (metis length_list_update nth_list_update_eq)
  with 1 show "mset (fold (apply_index_delta delta_item fst pat) (index_transition (recs @ [r]) (hs ! k) h) xs) =
      hits (recs @ [r]) pat (hs[k := h])"
    by (intro index_fold_step linked_heads)
qed (rule assms(4))

end
