(* ===== verification/VM_Roots.thy ===== *)
theory VM_Roots
  imports VM_Index
begin

text \<open>
  Published roots of the stack machine.  A root fixes prefixes of the record, slot and index
  arenas.  A reader of a root sees the facts of the moment it was published, by slot and by
  query pattern, whatever is executed, published or added afterwards.
\<close>

section \<open>Prefixes of the arenas\<close>

definition published :: "workspace \<Rightarrow> world_root \<Rightarrow> bool" where
  "published w root \<longleftrightarrow>
     unat (wr_slot_delta_frontier root) = length (arena_active (ws_deltas w)) \<and>
     unat (wr_index_delta_frontier root) = length (arena_active (ws_index_deltas w))"

lemma publish_epoch_published:
  assumes "ws_ok w" and "logged w" and "publish_epoch w = Some (Some root, w')"
  shows "published w root"
proof -
  have "pa_frontier (ws_deltas w) \<le> unat NONE" "pa_frontier (ws_index_deltas w) \<le> unat NONE"
    using assms(2) by (simp_all add: logged_def room_def)
  then have "unat (word_of_nat (pa_frontier (ws_deltas w)) :: u32) = pa_frontier (ws_deltas w)"
    "unat (word_of_nat (pa_frontier (ws_index_deltas w)) :: u32) = pa_frontier (ws_index_deltas w)"
    by (simp_all add: unat_NONE_32 unat_of_nat)
  moreover have "wr_slot_delta_frontier root = word_of_nat (pa_frontier (ws_deltas w)) \<and>
      wr_index_delta_frontier root = word_of_nat (pa_frontier (ws_index_deltas w))"
    using assms(3) by (auto simp: publish_epoch_def Let_def bind_eq_Some_conv split: if_splits)
  ultimately show ?thesis
    using assms(1) by (simp add: published_def ws_ok_def length_arena_active)
qed

text \<open>A later workspace: its records extend the earlier ones.\<close>

definition grown :: "workspace \<Rightarrow> workspace \<Rightarrow> bool" where
  "grown w v \<longleftrightarrow> ws_ok w \<and> logged w \<and> ws_ok v \<and> logged v \<and> ws_track_indexes w \<and> ws_track_indexes v \<and>
     (\<exists>ext. arena_active (ws_records v) = arena_active (ws_records w) @ ext)"

lemma grown_prefix:
  assumes "grown w v"
  obtains ext where "arena_active (ws_records v) = arena_active (ws_records w) @ ext"
    and "arena_active (ws_deltas v) = arena_active (ws_deltas w) @ map delta_of ext"
    and "arena_active (ws_index_deltas v) = arena_active (ws_index_deltas w) @ index_log (arena_active (ws_records w)) ext"
  using assms by (auto simp: grown_def logged_def index_log_append)

lemma grown_trans: "grown u v \<Longrightarrow> grown v w \<Longrightarrow> grown u w"
  by (auto simp: grown_def)

lemma grown_reach: "vm_reach w v \<Longrightarrow> ws_ok w \<Longrightarrow> logged w \<Longrightarrow> ws_track_indexes w \<Longrightarrow> grown w v"
  using vm_reach_ok by (auto simp: grown_def)

lemma reach_publish:
  assumes "vm_reach w v" and "publish_epoch v = Some (r, v')"
  shows "vm_reach w v'"
  using assms by (blast intro: reach_step step_publish)

lemma start_published:
  assumes "vm_start u" and "vm_reach u w" and "publish_epoch w = Some (Some root, w1)" and "vm_reach w1 v"
  shows "grown w v" and "published w root"
proof -
  from vm_start_ok [OF assms(1)] vm_reach_ok [OF assms(2)] have w: "ws_ok w" "logged w" "ws_track_indexes w" by auto
  then have "grown w w1" using publish_epoch_ok [OF w(1,2) assms(3)] by (simp add: grown_def)
  moreover from this have "grown w1 v" using assms(4) by (intro grown_reach) (simp_all add: grown_def)
  ultimately show "grown w v" by (rule grown_trans)
  show "published w root" using w assms(3) by (intro publish_epoch_published)
qed

lemma published_deltas:
  "grown w v \<Longrightarrow> published w root \<Longrightarrow>
   active_prefix (ws_deltas v) (wr_slot_delta_frontier root) = Some (arena_active (ws_deltas w))"
  by (erule grown_prefix) (simp add: active_prefix_def published_def)

lemma published_index:
  "grown w v \<Longrightarrow> published w root \<Longrightarrow>
   active_prefix (ws_index_deltas v) (wr_index_delta_frontier root) = Some (arena_active (ws_index_deltas w))"
  by (erule grown_prefix) (simp add: active_prefix_def published_def)

lemma grown_get:
  assumes "grown w v" and "unat i < length (arena_active (ws_records w))"
  shows "arena_get (ws_records v) i = Some (arena_active (ws_records w) ! unat i)"
proof -
  from assms(1) obtain ext where "arena_active (ws_records v) = arena_active (ws_records w) @ ext" by (rule grown_prefix)
  moreover have "arena_ok (ws_records v)" using assms(1) by (simp add: grown_def ws_ok_def)
  ultimately show ?thesis using assms(2) by (simp add: arena_get_active nth_append)
qed

section \<open>Heads and facts\<close>

lemma linked_empty: "linked [] (replicate n NONE)"
  by (simp add: linked_def records_ok_def head_ok_def)

lemma hits_empty [simp]: "hits recs pat (replicate n NONE) = {#}"
  by (induction n) (simp_all add: hits_def hit_def)

lemma logged_index:
  assumes "ws_ok w" and "logged w" and "ws_track_indexes w"
  shows "linked (arena_active (ws_records w)) (ws_accepted_heads w)"
    and "mset (fold (apply_index_delta delta_item fst pat) (arena_active (ws_index_deltas w)) []) =
      hits (arena_active (ws_records w)) pat (ws_accepted_heads w)"
proof -
  from assms(2,3) obtain n where n: "well_logged [] (replicate n NONE) (arena_active (ws_records w))"
    "arena_active (ws_index_deltas w) = index_log [] (arena_active (ws_records w))"
    "ws_accepted_heads w = heads_after (map delta_of (arena_active (ws_records w))) (replicate n NONE)"
    by (auto simp: logged_def)
  have "length (arena_active (ws_records w)) \<le> unat NONE"
    using assms(1,2) by (simp add: logged_def room_def ws_ok_def length_arena_active)
  with index_fold [OF n(1) linked_empty, of "[]"] n(2,3)
  show "linked (arena_active (ws_records w)) (ws_accepted_heads w)"
    "mset (fold (apply_index_delta delta_item fst pat) (arena_active (ws_index_deltas w)) []) =
      hits (arena_active (ws_records w)) pat (ws_accepted_heads w)"
    by simp_all
qed

definition matching :: "(slot_token \<Rightarrow> vm_fact list) \<Rightarrow> query_pattern \<Rightarrow> slot_token set" where
  "matching facts pat = {slot. \<exists>f fs. facts slot = f # fs \<and> qmatch pat f}"

lemma vm_facts_head:
  assumes "linked recs hs"
  shows "facts_of recs hs slot =
    (if unat slot < length hs \<and> hs ! unat slot \<noteq> NONE
     then record_triple (recs ! unat (hs ! unat slot)) # vm_chain recs (fr_previous (recs ! unat (hs ! unat slot)))
     else [])"
proof (cases "unat slot < length hs \<and> hs ! unat slot \<noteq> NONE")
  case True
  with assms vm_chain_head [of recs "hs ! unat slot"] show ?thesis by (simp add: facts_of_def linked_def)
qed (auto simp: facts_of_def)

text \<open>A visible record stands in the slot it names, so no slot is found twice.\<close>

lemma hits_slots:
  assumes "linked recs hs" and "mset xs = hits recs pat hs"
  shows "sort (map snd xs) = sorted_list_of_set (matching (facts_of recs hs) pat)"
proof -
  let ?K = "{k \<in> {..<length hs}. hit recs pat (hs ! k)}" and ?g = "\<lambda>k. fr_slot (recs ! unat (hs ! k))"
  have own: "unat (?g k) = k" if "k \<in> ?K" for k
    using that assms(1) by (simp add: linked_def hit_def)
  have "mset hs = image_mset ((!) hs) (mset_set {..<length hs})"
    by (metis map_nth mset_map mset_upt atLeast0LessThan)
  then have "filter_mset (hit recs pat) (mset hs) = image_mset ((!) hs) (mset_set ?K)"
    by (simp add: filter_mset_image_mset filter_mset_mset_set comp_def)
  then have "image_mset snd (hits recs pat hs) = image_mset ?g (mset_set ?K)"
    by (simp add: hits_def image_mset.compositionality comp_def)
  also have "\<dots> = mset_set (?g ` ?K)"
  proof (rule image_mset_mset_set)
    show "inj_on ?g ?K" using own by (intro inj_onI) metis
  qed
  also have "?g ` ?K = matching (facts_of recs hs) pat"
  proof (intro equalityI subsetI)
    fix slot assume "slot \<in> ?g ` ?K"
    then obtain k where k: "k \<in> ?K" "slot = ?g k" by blast
    with own [OF k(1)] have "unat slot = k" by simp
    with k(1) show "slot \<in> matching (facts_of recs hs) pat"
      by (cases "record_triple (recs ! unat (hs ! k))")
        (simp add: matching_def vm_facts_head [OF assms(1)] hit_def)
  next
    fix slot assume slot: "slot \<in> matching (facts_of recs hs) pat"
    then have k: "unat slot \<in> ?K"
      by (auto simp: matching_def vm_facts_head [OF assms(1)] hit_def split: if_splits)
    with own [OF k] have "slot = ?g (unat slot)" by (simp add: word_unat_eq_iff)
    with k show "slot \<in> ?g ` ?K" by blast
  qed
  finally have "mset (map snd xs) = mset_set (matching (facts_of recs hs) pat)" by (simp add: assms(2))
  then show ?thesis by (metis sorted_list_of_multiset_mset sorted_list_of_mset_set)
qed

lemma vm_query_slots_at:
  assumes "grown w v" and "published w root"
  shows "vm_query_slots v root pat = Some (sorted_list_of_set (matching (vs_facts (vm_abs w)) pat))"
proof -
  let ?recs = "arena_active (ws_records w)" and ?hs = "ws_accepted_heads w"
  let ?xs = "fold (apply_index_delta delta_item fst pat) (arena_active (ws_index_deltas w)) []"
  have w: "ws_ok w" "logged w" "ws_track_indexes w" using assms(1) by (simp_all add: grown_def)
  note xs = logged_index [OF w]
  have "map_option fr_slot (arena_get (ws_records v) (fst x)) = Some (snd x)" if "x \<in> set ?xs" for x
  proof -
    have "x \<in># hits ?recs pat ?hs" using that xs(2) by (metis set_mset_mset)
    then have x: "x = (fst x, fr_slot (?recs ! unat (fst x)))" "fst x \<in> set ?hs" "fst x \<noteq> NONE"
      by (auto simp: hits_def hit_def)
    with xs(1) have "unat (fst x) < length ?recs" by (auto simp: linked_def in_set_conv_nth head_ok_def)
    from grown_get [OF assms(1) this] x(1) show ?thesis by (metis option.simps(9) snd_conv)
  qed
  then have "those (map (\<lambda>i. map_option fr_slot (arena_get (ws_records v) i)) (map fst ?xs)) = Some (map snd ?xs)"
    by (simp add: comp_def those_map_Some)
  with hits_slots [OF xs] show ?thesis
    by (simp add: vm_query_slots_def published_index [OF assms] fold_index_fst [where xs = "[]", simplified, symmetric]
        vm_abs_def)
qed

lemma resolve_object_at_ok:
  assumes "grown w v" and "published w root"
  shows "resolve_object_at v root slot = Some (map_option (\<lambda>(a, b, c). c) (case vs_facts (vm_abs w) slot of [] \<Rightarrow> None | f # _ \<Rightarrow> Some f))"
proof -
  let ?recs = "arena_active (ws_records w)" and ?hs = "ws_accepted_heads w"
  have w: "ws_ok w" "logged w" "ws_track_indexes w" using assms(1) by (simp_all add: grown_def)
  note linked = logged_index(1) [OF w]
  from w(2) obtain n where n: "well_logged [] (replicate n NONE) ?recs"
    "arena_active (ws_deltas w) = map delta_of ?recs"
    "?hs = heads_after (map delta_of ?recs) (replicate n NONE)"
    by (auto simp: logged_def)
  let ?d = "find (\<lambda>d. sd_slot d = slot) (rev (arena_active (ws_deltas w)))"
  have head: "(case ?d of None \<Rightarrow> NONE | Some d \<Rightarrow> sd_resulting d) = (if unat slot < length ?hs then ?hs ! unat slot else NONE)"
  proof (cases "unat slot < n")
    case True
    with find_heads_after [of slot "replicate n NONE" "map delta_of ?recs"] show ?thesis
      by (auto simp: n(2,3) split: option.splits)
  next
    case False
    have "\<forall>d \<in> set (map delta_of ?recs). unat (sd_slot d) < n"
      using well_logged_extend [OF n(1), of "[]"] by simp
    with False have "?d = None" unfolding n(2) by (auto simp: find_None_iff)
    with False show ?thesis by (simp add: n(3))
  qed
  have get: "arena_get (ws_records v) h = Some (?recs ! unat h)" if "head_ok ?recs h" "h \<noteq> NONE" for h
    using that grown_get [OF assms(1)] by (simp add: head_ok_def)
  show ?thesis
  proof (cases "unat slot < length ?hs \<and> ?hs ! unat slot \<noteq> NONE")
    case True
    with head obtain d where d: "?d = Some d" "sd_resulting d = ?hs ! unat slot" by (auto split: option.splits)
    have "head_ok ?recs (?hs ! unat slot)" using linked True by (simp add: linked_def)
    with get True d show ?thesis
      by (simp add: resolve_object_at_def published_deltas [OF assms] vm_abs_def vm_facts_head [OF linked] record_triple_def)
  next
    case False
    with head have "(case ?d of None \<Rightarrow> NONE | Some d \<Rightarrow> sd_resulting d) = NONE" by auto
    with False show ?thesis
      by (auto simp: resolve_object_at_def published_deltas [OF assms] vm_abs_def vm_facts_head [OF linked] split: option.splits)
  qed
qed

section \<open>Property\<close>

text \<open>
  C17. A published root is a snapshot: after any later intents, publications and new slots,
  resolving a slot at the root gives the object of the fact visible when the root was published,
  and a query at the root gives, in order, exactly the slots whose visible fact matched then.
\<close>

theorem root_is_snapshot:
  assumes "vm_start u" and "vm_reach u w" and "publish_epoch w = Some (Some root, w1)" and "vm_reach w1 v"
  shows "resolve_object_at v root slot = Some (case vs_facts (vm_abs w) slot of [] \<Rightarrow> None | (_, _, ob) # _ \<Rightarrow> Some ob) \<and>
    vm_query_slots v root pat = Some (sorted_list_of_set (matching (vs_facts (vm_abs w)) pat))"
  using resolve_object_at_ok [OF start_published [OF assms], of slot] vm_query_slots_at [OF start_published [OF assms], of pat]
  by (auto split: list.splits)

text \<open>The first program defines slot 0, which is published; the second defines it again.\<close>

definition first_prog :: intent_program where
  "first_prog = \<lparr>local_count = 0, instructions = [push_cell 1, push_cell 5, push_cell 9, define_slot 0]\<rparr>"

definition second_prog :: intent_program where
  "second_prog = \<lparr>local_count = 0, instructions = [push_cell 1, push_cell 5, push_cell 7, define_slot 0]\<rparr>"

lemmas vm_eval = execute_def execute_instructions_def vm_reserve_def Let_def execute_instruction_def instruction_defs
  vm_push_def vm_pop_def vm_checkpoint_def vm_accept_def vm_define_def append_record_def resolve_trial_head_def
  accepted_head_def arena_push_def arena_active_def append_index_transition_def append_fact_indexes_def
  fact_index_deltas_def arena_get_def arena_new_def publish_epoch_def unat_NONE_32 first_prog_def second_prog_def
  with_indexes_from_def workspace_new_def resolve_object_def vm_abs_def facts_of_def

lemma two_publications:
  "\<exists>w r w1 v r2 v1.
     execute first_prog (with_indexes_from 1 2 3) = Some (Accepted, w) \<and> publish_epoch w = Some (Some r, w1) \<and>
     room 4 (with_indexes_from 1 2 3) \<and> room 4 w1 \<and> execute second_prog w1 = Some (Accepted, v) \<and>
     publish_epoch v = Some (Some r2, v1) \<and> vs_facts (vm_abs w) 0 = [(1, 5, 9)] \<and> resolve_object v 0 = Some (Some 7)"
  apply (simp add: vm_eval room_def)
  apply (simp add: vm_chain.simps [of "[_]"] record_triple_def)
  done

lemma two_publications_reach:
  "\<exists>u w r w1 v r2 v1.
     vm_start u \<and> vm_reach u w \<and> publish_epoch w = Some (Some r, w1) \<and> vm_reach w1 v \<and>
     publish_epoch v = Some (Some r2, v1) \<and> vs_facts (vm_abs w) 0 = [(1, 5, 9)] \<and> resolve_object v 0 = Some (Some 7)"
proof -
  have len: "length (instructions first_prog) = 4" "length (instructions second_prog) = 4"
    by (simp_all add: first_prog_def second_prog_def)
  from two_publications obtain w r w1 v r2 v1 where
    1: "execute first_prog (with_indexes_from 1 2 3) = Some (Accepted, w)" "publish_epoch w = Some (Some r, w1)"
      "room 4 (with_indexes_from 1 2 3)" "room 4 w1" "execute second_prog w1 = Some (Accepted, v)"
      "publish_epoch v = Some (Some r2, v1)" "vs_facts (vm_abs w) 0 = [(1, 5, 9)]" "resolve_object v 0 = Some (Some 7)"
    by blast
  have "vm_step (with_indexes_from 1 2 3) w" "vm_step w1 v"
    using 1(3,4) by (simp_all add: step_execute [OF _ 1(1)] step_execute [OF _ 1(5)] len)
  then have "vm_reach (with_indexes_from 1 2 3) w" "vm_reach w1 v" by (blast intro: reach_refl reach_step)+
  moreover have "vm_start (with_indexes_from 1 2 3)" by (auto simp: vm_start_def)
  ultimately show ?thesis using 1 by blast
qed

theorem root_is_snapshot_witness:
  "\<exists>w root w1 v. publish_epoch w = Some (Some root, w1) \<and> resolve_object v 0 = Some (Some 7) \<and>
     resolve_object_at v root 0 = Some (Some 9) \<and>
     vm_query_slots v root (QPredicate 5) = Some (sorted_list_of_set (matching (vs_facts (vm_abs w)) (QPredicate 5)))"
proof -
  from two_publications_reach obtain u w r w1 v where
    1: "vm_start u" "vm_reach u w" "publish_epoch w = Some (Some r, w1)" "vm_reach w1 v"
      "vs_facts (vm_abs w) 0 = [(1, 5, 9)]" "resolve_object v 0 = Some (Some 7)" by blast
  from root_is_snapshot [OF 1(1-4), of 0 "QPredicate 5"] 1 show ?thesis by auto
qed

end
