(* ===== verification/VM_Snapshots.thy ===== *)
theory VM_Snapshots
  imports VM_Roots
begin

text \<open>
  Compact snapshots of the stack machine.  A base holds the visible facts of a root in three
  sorted orders, and a layered snapshot adds the index deltas since then.  The theorem: binary
  search in the base and replay of the short tail answer as the replay of the whole history does.
\<close>

section \<open>The visible facts as a sorted map\<close>

definition live :: "u32 list \<Rightarrow> u32 multiset" where
  "live hs = filter_mset (\<lambda>h. h \<noteq> NONE) (mset hs)"

definition spo_delta :: "fact_record \<Rightarrow> u32 \<Rightarrow> index_delta" where
  "spo_delta r h = \<lparr>id_permutation = Spo, id_added = True, id_first = fr_subject r, id_second = fr_predicate r,
     id_third = fr_object r, id_record = h, id_slot = fr_slot r\<rparr>"

definition base_map :: "fact_record list \<Rightarrow> u32 list \<Rightarrow> (u32 \<times> index_delta) list \<Rightarrow> bool" where
  "base_map recs hs m \<longleftrightarrow> bt_wf m \<and> mset m = image_mset (\<lambda>h. (h, spo_delta (recs ! unat h) h)) (live hs)"

lemma base_map_length: "base_map recs hs m \<Longrightarrow> length m = size (live hs)"
  unfolding base_map_def by (elim conjE) (drule arg_cong [of "mset m" _ size], simp)

lemma fold_compact_fact:
  "fold compact_step (fact_index_deltas r i True) m = bt_insert i (spo_delta r i) m"
  "fold compact_step (fact_index_deltas r i False) m = filter (\<lambda>(j, _). j \<noteq> i) m"
  by (simp_all add: fact_index_deltas_def compact_step_def spo_delta_def)

lemma mset_bt_insert_new: "map_of m k = None \<Longrightarrow> mset (bt_insert k v m) = add_mset (k, v) (mset m)"
  by (induction k v m rule: bt_insert.induct) (auto split: if_splits)

lemma bt_wf_filter: "bt_wf m \<Longrightarrow> bt_wf (filter P m)"
  by (simp add: bt_wf_def sorted_wrt_map sorted_wrt_filter)

lemma linked_unique:
  assumes "linked recs hs" and "j < length hs" and "k < length hs" and "hs ! j = hs ! k" and "hs ! j \<noteq> NONE"
  shows "j = k"
  using assms unfolding linked_def by metis

text \<open>The heads of the other slots.\<close>

lemma split_heads:
  assumes "k < length hs"
  obtains M where "mset hs = add_mset (hs ! k) M" and "\<And>h. mset (hs[k := h]) = add_mset h M"
    and "\<And>x. x \<in># M \<Longrightarrow> \<exists>j < length hs. j \<noteq> k \<and> x = hs ! j"
proof (rule that [of "mset (take k hs) + mset (drop (Suc k) hs)"])
  have "mset hs = mset (take k hs @ hs ! k # drop (Suc k) hs)" using id_take_nth_drop [OF assms] by simp
  then show "mset hs = add_mset (hs ! k) (mset (take k hs) + mset (drop (Suc k) hs))" by simp
  show "mset (hs[k := h]) = add_mset h (mset (take k hs) + mset (drop (Suc k) hs))" for h
    using assms by (simp add: upd_conv_take_nth_drop)
  show "\<exists>j < length hs. j \<noteq> k \<and> x = hs ! j" if "x \<in># mset (take k hs) + mset (drop (Suc k) hs)" for x
  proof -
    from that consider "x \<in> set (take k hs)" | "x \<in> set (drop (Suc k) hs)" by auto
    then show ?thesis
    proof cases
      case 1
      then obtain j where "j < k" "x = hs ! j" using assms by (auto simp: in_set_conv_nth)
      with assms show ?thesis by (intro exI [of _ j]) simp
    next
      case 2
      then obtain j where "j < length hs - Suc k" "x = hs ! (Suc k + j)" by (auto simp: in_set_conv_nth)
      then show ?thesis by (intro exI [of _ "Suc k + j"]) simp
    qed
  qed
qed

lemma base_map_step:
  assumes linked: "linked recs hs" "linked (recs @ [r]) (hs[k := h])" and k: "k < length hs" and m: "base_map recs hs m"
  shows "base_map (recs @ [r]) (hs[k := h]) (fold compact_step (index_transition (recs @ [r]) (hs ! k) h) m)"
proof -
  let ?R = "recs @ [r]" and ?p = "hs ! k" and ?L = "\<lambda>M. filter_mset (\<lambda>h. h \<noteq> NONE) M"
  let ?D = "\<lambda>h. (h, spo_delta (?R ! unat h) h)"
  obtain M where M: "mset hs = add_mset ?p M" "\<And>h. mset (hs[k := h]) = add_mset h M"
    "\<And>x. x \<in># M \<Longrightarrow> \<exists>j < length hs. j \<noteq> k \<and> x = hs ! j" using split_heads [OF k] by blast
  have fresh: "x \<noteq> ?p \<and> x \<noteq> h" if "x \<in># ?L M" for x
  proof -
    from that M(3) obtain j where j: "j < length hs" "j \<noteq> k" "x = hs ! j" "x \<noteq> NONE" by fastforce
    have "hs[k := h] ! j = hs ! j" "hs[k := h] ! k = h" using j(2) k by simp_all
    with j k linked_unique [OF linked(1), of j k] linked_unique [OF linked(2), of j k] show ?thesis by auto
  qed
  have "mset m = image_mset ?D (live hs)"
  proof -
    have "\<forall>h \<in># live hs. spo_delta (recs ! unat h) h = spo_delta (?R ! unat h) h"
      using linked_heads [OF linked(1)] by (auto simp: live_def head_ok_def nth_append)
    then show ?thesis using m by (auto simp: base_map_def intro!: image_mset_cong)
  qed
  then have m': "mset m = image_mset ?D (?L (add_mset ?p M))" by (simp add: live_def M(1))
  let ?m = "if ?p \<noteq> NONE then filter (\<lambda>(j, _). j \<noteq> ?p) m else m"
  have "mset ?m = image_mset ?D (?L M)"
  proof (cases "?p = NONE")
    case False
    have "filter_mset (\<lambda>x. x \<noteq> ?p) (?L M) = filter_mset (\<lambda>_. True) (?L M)"
      using fresh by (intro filter_mset_cong refl) blast
    with False show ?thesis
      by (simp add: mset_filter m' filter_mset_image_mset comp_def case_prod_beta)
  qed (simp add: m')
  moreover have "bt_wf ?m" using m by (simp add: base_map_def bt_wf_filter)
  moreover have "map_of ?m h = None"
  proof -
    have "h \<notin> fst ` set ?m"
    proof
      assume "h \<in> fst ` set ?m"
      then have "h \<in># image_mset fst (mset ?m)" by force
      also have "image_mset fst (mset ?m) = ?L M"
        unfolding \<open>mset ?m = image_mset ?D (?L M)\<close> by (simp add: image_mset.compositionality comp_def)
      finally show False using fresh by blast
    qed
    then show ?thesis by (simp add: map_of_eq_None_iff)
  qed
  ultimately show ?thesis
    by (cases "h = NONE"; cases "?p = NONE")
      (simp_all add: base_map_def index_transition_def fold_compact_fact live_def M(2) mset_bt_insert_new del: fold_simps)
qed

lemma base_map_fold:
  assumes "well_logged recs hs ext" and "linked recs hs" and "length recs + length ext \<le> unat NONE" and "base_map recs hs m"
  shows "base_map (recs @ ext) (heads_after (map delta_of ext) hs) (fold compact_step (index_log recs ext) m)"
  using index_log_invariant [OF assms(1-3), of base_map m compact_step, OF assms(4) base_map_step] by simp

section \<open>Counting the hits\<close>

lemma fold_count_fact:
  "fold (\<lambda>d c. if matches_index d pat then c + (if id_added d then 1 else - 1) else c) (fact_index_deltas r i add) (c :: int) =
     (if qmatch pat (record_triple r) then c + (if add then 1 else - 1) else c)"
  by (cases pat) (auto simp: fact_index_deltas_def record_triple_def)

lemma count_fold:
  assumes "well_logged recs hs ext" and "linked recs hs" and "length recs + length ext \<le> unat NONE"
  shows "fold (\<lambda>d c. if matches_index d pat then c + (if id_added d then 1 else - 1) else c) (index_log recs ext)
      (int (size (hits recs pat hs))) =
    int (size (hits (recs @ ext) pat (heads_after (map delta_of ext) hs)))"
proof -
  let ?f = "\<lambda>d c. if matches_index d pat then c + (if id_added d then 1 else - 1) else (c :: int)"
  have "fold ?f (index_transition (recs @ [r]) (hs ! k) h) c = int (size (hits (recs @ [r]) pat (hs[k := h])))"
    if 1: "linked recs hs" "k < length hs" "c = int (size (hits recs pat hs))" for recs hs r k h c
  proof -
    let ?R = "recs @ [r]" and ?p = "hs ! k"
    have same: "hits recs pat hs = hits ?R pat hs" using hits_append [OF linked_heads [OF 1(1)]] by simp
    have mem: "(?p, fr_slot (?R ! unat ?p)) \<in># hits ?R pat hs" if "hit ?R pat ?p"
      using that 1(2) by (auto simp: hits_def)
    have "size (hits ?R pat hs - (if hit ?R pat ?p then {#(?p, fr_slot (?R ! unat ?p))#} else {#})) =
        size (hits ?R pat hs) - (if hit ?R pat ?p then 1 else 0)"
      using mem by (simp add: size_Diff_singleton)
    moreover have "0 < size (hits ?R pat hs)" if "hit ?R pat ?p" using mem [OF that] by (metis nonempty_has_size empty_not_add_mset mset_add)
    ultimately have "int (size (hits ?R pat (hs[k := h]))) =
        c - (if hit ?R pat ?p then 1 else 0) + (if hit ?R pat h then 1 else 0)"
      unfolding hits_update [OF 1(2)] 1(3) same by (auto simp: of_nat_diff Suc_le_eq)
    also have "\<dots> = fold ?f (index_transition ?R ?p h) c"
      by (simp add: index_transition_def fold_count_fact hit_def)
    finally show ?thesis by simp
  qed
  then show ?thesis
    using index_log_invariant [OF assms, of "\<lambda>recs hs c. c = int (size (hits recs pat hs))" _ ?f] by simp
qed

section \<open>Searching a sorted base\<close>

lemma takeWhile_is_filter: "sorted_wrt (\<lambda>x y. P y \<longrightarrow> P x) xs \<Longrightarrow> takeWhile P xs = filter P xs"
proof (induction xs)
  case (Cons x xs)
  then show ?case by (cases "P x") (auto intro!: filter_False [symmetric])
qed simp

lemma range_is_filter:
  assumes "sorted_wrt (\<lambda>x y. P y \<longrightarrow> P x) xs" and "sorted_wrt (\<lambda>x y. Q y \<longrightarrow> Q x) xs" and "\<And>x. P x \<Longrightarrow> Q x"
  shows "drop (partition_point P xs) (take (partition_point Q xs) xs) = filter (\<lambda>x. Q x \<and> \<not> P x) xs"
    and "partition_point P xs \<le> partition_point Q xs"
proof -
  have "drop (length (takeWhile P xs)) (take (length (takeWhile Q xs)) xs) = filter (\<lambda>x. Q x \<and> \<not> P x) xs"
    using assms(1,2)
  proof (induction xs)
    case (Cons x xs)
    then show ?case
    proof (cases "P x")
      case False
      with Cons.prems(1) have "filter (\<lambda>x. Q x \<and> \<not> P x) (x # xs) = filter Q (x # xs)" by (intro filter_cong) auto
      with False takeWhile_is_filter [OF Cons.prems(2)] show ?thesis
        by (metis drop0 length_0_conv list.size(3) takeWhile.simps(2) takeWhile_eq_take)
    qed (use Cons assms(3) in auto)
  qed simp
  then show "drop (partition_point P xs) (take (partition_point Q xs) xs) = filter (\<lambda>x. Q x \<and> \<not> P x) xs"
    by (simp add: partition_point_def)
  have "length (filter P xs) \<le> length (filter Q xs)"
    using assms(3) by (induction xs) auto
  then show "partition_point P xs \<le> partition_point Q xs"
    using assms(1,2) by (simp add: partition_point_def takeWhile_is_filter)
qed

lemma prefix_key_mono:
  assumes "entry_key e \<le> entry_key e'" and "n \<in> {1, 2, 3}"
  shows "prefix_key e n \<le> prefix_key e' n"
  using assms by (auto simp: entry_key_def prefix_key_def less_eq_prod_def list_le_def list_less_def eval_nat_numeral)

lemma compact_range_is_filter:
  assumes "sorted (map entry_key es)" and "n \<in> {1, 2, 3}" and "compact_prefix_range es key n = (a, b)"
  shows "drop a (take b es) = filter (\<lambda>e. prefix_key e n = take n key) es" and "a \<le> b"
proof -
  let ?P = "\<lambda>e. prefix_key e n < take n key" and ?Q = "\<lambda>e. \<not> prefix_key e n > take n key"
  have mono: "sorted_wrt (\<lambda>e e'. prefix_key e n \<le> prefix_key e' n) es"
    using assms(1) prefix_key_mono [OF _ assms(2)] unfolding sorted_map
    by (auto elim!: sorted_wrt_mono_rel [rotated])
  have "sorted_wrt (\<lambda>e e'. ?P e' \<longrightarrow> ?P e) es" "sorted_wrt (\<lambda>e e'. ?Q e' \<longrightarrow> ?Q e) es"
    using mono by (auto elim!: sorted_wrt_mono_rel [rotated])
  note range = range_is_filter [OF this]
  have ab: "a = partition_point ?P es" "b = partition_point ?Q es"
    using assms(3) by (simp_all add: compact_prefix_range_def)
  have "(\<lambda>e. ?Q e \<and> \<not> ?P e) = (\<lambda>e. prefix_key e n = take n key)" by (auto simp: fun_eq_iff)
  with range show "drop a (take b es) = filter (\<lambda>e. prefix_key e n = take n key) es" "a \<le> b"
    by (simp_all add: ab less_imp_not_less)
qed

section \<open>A layered snapshot\<close>

text \<open>The entries of the base that a pattern selects are the hits.\<close>

lemma mset_entries:
  assumes "base_map recs hs m" and "\<And>h. item (E (spo_delta (recs ! unat h) h)) = (h, fr_slot (recs ! unat h))"
    and "\<And>h. Q (E (spo_delta (recs ! unat h) h)) \<longleftrightarrow> qmatch pat (record_triple (recs ! unat h))"
  shows "mset (map item (filter Q (sort_key entry_key (map E (map snd m))))) = hits recs pat hs"
proof -
  have "mset (filter Q (sort_key entry_key (map E (map snd m)))) =
      filter_mset Q (image_mset (\<lambda>h. E (spo_delta (recs ! unat h) h)) (live hs))"
    using assms(1) by (simp add: base_map_def mset_filter image_mset.compositionality comp_def)
  also have "\<dots> = image_mset (\<lambda>h. E (spo_delta (recs ! unat h) h)) (filter_mset (hit recs pat) (mset hs))"
    unfolding live_def filter_mset_image_mset
    by (simp add: filter_filter_mset assms(3) hit_def [abs_def] comp_def)
  finally show ?thesis by (simp add: hits_def image_mset.compositionality comp_def assms(2))
qed

fun perm_entry :: "index_permutation \<Rightarrow> index_delta \<Rightarrow> compact_index_entry" where
  "perm_entry Spo = spo_entry"
| "perm_entry Pos = pos_entry"
| "perm_entry Osp = osp_entry"

definition base_of :: "world_root \<Rightarrow> (u32 \<times> index_delta) list \<Rightarrow> compact_base" where
  "base_of root m =
     (let es = (\<lambda>p. sort_key entry_key (map (perm_entry p) (map snd m)))
      in \<lparr>cb_root = root, cb_spo = es Spo, cb_pos = es Pos, cb_osp = es Osp\<rparr>)"

lemma base_entries_of:
  "ls_base snap = base_of root m \<Longrightarrow>
   base_entries snap pat =
     (sort_key entry_key (map (perm_entry (fst (query_key pat))) (map snd m)), fst (snd (query_key pat)), snd (snd (query_key pat)))"
  by (cases pat) (simp_all add: base_entries_def base_of_def Let_def)

lemma base_selects:
  assumes m: "base_map recs hs m" and snap: "ls_base snap = base_of root m"
    and es: "base_entries snap pat = (es, key, n)" and ab: "compact_prefix_range es key n = (a, b)"
  shows "mset (map (\<lambda>e. (ce_record e, ce_slot e)) (drop a (take b es))) = hits recs pat hs" and "a \<le> b" and "b \<le> length es"
proof -
  let ?E = "perm_entry (fst (query_key pat))"
  have es': "es = sort_key entry_key (map ?E (map snd m))" "key = fst (snd (query_key pat))" "n = snd (snd (query_key pat))"
    using es unfolding base_entries_of [OF snap] by simp_all
  have "sorted (map entry_key es)" "n \<in> {1, 2, 3}" unfolding es' by simp (cases pat; simp)
  note range = compact_range_is_filter [OF this ab]
  have "ce_record (?E (spo_delta (recs ! unat h) h)) = h \<and> ce_slot (?E (spo_delta (recs ! unat h) h)) = fr_slot (recs ! unat h)" for h
    by (cases pat) (simp_all add: spo_entry_def pos_entry_def osp_entry_def spo_delta_def)
  moreover have "prefix_key (?E (spo_delta (recs ! unat h) h)) n = take n key \<longleftrightarrow> qmatch pat (record_triple (recs ! unat h))" for h
    unfolding es'
    by (cases pat) (auto simp: spo_entry_def pos_entry_def osp_entry_def spo_delta_def prefix_key_def record_triple_def eval_nat_numeral)
  ultimately have "mset (map (\<lambda>e. (ce_record e, ce_slot e)) (filter (\<lambda>e. prefix_key e n = take n key) es)) = hits recs pat hs"
    unfolding es'(1) by (intro mset_entries [OF m]) simp_all
  with range show "mset (map (\<lambda>e. (ce_record e, ce_slot e)) (drop a (take b es))) = hits recs pat hs" "a \<le> b" by simp_all
  show "b \<le> length es" using ab by (auto simp: compact_prefix_range_def partition_point_def length_takeWhile_le)
qed

lemma layered_at:
  assumes wv: "grown w v" "published w r1" and vz: "grown v z" "published v r2"
  shows "\<exists>base snap xs. vm_compact_base z r1 = Some base \<and> vm_layered_snapshot z base r2 = Some snap \<and>
    vm_query_slots z r2 pat = Some xs \<and> snapshot_query_slots snap pat = Some xs \<and>
    snapshot_query_count snap pat = int (length xs) \<and> active_fact_count base = vm_active_slot_count w"
proof -
  let ?W = "arena_active (ws_records w)" and ?iw = "arena_active (ws_index_deltas w)" and ?iv = "arena_active (ws_index_deltas v)"
  obtain ext where ext: "arena_active (ws_records v) = ?W @ ext" "?iv = ?iw @ index_log ?W ext"
    using wv(1) by (rule grown_prefix)
  have v: "ws_ok v" "logged v" "ws_track_indexes v" and w: "ws_ok w" "logged w" "ws_track_indexes w"
    using wv(1) by (simp_all add: grown_def)
  from v obtain n where n: "well_logged [] (replicate n NONE) (?W @ ext)"
    "ws_accepted_heads v = heads_after (map delta_of (?W @ ext)) (replicate n NONE)"
    by (auto simp: logged_def ext(1))
  from w obtain k where k: "well_logged [] (replicate k NONE) ?W" "?iw = index_log [] ?W"
    "ws_accepted_heads w = heads_after (map delta_of ?W) (replicate k NONE)"
    by (auto simp: logged_def)
  let ?H = "heads_after (map delta_of ?W) (replicate n NONE)"
  have wl: "well_logged [] (replicate n NONE) ?W" "well_logged ?W ?H ext"
    using n(1) by (simp_all add: well_logged_append)
  have fits: "length ?W + length ext \<le> unat NONE"
    using v ext(1) length_arena_active [of "ws_records v"] by (simp add: logged_def room_def ws_ok_def)
  have empty: "base_map [] (replicate j NONE) []" for j by (simp add: base_map_def live_def)
  let ?m = "fold compact_step ?iw []"
  have m: "base_map ?W ?H ?m" "base_map ?W (ws_accepted_heads w) ?m"
    using base_map_fold [OF wl(1) linked_empty _ empty] base_map_fold [OF k(1) linked_empty _ empty] fits
    by (simp_all add: k(2,3))
  have linked: "linked ?W ?H" using index_fold [OF wl(1) linked_empty, of "[]"] fits by simp
  have base: "vm_compact_base z r1 = Some (base_of r1 ?m)"
    using published_index [OF grown_trans [OF wv(1) vz(1)] wv(2)]
    by (simp add: vm_compact_base_def base_of_def Let_def)
  let ?snap = "\<lparr>ls_base = base_of r1 ?m, ls_root = r2, ls_tail = index_log ?W ext\<rparr>"
  have "wr_index_delta_frontier r1 \<le> wr_index_delta_frontier r2"
    using wv(2) vz(2) by (simp add: word_le_nat_alt published_def ext(2))
  then have snap: "vm_layered_snapshot z (base_of r1 ?m) r2 = Some ?snap"
    using published_index [OF vz] wv(2)
    by (simp add: vm_layered_snapshot_def base_of_def ext(2) published_def)
  obtain es key j a b where sel: "base_entries ?snap pat = (es, key, j)" "compact_prefix_range es key j = (a, b)"
    by (cases "base_entries ?snap pat"; cases "compact_prefix_range (fst (base_entries ?snap pat)) (fst (snd (base_entries ?snap pat))) (snd (snd (base_entries ?snap pat)))") auto
  let ?xs = "map (\<lambda>e. (ce_record e, ce_slot e)) (drop a (take b es))"
  have "ls_base ?snap = base_of r1 ?m" by simp
  note xs = base_selects [OF m(1) this sel]
  let ?ys = "fold (apply_index_delta delta_item fst pat) (index_log ?W ext) ?xs"
  have ys: "mset ?ys = hits (?W @ ext) pat (ws_accepted_heads v)"
    using index_fold [OF wl(2) linked fits xs(1)] by (simp add: n(2) heads_after_append)
  with hits_slots [OF logged_index(1) [OF v], of ?ys pat] ext(1)
  have "sort (map snd ?ys) = sorted_list_of_set (matching (vs_facts (vm_abs v)) pat)"
    by (simp add: vm_abs_def)
  with vm_query_slots_at [OF vz] have query: "vm_query_slots z r2 pat = Some (sort (map snd ?ys))" by simp
  have slots: "snapshot_query_slots ?snap pat = Some (sort (map snd ?ys))"
    unfolding snapshot_query_slots_def sel Let_def prod.case layered_snapshot.select_convs delta_item_def [abs_def]
    by (simp only: xs(2) if_True)
  have "int b - int a = int (size (hits ?W pat ?H))" using arg_cong [OF xs(1), of size] xs(2,3) by simp
  then have "snapshot_query_count ?snap pat = int (size (hits (?W @ ext) pat (ws_accepted_heads v)))"
    using count_fold [OF wl(2) linked fits, of pat]
    unfolding snapshot_query_count_def sel Let_def prod.case layered_snapshot.select_convs n(2) map_append heads_after_append
    by (simp only:)
  also have "\<dots> = int (length (sort (map snd ?ys)))"
    using arg_cong [OF ys, of size] by simp
  finally have amount: "snapshot_query_count ?snap pat = int (length (sort (map snd ?ys)))" .
  have "length ?m = size (live (ws_accepted_heads w))"
    using m(2) by (rule base_map_length)
  also have "\<dots> = vm_active_slot_count w"
    by (simp add: live_def vm_active_slot_count_def flip: mset_filter)
  finally have "active_fact_count (base_of r1 ?m) = vm_active_slot_count w"
    by (simp add: active_fact_count_def base_of_def)
  with base snap query slots amount show ?thesis by blast
qed

section \<open>Property\<close>

text \<open>
  C18. A layered snapshot answers as the replay of the whole history: with a base compacted at
  one root and the tail of deltas up to a later root, the slots of every query pattern and their
  number are those of the later root, and the base counts the slots that were active.  No slice
  of the code goes out of range.
\<close>

theorem layered_snapshot_exact:
  assumes "vm_start u" and "vm_reach u w" and "publish_epoch w = Some (Some r1, w1)" and "vm_reach w1 v"
    and "publish_epoch v = Some (Some r2, v1)" and "vm_reach v1 z"
  shows "\<exists>base snap xs. vm_compact_base z r1 = Some base \<and> vm_layered_snapshot z base r2 = Some snap \<and>
    vm_query_slots z r2 pat = Some xs \<and> snapshot_query_slots snap pat = Some xs \<and>
    snapshot_query_count snap pat = int (length xs) \<and> active_fact_count base = vm_active_slot_count w"
proof -
  have reach: "vm_reach u v"
    using assms(4) reach_publish [OF assms(2,3)]
    by (induction rule: vm_reach.induct) (blast intro: reach_step)+
  from start_published [OF assms(1-4)] start_published [OF assms(1) reach assms(5,6)]
  show ?thesis by (rule layered_at)
qed

theorem layered_snapshot_exact_witness:
  "\<exists>z base snap r2. vm_layered_snapshot z base r2 = Some snap \<and> resolve_object z 0 = Some (Some 7) \<and>
     snapshot_query_slots snap (QObject 7) = vm_query_slots z r2 (QObject 7)"
proof -
  from two_publications_reach obtain u w r w1 v r2 v1 where
    1: "vm_start u" "vm_reach u w" "publish_epoch w = Some (Some r, w1)" "vm_reach w1 v"
      "publish_epoch v = Some (Some r2, v1)" "resolve_object v 0 = Some (Some 7)" by blast
  from 1(5) obtain a b c where "v1 = v\<lparr>ws_version := a, ws_last_root := b, ws_roots := c\<rparr>" by (rule publish_epoch_same)
  then have "resolve_object v1 0 = resolve_object v 0" by (simp add: resolve_object_def accepted_head_def)
  with layered_snapshot_exact [OF 1(1-5) reach_refl, of "QObject 7"] 1(6) show ?thesis by force
qed

end
