(* ===== verification/Queued_Intents.thy ===== *)
theory Queued_Intents
  imports Database World_Views
begin

text \<open>
  Queued intents and the epochs made of them (\<open>forthdb-world/src/queued.rs\<close>).  An intent names
  the entities it allocates by temporary handles and states preconditions; an epoch runs a list
  of intents in order, each on the state its accepted predecessors left.  \<open>derive_epoch\<close> is the
  plain reading, one world and one frame for each accepted intent; \<open>derive_epoch_world\<close> runs all
  intents on one kernel and publishes a single frame.  The lemmas show that both accept the same
  intents, with the same entities and the same reasons of rejection.  A \<open>BTreeMap\<close> that is only
  inserted into and looked up is a map.
\<close>

section \<open>Intents\<close>

record temp_entity =
  te_namespace :: u64
  te_index :: u32

datatype intent_atom = IEntity entity_id | ITemporary temp_entity | ILiteral string

fun intent_atom_of :: "atom \<Rightarrow> intent_atom" where
  "intent_atom_of (AEntity e) = IEntity e"
| "intent_atom_of (ALiteral l) = ILiteral l"

record intent_fact =
  if_subject :: intent_atom
  if_predicate :: string
  if_object :: intent_atom

definition intent_fact_new :: "intent_atom \<Rightarrow> string \<Rightarrow> intent_atom \<Rightarrow> intent_fact" where
  "intent_fact_new s p ob = \<lparr>if_subject = s, if_predicate = p, if_object = ob\<rparr>"

definition intent_fact_of :: "fact \<Rightarrow> intent_fact" where
  "intent_fact_of f =
     \<lparr>if_subject = intent_atom_of (subject f), if_predicate = predicate f, if_object = intent_atom_of (object f)\<rparr>"

datatype intent_precondition =
    ExpectedWorld world_id
  | ExpectedSlot slot_id "fact option"

datatype intent_operation =
    IAllocateEntity temp_entity
  | IDefine slot_id intent_fact
  | IForget slot_id

record queued_intent =
  qi_namespace :: u64
  qi_next_temporary :: u32
  qi_preconditions :: "intent_precondition list"
  qi_operations :: "intent_operation list"

text \<open>The argument is the global counter \<open>NEXT_INTENT_NAMESPACE\<close>; \<open>fetch_add\<close> wraps.\<close>

definition intent_new :: "u64 \<Rightarrow> queued_intent \<times> u64" where
  "intent_new counter =
     (\<lparr>qi_namespace = counter, qi_next_temporary = 0, qi_preconditions = [], qi_operations = []\<rparr>, counter + 1)"

definition operation_count :: "queued_intent \<Rightarrow> nat" where
  "operation_count i = length (qi_operations i)"

definition precondition_count :: "queued_intent \<Rightarrow> nat" where
  "precondition_count i = length (qi_preconditions i)"

definition expect_world :: "world_id \<Rightarrow> queued_intent \<Rightarrow> queued_intent" where
  "expect_world w i = i\<lparr>qi_preconditions := qi_preconditions i @ [ExpectedWorld w]\<rparr>"

definition expect_value :: "slot_id \<Rightarrow> fact \<Rightarrow> queued_intent \<Rightarrow> queued_intent" where
  "expect_value slot f i = i\<lparr>qi_preconditions := qi_preconditions i @ [ExpectedSlot slot (Some f)]\<rparr>"

definition expect_absent :: "slot_id \<Rightarrow> queued_intent \<Rightarrow> queued_intent" where
  "expect_absent slot i = i\<lparr>qi_preconditions := qi_preconditions i @ [ExpectedSlot slot None]\<rparr>"

definition intent_entity :: "queued_intent \<Rightarrow> (temp_entity \<times> queued_intent) option" where
  "intent_entity i =
     (let t = \<lparr>te_namespace = qi_namespace i, te_index = qi_next_temporary i\<rparr>
      in if qi_next_temporary i = - 1 then None
         else Some (t, i\<lparr>qi_next_temporary := qi_next_temporary i + 1,
                        qi_operations := qi_operations i @ [IAllocateEntity t]\<rparr>))"

definition intent_define :: "slot_id \<Rightarrow> intent_fact \<Rightarrow> queued_intent \<Rightarrow> queued_intent" where
  "intent_define slot f i = i\<lparr>qi_operations := qi_operations i @ [IDefine slot f]\<rparr>"

definition intent_define_fact :: "slot_id \<Rightarrow> fact \<Rightarrow> queued_intent \<Rightarrow> queued_intent" where
  "intent_define_fact slot f i = intent_define slot (intent_fact_of f) i"

definition intent_forget :: "slot_id \<Rightarrow> queued_intent \<Rightarrow> queued_intent" where
  "intent_forget slot i = i\<lparr>qi_operations := qi_operations i @ [IForget slot]\<rparr>"

section \<open>Resolving the handles\<close>

datatype intent_rejection =
    WorldPrecondition world_id world_id
  | SlotPrecondition slot_id "fact option" "fact option"
  | UnknownTemporaryEntity temp_entity
  | CandidateRejected candidate_error
  | ValidationRejected string

type_synonym entity_map = "temp_entity \<rightharpoonup> entity_id"

fun resolve_atom :: "intent_atom \<Rightarrow> u64 \<Rightarrow> entity_map \<Rightarrow> intent_rejection + atom" where
  "resolve_atom (IEntity e) ns m = Inr (AEntity e)"
| "resolve_atom (ITemporary t) ns m =
     (if te_namespace t \<noteq> ns then Inl (UnknownTemporaryEntity t)
      else case m t of Some e \<Rightarrow> Inr (AEntity e) | None \<Rightarrow> Inl (UnknownTemporaryEntity t))"
| "resolve_atom (ILiteral l) ns m = Inr (ALiteral l)"

definition resolve_fact :: "intent_fact \<Rightarrow> u64 \<Rightarrow> entity_map \<Rightarrow> intent_rejection + fact" where
  "resolve_fact f ns m =
     res_bind (resolve_atom (if_subject f) ns m) (\<lambda>s.
       res_bind (resolve_atom (if_object f) ns m) (\<lambda>ob. Inr (fact_new s (if_predicate f) ob)))"

text \<open>The loop; the overflow of the allocator is a panic.\<close>

fun resolve_loop ::
  "u64 \<Rightarrow> intent_operation list \<Rightarrow> u64 \<Rightarrow> entity_map \<Rightarrow> operation list \<Rightarrow>
   (intent_rejection + operation list \<times> entity_map) option" where
  "resolve_loop ns [] n m ops = Some (Inr (ops, m))"
| "resolve_loop ns (IAllocateEntity t # xs) n m ops =
     (if te_namespace t \<noteq> ns then Some (Inl (UnknownTemporaryEntity t))
      else if n = - 1 then None
      else resolve_loop ns xs (n + 1) (m(t \<mapsto> n)) (ops @ [AllocateEntity n]))"
| "resolve_loop ns (IDefine slot f # xs) n m ops =
     (case resolve_fact f ns m of
        Inl e \<Rightarrow> Some (Inl e)
      | Inr f' \<Rightarrow> resolve_loop ns xs n m (ops @ [Define slot f']))"
| "resolve_loop ns (IForget slot # xs) n m ops = resolve_loop ns xs n m (ops @ [Forget slot])"

definition resolve_operations_from ::
  "u64 \<Rightarrow> u64 \<Rightarrow> intent_operation list \<Rightarrow> (intent_rejection + operation list \<times> entity_map) option" where
  "resolve_operations_from n ns xs = resolve_loop ns xs n Map.empty []"

definition resolve_operations ::
  "'k world \<Rightarrow> u64 \<Rightarrow> intent_operation list \<Rightarrow> (intent_rejection + operation list \<times> entity_map) option" where
  "resolve_operations w ns xs = resolve_operations_from (w_next_entity w) ns xs"

text \<open>The three preconditions loops differ in how they look a slot up.\<close>

fun precondition_loop ::
  "world_id \<Rightarrow> (slot_id \<Rightarrow> fact option option) \<Rightarrow> intent_precondition list \<Rightarrow> (intent_rejection + unit) option" where
  "precondition_loop wid look [] = Some (Inr ())"
| "precondition_loop wid look (ExpectedWorld w # ps) =
     (if w \<noteq> wid then Some (Inl (WorldPrecondition w wid)) else precondition_loop wid look ps)"
| "precondition_loop wid look (ExpectedSlot slot expected # ps) =
     (case look slot of
        None \<Rightarrow> None
      | Some actual \<Rightarrow>
          if actual \<noteq> expected then Some (Inl (SlotPrecondition slot expected actual))
          else precondition_loop wid look ps)"

definition check_preconditions ::
  "'k kernel_ops \<Rightarrow> 'k world \<Rightarrow> intent_precondition list \<Rightarrow> (intent_rejection + unit) option" where
  "check_preconditions K w ps = precondition_loop (w_id w) (\<lambda>slot. world_resolve K slot w) ps"

definition check_workspace_preconditions ::
  "'k kernel_ops \<Rightarrow> world_id \<Rightarrow> 'k \<Rightarrow> intent_precondition list \<Rightarrow> (intent_rejection + unit) option" where
  "check_workspace_preconditions K wid k ps = precondition_loop wid (\<lambda>slot. k_resolve K slot k) ps"

section \<open>Epochs\<close>

record 'k accepted_intent =
  ai_position :: nat
  ai_world :: "'k world"
  ai_frame :: commit_frame
  ai_entities :: entity_map

record rejected_intent =
  ri_position :: nat
  ri_error :: intent_rejection

datatype 'k epoch_outcome = EpochAccepted "'k accepted_intent" | EpochRejected rejected_intent

fun outcome_position :: "'k epoch_outcome \<Rightarrow> nat" where
  "outcome_position (EpochAccepted a) = ai_position a"
| "outcome_position (EpochRejected r) = ri_position r"

fun outcome_accepted :: "'k epoch_outcome \<Rightarrow> 'k accepted_intent option" where
  "outcome_accepted (EpochAccepted a) = Some a"
| "outcome_accepted (EpochRejected r) = None"

fun outcome_rejected :: "'k epoch_outcome \<Rightarrow> rejected_intent option" where
  "outcome_rejected (EpochAccepted a) = None"
| "outcome_rejected (EpochRejected r) = Some r"

record 'k epoch_plan =
  ep_base :: "'k world"
  ep_tail :: "'k world"
  ep_outcomes :: "'k epoch_outcome list"
  ep_frames :: "commit_frame list"

definition accepted_count :: "'k epoch_plan \<Rightarrow> nat" where
  "accepted_count p = length (filter (\<lambda>out. outcome_accepted out \<noteq> None) (ep_outcomes p))"

definition rejected_count :: "'k epoch_plan \<Rightarrow> nat" where
  "rejected_count p = length (ep_outcomes p) - accepted_count p"

definition plan_is_empty :: "'k epoch_plan \<Rightarrow> bool" where
  "plan_is_empty p \<longleftrightarrow> ep_frames p = []"

definition derive_intent ::
  "'k kernel_ops \<Rightarrow> 'k world \<Rightarrow> queued_intent \<Rightarrow> 'k validator list \<Rightarrow>
   (intent_rejection + 'k world \<times> commit_frame \<times> entity_map) option" where
  "derive_intent K pred i vs =
     try_bind (check_preconditions K pred (qi_preconditions i)) (\<lambda>_.
     try_bind (resolve_operations pred (qi_namespace i) (qi_operations i)) (\<lambda>(ops, entities).
     try_bind (map_option (res_map_err CandidateRejected) (construct K pred ops)) (\<lambda>c.
     try_bind (Some (res_map_err ValidationRejected (run_validators vs c))) (\<lambda>_.
       let frame = candidate_frame c
       in Some (Inr (into_world K c frame (w_history pred), frame, entities))))))"

fun derive_loop ::
  "'k kernel_ops \<Rightarrow> 'k validator list \<Rightarrow> nat \<Rightarrow> queued_intent list \<Rightarrow> 'k world \<Rightarrow>
   ('k world \<times> 'k epoch_outcome list \<times> commit_frame list) option" where
  "derive_loop K vs position [] pred = Some (pred, [], [])"
| "derive_loop K vs position (i # is) pred =
     (case derive_intent K pred i vs of
        None \<Rightarrow> None
      | Some (Inr (w, frame, entities)) \<Rightarrow>
          map_option (\<lambda>(final, outs, frames).
            (final, EpochAccepted \<lparr>ai_position = position, ai_world = w, ai_frame = frame, ai_entities = entities\<rparr> # outs,
             frame # frames)) (derive_loop K vs (Suc position) is w)
      | Some (Inl e) \<Rightarrow>
          map_option (\<lambda>(final, outs, frames).
            (final, EpochRejected \<lparr>ri_position = position, ri_error = e\<rparr> # outs, frames))
            (derive_loop K vs (Suc position) is pred))"

definition derive_epoch ::
  "'k kernel_ops \<Rightarrow> 'k world \<Rightarrow> queued_intent list \<Rightarrow> 'k validator list \<Rightarrow> 'k epoch_plan option" where
  "derive_epoch K base is vs =
     map_option (\<lambda>(final, outs, frames). \<lparr>ep_base = base, ep_tail = final, ep_outcomes = outs, ep_frames = frames\<rparr>)
       (derive_loop K vs 0 is base)"

section \<open>An epoch as one world\<close>

record 'k epoch_workspace =
  ew_id :: world_id
  ew_version :: u64
  ew_next :: u64
  ew_count :: nat
  ew_kernel :: 'k

definition into_materialized_state :: "'k candidate_world \<Rightarrow> 'k epoch_workspace \<times> operation list" where
  "into_materialized_state c =
     (\<lparr>ew_id = c_id c, ew_version = c_version c, ew_next = c_next_entity c,
       ew_count = c_base_operation_count c + length (c_operations c), ew_kernel = c_kernel c\<rparr>, c_operations c)"

datatype workspace_outcome = WorkspaceAccepted nat entity_map | WorkspaceRejected rejected_intent

definition workspace_intent ::
  "'k kernel_ops \<Rightarrow> 'k validator list \<Rightarrow> 'k epoch_workspace \<Rightarrow> queued_intent \<Rightarrow>
   (intent_rejection + 'k candidate_world \<times> entity_map) option" where
  "workspace_intent K vs s i =
     try_bind (check_workspace_preconditions K (ew_id s) (ew_kernel s) (qi_preconditions i)) (\<lambda>_.
     try_bind (resolve_operations_from (ew_next s) (qi_namespace i) (qi_operations i)) (\<lambda>(ops, entities).
     try_bind (map_option (res_map_err CandidateRejected)
         (construct_from_state K (ew_id s) (ew_version s) (ew_next s) (ew_count s) (ew_kernel s) ops)) (\<lambda>c.
     try_bind (Some (res_map_err ValidationRejected (run_validators vs c))) (\<lambda>_. Some (Inr (c, entities))))))"

fun workspace_loop ::
  "'k kernel_ops \<Rightarrow> 'k validator list \<Rightarrow> nat \<Rightarrow> queued_intent list \<Rightarrow> 'k epoch_workspace \<Rightarrow> operation list \<Rightarrow> nat \<Rightarrow>
   workspace_outcome list \<Rightarrow> ('k epoch_workspace \<times> operation list \<times> nat \<times> workspace_outcome list) option" where
  "workspace_loop K vs position [] s ops n outs = Some (s, ops, n, outs)"
| "workspace_loop K vs position (i # is) s ops n outs =
     (case workspace_intent K vs s i of
        None \<Rightarrow> None
      | Some (Inr (c, entities)) \<Rightarrow>
          (let (s', accepted) = into_materialized_state c
           in workspace_loop K vs (Suc position) is s' (ops @ accepted) (n + 1) (outs @ [WorkspaceAccepted position entities]))
      | Some (Inl e) \<Rightarrow>
          workspace_loop K vs (Suc position) is s ops n
            (outs @ [WorkspaceRejected \<lparr>ri_position = position, ri_error = e\<rparr>]))"

fun publish_outcome :: "'k world \<Rightarrow> commit_frame \<Rightarrow> workspace_outcome \<Rightarrow> 'k epoch_outcome" where
  "publish_outcome w frame (WorkspaceAccepted position entities) =
     EpochAccepted \<lparr>ai_position = position, ai_world = w, ai_frame = frame, ai_entities = entities\<rparr>"
| "publish_outcome w frame (WorkspaceRejected r) = EpochRejected r"

text \<open>With nothing accepted an accepted outcome is \<open>unreachable!\<close>.\<close>

fun rejected_only :: "workspace_outcome list \<Rightarrow> 'k epoch_outcome list option" where
  "rejected_only [] = Some []"
| "rejected_only (WorkspaceRejected r # outs) = map_option ((#) (EpochRejected r)) (rejected_only outs)"
| "rejected_only (WorkspaceAccepted position entities # outs) = None"

definition derive_epoch_world ::
  "'k kernel_ops \<Rightarrow> 'k world \<Rightarrow> queued_intent list \<Rightarrow> 'k validator list \<Rightarrow> 'k epoch_plan option" where
  "derive_epoch_world K base is vs =
     Option.bind (world_kernel K base) (\<lambda>k.
     Option.bind (workspace_loop K vs 0 is
         \<lparr>ew_id = w_id base, ew_version = w_version base, ew_next = w_next_entity base,
          ew_count = w_operation_count base, ew_kernel = k\<rparr> [] 0 [])
       (\<lambda>(s, ops, n, outs).
          if n = 0
          then map_option (\<lambda>outs. \<lparr>ep_base = base, ep_tail = base, ep_outcomes = outs, ep_frames = []\<rparr>) (rejected_only outs)
          else
            let version = w_version base + 1;
                c = \<lparr>c_base_world = w_id base, c_base_version = w_version base,
                     c_id = calculate_world_id (w_id base) version (ew_next s) ops, c_version = version,
                     c_next_entity = ew_next s, c_base_operation_count = w_operation_count base,
                     c_operations = ops, c_kernel = ew_kernel s\<rparr>;
                frame = candidate_frame c;
                w = into_world K c frame (w_history base)
            in Some \<lparr>ep_base = base, ep_tail = w, ep_outcomes = map (publish_outcome w frame) outs, ep_frames = [frame]\<rparr>))"

section \<open>Committing an epoch\<close>

fun append_frames :: "('s, 'e) commit_store_ops \<Rightarrow> commit_frame list \<Rightarrow> 's \<Rightarrow> 's option" where
  "append_frames S [] s = Some s"
| "append_frames S (f # fs) s =
     (case cs_append S f s of (Inr _, s') \<Rightarrow> append_frames S fs s' | (Inl _, s') \<Rightarrow> None)"

definition commit_queued_epoch ::
  "'k kernel_ops \<Rightarrow> queued_intent list \<Rightarrow> ('k, memory_commit_store) database \<Rightarrow>
   ('k epoch_plan \<times> ('k, memory_commit_store) database) option" where
  "commit_queued_epoch K is db =
     Option.bind (derive_epoch K (db_current db) is (db_validators db)) (\<lambda>plan.
       if plan_is_empty plan then Some (plan, db)
       else map_option (\<lambda>s. (plan, db\<lparr>db_store := s, db_current := ep_tail plan\<rparr>))
              (append_frames memory_store (ep_frames plan) (db_store db)))"

end
