(* ===== verification/Epochs.thy ===== *)
theory Epochs
  imports Queued_Intents Sessions
begin

text \<open>
  Epochs of queued intents: \<open>derive_epoch_world\<close>, which runs all intents on one kernel and
  publishes one frame, is \<open>derive_epoch\<close> with its frames joined, and committing an epoch keeps a
  database whose store reconstructs to its current world.
\<close>

section \<open>One intent on a world and on a workspace\<close>

definition same_state :: "'k kernel_ops \<Rightarrow> 'k world \<Rightarrow> 'k epoch_workspace \<Rightarrow> bool" where
  "same_state K w s \<longleftrightarrow>
     w_id w = ew_id s \<and> w_version w = ew_version s \<and> w_next_entity w = ew_next s \<and> w_operation_count w = ew_count s \<and>
     world_kernel K w = Some (ew_kernel s) \<and> (\<forall>slot. world_resolve K slot w = k_resolve K slot (ew_kernel s))"

lemma into_world_same:
  "same_state K (into_world K c (candidate_frame c) h) (fst (into_materialized_state c))"
  by (simp add: same_state_def into_world_def into_materialized_state_def world_kernel_def world_resolve_def)

lemma into_world_fields:
  "w_next_entity (into_world K c f h) = c_next_entity c" "world_kernel K (into_world K c f h) = Some (c_kernel c)"
  by (simp_all add: into_world_def world_kernel_def)

lemma publish_accepted: "EpochAccepted a = publish_outcome w f out \<Longrightarrow> ai_world a = w \<and> ai_frame a = f"
  by (cases out) auto

definition publish_candidate :: "'k kernel_ops \<Rightarrow> 'k world \<Rightarrow> 'k candidate_world \<times> entity_map \<Rightarrow> 'k world \<times> commit_frame \<times> entity_map" where
  "publish_candidate K pred = (\<lambda>(c, entities). (into_world K c (candidate_frame c) (w_history pred), candidate_frame c, entities))"

lemma map_try_bind: "map_option (res_map g) (try_bind r f) = try_bind r (\<lambda>x. map_option (res_map g) (f x))"
  by (cases "(r, f)" rule: try_bind.cases) simp_all

lemma derive_intent_workspace:
  assumes "same_state K pred s"
  shows "derive_intent K pred i vs = map_option (res_map (publish_candidate K pred)) (workspace_intent K vs s i)"
proof -
  have "check_preconditions K pred (qi_preconditions i) =
      check_workspace_preconditions K (ew_id s) (ew_kernel s) (qi_preconditions i)"
    using assms by (simp add: check_preconditions_def check_workspace_preconditions_def same_state_def)
  moreover have "resolve_operations pred (qi_namespace i) (qi_operations i) =
      resolve_operations_from (ew_next s) (qi_namespace i) (qi_operations i)"
    using assms by (simp add: resolve_operations_def same_state_def)
  moreover have "construct K pred ops =
      construct_from_state K (ew_id s) (ew_version s) (ew_next s) (ew_count s) (ew_kernel s) ops" for ops
    using assms by (simp add: construct_def same_state_def)
  ultimately show ?thesis
    by (simp add: derive_intent_def workspace_intent_def publish_candidate_def Let_def map_try_bind case_prod_unfold)
qed

section \<open>The loops\<close>

fun plain_outcome :: "'k epoch_outcome \<Rightarrow> workspace_outcome" where
  "plain_outcome (EpochAccepted a) = WorkspaceAccepted (ai_position a) (ai_entities a)"
| "plain_outcome (EpochRejected r) = WorkspaceRejected r"

lemma loops_agree:
  "same_state K pred s \<Longrightarrow>
   (case derive_loop K vs position is pred of
      None \<Rightarrow> workspace_loop K vs position is s ops n outs = None
    | Some (final, outs', frames) \<Rightarrow> \<exists>s'. same_state K final s' \<and>
        workspace_loop K vs position is s ops n outs =
          Some (s', ops @ concat (map operations frames), n + length frames, outs @ map plain_outcome outs'))"
proof (induction "is" arbitrary: position pred s ops n outs)
  case Nil
  then show ?case by auto
next
  case (Cons i "is")
  note one = derive_intent_workspace [OF Cons.prems, of i vs]
  show ?case
  proof (cases "workspace_intent K vs s i")
    case None
    with one show ?thesis by simp
  next
    case (Some r)
    show ?thesis
    proof (cases r)
      case (Inl e)
      from Cons.IH [OF Cons.prems, of "Suc position" ops n "outs @ [WorkspaceRejected \<lparr>ri_position = position, ri_error = e\<rparr>]"]
      show ?thesis using one Some Inl
        by (cases "derive_loop K vs (Suc position) is pred") auto
    next
      case (Inr p)
      obtain c entities where p: "p = (c, entities)" by fastforce
      let ?w = "into_world K c (candidate_frame c) (w_history pred)"
      obtain s1 where acc: "into_materialized_state c = (s1, operations (candidate_frame c))"
        by (simp add: into_materialized_state_def candidate_frame_def)
      have "same_state K ?w s1" using into_world_same [of K c "w_history pred"] by (simp add: acc)
      note IH = Cons.IH [OF this, of "Suc position" "ops @ operations (candidate_frame c)" "n + 1"
          "outs @ [WorkspaceAccepted position entities]"]
      have derive: "derive_loop K vs position (i # is) pred = map_option (\<lambda>(final, outs, frames).
          (final, EpochAccepted \<lparr>ai_position = position, ai_world = ?w, ai_frame = candidate_frame c, ai_entities = entities\<rparr> # outs,
           candidate_frame c # frames)) (derive_loop K vs (Suc position) is ?w)"
        using one Some Inr p by (simp add: publish_candidate_def)
      have work: "workspace_loop K vs position (i # is) s ops n outs =
          workspace_loop K vs (Suc position) is s1 (ops @ operations (candidate_frame c)) (n + 1) (outs @ [WorkspaceAccepted position entities])"
        using Some Inr p by (simp add: acc)
      show ?thesis
      proof (cases "derive_loop K vs (Suc position) is ?w")
        case None
        with IH show ?thesis unfolding derive work None by simp
      next
        case (Some d)
        then obtain final outs' frames where D: "derive_loop K vs (Suc position) is ?w = Some (final, outs', frames)"
          by (cases d) auto
        from IH obtain s' where s': "same_state K final s'"
          "workspace_loop K vs (Suc position) is s1 (ops @ operations (candidate_frame c)) (n + 1) (outs @ [WorkspaceAccepted position entities]) =
           Some (s', (ops @ operations (candidate_frame c)) @ concat (map operations frames), n + 1 + length frames,
             (outs @ [WorkspaceAccepted position entities]) @ map plain_outcome outs')"
          unfolding D option.case prod.case by blast
        show ?thesis unfolding derive work D s'(2) using s'(1) by auto
      qed
    qed
  qed
qed

lemma loop_empty:
  "derive_loop K vs position is pred = Some (final, outs, []) \<Longrightarrow> final = pred \<and> (\<forall>a. EpochAccepted a \<notin> set outs)"
  by (induction "is" arbitrary: position outs)
    (auto split: option.splits sum.splits prod.splits)

lemma loop_positions:
  "derive_loop K vs position is pred = Some (final, outs, frames) \<Longrightarrow>
   map outcome_position outs = [position..<position + length is] \<and>
   length frames = length (filter (\<lambda>out. outcome_accepted out \<noteq> None) outs)"
proof (induction "is" arbitrary: position pred outs frames)
  case (Cons i "is")
  have "[position..<position + length (i # is)] = position # [Suc position..<Suc position + length is]"
    by (simp add: upt_rec)
  with Cons show ?case
    by (fastforce split: option.splits sum.splits prod.splits)
qed simp

lemma rejected_only_plain:
  "(\<forall>a. EpochAccepted a \<notin> set outs) \<Longrightarrow> rejected_only (map plain_outcome outs) = Some outs"
proof (induction outs)
  case (Cons out outs)
  then show ?case by (cases out) auto
qed simp

definition outcome_result :: "'k epoch_outcome \<Rightarrow> nat \<times> (intent_rejection + entity_map)" where
  "outcome_result out = (outcome_position out,
     (case out of EpochAccepted a \<Rightarrow> Inr (ai_entities a) | EpochRejected r \<Rightarrow> Inl (ri_error r)))"

lemma outcome_result_publish: "outcome_result (publish_outcome w f (plain_outcome out)) = outcome_result out"
  by (cases out) (simp_all add: outcome_result_def)

lemma epoch_world_of_epoch:
  assumes base: "same_state K base
      \<lparr>ew_id = w_id base, ew_version = w_version base, ew_next = w_next_entity base, ew_count = w_operation_count base, ew_kernel = k\<rparr>"
  shows "case derive_epoch K base is vs of
      None \<Rightarrow> derive_epoch_world K base is vs = None
    | Some p \<Rightarrow> \<exists>q. derive_epoch_world K base is vs = Some q \<and>
        map outcome_result (ep_outcomes q) = map outcome_result (ep_outcomes p) \<and>
        (if ep_frames p = [] then ep_frames q = [] \<and> ep_tail q = base
         else \<exists>f. ep_frames q = [f] \<and> operations f = concat (map operations (ep_frames p)) \<and>
           parent_world f = w_id base \<and> resulting_world f = w_id (ep_tail q) \<and>
           (\<forall>a. EpochAccepted a \<in> set (ep_outcomes q) \<longrightarrow> ai_world a = ep_tail q \<and> ai_frame a = f)) \<and>
        w_next_entity (ep_tail q) = w_next_entity (ep_tail p) \<and>
        world_kernel K (ep_tail q) = world_kernel K (ep_tail p)"
proof (cases "derive_loop K vs 0 is base")
  case None
  with loops_agree [OF base, of vs 0 "is" "[]" 0 "[]"] base show ?thesis
    by (simp add: derive_epoch_def derive_epoch_world_def same_state_def)
next
  case (Some r)
  obtain final outs frames where r: "r = (final, outs, frames)" by (cases r) auto
  with loops_agree [OF base, of vs 0 "is" "[]" 0 "[]"] Some obtain s' where
    s': "same_state K final s'"
      "workspace_loop K vs 0 is \<lparr>ew_id = w_id base, ew_version = w_version base, ew_next = w_next_entity base,
         ew_count = w_operation_count base, ew_kernel = k\<rparr> [] 0 [] =
       Some (s', concat (map operations frames), length frames, map plain_outcome outs)" by auto
  have kernel: "world_kernel K base = Some k" using base by (simp add: same_state_def)
  show ?thesis
  proof (cases "frames = []")
    case True
    with loop_empty [of K vs 0 "is" base final outs] Some r have "final = base" "rejected_only (map plain_outcome outs) = Some outs"
      by (simp_all add: rejected_only_plain)
    with True Some r s' kernel show ?thesis
      by (simp add: derive_epoch_def derive_epoch_world_def)
  next
    case False
    let ?ops = "concat (map operations frames)"
    let ?c = "\<lparr>c_base_world = w_id base, c_base_version = w_version base,
        c_id = calculate_world_id (w_id base) (w_version base + 1) (ew_next s') ?ops, c_version = w_version base + 1,
        c_next_entity = ew_next s', c_base_operation_count = w_operation_count base,
        c_operations = ?ops, c_kernel = ew_kernel s'\<rparr>"
    let ?w = "into_world K ?c (candidate_frame ?c) (w_history base)"
    have "derive_epoch_world K base is vs = Some \<lparr>ep_base = base, ep_tail = ?w,
        ep_outcomes = map (publish_outcome ?w (candidate_frame ?c)) (map plain_outcome outs), ep_frames = [candidate_frame ?c]\<rparr>"
      using False s'(2) kernel by (simp add: derive_epoch_world_def Let_def)
    moreover have "operations (candidate_frame ?c) = ?ops" "parent_world (candidate_frame ?c) = w_id base"
      "resulting_world (candidate_frame ?c) = w_id ?w"
      by (simp_all add: candidate_frame_def into_world_def)
    moreover have "w_next_entity ?w = w_next_entity final" "world_kernel K ?w = world_kernel K final"
      using s'(1) by (simp_all add: same_state_def into_world_fields)
    moreover have "map outcome_result (map (publish_outcome ?w (candidate_frame ?c)) (map plain_outcome outs)) = map outcome_result outs"
      by (simp add: outcome_result_publish)
    ultimately show ?thesis
      using False Some r by (auto simp: derive_epoch_def dest: publish_accepted)
  qed
qed

section \<open>Epochs always run\<close>

fun is_allocation :: "intent_operation \<Rightarrow> bool" where
  "is_allocation (IAllocateEntity t) = True"
| "is_allocation (IDefine slot f) = False"
| "is_allocation (IForget slot) = False"

definition allocations :: "queued_intent \<Rightarrow> nat" where
  "allocations i = length (filter is_allocation (qi_operations i))"

lemma resolve_loop_ok:
  "unat n + length (filter is_allocation xs) < 2 ^ 64 \<Longrightarrow>
   (\<exists>e. resolve_loop ns xs n m ops0 = Some (Inl e)) \<or>
   (\<exists>ops m'. resolve_loop ns xs n m ops0 = Some (Inr (ops0 @ ops, m')) \<and>
      allocate_check ops n = Inr (n + word_of_nat (length (filter is_allocation xs))))"
proof (induction ns xs n m ops0 rule: resolve_loop.induct)
  case (2 ns t xs n m ops)
  show ?case
  proof (cases "te_namespace t \<noteq> ns")
    case False
    from "2.prems" have n: "n \<noteq> - 1" by (auto simp: unsigned_minus_1_eq_mask mask_eq_exp_minus_1)
    then have "unat (n + 1) = Suc (unat n)"
      by (rule unat_Suc_u64)
    then have "unat (n + 1) + length (filter is_allocation xs) < 2 ^ 64" using "2.prems" by simp
    from "2.IH" [OF False n this] show ?thesis
    proof (elim disjE exE conjE)
      fix e assume "resolve_loop ns xs (n + 1) (m(t \<mapsto> n)) (ops @ [AllocateEntity n]) = Some (Inl e)"
      with False n show ?thesis by (simp del: fun_upd_apply)
    next
      fix ops' m'
      assume "resolve_loop ns xs (n + 1) (m(t \<mapsto> n)) (ops @ [AllocateEntity n]) = Some (Inr ((ops @ [AllocateEntity n]) @ ops', m'))"
        "allocate_check ops' (n + 1) = Inr (n + 1 + word_of_nat (length (filter is_allocation xs)))"
      with False n show ?thesis
        by (intro disjI2 exI [of _ "AllocateEntity n # ops'"] exI [of _ m']) (simp add: algebra_simps)
    qed
  qed simp
next
  case (3 ns slot f xs n m ops)
  then show ?case by (cases "resolve_fact f ns m") auto
next
  case (4 ns slot xs n m ops)
  then show ?case by auto
qed simp

lemma precondition_loop_total: "(\<And>slot. look slot \<noteq> None) \<Longrightarrow> precondition_loop wid look ps \<noteq> None"
  by (induction wid look ps rule: precondition_loop.induct) (auto split: option.splits)

lemma precondition_loop_error: "precondition_loop wid look ps = Some (Inl e) \<Longrightarrow> \<forall>c. e \<noteq> CandidateRejected c"
  by (induction wid look ps rule: precondition_loop.induct) (auto split: option.splits if_splits)

lemma resolve_fact_error: "resolve_fact f ns m = Inl e \<Longrightarrow> \<forall>c. e \<noteq> CandidateRejected c"
  by (cases "if_subject f"; cases "if_object f") (auto simp: resolve_fact_def split: if_splits option.splits)

lemma resolve_loop_error: "resolve_loop ns xs n m ops = Some (Inl e) \<Longrightarrow> \<forall>c. e \<noteq> CandidateRejected c"
  by (induction ns xs n m ops rule: resolve_loop.induct)
    (auto split: if_splits sum.splits dest: resolve_fact_error)

context database_of
begin

lemma derive_intent_ok:
  assumes cur: "reconstruct K fs = Some (Inr pred)" and room: "unat (w_next_entity pred) + allocations i < 2 ^ 64"
  shows "(\<exists>e. derive_intent K pred i vs = Some (Inl e) \<and> (\<forall>c. e \<noteq> CandidateRejected c)) \<or>
    (\<exists>w f entities. derive_intent K pred i vs = Some (Inr (w, f, entities)) \<and>
       reconstruct K (fs @ [f]) = Some (Inr w) \<and>
       unat (w_next_entity w) = unat (w_next_entity pred) + allocations i)"
proof -
  have wo: "world_of fs pred" using cur reconstruct_iff [of fs] by (auto split: if_splits)
  have "precondition_loop (w_id pred) (\<lambda>slot. world_resolve K slot pred) (qi_preconditions i) \<noteq> None"
    by (rule precondition_loop_total) (simp add: world_of_observations(3) [OF wo])
  then obtain pre where pre: "precondition_loop (w_id pred) (\<lambda>slot. world_resolve K slot pred) (qi_preconditions i) = Some pre"
    by blast
  show ?thesis
  proof (cases pre)
    case (Inl e)
    with pre precondition_loop_error [OF pre [unfolded Inl]] show ?thesis
      by (auto simp: derive_intent_def check_preconditions_def)
  next
    case (Inr u)
    from resolve_loop_ok [of "w_next_entity pred" "qi_operations i" "qi_namespace i" Map.empty "[]"] room
    consider e where "resolve_loop (qi_namespace i) (qi_operations i) (w_next_entity pred) Map.empty [] = Some (Inl e)"
      | ops m where "resolve_loop (qi_namespace i) (qi_operations i) (w_next_entity pred) Map.empty [] = Some (Inr (ops, m))"
          "allocate_check ops (w_next_entity pred) = Inr (w_next_entity pred + word_of_nat (allocations i))"
      by (auto simp: allocations_def)
    then show ?thesis
    proof cases
      case 1
      with pre Inr resolve_loop_error [OF 1] show ?thesis
        by (auto simp: derive_intent_def check_preconditions_def resolve_operations_def resolve_operations_from_def)
    next
      case 2
      with candidate_of_world [OF wo, of ops] obtain c where
        c: "construct K pred ops = Some (Inr c)" "c_next_entity c = w_next_entity pred + word_of_nat (allocations i)" by auto
      note run = pre Inr 2(1) c(1)
      have "unat (c_next_entity c) = unat (w_next_entity pred) + allocations i"
        unfolding c(2) using room by (simp add: unat_word_ariths unat_of_nat)
      then show ?thesis
        using run into_world_reconstructs [OF cur c(1)]
        by (cases "run_validators vs c")
          (auto simp: derive_intent_def check_preconditions_def resolve_operations_def resolve_operations_from_def
            Let_def into_world_fields)
    qed
  qed
qed

lemma derive_loop_ok:
  "reconstruct K fs = Some (Inr pred) \<Longrightarrow> unat (w_next_entity pred) + (\<Sum>i\<leftarrow>is. allocations i) < 2 ^ 64 \<Longrightarrow>
   \<exists>final outs frames. derive_loop K vs position is pred = Some (final, outs, frames) \<and>
     reconstruct K (fs @ frames) = Some (Inr final) \<and>
     frames = map ai_frame (List.map_filter outcome_accepted outs) \<and>
     (\<forall>r \<in> set (List.map_filter outcome_rejected outs). \<forall>c. ri_error r \<noteq> CandidateRejected c)"
proof (induction "is" arbitrary: fs pred position)
  case Nil
  then show ?case by (simp add: map_filter_simps)
next
  case (Cons i "is")
  have room: "unat (w_next_entity pred) + allocations i < 2 ^ 64" using Cons.prems(2) by simp
  from derive_intent_ok [OF Cons.prems(1) room, of vs] show ?case
  proof (elim disjE exE conjE)
    fix e assume e: "derive_intent K pred i vs = Some (Inl e)" "\<forall>c. e \<noteq> CandidateRejected c"
    have "unat (w_next_entity pred) + (\<Sum>i\<leftarrow>is. allocations i) < 2 ^ 64" using Cons.prems(2) by simp
    from Cons.IH [OF Cons.prems(1) this, of "Suc position"] e show ?case by (auto simp: map_filter_simps)
  next
    fix w f entities
    assume w: "derive_intent K pred i vs = Some (Inr (w, f, entities))" "reconstruct K (fs @ [f]) = Some (Inr w)"
      "unat (w_next_entity w) = unat (w_next_entity pred) + allocations i"
    have "unat (w_next_entity w) + (\<Sum>i\<leftarrow>is. allocations i) < 2 ^ 64" using Cons.prems(2) w(3) by simp
    from Cons.IH [OF w(2) this, of "Suc position"] w(1) show ?case by (auto simp: map_filter_simps)
  qed
qed

end

lemma memory_append_frames: "append_frames memory_store fs s = Some (s @ fs)"
  by (induction fs arbitrary: s) (simp_all add: memory_store_def memory_append_def)

section \<open>Properties\<close>

text \<open>
  C15. Running an epoch on one kernel and publishing one frame is the plain epoch with its frames
  joined: on every world that recovery or the virtual machine publishes, with any validators,
  both panic together, both accept the same intents with the same entities and reject the others
  for the same reasons, the single frame carries exactly the operations of all frames of the
  plain epoch from the same base, every accepted intent observes the one new world, and the
  final worlds have the same allocator and the same kernel.
\<close>

theorem epoch_world_joins_epoch:
  assumes "vm_world reference_kernel fs base" and "length fs < 2 ^ 64"
  shows "case derive_epoch reference_kernel base is vs of
      None \<Rightarrow> derive_epoch_world reference_kernel base is vs = None
    | Some p \<Rightarrow> \<exists>q. derive_epoch_world reference_kernel base is vs = Some q \<and>
        map outcome_result (ep_outcomes q) = map outcome_result (ep_outcomes p) \<and>
        (if ep_frames p = [] then ep_frames q = [] \<and> ep_tail q = base
         else \<exists>f. ep_frames q = [f] \<and> operations f = concat (map operations (ep_frames p)) \<and>
           parent_world f = w_id base \<and> resulting_world f = w_id (ep_tail q) \<and>
           (\<forall>a. EpochAccepted a \<in> set (ep_outcomes q) \<longrightarrow> ai_world a = ep_tail q \<and> ai_frame a = f)) \<and>
        w_next_entity (ep_tail q) = w_next_entity (ep_tail p) \<and>
        world_kernel reference_kernel (ep_tail q) = world_kernel reference_kernel (ep_tail p)"
proof -
  have ok: "reference.view_ok fs base" by (rule reference.vm_world_view_ok [OF assms])
  obtain db where db: "world_kernel reference_kernel base = Some db" "wf_db db" "abs_db db = frames_spec fs"
    using reference.world_kernel_ok [OF ok assms(2)] by (auto simp: reference.holds_def)
  have "world_resolve reference_kernel slot base = k_resolve reference_kernel slot db" for slot
    using vm_world_views [OF assms] db(2,3) by (simp add: reference.resolve)
  with db(1) show ?thesis
    by (intro epoch_world_of_epoch [where k = db]) (simp add: same_state_def)
qed

text \<open>An intent that allocates a book, names it and expects the slot to be free.\<close>

definition sample_intent :: queued_intent where
  "sample_intent =
     (let t = \<lparr>te_namespace = 7, te_index = 0\<rparr>
      in \<lparr>qi_namespace = 7, qi_next_temporary = 1, qi_preconditions = [ExpectedSlot ''book/title'' None],
          qi_operations = [IAllocateEntity t, IDefine ''book/title'' (intent_fact_new (ITemporary t) ''title'' (ILiteral ''Emma''))]\<rparr>)"

lemma sample_allocations: "allocations sample_intent = 1"
  by (simp add: allocations_def sample_intent_def Let_def)

lemma sample_reconstruct: "reconstruct reference_kernel [] = Some (Inr (genesis reference_kernel))"
  by (simp add: reconstruct_def genesis_def)

theorem epoch_world_joins_epoch_witness:
  "\<exists>p q. derive_epoch reference_kernel (genesis reference_kernel) [sample_intent, sample_intent] [] = Some p \<and>
     derive_epoch_world reference_kernel (genesis reference_kernel) [sample_intent, sample_intent] [] = Some q \<and>
     map outcome_result (ep_outcomes q) = map outcome_result (ep_outcomes p)"
proof -
  have world: "vm_world reference_kernel [] (genesis reference_kernel)"
    by (rule vm_reconstruct [OF sample_reconstruct]) (simp add: numbered_def)
  have "unat (w_next_entity (genesis reference_kernel)) + (\<Sum>i\<leftarrow>[sample_intent, sample_intent]. allocations i) < 2 ^ 64"
    by (simp add: genesis_def sample_allocations)
  from reference_memory.derive_loop_ok [OF sample_reconstruct this, of "[]" 0] obtain p where
    "derive_epoch reference_kernel (genesis reference_kernel) [sample_intent, sample_intent] [] = Some p"
    by (auto simp: derive_epoch_def)
  with epoch_world_joins_epoch [OF world, of "[sample_intent, sample_intent]" "[]"] show ?thesis by auto
qed

text \<open>
  C16. Committing an epoch of queued intents cannot fail while the allocator lasts.  The store
  grows by exactly the frames of the accepted intents, in order; reconstructing it gives the new
  current world; every intent has one outcome at its position; and no intent is ever rejected
  because its own candidate could not be constructed.
\<close>

theorem queued_epoch_commits:
  assumes "reconstruct reference_kernel (db_store db) = Some (Inr (db_current db))"
    and "unat (w_next_entity (db_current db)) + (\<Sum>i\<leftarrow>is. allocations i) < 2 ^ 64"
  shows "\<exists>plan db'. commit_queued_epoch reference_kernel is db = Some (plan, db') \<and>
    reconstruct reference_kernel (db_store db') = Some (Inr (db_current db')) \<and>
    db_current db' = ep_tail plan \<and> db_store db' = db_store db @ ep_frames plan \<and>
    ep_frames plan = map ai_frame (List.map_filter outcome_accepted (ep_outcomes plan)) \<and>
    map outcome_position (ep_outcomes plan) = [0..<length is] \<and>
    (\<forall>r \<in> set (List.map_filter outcome_rejected (ep_outcomes plan)). \<forall>c. ri_error r \<noteq> CandidateRejected c)"
proof -
  from reference_memory.derive_loop_ok [OF assms, of "db_validators db" 0] obtain final outs frames where
    1: "derive_loop reference_kernel (db_validators db) 0 is (db_current db) = Some (final, outs, frames)"
      "reconstruct reference_kernel (db_store db @ frames) = Some (Inr final)"
      "frames = map ai_frame (List.map_filter outcome_accepted outs)"
      "\<forall>r \<in> set (List.map_filter outcome_rejected outs). \<forall>c. ri_error r \<noteq> CandidateRejected c" by blast
  from loop_positions [OF 1(1)] have pos: "map outcome_position outs = [0..<length is]" by simp
  show ?thesis
  proof (cases "frames = []")
    case True
    with 1(1) have "final = db_current db" by (simp add: loop_empty)
    with True 1 pos show ?thesis
      by (simp add: commit_queued_epoch_def derive_epoch_def plan_is_empty_def)
  next
    case False
    with 1 pos show ?thesis
      by (simp add: commit_queued_epoch_def derive_epoch_def plan_is_empty_def memory_append_frames)
  qed
qed

theorem queued_epoch_commits_witness:
  "\<exists>plan db. commit_queued_epoch reference_kernel [sample_intent, sample_intent] sample_database = Some (plan, db) \<and>
     reconstruct reference_kernel (db_store db) = Some (Inr (db_current db)) \<and>
     map outcome_position (ep_outcomes plan) = [0, 1]"
proof -
  have "reconstruct reference_kernel (db_store sample_database) = Some (Inr (db_current sample_database))"
    by (simp add: sample_database_def sample_reconstruct)
  moreover have "unat (w_next_entity (db_current sample_database)) + (\<Sum>i\<leftarrow>[sample_intent, sample_intent]. allocations i) < 2 ^ 64"
    by (simp add: sample_database_def genesis_def sample_allocations)
  ultimately show ?thesis
    using queued_epoch_commits [of sample_database "[sample_intent, sample_intent]"] by (auto simp: upt_rec)
qed

end
