(* ===== verification/VM_Materializer.thy ===== *)
theory VM_Materializer
  imports Epochs VM_Index
begin

text \<open>
  The materializer that runs epochs on the stack machine (\<open>VmEpochMaterializer\<close> in
  \<open>forthdb-world/src/queued.rs\<close>).  It holds a workspace and three dictionaries that turn slots,
  predicates and literals into tokens.  A mapped snapshot, when there is one, is an interface of
  lookups (\<open>mapped_vocabulary\<close>).  Operations change the materializer even when they fail, so the
  new state is returned next to the error; \<open>None\<close> is a panic.
\<close>

section \<open>Dictionaries\<close>

record mapped_vocabulary =
  mv_slot_token :: "slot_id \<Rightarrow> u32 option"
  mv_slot_count :: nat
  mv_predicate_token :: "string \<Rightarrow> u32 option"
  mv_predicate_count :: nat
  mv_predicate_value :: "nat \<Rightarrow> string option"
  mv_literal_token :: "string \<Rightarrow> u32 option"
  mv_literal_count :: nat
  mv_literal_value :: "nat \<Rightarrow> string option"

record vm_materializer =
  vm_workspace :: workspace
  vm_version :: u64
  mapped_base :: "mapped_vocabulary option"
  vm_slots :: "(slot_id \<times> slot_token) list"
  vm_predicates :: "(string \<times> cell) list"
  predicate_values :: "string list"
  vm_literals :: "(string \<times> cell) list"
  literal_values :: "string list"

definition VM_LITERAL_BASE :: u64 where
  "VM_LITERAL_BASE = 2 ^ 63"

definition materializer_new :: "u64 \<Rightarrow> vm_materializer" where
  "materializer_new allocator =
     \<lparr>vm_workspace = with_indexes_from allocator 0 32, vm_version = 0, mapped_base = None, vm_slots = [],
      vm_predicates = [], predicate_values = [], vm_literals = [], literal_values = []\<rparr>"

definition mapped_count :: "(mapped_vocabulary \<Rightarrow> nat) \<Rightarrow> vm_materializer \<Rightarrow> nat" where
  "mapped_count f m = (case mapped_base m of None \<Rightarrow> 0 | Some b \<Rightarrow> f b)"

definition vm_slot_token :: "slot_id \<Rightarrow> vm_materializer \<Rightarrow> slot_token \<times> vm_materializer" where
  "vm_slot_token slot m =
     (case map_of (vm_slots m) slot of
        Some t \<Rightarrow> (t, m)
      | None \<Rightarrow>
          (case Option.bind (mapped_base m) (\<lambda>b. mv_slot_token b slot) of
             Some t \<Rightarrow> (t, m)
           | None \<Rightarrow>
               let base = mapped_count mv_slot_count m;
                   token = word_of_nat (base + length (vm_slots m));
                   slots = bt_insert slot token (vm_slots m)
               in (token, m\<lparr>vm_slots := slots,
                            vm_workspace := ensure_slot_count (base + length slots) (vm_workspace m)\<rparr>)))"

definition vm_predicate_cell :: "string \<Rightarrow> vm_materializer \<Rightarrow> cell \<times> vm_materializer" where
  "vm_predicate_cell p m =
     (case map_of (vm_predicates m) p of
        Some c \<Rightarrow> (c, m)
      | None \<Rightarrow>
          (case Option.bind (mapped_base m) (\<lambda>b. mv_predicate_token b p) of
             Some t \<Rightarrow> (ucast t, m)
           | None \<Rightarrow>
               let c = word_of_nat (mapped_count mv_predicate_count m + length (vm_predicates m))
               in (c, m\<lparr>vm_predicates := bt_insert p c (vm_predicates m), predicate_values := predicate_values m @ [p]\<rparr>)))"

fun vm_atom_cell :: "atom \<Rightarrow> vm_materializer \<Rightarrow> (string + cell) \<times> vm_materializer" where
  "vm_atom_cell (AEntity e) m =
     (if e < VM_LITERAL_BASE then (Inr e, m)
      else (Inl ''entity identifier overlaps the VM literal namespace'', m))"
| "vm_atom_cell (ALiteral l) m =
     (case map_of (vm_literals m) l of
        Some c \<Rightarrow> (Inr c, m)
      | None \<Rightarrow>
          (case Option.bind (mapped_base m) (\<lambda>b. mv_literal_token b l) of
             Some t \<Rightarrow> (Inr (VM_LITERAL_BASE + ucast t), m)
           | None \<Rightarrow>
               (case checked_add_u64 VM_LITERAL_BASE (word_of_nat (mapped_count mv_literal_count m + length (literal_values m))) of
                  None \<Rightarrow> (Inl ''VM literal token overflow'', m)
                | Some c \<Rightarrow>
                    (Inr c, m\<lparr>vm_literals := bt_insert l c (vm_literals m), literal_values := literal_values m @ [l]\<rparr>))))"

definition nth_opt :: "'a list \<Rightarrow> nat \<Rightarrow> 'a option" where
  "nth_opt xs i = (if i < length xs then Some (xs ! i) else None)"

definition atom_from_cell :: "vm_materializer \<Rightarrow> cell \<Rightarrow> atom option" where
  "atom_from_cell m c =
     (if c < VM_LITERAL_BASE then Some (AEntity c)
      else let token = unat (c - VM_LITERAL_BASE)
        in map_option ALiteral
          (case mapped_base m of
             Some b \<Rightarrow> if token < mv_literal_count b then mv_literal_value b token
                       else nth_opt (literal_values m) (token - mv_literal_count b)
           | None \<Rightarrow> nth_opt (literal_values m) token))"

definition predicate_from_cell :: "vm_materializer \<Rightarrow> cell \<Rightarrow> string option" where
  "predicate_from_cell m c =
     (let token = unat c
      in case mapped_base m of
           Some b \<Rightarrow> if token < mv_predicate_count b then mv_predicate_value b token
                     else nth_opt (predicate_values m) (token - mv_predicate_count b)
         | None \<Rightarrow> nth_opt (predicate_values m) token)"

definition fact_from_cells :: "vm_materializer \<Rightarrow> cell \<times> cell \<times> cell \<Rightarrow> fact option" where
  "fact_from_cells m t =
     (case t of (s, p, ob) \<Rightarrow>
        Option.bind (atom_from_cell m s) (\<lambda>s.
        Option.bind (predicate_from_cell m p) (\<lambda>p.
        map_option (fact_new s p) (atom_from_cell m ob))))"

text \<open>The outer option is a panic.\<close>

definition vm_resolve_fact :: "vm_materializer \<Rightarrow> slot_id \<Rightarrow> fact option option" where
  "vm_resolve_fact m slot =
     (case (case map_of (vm_slots m) slot of
              Some t \<Rightarrow> Some t
            | None \<Rightarrow> Option.bind (mapped_base m) (\<lambda>b. mv_slot_token b slot)) of
        None \<Rightarrow> Some None
      | Some token \<Rightarrow>
          map_option (\<lambda>cells. Option.bind cells (fact_from_cells m)) (resolve_fact_cells (vm_workspace m) token))"

section \<open>Compiling operations\<close>

fun compile_loop :: "operation list \<Rightarrow> instruction list \<Rightarrow> vm_materializer \<Rightarrow> (string + instruction list) \<times> vm_materializer" where
  "compile_loop [] code m = (Inr code, m)"
| "compile_loop (AllocateEntity e # ops) code m =
     (if e \<ge> VM_LITERAL_BASE then (Inl ''entity allocator exhausted the VM atom namespace'', m)
      else compile_loop ops (code @ [allocate_discard]) m)"
| "compile_loop (Define slot f # ops) code m =
     (let (token, m) = vm_slot_token slot m
      in case vm_atom_cell (subject f) m of
           (Inl e, m) \<Rightarrow> (Inl e, m)
         | (Inr s, m) \<Rightarrow>
             (let (p, m) = vm_predicate_cell (predicate f) m
              in case vm_atom_cell (object f) m of
                   (Inl e, m) \<Rightarrow> (Inl e, m)
                 | (Inr ob, m) \<Rightarrow>
                     compile_loop ops (code @ [push_cell s, push_cell p, push_cell ob, define_slot token]) m))"
| "compile_loop (Forget slot # ops) code m =
     (let (token, m) = vm_slot_token slot m in compile_loop ops (code @ [forget_slot token]) m)"

definition compile_operations :: "operation list \<Rightarrow> vm_materializer \<Rightarrow> (string + intent_program) \<times> vm_materializer" where
  "compile_operations ops m =
     (case compile_loop ops [] m of
        (Inl e, m) \<Rightarrow> (Inl e, m)
      | (Inr code, m) \<Rightarrow> (Inr \<lparr>local_count = 0, instructions = code\<rparr>, m))"

fun exec_error_debug :: "exec_error \<Rightarrow> string" where
  "exec_error_debug ExplicitRejection = ''ExplicitRejection''"
| "exec_error_debug MissingExpectedValue = ''MissingExpectedValue''"
| "exec_error_debug ExpectedValueMismatch = ''ExpectedValueMismatch''"
| "exec_error_debug StackUnderflow = ''StackUnderflow''"
| "exec_error_debug StackOverflow = ''StackOverflow''"
| "exec_error_debug InvalidLocal = ''InvalidLocal''"
| "exec_error_debug InvalidSlot = ''InvalidSlot''"

definition apply_committed :: "operation list \<Rightarrow> vm_materializer \<Rightarrow> ((string + unit) \<times> vm_materializer) option" where
  "apply_committed ops m =
     (case compile_operations ops m of
        (Inl e, m) \<Rightarrow> Some (Inl e, m)
      | (Inr prog, m) \<Rightarrow>
          (case execute prog (vm_workspace m) of
             None \<Rightarrow> None
           | Some (Accepted, w) \<Rightarrow> Some (Inr (), m\<lparr>vm_workspace := w\<rparr>)
           | Some (Rejected e, w) \<Rightarrow>
               Some (Inl (''validated committed operations were rejected by the VM: '' @ exec_error_debug e),
                     m\<lparr>vm_workspace := w\<rparr>)))"

fun sync_frames :: "commit_frame list \<Rightarrow> vm_materializer \<Rightarrow> ((string + unit) \<times> vm_materializer) option" where
  "sync_frames [] m = Some (Inr (), m)"
| "sync_frames (f # fs) m =
     (if parent_version f + 1 > vm_version m
      then (case apply_committed (operations f) m of
              None \<Rightarrow> None
            | Some (Inl e, m) \<Rightarrow> Some (Inl e, m)
            | Some (Inr _, m) \<Rightarrow> sync_frames fs (m\<lparr>vm_version := parent_version f + 1\<rparr>))
      else sync_frames fs m)"

definition synchronize_to :: "'k world \<Rightarrow> vm_materializer \<Rightarrow> ((string + unit) \<times> vm_materializer) option" where
  "synchronize_to base m =
     (if vm_version m > w_version base then Some (Inl ''VM materializer cannot rewind'', m)
      else if vm_version m = w_version base then Some (Inr (), m)
      else sync_frames (world_frames base)
        (if vm_version m = 0 \<and> w_version base > 0 then m\<lparr>vm_workspace := with_indexes_from 1 0 32\<rparr> else m))"

definition from_world :: "'k world \<Rightarrow> (string + vm_materializer) option" where
  "from_world base =
     map_option (\<lambda>(r, m). res_map (\<lambda>_. m) r) (synchronize_to base (materializer_new (w_next_entity base)))"

section \<open>An epoch on the machine\<close>

definition vm_check_preconditions :: "vm_materializer \<Rightarrow> world_id \<Rightarrow> intent_precondition list \<Rightarrow> (intent_rejection + unit) option" where
  "vm_check_preconditions m wid ps = precondition_loop wid (vm_resolve_fact m) ps"

record vm_epoch_state =
  ve_id :: world_id
  ve_version :: u64
  ve_operations :: "operation list"
  ve_accepted :: nat
  ve_outcomes :: "workspace_outcome list"

definition ve_reject :: "nat \<Rightarrow> intent_rejection \<Rightarrow> vm_epoch_state \<Rightarrow> vm_epoch_state" where
  "ve_reject pos e s =
     s\<lparr>ve_outcomes := ve_outcomes s @ [WorkspaceRejected \<lparr>ri_position = pos, ri_error = e\<rparr>]\<rparr>"

definition ve_accept :: "nat \<Rightarrow> operation list \<Rightarrow> entity_map \<Rightarrow> u64 \<Rightarrow> vm_epoch_state \<Rightarrow> vm_epoch_state" where
  "ve_accept pos ops entities allocator s =
     (let version = saturating_add_u64 (ve_version s) 1
      in \<lparr>ve_id = calculate_world_id (ve_id s) version allocator ops, ve_version = version,
          ve_operations = ve_operations s @ ops, ve_accepted = ve_accepted s + 1,
          ve_outcomes = ve_outcomes s @ [WorkspaceAccepted pos entities]\<rparr>)"

text \<open>One turn of the loop; an error on the left stops the whole epoch.\<close>

definition vm_epoch_intent ::
  "nat \<Rightarrow> queued_intent \<Rightarrow> vm_epoch_state \<times> vm_materializer \<Rightarrow> ((string + vm_epoch_state) \<times> vm_materializer) option" where
  "vm_epoch_intent pos i st =
     (let (s, m) = st in
      case vm_check_preconditions m (ve_id s) (qi_preconditions i) of
        None \<Rightarrow> None
      | Some (Inl e) \<Rightarrow> Some (Inr (ve_reject pos e s), m)
      | Some (Inr _) \<Rightarrow>
          (case resolve_operations_from (ws_next_entity (vm_workspace m)) (qi_namespace i) (qi_operations i) of
             None \<Rightarrow> None
           | Some (Inl e) \<Rightarrow> Some (Inr (ve_reject pos e s), m)
           | Some (Inr (ops, entities)) \<Rightarrow>
               (case compile_operations ops m of
                  (Inl e, m) \<Rightarrow> Some (Inl e, m)
                | (Inr prog, m) \<Rightarrow>
                    (case execute prog (vm_workspace m) of
                       None \<Rightarrow> None
                     | Some (Accepted, w) \<Rightarrow>
                         Some (Inr (ve_accept pos ops entities (ws_next_entity w) s), m\<lparr>vm_workspace := w\<rparr>)
                     | Some (Rejected e, w) \<Rightarrow>
                         Some (Inl (''compiled durable intent was rejected by the VM: '' @ exec_error_debug e),
                               m\<lparr>vm_workspace := w\<rparr>)))))"

fun vm_epoch_loop ::
  "nat \<Rightarrow> queued_intent list \<Rightarrow> vm_epoch_state \<times> vm_materializer \<Rightarrow> ((string + vm_epoch_state) \<times> vm_materializer) option" where
  "vm_epoch_loop pos [] st = Some (Inr (fst st), snd st)"
| "vm_epoch_loop pos (i # is) st =
     (case vm_epoch_intent pos i st of
        None \<Rightarrow> None
      | Some (Inl e, m) \<Rightarrow> Some (Inl e, m)
      | Some (Inr s, m) \<Rightarrow> vm_epoch_loop (Suc pos) is (s, m))"

definition derive_vm_epoch ::
  "'k world \<Rightarrow> queued_intent list \<Rightarrow> vm_materializer \<Rightarrow> ((string + 'k epoch_plan) \<times> vm_materializer) option" where
  "derive_vm_epoch base is m =
     (if ws_next_entity (vm_workspace m) \<noteq> w_next_entity base
      then Some (Inl (''VM allocator '' @ decimal (unat (ws_next_entity (vm_workspace m))) @
             '', published world allocator '' @ decimal (unat (w_next_entity base))), m)
      else case vm_epoch_loop 0 is
          (\<lparr>ve_id = w_id base, ve_version = w_version base, ve_operations = [], ve_accepted = 0, ve_outcomes = []\<rparr>, m) of
        None \<Rightarrow> None
      | Some (Inl e, m) \<Rightarrow> Some (Inl e, m)
      | Some (Inr s, m) \<Rightarrow>
          if ve_accepted s = 0
          then map_option (\<lambda>outs. (Inr \<lparr>ep_base = base, ep_tail = base, ep_outcomes = outs, ep_frames = []\<rparr>, m))
                 (rejected_only (ve_outcomes s))
          else let w = vm_workspace m;
                   (world, frame) = from_vm_epoch base (ve_operations s) (ws_next_entity w)
                     (vm_active_slot_count w) (vm_delta_count w)
               in Some (Inr \<lparr>ep_base = base, ep_tail = world,
                   ep_outcomes = map (publish_outcome world frame) (ve_outcomes s), ep_frames = [frame]\<rparr>, m))"

definition materialize ::
  "'k kernel_ops \<Rightarrow> 'k world \<Rightarrow> queued_intent list \<Rightarrow> 'k validator list \<Rightarrow> vm_materializer \<Rightarrow>
   ((string + 'k epoch_plan \<times> bool) \<times> vm_materializer) option" where
  "materialize K base is vs m =
     (if vs \<noteq> []
      then Option.bind (derive_epoch_world K base is vs) (\<lambda>plan.
        case ep_frames plan of
          [] \<Rightarrow> Some (Inr (plan, False), m)
        | f # _ \<Rightarrow>
            map_option (\<lambda>(r, m). (res_map (\<lambda>_. (plan, False)) r, m)) (apply_committed (operations f) m))
      else map_option (\<lambda>(r, m). (res_map (\<lambda>plan. (plan, True)) r, m)) (derive_vm_epoch base is m))"

end
