(* ===== verification/VM_Compile.thy ===== *)
theory VM_Compile
  imports VM_Materializer
begin

text \<open>
  The dictionaries of a materializer without a mapped base, and compiled operations.  A dictionary
  only grows, so cells keep their meaning; running the compiled operations on the reference
  machine does to the decoded stacks what the operations do to the stacks of the kernel.
\<close>

section \<open>Well-formed dictionaries\<close>

definition slots_ok :: "vm_materializer \<Rightarrow> bool" where
  "slots_ok m \<longleftrightarrow> bt_wf (vm_slots m) \<and>
     (\<forall>slot t. map_of (vm_slots m) slot = Some t \<longrightarrow> unat t < length (vm_slots m)) \<and>
     (\<forall>slot slot' t. map_of (vm_slots m) slot = Some t \<longrightarrow> map_of (vm_slots m) slot' = Some t \<longrightarrow> slot = slot') \<and>
     length (ws_accepted_heads (vm_workspace m)) = length (vm_slots m)"

definition predicates_ok :: "vm_materializer \<Rightarrow> bool" where
  "predicates_ok m \<longleftrightarrow> length (vm_predicates m) = length (predicate_values m) \<and>
     (\<forall>p c. map_of (vm_predicates m) p = Some c \<longleftrightarrow> nth_opt (predicate_values m) (unat c) = Some p)"

definition literals_ok :: "vm_materializer \<Rightarrow> bool" where
  "literals_ok m \<longleftrightarrow>
     (\<forall>l c. map_of (vm_literals m) l = Some c \<longleftrightarrow>
        VM_LITERAL_BASE \<le> c \<and> nth_opt (literal_values m) (unat (c - VM_LITERAL_BASE)) = Some l)"

definition vocab_ok :: "vm_materializer \<Rightarrow> bool" where
  "vocab_ok m \<longleftrightarrow> mapped_base m = None \<and> slots_ok m \<and> predicates_ok m \<and> literals_ok m"

definition vocab_size :: "vm_materializer \<Rightarrow> nat" where
  "vocab_size m = length (vm_slots m) + length (predicate_values m) + length (literal_values m)"

lemma materializer_new_vocab: "vocab_ok (materializer_new n)" "vocab_size (materializer_new n) = 0"
  by (simp_all add: with_indexes_from_def workspace_new_def vocab_ok_def slots_ok_def predicates_ok_def literals_ok_def materializer_new_def nth_opt_def vocab_size_def)

text \<open>A dictionary after more tokens were given out.\<close>

definition vocab_grows :: "vm_materializer \<Rightarrow> vm_materializer \<Rightarrow> bool" where
  "vocab_grows m m' \<longleftrightarrow>
     (\<forall>slot t. map_of (vm_slots m) slot = Some t \<longrightarrow> map_of (vm_slots m') slot = Some t) \<and>
     (\<forall>slot t. map_of (vm_slots m) slot = None \<longrightarrow> map_of (vm_slots m') slot = Some t \<longrightarrow> length (vm_slots m) \<le> unat t) \<and>
     length (vm_slots m) \<le> length (vm_slots m') \<and>
     prefix (predicate_values m) (predicate_values m') \<and> prefix (literal_values m) (literal_values m') \<and>
     vm_version m' = vm_version m \<and> (\<exists>k. vm_workspace m' = ensure_slot_count k (vm_workspace m))"

lemma ensure_slot_count_compose: "ensure_slot_count j (ensure_slot_count k w) = ensure_slot_count (max j k) w"
proof (cases "length (ws_accepted_heads w) < k \<and> k < j")
  case True
  then have "replicate (k - length (ws_accepted_heads w)) NONE @ replicate (j - k) NONE =
      replicate (j - length (ws_accepted_heads w)) NONE"
    by (simp flip: replicate_add)
  with True show ?thesis by (simp add: ensure_slot_count_def max_def)
qed (auto simp: ensure_slot_count_def max_def)

lemma ensure_slot_count_0 [simp]: "ensure_slot_count 0 w = w"
  by (simp add: ensure_slot_count_def)

lemma vocab_grows_refl: "vocab_grows m m"
  unfolding vocab_grows_def by (auto intro: exI [of _ 0])

lemma vocab_grows_trans:
  assumes 1: "vocab_grows m1 m2" and 2: "vocab_grows m2 m3"
  shows "vocab_grows m1 m3"
proof -
  from 1 2 obtain j k where "vm_workspace m2 = ensure_slot_count j (vm_workspace m1)"
    "vm_workspace m3 = ensure_slot_count k (vm_workspace m2)" unfolding vocab_grows_def by blast
  then have "\<exists>i. vm_workspace m3 = ensure_slot_count i (vm_workspace m1)"
    by (auto simp: ensure_slot_count_compose)
  moreover have "length (vm_slots m1) \<le> unat t"
    if "map_of (vm_slots m1) slot = None" "map_of (vm_slots m3) slot = Some t" for slot t
    using that 1 2 unfolding vocab_grows_def by (cases "map_of (vm_slots m2) slot") (force, force)
  ultimately show ?thesis using 1 2 unfolding vocab_grows_def by (auto intro: prefix_order.trans)
qed

lemma nth_opt_prefix: "prefix xs ys \<Longrightarrow> nth_opt xs i = Some x \<Longrightarrow> nth_opt ys i = Some x"
  by (auto simp: nth_opt_def prefix_def nth_append split: if_splits)

lemma nth_opt_append: "nth_opt (xs @ [y]) i = Some x \<longleftrightarrow> nth_opt xs i = Some x \<or> (i = length xs \<and> x = y)"
  by (auto simp: nth_opt_def nth_append less_Suc_eq split: if_splits)

lemma length_bt_insert_new: "map_of m k = None \<Longrightarrow> length (bt_insert k v m) = Suc (length m)"
  by (induction k v m rule: bt_insert.induct) (auto split: if_splits)

lemma word_of_nat_inverse_64: "n < 2 ^ 63 \<Longrightarrow> unat (word_of_nat n :: u64) = n"
  by (simp add: unat_of_nat)

lemma slot_token_ok:
  assumes ok: "vocab_ok m" and size: "vocab_size m < 2 ^ 31" and run: "vm_slot_token slot m = (t, m')"
  shows "vocab_ok m'" and "vocab_grows m m'" and "map_of (vm_slots m') slot = Some t"
    and "vocab_size m' \<le> Suc (vocab_size m)"
proof -
  have "vocab_ok m' \<and> vocab_grows m m' \<and> map_of (vm_slots m') slot = Some t \<and> vocab_size m' \<le> Suc (vocab_size m)"
  proof (cases "map_of (vm_slots m) slot")
    case (Some t')
    with run ok show ?thesis by (simp add: vm_slot_token_def vocab_grows_refl)
  next
    case None
    let ?n = "length (vm_slots m)" and ?s = "bt_insert slot (word_of_nat (length (vm_slots m))) (vm_slots m)"
    have m': "t = word_of_nat ?n" "m' = m\<lparr>vm_slots := ?s, vm_workspace := ensure_slot_count (Suc ?n) (vm_workspace m)\<rparr>"
      using run ok None by (auto simp: vm_slot_token_def vocab_ok_def mapped_count_def Let_def length_bt_insert_new)
    have n: "unat (word_of_nat ?n :: u32) = ?n" using size by (simp add: vocab_size_def unat_of_nat)
    have fresh: "map_of (vm_slots m) s \<noteq> Some (word_of_nat ?n)" for s
      using ok n unfolding vocab_ok_def slots_ok_def by (metis less_irrefl)
    have heads: "length (ws_accepted_heads (ensure_slot_count (Suc ?n) (vm_workspace m))) = Suc ?n"
      using ok by (simp add: ensure_slot_count_def vocab_ok_def slots_ok_def)
    have "slots_ok m'"
      using ok fresh heads n unfolding vocab_ok_def slots_ok_def m'
      by (auto simp: length_bt_insert_new [OF None] less_Suc_eq split: if_splits)
    moreover have "vocab_grows m m'"
      unfolding vocab_grows_def m' using None n by (auto simp: length_bt_insert_new)
    ultimately show ?thesis
      using ok m' None by (simp add: vocab_ok_def predicates_ok_def literals_ok_def vocab_size_def length_bt_insert_new)
  qed
  then show "vocab_ok m'" "vocab_grows m m'" "map_of (vm_slots m') slot = Some t" "vocab_size m' \<le> Suc (vocab_size m)"
    by simp_all
qed

lemma predicate_cell_ok:
  assumes ok: "vocab_ok m" and size: "vocab_size m < 2 ^ 31" and run: "vm_predicate_cell p m = (c, m')"
  shows "vocab_ok m'" and "vocab_grows m m'" and "predicate_from_cell m' c = Some p" and "vocab_size m' \<le> Suc (vocab_size m)"
    and "vm_slots m' = vm_slots m"
proof -
  have none: "mapped_base m = None" and preds: "predicates_ok m" using ok by (simp_all add: vocab_ok_def)
  have "vocab_ok m' \<and> vocab_grows m m' \<and> predicate_from_cell m' c = Some p \<and> vocab_size m' \<le> Suc (vocab_size m) \<and> vm_slots m' = vm_slots m"
  proof (cases "map_of (vm_predicates m) p")
    case (Some c')
    with run ok none preds show ?thesis
      by (simp add: vm_predicate_cell_def vocab_grows_refl predicate_from_cell_def predicates_ok_def)
  next
    case None
    let ?n = "length (predicate_values m)"
    have m': "c = word_of_nat ?n"
      "m' = m\<lparr>vm_predicates := bt_insert p (word_of_nat ?n) (vm_predicates m), predicate_values := predicate_values m @ [p]\<rparr>"
      using run none preds None
      by (auto simp: vm_predicate_cell_def mapped_count_def Let_def predicates_ok_def)
    have n: "unat (word_of_nat ?n :: u64) = ?n" using size by (intro word_of_nat_inverse_64) (simp add: vocab_size_def)
    have new: "nth_opt (predicate_values m) (unat c') \<noteq> Some p" for c' :: u64
      using preds None unfolding predicates_ok_def by (metis option.distinct(1))
    have "predicates_ok m'"
      using preds new n None unfolding predicates_ok_def m'
      by (auto simp: nth_opt_append length_bt_insert_new word_unat_eq_iff)
    moreover have "slots_ok m'" "literals_ok m'" using ok by (simp_all add: vocab_ok_def slots_ok_def literals_ok_def m')
    moreover have "vocab_grows m m'" unfolding vocab_grows_def m' by (auto intro: exI [of _ 0])
    moreover have "predicate_from_cell m' c = Some p" using none n by (simp add: predicate_from_cell_def m' nth_opt_def)
    ultimately show ?thesis using none by (simp add: vocab_ok_def m' vocab_size_def)
  qed
  then show "vocab_ok m'" "vocab_grows m m'" "predicate_from_cell m' c = Some p" "vocab_size m' \<le> Suc (vocab_size m)"
    "vm_slots m' = vm_slots m" by simp_all
qed

fun atom_fits :: "atom \<Rightarrow> bool" where
  "atom_fits (AEntity e) \<longleftrightarrow> e < VM_LITERAL_BASE"
| "atom_fits (ALiteral l) \<longleftrightarrow> True"

lemma literal_cell_arith:
  assumes "n < 2 ^ 31"
  shows "checked_add_u64 VM_LITERAL_BASE (word_of_nat n) = Some (VM_LITERAL_BASE + word_of_nat n)"
    and "VM_LITERAL_BASE \<le> VM_LITERAL_BASE + word_of_nat n"
    and "unat (VM_LITERAL_BASE + word_of_nat n - VM_LITERAL_BASE) = n"
proof -
  have base: "unat VM_LITERAL_BASE = 2 ^ 63" by (simp add: VM_LITERAL_BASE_def)
  have n: "unat (word_of_nat n :: u64) = n" using assms by (simp add: unat_of_nat)
  then show "checked_add_u64 VM_LITERAL_BASE (word_of_nat n) = Some (VM_LITERAL_BASE + word_of_nat n)"
    "unat (VM_LITERAL_BASE + word_of_nat n - VM_LITERAL_BASE) = n"
    using assms base by (simp_all add: checked_add_u64_def)
  have "unat (VM_LITERAL_BASE + word_of_nat n :: u64) = 2 ^ 63 + n"
    using n base assms by (simp add: unat_word_ariths)
  then show "VM_LITERAL_BASE \<le> VM_LITERAL_BASE + word_of_nat n" using base by (simp add: word_le_nat_alt)
qed

lemma atom_cell_ok:
  assumes ok: "vocab_ok m" and size: "vocab_size m < 2 ^ 31" and fits: "atom_fits a"
  shows "\<exists>c m'. vm_atom_cell a m = (Inr c, m') \<and> vocab_ok m' \<and> vocab_grows m m' \<and> atom_from_cell m' c = Some a \<and>
    vocab_size m' \<le> Suc (vocab_size m) \<and> vm_slots m' = vm_slots m"
proof (cases a)
  case (AEntity e)
  with fits ok show ?thesis by (simp add: vocab_grows_refl atom_from_cell_def)
next
  case (ALiteral l)
  have none: "mapped_base m = None" and lits: "literals_ok m" using ok by (simp_all add: vocab_ok_def)
  show ?thesis
  proof (cases "map_of (vm_literals m) l")
    case (Some c)
    with lits have "\<not> c < VM_LITERAL_BASE" "nth_opt (literal_values m) (unat (c - VM_LITERAL_BASE)) = Some l"
      by (auto simp: literals_ok_def not_less)
    with Some ALiteral ok none show ?thesis
      by (simp add: vocab_grows_refl atom_from_cell_def Let_def)
  next
    case None
    let ?n = "length (literal_values m)"
    have "?n < 2 ^ 31" using size by (simp add: vocab_size_def)
    note arith = literal_cell_arith [OF this]
    let ?c = "VM_LITERAL_BASE + word_of_nat ?n"
    let ?m = "m\<lparr>vm_literals := bt_insert l ?c (vm_literals m), literal_values := literal_values m @ [l]\<rparr>"
    have run: "vm_atom_cell a m = (Inr ?c, ?m)"
      using None none ALiteral by (simp add: mapped_count_def arith(1))
    have new: "\<not> (VM_LITERAL_BASE \<le> c' \<and> nth_opt (literal_values m) (unat (c' - VM_LITERAL_BASE)) = Some l)" for c'
      using lits None unfolding literals_ok_def by (metis option.distinct(1))
    have "unat (c - VM_LITERAL_BASE) = ?n \<longleftrightarrow> c = ?c" for c
      using arith(3) by (metis add.commute diff_add_cancel word_unat_eq_iff)
    then have "literals_ok ?m"
      using lits new arith(2,3) unfolding literals_ok_def by (auto simp: nth_opt_append)
    moreover have "slots_ok ?m" "predicates_ok ?m" using ok by (simp_all add: vocab_ok_def slots_ok_def predicates_ok_def)
    moreover have "vocab_grows m ?m" unfolding vocab_grows_def by (auto intro: exI [of _ 0])
    moreover have "atom_from_cell ?m ?c = Some a"
      using none arith ALiteral by (simp add: atom_from_cell_def nth_opt_def not_less [symmetric] Let_def)
    ultimately show ?thesis using run none by (simp add: vocab_ok_def vocab_size_def)
  qed
qed

text \<open>Cells keep their meaning.\<close>

lemma cells_grow:
  assumes "vocab_ok m" and "vocab_ok m'" and "vocab_grows m m'"
  shows "atom_from_cell m c = Some a \<Longrightarrow> atom_from_cell m' c = Some a"
    and "predicate_from_cell m c = Some p \<Longrightarrow> predicate_from_cell m' c = Some p"
    and "fact_from_cells m t = Some f \<Longrightarrow> fact_from_cells m' t = Some f"
proof -
  have none: "mapped_base m = None" "mapped_base m' = None" using assms(1,2) by (simp_all add: vocab_ok_def)
  have pre: "prefix (predicate_values m) (predicate_values m')" "prefix (literal_values m) (literal_values m')"
    using assms(3) by (simp_all add: vocab_grows_def)
  show a: "atom_from_cell m c = Some a \<Longrightarrow> atom_from_cell m' c = Some a" for c a
    using none nth_opt_prefix [OF pre(2)] by (auto simp: atom_from_cell_def Let_def split: if_splits)
  show p: "predicate_from_cell m c = Some p \<Longrightarrow> predicate_from_cell m' c = Some p" for c p
    using none nth_opt_prefix [OF pre(1)] by (auto simp: predicate_from_cell_def Let_def)
  show "fact_from_cells m t = Some f \<Longrightarrow> fact_from_cells m' t = Some f"
    using a p by (auto simp: fact_from_cells_def bind_eq_Some_conv split: prod.splits)
qed

section \<open>Stacks of cells and stacks of facts\<close>

definition slot_cells :: "vm_materializer \<Rightarrow> (slot_token \<Rightarrow> vm_fact list) \<Rightarrow> slot_id \<Rightarrow> vm_fact list" where
  "slot_cells m facts slot = (case map_of (vm_slots m) slot of None \<Rightarrow> [] | Some t \<Rightarrow> facts t)"

definition facts_rel :: "vm_materializer \<Rightarrow> (slot_token \<Rightarrow> vm_fact list) \<Rightarrow> (slot_id \<Rightarrow> fact list) \<Rightarrow> bool" where
  "facts_rel m facts stacks \<longleftrightarrow>
     (\<forall>slot. map (fact_from_cells m) (slot_cells m facts slot) = map Some (stacks slot)) \<and>
     (\<forall>t. (\<forall>slot. map_of (vm_slots m) slot \<noteq> Some t) \<longrightarrow> facts t = [])"

lemma facts_rel_grows:
  assumes "vocab_ok m" and "vocab_ok m'" and grows: "vocab_grows m m'" and rel: "facts_rel m facts stacks"
  shows "facts_rel m' facts stacks"
proof -
  have keep: "map (fact_from_cells m') xs = map Some ys" if "map (fact_from_cells m) xs = map Some ys" for xs ys
    using that
  proof (induction xs arbitrary: ys)
    case (Cons x xs)
    then show ?case using cells_grow(3) [OF assms(1-3)] by (cases ys) auto
  qed simp
  have "slot_cells m' facts slot = slot_cells m facts slot" for slot
  proof (cases "map_of (vm_slots m) slot")
    case (Some t)
    with grows show ?thesis by (simp add: slot_cells_def vocab_grows_def)
  next
    case None
    show ?thesis
    proof (cases "map_of (vm_slots m') slot")
      case (Some t)
      with None grows have "length (vm_slots m) \<le> unat t" by (simp add: vocab_grows_def)
      then have "map_of (vm_slots m) s \<noteq> Some t" for s using assms(1) by (force simp: vocab_ok_def slots_ok_def)
      with rel None Some show ?thesis by (simp add: slot_cells_def facts_rel_def)
    qed (simp add: slot_cells_def None)
  qed
  moreover have "facts t = []" if "\<forall>slot. map_of (vm_slots m') slot \<noteq> Some t" for t
  proof -
    have "map_of (vm_slots m) s \<noteq> Some t" for s using that grows unfolding vocab_grows_def by blast
    with rel show ?thesis unfolding facts_rel_def by blast
  qed
  ultimately show ?thesis using rel keep unfolding facts_rel_def by simp
qed

lemma facts_rel_update:
  assumes "vocab_ok m" and rel: "facts_rel m facts stacks" and slot: "map_of (vm_slots m) slot = Some t"
    and new: "map (fact_from_cells m) xs = map Some ys"
  shows "facts_rel m (facts(t := xs)) (stacks(slot := ys))"
proof -
  have "s = slot" if "map_of (vm_slots m) s = Some t" for s
    using that slot assms(1) unfolding vocab_ok_def slots_ok_def by blast
  note uniq = this
  have "slot_cells m (facts(t := xs)) s = (if s = slot then xs else slot_cells m facts s)" for s
  proof (cases "map_of (vm_slots m) s")
    case None
    with slot have "s \<noteq> slot" by auto
    with None show ?thesis by (simp add: slot_cells_def)
  next
    case (Some u)
    with slot uniq have "u = t \<longleftrightarrow> s = slot" by (metis option.inject)
    with Some show ?thesis by (simp add: slot_cells_def)
  qed
  moreover have "(facts(t := xs)) u = []" if "\<forall>s. map_of (vm_slots m) s \<noteq> Some u" for u
    using that slot rel unfolding facts_rel_def by (cases "u = t") simp_all
  ultimately show ?thesis using rel new unfolding facts_rel_def by simp
qed

lemma facts_rel_top:
  "facts_rel m facts stacks \<Longrightarrow> map_of (vm_slots m) slot = Some t \<Longrightarrow>
   map (fact_from_cells m) (facts t) = map Some (stacks slot)"
  unfolding facts_rel_def slot_cells_def by (metis option.simps(5))

section \<open>Compiled operations\<close>

definition codes :: "vm_materializer \<Rightarrow> operation \<Rightarrow> instruction list \<Rightarrow> bool" where
  "codes m x code \<longleftrightarrow>
     (case x of
        AllocateEntity e \<Rightarrow> code = [allocate_discard]
      | Define slot f \<Rightarrow> \<exists>s p ob t. code = [push_cell s, push_cell p, push_cell ob, define_slot t] \<and>
          map_of (vm_slots m) slot = Some t \<and> fact_from_cells m (s, p, ob) = Some f
      | Forget slot \<Rightarrow> \<exists>t. code = [forget_slot t] \<and> map_of (vm_slots m) slot = Some t)"

lemma codes_grow:
  assumes "vocab_ok m" and "vocab_ok m'" and "vocab_grows m m'" and "codes m x code"
  shows "codes m' x code"
proof -
  have "map_of (vm_slots m) slot = Some t \<Longrightarrow> map_of (vm_slots m') slot = Some t" for slot t
    using assms(3) by (simp add: vocab_grows_def)
  then show ?thesis
    using assms(4) cells_grow(3) [OF assms(1-3)] unfolding codes_def by (cases x) (auto, blast)
qed

fun op_fits :: "operation \<Rightarrow> bool" where
  "op_fits (AllocateEntity e) \<longleftrightarrow> e < VM_LITERAL_BASE"
| "op_fits (Define slot f) \<longleftrightarrow> atom_fits (subject f) \<and> atom_fits (object f)"
| "op_fits (Forget slot) \<longleftrightarrow> True"

lemma fact_from_cells_Some:
  "atom_from_cell m s = Some (subject f) \<Longrightarrow> predicate_from_cell m p = Some (predicate f) \<Longrightarrow>
   atom_from_cell m ob = Some (object f) \<Longrightarrow> fact_from_cells m (s, p, ob) = Some f"
  by (simp add: fact_from_cells_def fact_new_def)

lemma compile_loop_step:
  assumes ok: "vocab_ok m" and size: "vocab_size m + 4 \<le> 2 ^ 31" and fits: "op_fits x"
  shows "\<exists>code' m'. compile_loop (x # ops) code m = compile_loop ops (code @ code') m' \<and> vocab_ok m' \<and>
    vocab_grows m m' \<and> vocab_size m' \<le> vocab_size m + 4 \<and> codes m' x code'"
proof (cases x)
  case (AllocateEntity e)
  with fits ok show ?thesis by (auto simp: codes_def not_le [symmetric] intro!: exI [of _ m] vocab_grows_refl)
next
  case (Forget slot)
  obtain t m1 where 1: "vm_slot_token slot m = (t, m1)" by fastforce
  have size0: "vocab_size m < 2 ^ 31" using size by simp
  note ok1 = slot_token_ok [OF ok size0 1]
  from ok1 size Forget 1 show ?thesis by (auto simp: codes_def intro!: exI [of _ m1])
next
  case (Define slot f)
  obtain t m1 where 1: "vm_slot_token slot m = (t, m1)" by fastforce
  have size0: "vocab_size m < 2 ^ 31" using size by simp
  note ok1 = slot_token_ok [OF ok size0 1]
  have size1: "vocab_size m1 < 2 ^ 31" using ok1(4) size by linarith
  from atom_cell_ok [OF ok1(1) size1, of "subject f"] fits Define size obtain s m2 where
    2: "vm_atom_cell (subject f) m1 = (Inr s, m2)" "vocab_ok m2" "vocab_grows m1 m2"
      "atom_from_cell m2 s = Some (subject f)" "vocab_size m2 \<le> Suc (vocab_size m1)" by auto
  have size2: "vocab_size m2 < 2 ^ 31" using 2(5) ok1(4) size by linarith
  obtain p m3 where 3: "vm_predicate_cell (predicate f) m2 = (p, m3)" by fastforce
  note ok3 = predicate_cell_ok [OF 2(2) size2 3]
  have size3: "vocab_size m3 < 2 ^ 31" using ok3(4) 2(5) ok1(4) size by linarith
  from atom_cell_ok [OF ok3(1) size3, of "object f"] fits Define obtain ob m4 where
    4: "vm_atom_cell (object f) m3 = (Inr ob, m4)" "vocab_ok m4" "vocab_grows m3 m4"
      "atom_from_cell m4 ob = Some (object f)" "vocab_size m4 \<le> Suc (vocab_size m3)" by auto
  have grows: "vocab_grows m2 m4" "vocab_grows m1 m4" "vocab_grows m m4"
  proof -
    show 24: "vocab_grows m2 m4" by (rule vocab_grows_trans [OF ok3(2) 4(3)])
    show 14: "vocab_grows m1 m4" by (rule vocab_grows_trans [OF 2(3) 24])
    show "vocab_grows m m4" by (rule vocab_grows_trans [OF ok1(2) 14])
  qed
  have "atom_from_cell m4 s = Some (subject f)" "predicate_from_cell m4 p = Some (predicate f)"
    using cells_grow(1) [OF 2(2) 4(2) grows(1) 2(4)] cells_grow(2) [OF ok3(1) 4(2,3) ok3(3)] by simp_all
  then have "fact_from_cells m4 (s, p, ob) = Some f" by (rule fact_from_cells_Some [OF _ _ 4(4)])
  moreover have "map_of (vm_slots m4) slot = Some t"
    using ok1(3) grows(2) by (simp add: vocab_grows_def)
  ultimately have "codes m4 x [push_cell s, push_cell p, push_cell ob, define_slot t]"
    using Define by (simp add: codes_def) blast
  moreover have "vocab_size m4 \<le> vocab_size m + 4" using 4(5) ok3(4) 2(5) ok1(4) size by linarith
  moreover have "compile_loop (x # ops) code m = compile_loop ops (code @ [push_cell s, push_cell p, push_cell ob, define_slot t]) m4"
    using 1 2(1) 3 4(1) Define by simp
  ultimately show ?thesis using 4(2) grows(3) by blast
qed

lemma compile_loop_ok:
  "vocab_ok m \<Longrightarrow> vocab_size m + 4 * length ops \<le> 2 ^ 31 \<Longrightarrow> list_all op_fits ops \<Longrightarrow>
   \<exists>chunks m'. compile_loop ops code m = (Inr (code @ concat chunks), m') \<and> vocab_ok m' \<and> vocab_grows m m' \<and>
     vocab_size m' \<le> vocab_size m + 4 * length ops \<and> list_all2 (codes m') ops chunks"
proof (induction ops arbitrary: m code)
  case Nil
  then show ?case by (auto intro: vocab_grows_refl)
next
  case (Cons x ops)
  from Cons.prems have "vocab_size m + 4 \<le> 2 ^ 31" "op_fits x" by simp_all
  from compile_loop_step [OF Cons.prems(1) this] obtain code' m1 where
    1: "compile_loop (x # ops) code m = compile_loop ops (code @ code') m1" "vocab_ok m1"
      "vocab_grows m m1" "vocab_size m1 \<le> vocab_size m + 4" "codes m1 x code'" by blast
  from 1(4) Cons.prems have "vocab_size m1 + 4 * length ops \<le> 2 ^ 31" "list_all op_fits ops" by simp_all
  from Cons.IH [OF 1(2) this, of "code @ code'"] obtain chunks m' where
    2: "compile_loop ops (code @ code') m1 = (Inr ((code @ code') @ concat chunks), m')" "vocab_ok m'" "vocab_grows m1 m'"
      "vocab_size m' \<le> vocab_size m1 + 4 * length ops" "list_all2 (codes m') ops chunks" by blast
  show ?case
    using 1 2 codes_grow [OF 1(2) 2(2,3) 1(5)] vocab_grows_trans [OF 1(3) 2(3)]
    by (intro exI [of _ "code' # chunks"] exI [of _ m']) auto
qed

section \<open>Running them\<close>

fun is_write :: "instruction \<Rightarrow> bool" where
  "is_write i \<longleftrightarrow> i_opcode i = OpDefine \<or> i_opcode i = OpForget"

definition written :: "instruction list \<Rightarrow> nat" where
  "written is = length (filter is_write is)"

definition spec_shown :: "vm_materializer \<Rightarrow> vm_spec \<Rightarrow> kernel_spec \<Rightarrow> bool" where
  "spec_shown m s spec \<longleftrightarrow> facts_rel m (vs_facts s) (spec_stacks spec) \<and> vs_next s = spec_next_entity spec"

lemma codes_run:
  assumes ok: "vocab_ok m" and code: "codes m x code" and shown: "spec_shown m s spec"
    and cap: "3 \<le> cap" and fits: "op_fits x" and alloc: "allocate_check [x] (spec_next_entity spec) = Inr n"
  shows "\<exists>s'. ref_run cap (length (vm_slots m)) h code ([], s) = Inr ([], s') \<and>
      spec_shown m s' (spec_command (command_of x) spec)"
    and "length code \<le> 4" and "spec_records (spec_command (command_of x) spec) = spec_records spec + written code"
proof -
  have slots: "unat t < length (vm_slots m)" if "map_of (vm_slots m) slot = Some t" for slot t
    using ok that by (simp add: vocab_ok_def slots_ok_def)
  have rel: "facts_rel m (vs_facts s) (spec_stacks spec)" and next_eq: "vs_next s = spec_next_entity spec"
    using shown by (simp_all add: spec_shown_def)
  have "(\<exists>s'. ref_run cap (length (vm_slots m)) h code ([], s) = Inr ([], s') \<and>
      spec_shown m s' (spec_command (command_of x) spec)) \<and> length code \<le> 4 \<and>
      spec_records (spec_command (command_of x) spec) = spec_records spec + written code"
  proof (cases x)
    case (AllocateEntity e)
    with alloc fits have "e = spec_next_entity spec" "spec_next_entity spec < VM_LITERAL_BASE" by (auto split: if_splits)
    then have "saturating_add_u64 (spec_next_entity spec) 1 = spec_next_entity spec + 1"
      by (simp add: saturating_add_u64_def word_less_nat_alt VM_LITERAL_BASE_def)
    with AllocateEntity code rel next_eq show ?thesis
      by (simp add: codes_def ref_step_def instruction_defs spec_shown_def written_def)
  next
    case (Forget slot)
    with code obtain t where t: "code = [forget_slot t]" "map_of (vm_slots m) slot = Some t" by (auto simp: codes_def)
    have "map (fact_from_cells m) (tl (vs_facts s t)) = map Some (tl (spec_stacks spec slot))"
      using facts_rel_top [OF rel t(2)] by (simp add: map_tl)
    from facts_rel_update [OF ok rel t(2) this] Forget t slots next_eq show ?thesis
      by (simp add: ref_step_def instruction_defs spec_shown_def Let_def written_def not_le)
  next
    case (Define slot f)
    with code obtain a p ob t where t: "code = [push_cell a, push_cell p, push_cell ob, define_slot t]"
      "map_of (vm_slots m) slot = Some t" "fact_from_cells m (a, p, ob) = Some f" by (auto simp: codes_def)
    have "map (fact_from_cells m) ((a, p, ob) # vs_facts s t) = map Some (f # spec_stacks spec slot)"
      using facts_rel_top [OF rel t(2)] t(3) by simp
    note new = facts_rel_update [OF ok rel t(2) this]
    have "ref_run cap (length (vm_slots m)) h code ([], s) =
        Inr ([], s\<lparr>vs_facts := (vs_facts s)(t := (a, p, ob) # vs_facts s t)\<rparr>)"
      using cap slots [OF t(2)] unfolding t(1) by (simp add: ref_step_def ref_push_def instruction_defs Let_def not_le)
    with new Define t(1) next_eq show ?thesis
      by (simp add: spec_shown_def written_def instruction_defs)
  qed
  then show "\<exists>s'. ref_run cap (length (vm_slots m)) h code ([], s) = Inr ([], s') \<and>
      spec_shown m s' (spec_command (command_of x) spec)"
    "length code \<le> 4" "spec_records (spec_command (command_of x) spec) = spec_records spec + written code" by blast+
qed

lemma ref_run_append: "ref_run cap n h (xs @ ys) st = res_bind (ref_run cap n h xs st) (ref_run cap n h ys)"
proof (induction xs arbitrary: st)
  case (Cons x xs)
  then show ?case by (cases "ref_step cap n h x st") simp_all
qed simp

lemma all_codes_run:
  assumes ok: "vocab_ok m" and cap: "3 \<le> cap"
  shows "list_all2 (codes m) ops chunks \<Longrightarrow> spec_shown m s spec \<Longrightarrow> list_all op_fits ops \<Longrightarrow>
    allocate_check ops (spec_next_entity spec) = Inr n \<Longrightarrow>
    (\<exists>s'. ref_run cap (length (vm_slots m)) h (concat chunks) ([], s) = Inr ([], s') \<and>
      spec_shown m s' (fold spec_command (map command_of ops) spec)) \<and> length (concat chunks) \<le> 4 * length ops \<and>
      spec_records (fold spec_command (map command_of ops) spec) = spec_records spec + written (concat chunks)"
proof (induction ops chunks arbitrary: s spec rule: list_all2_induct)
  case Nil
  then show ?case by (simp add: written_def)
next
  case (Cons x ops code chunks)
  have fits: "op_fits x" "list_all op_fits ops" using Cons.prems(2) by simp_all
  obtain n1 where n1: "allocate_check [x] (spec_next_entity spec) = Inr n1" "allocate_check ops n1 = Inr n"
    using Cons.prems(3) allocate_check_append [of "[x]" ops "spec_next_entity spec"]
    by (cases "allocate_check [x] (spec_next_entity spec)") auto
  have next1: "spec_next_entity (spec_command (command_of x) spec) = n1"
    using n1(1) by (cases x) (auto split: if_splits)
  note one = codes_run [OF ok Cons.hyps(1) Cons.prems(1) cap fits(1) n1(1)]
  from one(1) obtain s1 where s1: "ref_run cap (length (vm_slots m)) h code ([], s) = Inr ([], s1)"
    "spec_shown m s1 (spec_command (command_of x) spec)" by blast
  from Cons.IH [OF s1(2) fits(2)] n1(2) next1 one(2,3) s1(1) show ?case
    by (auto simp: ref_run_append written_def)
qed

end
