(* ===== verification/VM_Epochs.thy ===== *)
theory VM_Epochs
  imports VM_Compile
begin

text \<open>
  Epochs on the token machine: a materializer that shows the stacks of a history derives from a
  list of intents the same frame, outcomes and counters as \<open>derive_epoch_world\<close> derives on a
  kernel, and shows the stacks of the longer history afterwards.  A materializer rebuilt from the
  frames of a world shows them too.
\<close>

section \<open>How many records a program writes\<close>

lemma push_index_deltas_deltas: "push_index_deltas ds w = Some w' \<Longrightarrow> ws_deltas w' = ws_deltas w"
  by (induction ds arbitrary: w) (fastforce simp: bind_eq_Some_conv)+

lemma append_index_transition_deltas: "append_index_transition p r w = Some w' \<Longrightarrow> ws_deltas w' = ws_deltas w"
  by (auto simp: append_index_transition_def append_fact_indexes_def bind_eq_Some_conv
      dest!: push_index_deltas_deltas split: if_splits)

lemma append_record_deltas:
  "append_record r w = Some (Inr x, w') \<Longrightarrow> pa_frontier (ws_deltas w') = Suc (pa_frontier (ws_deltas w))"
  by (auto simp: append_record_def bind_eq_Some_conv arena_push_def Let_def
      dest!: append_index_transition_deltas split: if_splits)

lemma vm_bind_Inr: "vm_bind r k = Some (Inr x, w') \<longleftrightarrow> (\<exists>y w1. r = Some (Inr y, w1) \<and> k y w1 = Some (Inr x, w'))"
  by (cases "(r, k)" rule: vm_bind.cases) simp_all

lemma resolve_trial_head_same: "resolve_trial_head slot n w = Some (r, w') \<Longrightarrow> w' = w"
  by (auto simp: resolve_trial_head_def split: sum.splits option.splits)

lemma resolve_trial_object_same: "resolve_trial_object slot n w = Some (Inr x, w') \<Longrightarrow> w' = w"
  by (auto simp: resolve_trial_object_def vm_bind_Inr dest!: resolve_trial_head_same split: if_splits)

lemma frame_step_deltas:
  "vm_push c w = Some (Inr x, w') \<Longrightarrow> ws_deltas w' = ws_deltas w"
  "vm_pop w = Some (Inr y, w') \<Longrightarrow> ws_deltas w' = ws_deltas w"
  "vm_local n w = Some (Inr y, w') \<Longrightarrow> ws_deltas w' = ws_deltas w"
  "vm_set_local n c w = Some (Inr x, w') \<Longrightarrow> ws_deltas w' = ws_deltas w"
  by (auto simp: vm_push_def vm_pop_def vm_local_def vm_set_local_def Let_def split: if_splits)

lemma write_deltas:
  "vm_define slot s p ob n w = Some (Inr x, w') \<Longrightarrow> pa_frontier (ws_deltas w') = Suc (pa_frontier (ws_deltas w))"
  "vm_forget slot n w = Some (Inr x, w') \<Longrightarrow> pa_frontier (ws_deltas w') = Suc (pa_frontier (ws_deltas w))"
  by (auto simp: vm_define_def vm_forget_def vm_bind_Inr bind_eq_Some_conv
      dest!: resolve_trial_head_same append_record_deltas)

lemma execute_instruction_deltas:
  assumes "execute_instruction i c w = Some (Inr (), w')"
  shows "pa_frontier (ws_deltas w') = pa_frontier (ws_deltas w) + (if is_write i then 1 else 0)"
proof (cases "i_opcode i")
  case OpExpectObject
  with assms show ?thesis
    by (auto simp: execute_instruction_def vm_bind_Inr dest!: resolve_trial_object_same split: if_splits option.splits)
qed (use assms in \<open>auto simp: execute_instruction_def vm_bind_Inr dest!: frame_step_deltas write_deltas\<close>)

lemma execute_loop_deltas:
  "execute_loop is c w = Some (Inr (), w') \<Longrightarrow> pa_frontier (ws_deltas w') = pa_frontier (ws_deltas w) + written is"
proof (induction "is" arbitrary: w)
  case Nil
  then show ?case by (simp add: written_def)
next
  case (Cons i "is")
  then obtain w1 where "execute_instruction i c w = Some (Inr (), w1)" "execute_loop is c w1 = Some (Inr (), w')"
    by (auto simp: vm_bind_Inr)
  with Cons.IH execute_instruction_deltas [OF this(1)] show ?case by (simp add: written_def)
qed

lemma execute_deltas:
  assumes "execute \<lparr>local_count = 0, instructions = code\<rparr> w = Some (Accepted, w')"
  shows "pa_frontier (ws_deltas w') = pa_frontier (ws_deltas w) + written code"
proof -
  obtain w1 where "vm_bind (vm_reserve 0 (w\<lparr>ws_frame_base := ws_stack_pointer w\<rparr>)) (\<lambda>_. execute_loop code (vm_checkpoint w)) =
      Some (Inr (), w1)" and acc: "vm_accept (vm_checkpoint w) w1 = Some w'"
    using assms by (auto simp: execute_def execute_instructions_def Let_def split: option.splits sum.splits prod.splits)
  then obtain w2 where 2: "execute_loop code (vm_checkpoint w) w2 = Some (Inr (), w1)" "ws_deltas w2 = ws_deltas w"
    by (auto simp: vm_bind_Inr vm_reserve_def split: if_splits)
  have "ws_deltas w' = ws_deltas w1" using acc by (auto simp: vm_accept_def)
  with execute_loop_deltas [OF 2(1)] 2(2) show ?thesis by simp
qed

section \<open>A compiled program on a workspace\<close>

lemma execute_compiled:
  assumes ok: "ws_ok w" and room: "room (length code + k) w" and sp: "ws_stack_pointer w = 0"
    and run: "ref_run (length (ws_stack w)) (length (ws_accepted_heads w)) (ws_semantic_hash w) code ([], vm_abs w) = Inr ([], s)"
  shows "\<exists>w'. execute \<lparr>local_count = 0, instructions = code\<rparr> w = Some (Accepted, w') \<and> ws_ok w' \<and> vm_abs w' = s \<and>
    room k w' \<and> ws_stack_pointer w' = 0 \<and> length (ws_stack w') = length (ws_stack w) \<and>
    length (ws_accepted_heads w') = length (ws_accepted_heads w) \<and> vm_delta_count w' = vm_delta_count w + written code"
proof -
  let ?prog = "\<lparr>local_count = 0, instructions = code\<rparr>"
  have "ref_execute (vm_cap w) (VM_Exec.vm_slots w) (ws_semantic_hash w) (drop (ws_stack_pointer w) (ws_stack w)) ?prog (vm_abs w) = Inr s"
    using run sp by (simp add: ref_execute_def vm_cap_def VM_Exec.vm_slots_def)
  moreover have "room (length (instructions ?prog) + k) w" using room by simp
  ultimately obtain w1 fr w' where 1: "trial w w1 fr s" "vm_accept (vm_checkpoint w) w1 = Some w'" "room k w1"
    "execute ?prog w = Some (Accepted, w')"
    using execute_cases_room [OF ok, of ?prog k] by auto
  have "room k w'" using 1(2,3) by (auto simp: vm_accept_def room_def)
  moreover have "length (ws_accepted_heads w') = length (ws_accepted_heads w)" if "ws_accepted_heads w' = trial_heads w w1"
    using that by (simp add: trial_heads_def)
  moreover have "vm_delta_count w' = vm_delta_count w + written code"
  proof -
    have "ws_historical_delta_offset w1 = ws_historical_delta_offset w"
      using 1(1) by (simp add: trial_def same_world_def)
    then have "ws_historical_delta_offset w' = ws_historical_delta_offset w" using 1(2) by (auto simp: vm_accept_def)
    with execute_deltas [OF 1(4)] show ?thesis by (simp add: vm_delta_count_def)
  qed
  ultimately show ?thesis using accept_ok [OF ok 1(1)] 1(2,4) sp by auto
qed

section \<open>A materializer that shows a history\<close>

lemma with_workspace:
  "fact_from_cells (m\<lparr>vm_workspace := w\<rparr>) t = fact_from_cells m t"
  "facts_rel (m\<lparr>vm_workspace := w\<rparr>) facts stacks \<longleftrightarrow> facts_rel m facts stacks"
  "vocab_size (m\<lparr>vm_workspace := w\<rparr>) = vocab_size m"
  "length (ws_accepted_heads w) = length (vm_slots m) \<Longrightarrow> vocab_ok m \<Longrightarrow> vocab_ok (m\<lparr>vm_workspace := w\<rparr>)"
proof -
  have "atom_from_cell (m\<lparr>vm_workspace := w\<rparr>) = atom_from_cell m"
    "predicate_from_cell (m\<lparr>vm_workspace := w\<rparr>) = predicate_from_cell m"
    by (cases "mapped_base m"; simp add: fun_eq_iff atom_from_cell_def predicate_from_cell_def Let_def)+
  then have cells: "fact_from_cells (m\<lparr>vm_workspace := w\<rparr>) = fact_from_cells m"
    by (simp add: fun_eq_iff fact_from_cells_def)
  then show "fact_from_cells (m\<lparr>vm_workspace := w\<rparr>) t = fact_from_cells m t" by simp
  show "facts_rel (m\<lparr>vm_workspace := w\<rparr>) facts stacks \<longleftrightarrow> facts_rel m facts stacks"
    by (simp add: facts_rel_def slot_cells_def cells)
qed (simp_all add: vocab_size_def vocab_ok_def slots_ok_def predicates_ok_def literals_ok_def)

text \<open>\<open>k\<close> is the number of operations there is still room for.\<close>

definition mat_ok :: "nat \<Rightarrow> kernel_spec \<Rightarrow> vm_materializer \<Rightarrow> bool" where
  "mat_ok k spec m \<longleftrightarrow>
     vocab_ok m \<and> vocab_size m + 4 * k \<le> 2 ^ 31 \<and> ws_ok (vm_workspace m) \<and> room (4 * k) (vm_workspace m) \<and>
     ws_stack_pointer (vm_workspace m) = 0 \<and> length (ws_stack (vm_workspace m)) = 32 \<and>
     spec_shown m (vm_abs (vm_workspace m)) spec \<and> vm_delta_count (vm_workspace m) = spec_records spec"

lemma ensure_slot_count_state:
  "room k (ensure_slot_count n w) = room k w" "vm_delta_count (ensure_slot_count n w) = vm_delta_count w"
  "ws_stack_pointer (ensure_slot_count n w) = ws_stack_pointer w" "ws_stack (ensure_slot_count n w) = ws_stack w"
  "ws_next_entity (ensure_slot_count n w) = ws_next_entity w" "ws_semantic_hash (ensure_slot_count n w) = ws_semantic_hash w"
  "vs_facts (vm_abs (ensure_slot_count n w)) = vs_facts (vm_abs w)"
  "ws_ok w \<Longrightarrow> ws_ok (ensure_slot_count n w)"
  by (auto simp: room_def vm_delta_count_def ensure_slot_count_def vm_abs_def facts_of_def fun_eq_iff nth_append
      ws_ok_def head_ok_def)

lemma vm_abs_next: "vs_next (vm_abs w) = ws_next_entity w"
  by (simp add: vm_abs_def)

lemma room_mono: "room j w \<Longrightarrow> k \<le> j \<Longrightarrow> room k w"
  by (simp add: room_def)

lemma mat_ok_version: "mat_ok k spec (m\<lparr>vm_version := v\<rparr>) \<longleftrightarrow> mat_ok k spec m"
proof -
  have "atom_from_cell (m\<lparr>vm_version := v\<rparr>) = atom_from_cell m"
    "predicate_from_cell (m\<lparr>vm_version := v\<rparr>) = predicate_from_cell m"
    by (cases "mapped_base m"; simp add: fun_eq_iff atom_from_cell_def predicate_from_cell_def Let_def)+
  then have "fact_from_cells (m\<lparr>vm_version := v\<rparr>) = fact_from_cells m"
    by (simp add: fun_eq_iff fact_from_cells_def)
  then show ?thesis
    by (simp add: mat_ok_def spec_shown_def facts_rel_def slot_cells_def vocab_size_def vocab_ok_def slots_ok_def
        predicates_ok_def literals_ok_def)
qed

lemma mat_ok_less: "mat_ok j spec m \<Longrightarrow> k \<le> j \<Longrightarrow> mat_ok k spec m"
  using room_mono [of "4 * j" "vm_workspace m" "4 * k"] by (simp add: mat_ok_def)

lemma compile_execute_ok:
  assumes ok: "mat_ok (length ops + k) spec m" and fits: "list_all op_fits ops"
    and alloc: "allocate_check ops (spec_next_entity spec) = Inr n"
  shows "\<exists>prog m1 w'. compile_operations ops m = (Inr prog, m1) \<and> execute prog (vm_workspace m1) = Some (Accepted, w') \<and>
    mat_ok k (fold spec_command (map command_of ops) spec) (m1\<lparr>vm_workspace := w'\<rparr>) \<and> vm_version m1 = vm_version m"
proof -
  let ?spec = "fold spec_command (map command_of ops) spec" and ?w = "vm_workspace m"
  have vocab: "vocab_ok m" and w: "ws_ok ?w" "room (4 * (length ops + k)) ?w" "ws_stack_pointer ?w = 0"
    "length (ws_stack ?w) = 32" "spec_shown m (vm_abs ?w) spec" "vm_delta_count ?w = spec_records spec"
    and size: "vocab_size m + 4 * length ops \<le> 2 ^ 31" "vocab_size m + 4 * (length ops + k) \<le> 2 ^ 31"
    using ok by (simp_all add: mat_ok_def)
  from compile_loop_ok [OF vocab size(1) fits, of "[]"] obtain chunks m1 where
    1: "compile_loop ops [] m = (Inr (concat chunks), m1)" "vocab_ok m1" "vocab_grows m m1"
      "vocab_size m1 \<le> vocab_size m + 4 * length ops" "list_all2 (codes m1) ops chunks" by auto
  from 1(3) obtain j where w1: "vm_workspace m1 = ensure_slot_count j ?w" and version: "vm_version m1 = vm_version m"
    unfolding vocab_grows_def by blast
  have shown: "spec_shown m1 (vm_abs (vm_workspace m1)) spec"
    using w(5) facts_rel_grows [OF vocab 1(2,3)]
    by (simp add: spec_shown_def w1 ensure_slot_count_state vm_abs_next)
  have heads: "length (ws_accepted_heads (vm_workspace m1)) = length (vm_slots m1)"
    using 1(2) by (simp add: vocab_ok_def slots_ok_def)
  have cap: "3 \<le> length (ws_stack (vm_workspace m1))" by (simp add: w1 ensure_slot_count_state w(4))
  from all_codes_run [OF 1(2) cap 1(5) shown fits alloc, of "ws_semantic_hash (vm_workspace m1)"] obtain s where
    s: "ref_run (length (ws_stack (vm_workspace m1))) (length (ws_accepted_heads (vm_workspace m1)))
        (ws_semantic_hash (vm_workspace m1)) (concat chunks) ([], vm_abs (vm_workspace m1)) = Inr ([], s)"
      "spec_shown m1 s ?spec" "length (concat chunks) \<le> 4 * length ops"
      "spec_records ?spec = spec_records spec + written (concat chunks)"
    unfolding heads by blast
  have room: "room (length (concat chunks) + 4 * k) (vm_workspace m1)"
    unfolding w1 ensure_slot_count_state by (rule room_mono [OF w(2)]) (use s(3) in simp)
  from execute_compiled [OF _ room _ s(1)] w(1,3) obtain w' where
    w': "execute \<lparr>local_count = 0, instructions = concat chunks\<rparr> (vm_workspace m1) = Some (Accepted, w')" "ws_ok w'"
      "vm_abs w' = s" "room (4 * k) w'" "ws_stack_pointer w' = 0" "length (ws_stack w') = 32"
      "length (ws_accepted_heads w') = length (vm_slots m1)"
      "vm_delta_count w' = vm_delta_count ?w + written (concat chunks)"
    unfolding heads by (auto simp: w1 ensure_slot_count_state w(4))
  have "mat_ok k ?spec (m1\<lparr>vm_workspace := w'\<rparr>)"
    using w' s(2,4) w(6) 1(4) size(2) with_workspace(4) [OF w'(7) 1(2)]
    by (simp add: mat_ok_def spec_shown_def with_workspace)
  with 1(1) w'(1) version show ?thesis by (auto simp: compile_operations_def)
qed

section \<open>Reading a materializer\<close>

lemma facts_rel_none:
  assumes "facts_rel m facts stacks" and "map_of (vm_slots m) slot = None"
  shows "stacks slot = []"
proof -
  from assms(1) have "map (fact_from_cells m) (slot_cells m facts slot) = map Some (stacks slot)"
    unfolding facts_rel_def by blast
  with assms(2) show ?thesis by (simp add: slot_cells_def)
qed

lemma mat_resolve:
  assumes "mat_ok k spec m"
  shows "vm_resolve_fact m slot = Some (top (spec_stacks spec slot))"
proof -
  have vocab: "mapped_base m = None" and ok: "ws_ok (vm_workspace m)"
    and rel: "facts_rel m (vs_facts (vm_abs (vm_workspace m))) (spec_stacks spec)"
    using assms by (simp_all add: mat_ok_def vocab_ok_def spec_shown_def)
  show ?thesis
  proof (cases "map_of (vm_slots m) slot")
    case None
    with rel have "spec_stacks spec slot = []" by (rule facts_rel_none)
    with None vocab show ?thesis by (simp add: vm_resolve_fact_def)
  next
    case (Some t)
    from facts_rel_top [OF rel Some] resolve_object_abs(2) [OF ok, of t] Some show ?thesis
      by (cases "vs_facts (vm_abs (vm_workspace m)) t"; cases "spec_stacks spec slot") (auto simp: vm_resolve_fact_def)
  qed
qed

lemma mat_active_slots:
  assumes "mat_ok k spec m"
  shows "vm_active_slot_count (vm_workspace m) = card {slot. spec_stacks spec slot \<noteq> []}"
proof -
  let ?w = "vm_workspace m"
  let ?hs = "ws_accepted_heads ?w" and ?recs = "arena_active (ws_records (vm_workspace m))" and ?f = "vs_facts (vm_abs (vm_workspace m))"
  let ?tok = "\<lambda>slot. unat (the (map_of (vm_slots m) slot))"
  have vocab: "slots_ok m" and ok: "ws_ok ?w" and rel: "facts_rel m ?f (spec_stacks spec)" and size: "vocab_size m \<le> 2 ^ 31"
    using assms by (simp_all add: mat_ok_def vocab_ok_def spec_shown_def)
  have len: "length ?hs \<le> 2 ^ 31" using vocab size by (simp add: slots_ok_def vocab_size_def)
  have facts: "?f t \<noteq> [] \<longleftrightarrow> unat t < length ?hs \<and> ?hs ! unat t \<noteq> NONE" for t
  proof (cases "unat t < length ?hs")
    case True
    then have "head_ok ?recs (?hs ! unat t)" using ok by (simp add: ws_ok_def)
    with True ok show ?thesis
      by (cases "?hs ! unat t = NONE") (auto simp: vm_abs_def facts_of_def vm_chain_head ws_ok_def)
  qed (simp add: vm_abs_def facts_of_def)
  have shown: "spec_stacks spec slot \<noteq> [] \<longleftrightarrow> (\<exists>t. map_of (vm_slots m) slot = Some t \<and> ?f t \<noteq> [])" for slot
  proof (cases "map_of (vm_slots m) slot")
    case None
    with facts_rel_none [OF rel None] show ?thesis by simp
  next
    case (Some t)
    with facts_rel_top [OF rel Some] show ?thesis by auto
  qed
  have "vm_active_slot_count ?w = card {i. i < length ?hs \<and> ?hs ! i \<noteq> NONE}"
    by (simp add: vm_active_slot_count_def length_filter_conv_card)
  also have "{i. i < length ?hs \<and> ?hs ! i \<noteq> NONE} = ?tok ` {slot. spec_stacks spec slot \<noteq> []}" (is "?A = ?B")
  proof
    show "?B \<subseteq> ?A" using facts shown by auto
    show "?A \<subseteq> ?B"
    proof
      fix i assume i: "i \<in> ?A"
      then have t: "unat (word_of_nat i :: u32) = i" using len by (simp add: unat_of_nat)
      then have ne: "?f (word_of_nat i) \<noteq> []" using i facts by simp
      then obtain slot where "map_of (vm_slots m) slot = Some (word_of_nat i)"
        using rel unfolding facts_rel_def by blast
      with ne shown t show "i \<in> ?B" by (force intro: image_eqI [of _ _ slot])
    qed
  qed
  also have "card \<dots> = card {slot. spec_stacks spec slot \<noteq> []}"
  proof (rule card_image, rule inj_onI)
    fix x y assume "x \<in> {slot. spec_stacks spec slot \<noteq> []}" "y \<in> {slot. spec_stacks spec slot \<noteq> []}" "?tok x = ?tok y"
    with shown obtain t where "map_of (vm_slots m) x = Some t" "map_of (vm_slots m) y = Some t"
      by (auto simp: word_unat_eq_iff)
    with vocab show "x = y" unfolding slots_ok_def by blast
  qed
  finally show ?thesis .
qed

section \<open>One intent\<close>

fun intent_atom_fits :: "intent_atom \<Rightarrow> bool" where
  "intent_atom_fits (IEntity e) \<longleftrightarrow> e < VM_LITERAL_BASE"
| "intent_atom_fits (ITemporary t) \<longleftrightarrow> True"
| "intent_atom_fits (ILiteral l) \<longleftrightarrow> True"

fun intent_op_fits :: "intent_operation \<Rightarrow> bool" where
  "intent_op_fits (IAllocateEntity t) \<longleftrightarrow> True"
| "intent_op_fits (IDefine slot f) \<longleftrightarrow> intent_atom_fits (if_subject f) \<and> intent_atom_fits (if_object f)"
| "intent_op_fits (IForget slot) \<longleftrightarrow> True"

definition intent_fits :: "queued_intent \<Rightarrow> bool" where
  "intent_fits i \<longleftrightarrow> list_all intent_op_fits (qi_operations i)"

lemma resolve_atom_fits:
  "resolve_atom a ns m = Inr b \<Longrightarrow> intent_atom_fits a \<Longrightarrow> \<forall>e \<in> ran m. e < VM_LITERAL_BASE \<Longrightarrow> atom_fits b"
  by (cases "(a, ns, m)" rule: resolve_atom.cases) (auto split: if_splits option.splits simp: ran_def)

lemma resolve_fact_fits:
  "resolve_fact f ns m = Inr g \<Longrightarrow> intent_op_fits (IDefine slot f) \<Longrightarrow> \<forall>e \<in> ran m. e < VM_LITERAL_BASE \<Longrightarrow>
   op_fits (Define slot g)"
  by (cases "resolve_atom (if_subject f) ns m"; cases "resolve_atom (if_object f) ns m")
    (auto simp: resolve_fact_def fact_new_def dest: resolve_atom_fits)

lemma resolve_loop_fits:
  "resolve_loop ns xs n m ops = Some (Inr (res, m')) \<Longrightarrow> list_all intent_op_fits xs \<Longrightarrow>
   \<forall>e \<in> ran m. e < VM_LITERAL_BASE \<Longrightarrow> unat n + length (filter is_allocation xs) \<le> 2 ^ 63 \<Longrightarrow>
   list_all op_fits ops \<Longrightarrow> list_all op_fits res \<and> length res = length ops + length xs"
proof (induction ns xs n m ops rule: resolve_loop.induct)
  case (2 ns t xs n m ops)
  have n: "n < VM_LITERAL_BASE" using "2.prems"(4) by (simp add: VM_LITERAL_BASE_def word_less_nat_alt)
  have "unat (n + 1) + length (filter is_allocation xs) \<le> 2 ^ 63"
    using "2.prems"(4) n by (simp add: unat_word_ariths VM_LITERAL_BASE_def word_less_nat_alt)
  moreover have "\<forall>e \<in> ran (m(t \<mapsto> n)). e < VM_LITERAL_BASE" using "2.prems"(3) n by (auto simp: ran_def)
  ultimately show ?case using "2.IH" "2.prems"(1,2,5) n by (auto split: if_splits simp del: fun_upd_apply)
next
  case (3 ns slot f xs n m ops)
  then show ?case using resolve_fact_fits [of f ns m _ slot] by (auto split: sum.splits)
qed auto

text \<open>Two worlds at the same place of the same history, with the same counters.\<close>

definition same_tip :: "'k world \<Rightarrow> 'k world \<Rightarrow> bool" where
  "same_tip v w \<longleftrightarrow>
     w_id v = w_id w \<and> w_version v = w_version w \<and> w_next_entity v = w_next_entity w \<and>
     w_operation_count v = w_operation_count w \<and> w_active_slot_count v = w_active_slot_count w \<and>
     w_record_count v = w_record_count w \<and> w_history v = w_history w"

lemma outcome_result_world: "outcome_result (publish_outcome v f out) = outcome_result (publish_outcome w g out)"
  by (cases out) (simp_all add: outcome_result_def)

lemma workspace_loop_accepted:
  "workspace_loop K vs pos is s ops n outs = Some (s', ops', n', outs') \<Longrightarrow>
   n \<le> n' \<and> (n' = n \<longrightarrow> (\<forall>p e. WorkspaceAccepted p e \<in> set outs' \<longrightarrow> WorkspaceAccepted p e \<in> set outs))"
proof (induction "is" arbitrary: pos s ops n outs)
  case (Cons i "is")
  then show ?case
    by (fastforce split: option.splits sum.splits prod.splits)
qed simp

lemma rejected_only_some:
  "\<forall>p e. WorkspaceAccepted p e \<notin> set outs \<Longrightarrow> \<exists>rs. rejected_only outs = Some rs"
proof (induction outs)
  case (Cons out outs)
  then show ?case by (cases out) auto
qed simp

context kernel
begin

lemma vm_intent_agrees:
  assumes inv: "kinv (ew_kernel s)" and ok: "mat_ok (length (qi_operations i) + k) (kabs (ew_kernel s)) m"
    and nxt: "ew_next s = spec_next_entity (kabs (ew_kernel s))"
    and tip: "ve_id v = ew_id s" "ve_version v = ew_version s" "unat (ew_version s) + 1 < 2 ^ 64"
    and fits: "intent_fits i" "unat (ew_next s) + allocations i \<le> 2 ^ 63"
  shows "(\<exists>e. workspace_intent K [] s i = Some (Inl e) \<and> vm_epoch_intent pos i (v, m) = Some (Inr (ve_reject pos e v), m)) \<or>
    (\<exists>c entities m'. workspace_intent K [] s i = Some (Inr (c, entities)) \<and>
       vm_epoch_intent pos i (v, m) = Some (Inr (ve_accept pos (c_operations c) entities (c_next_entity c) v), m') \<and>
       kinv (c_kernel c) \<and> mat_ok k (kabs (c_kernel c)) m' \<and> c_next_entity c = spec_next_entity (kabs (c_kernel c)) \<and>
       unat (c_next_entity c) = unat (ew_next s) + allocations i \<and> vm_version m' = vm_version m \<and>
       c_version c = ew_version s + 1 \<and> c_id c = calculate_world_id (ew_id s) (c_version c) (c_next_entity c) (c_operations c) \<and>
       c_base_operation_count c = ew_count s \<and> saturating_add_u64 (ve_version v) 1 = c_version c \<and>
       kabs (c_kernel c) = fold spec_command (map command_of (c_operations c)) (kabs (ew_kernel s)) \<and>
       allocate_check (c_operations c) (ew_next s) = Inr (c_next_entity c))"
proof -
  let ?ns = "qi_namespace i" and ?xs = "qi_operations i" and ?n = "ew_next s"
  have look: "vm_resolve_fact m = (\<lambda>slot. k_resolve K slot (ew_kernel s))"
    by (rule ext) (simp add: mat_resolve [OF ok] resolve [OF inv])
  have pre: "vm_check_preconditions m (ve_id v) (qi_preconditions i) =
      check_workspace_preconditions K (ew_id s) (ew_kernel s) (qi_preconditions i)"
    by (simp add: vm_check_preconditions_def check_workspace_preconditions_def look tip(1))
  have "check_workspace_preconditions K (ew_id s) (ew_kernel s) (qi_preconditions i) \<noteq> None"
    unfolding check_workspace_preconditions_def by (rule precondition_loop_total) (simp add: resolve [OF inv])
  then obtain p where p: "check_workspace_preconditions K (ew_id s) (ew_kernel s) (qi_preconditions i) = Some p" by blast
  have wnext: "ws_next_entity (vm_workspace m) = ?n" using ok nxt by (simp add: mat_ok_def spec_shown_def vm_abs_def)
  have version: "saturating_add_u64 (ve_version v) 1 = ew_version s + 1"
    using tip(2,3) by (simp add: saturating_add_u64_def)
  show ?thesis
  proof (cases p)
    case (Inl e)
    with p pre show ?thesis by (intro disjI1 exI [of _ e]) (simp add: workspace_intent_def vm_epoch_intent_def)
  next
    case (Inr u)
    have "unat ?n + length (filter is_allocation ?xs) < 2 ^ 64" using fits(2) by (simp add: allocations_def)
    from resolve_loop_ok [OF this, of ?ns Map.empty "[]"] consider
        e where "resolve_loop ?ns ?xs ?n Map.empty [] = Some (Inl e)"
      | ops entities where "resolve_loop ?ns ?xs ?n Map.empty [] = Some (Inr (ops, entities))"
          "allocate_check ops ?n = Inr (?n + word_of_nat (allocations i))"
      by (auto simp: allocations_def)
    then show ?thesis
    proof cases
      case 1
      with p pre Inr wnext show ?thesis
        by (intro disjI1 exI [of _ e]) (simp add: workspace_intent_def vm_epoch_intent_def resolve_operations_from_def)
    next
      case 2
      let ?next = "?n + word_of_nat (allocations i)"
      have "unat ?n + length (filter is_allocation ?xs) \<le> 2 ^ 63" using fits(2) by (simp add: allocations_def)
      then have ops: "list_all op_fits ops" "length ops = length ?xs"
        using resolve_loop_fits [OF 2(1)] fits(1) by (simp_all add: intent_fits_def)
      have kernel_ops: "case allocate_check ops ?n of Inl e \<Rightarrow> True | Inr n' \<Rightarrow> \<exists>k'. apply_operations K ops (ew_kernel s, ?n) = Some (Inr (k', n')) \<and> kinv k' \<and>
          kabs k' = fold spec_command (map command_of ops) (kabs (ew_kernel s)) \<and> n' = spec_next_entity (kabs k')"
        using apply_operations_check [OF inv nxt, of ops] by (auto split: sum.splits)
      then obtain k' where k': "apply_operations K ops (ew_kernel s, ?n) = Some (Inr (k', ?next))" "kinv k'"
        "kabs k' = fold spec_command (map command_of ops) (kabs (ew_kernel s))" "?next = spec_next_entity (kabs k')"
        unfolding 2(2) by auto
      from compile_execute_ok [OF ok [folded ops(2)] ops(1)] 2(2) nxt obtain prog m1 w' where
        m1: "compile_operations ops m = (Inr prog, m1)" "execute prog (vm_workspace m1) = Some (Accepted, w')"
          "mat_ok k (kabs k') (m1\<lparr>vm_workspace := w'\<rparr>)" "vm_version m1 = vm_version m"
        unfolding k'(3) by auto
      have wn: "ws_next_entity w' = ?next" using m1(3) k'(4) by (simp add: mat_ok_def spec_shown_def vm_abs_def)
      have "unat ?next = unat ?n + allocations i" using fits(2) by (simp add: unat_word_ariths unat_of_nat)
      with p pre Inr wnext 2 k' m1 wn version show ?thesis
        by (intro disjI2) (auto simp: workspace_intent_def vm_epoch_intent_def resolve_operations_from_def
            construct_from_state_def validate Let_def)
    qed
  qed
qed

lemma vm_loop_agrees:
  "kinv (ew_kernel s) \<Longrightarrow> mat_ok ((\<Sum>i\<leftarrow>is. operation_count i) + k) (kabs (ew_kernel s)) m \<Longrightarrow>
   ew_next s = spec_next_entity (kabs (ew_kernel s)) \<Longrightarrow> ve_id v = ew_id s \<Longrightarrow> ve_version v = ew_version s \<Longrightarrow>
   unat (ew_version s) + length is < 2 ^ 64 \<Longrightarrow> list_all intent_fits is \<Longrightarrow>
   unat (ew_next s) + (\<Sum>i\<leftarrow>is. allocations i) \<le> 2 ^ 63 \<Longrightarrow>
   \<exists>s' v' m' ops. workspace_loop K [] pos is s (ve_operations v) (ve_accepted v) (ve_outcomes v) =
       Some (s', ve_operations v', ve_accepted v', ve_outcomes v') \<and>
     vm_epoch_loop pos is (v, m) = Some (Inr v', m') \<and> kinv (ew_kernel s') \<and> mat_ok k (kabs (ew_kernel s')) m' \<and>
     ew_next s' = spec_next_entity (kabs (ew_kernel s')) \<and> vm_version m' = vm_version m \<and>
     ve_operations v' = ve_operations v @ ops \<and> kabs (ew_kernel s') = fold spec_command (map command_of ops) (kabs (ew_kernel s)) \<and>
     allocate_check ops (ew_next s) = Inr (ew_next s') \<and> ve_accepted v \<le> ve_accepted v' \<and> (ve_accepted v' = ve_accepted v \<longrightarrow> ops = [])"
proof (induction "is" arbitrary: pos s v m)
  case Nil
  then show ?case by (intro exI [of _ s] exI [of _ v] exI [of _ m] exI [of _ "[]"]) simp
next
  case (Cons i "is")
  have room: "mat_ok (length (qi_operations i) + ((\<Sum>i\<leftarrow>is. operation_count i) + k)) (kabs (ew_kernel s)) m"
    using Cons.prems(2) by (simp add: operation_count_def add.assoc)
  have bounds: "unat (ew_version s) + 1 < 2 ^ 64" "intent_fits i" "unat (ew_next s) + allocations i \<le> 2 ^ 63"
    "list_all intent_fits is"
    using Cons.prems(6-8) by simp_all
  from vm_intent_agrees [OF Cons.prems(1) room Cons.prems(3-5) bounds(1-3), of pos]
  show ?case
  proof (elim disjE exE conjE)
    fix e
    assume e: "workspace_intent K [] s i = Some (Inl e)" "vm_epoch_intent pos i (v, m) = Some (Inr (ve_reject pos e v), m)"
    have "mat_ok ((\<Sum>i\<leftarrow>is. operation_count i) + k) (kabs (ew_kernel s)) m"
      using room by (rule mat_ok_less) simp
    from Cons.IH [OF Cons.prems(1) this Cons.prems(3), of "ve_reject pos e v" "Suc pos"] Cons.prems(4-8) e
    show ?case by (auto simp: ve_reject_def)
  next
    fix c entities m1
    assume c: "workspace_intent K [] s i = Some (Inr (c, entities))"
      "vm_epoch_intent pos i (v, m) = Some (Inr (ve_accept pos (c_operations c) entities (c_next_entity c) v), m1)"
      "kinv (c_kernel c)" "mat_ok ((\<Sum>i\<leftarrow>is. operation_count i) + k) (kabs (c_kernel c)) m1"
      "c_next_entity c = spec_next_entity (kabs (c_kernel c))"
      "unat (c_next_entity c) = unat (ew_next s) + allocations i" "vm_version m1 = vm_version m" "c_version c = ew_version s + 1"
      "c_id c = calculate_world_id (ew_id s) (c_version c) (c_next_entity c) (c_operations c)"
      "c_base_operation_count c = ew_count s" "saturating_add_u64 (ve_version v) 1 = c_version c"
      "kabs (c_kernel c) = fold spec_command (map command_of (c_operations c)) (kabs (ew_kernel s))"
      "allocate_check (c_operations c) (ew_next s) = Inr (c_next_entity c)"
    obtain s1 where s1: "into_materialized_state c = (s1, c_operations c)" "ew_kernel s1 = c_kernel c"
      "ew_next s1 = c_next_entity c" "ew_id s1 = c_id c" "ew_version s1 = c_version c"
      by (simp add: into_materialized_state_def)
    let ?v = "ve_accept pos (c_operations c) entities (c_next_entity c) v"
    have "unat (ew_version s1) = Suc (unat (ew_version s))"
      using bounds(1) unfolding s1(5) c(8) by (simp add: unat_word_ariths)
    then have "unat (ew_version s1) + length is < 2 ^ 64" using Cons.prems(6) by simp
    moreover have "unat (ew_next s1) + (\<Sum>i\<leftarrow>is. allocations i) \<le> 2 ^ 63"
      using Cons.prems(8) unfolding s1(3) c(6) by simp
    moreover have "ve_id ?v = ew_id s1" "ve_version ?v = ew_version s1"
      using c(9,11) Cons.prems(4) s1 by (simp_all add: ve_accept_def Let_def)
    moreover have "kinv (ew_kernel s1)" "mat_ok ((\<Sum>i\<leftarrow>is. operation_count i) + k) (kabs (ew_kernel s1)) m1"
      "ew_next s1 = spec_next_entity (kabs (ew_kernel s1))"
      using c(3,4,5) s1 by simp_all
    ultimately obtain s' v' m' ops where
      IH: "workspace_loop K [] (Suc pos) is s1 (ve_operations ?v) (ve_accepted ?v) (ve_outcomes ?v) =
          Some (s', ve_operations v', ve_accepted v', ve_outcomes v')"
        "vm_epoch_loop (Suc pos) is (?v, m1) = Some (Inr v', m')" "kinv (ew_kernel s')" "mat_ok k (kabs (ew_kernel s')) m'"
        "ew_next s' = spec_next_entity (kabs (ew_kernel s'))" "vm_version m' = vm_version m1"
        "ve_operations v' = ve_operations ?v @ ops" "kabs (ew_kernel s') = fold spec_command (map command_of ops) (kabs (ew_kernel s1))"
        "allocate_check ops (ew_next s1) = Inr (ew_next s')" "ve_accepted ?v \<le> ve_accepted v'"
      using Cons.IH [of s1 m1 ?v "Suc pos"] bounds(4) by blast
    have v: "ve_operations ?v = ve_operations v @ c_operations c" "ve_accepted ?v = ve_accepted v + 1"
      "ve_outcomes ?v = ve_outcomes v @ [WorkspaceAccepted pos entities]" by (simp_all add: ve_accept_def Let_def)
    show ?case
      using IH c(1,2,7,12,13) s1
      by (intro exI [of _ s'] exI [of _ v'] exI [of _ m'] exI [of _ "c_operations c @ ops"])
        (simp add: v allocate_check_append)
  qed
qed

lemma vm_epoch_agrees:
  assumes tip: "same_tip vbase base" and kn: "world_kernel K base = Some kn" "kinv kn" "w_next_entity base = spec_next_entity (kabs kn)"
    and ok: "mat_ok ((\<Sum>i\<leftarrow>is. operation_count i) + k) (kabs kn) m"
    and bounds: "unat (w_version base) + length is < 2 ^ 64" "list_all intent_fits is"
      "unat (w_next_entity base) + (\<Sum>i\<leftarrow>is. allocations i) \<le> 2 ^ 63"
  shows "\<exists>plan vplan m'. derive_epoch_world K base is [] = Some plan \<and> derive_vm_epoch vbase is m = Some (Inr vplan, m') \<and>
    ep_base vplan = vbase \<and> ep_frames vplan = ep_frames plan \<and>
    map outcome_result (ep_outcomes vplan) = map outcome_result (ep_outcomes plan) \<and> same_tip (ep_tail vplan) (ep_tail plan) \<and>
    mat_ok k (fold spec_command (map command_of (concat (map operations (ep_frames plan)))) (kabs kn)) m' \<and>
    (ep_frames plan = [] \<and> ep_tail vplan = vbase \<or>
     (\<exists>ops n a r f. ep_frames plan = [f] \<and> allocate_check ops (w_next_entity base) = Inr n \<and>
        from_vm_epoch vbase ops n a r = (ep_tail vplan, f)))"
proof -
  let ?s = "\<lparr>ew_id = w_id base, ew_version = w_version base, ew_next = w_next_entity base,
      ew_count = w_operation_count base, ew_kernel = kn\<rparr>"
  let ?v = "\<lparr>ve_id = w_id base, ve_version = w_version base, ve_operations = [], ve_accepted = 0, ve_outcomes = []\<rparr>"
  obtain s v m' ops where
    run: "workspace_loop K [] 0 is ?s [] 0 [] = Some (s, ve_operations v, ve_accepted v, ve_outcomes v)"
      "vm_epoch_loop 0 is (?v, m) = Some (Inr v, m')" and
    s: "kinv (ew_kernel s)" "mat_ok k (kabs (ew_kernel s)) m'" "ew_next s = spec_next_entity (kabs (ew_kernel s))"
      "ve_operations v = ops" "kabs (ew_kernel s) = fold spec_command (map command_of ops) (kabs kn)"
      "allocate_check ops (w_next_entity base) = Inr (ew_next s)" "ve_accepted v = 0 \<longrightarrow> ops = []"
    using vm_loop_agrees [of ?s "is" k m ?v 0] kn ok bounds by auto
  have base: "w_id vbase = w_id base" "w_version vbase = w_version base" "w_next_entity vbase = w_next_entity base"
    using tip by (simp_all add: same_tip_def)
  have start: "ws_next_entity (vm_workspace m) = w_next_entity vbase"
    using ok kn(3) base by (simp add: mat_ok_def spec_shown_def vm_abs_def)
  show ?thesis
  proof (cases "ve_accepted v = 0")
    case True
    have "\<forall>p e. WorkspaceAccepted p e \<notin> set (ve_outcomes v)"
      using workspace_loop_accepted [OF run(1)] True by auto
    then obtain outs :: "'k epoch_outcome list" where outs: "rejected_only (ve_outcomes v) = Some outs"
      using rejected_only_some by blast
    have "derive_epoch_world K base is [] = Some \<lparr>ep_base = base, ep_tail = base, ep_outcomes = outs, ep_frames = []\<rparr>"
      using kn(1) run(1) True outs by (simp add: derive_epoch_world_def)
    moreover have "derive_vm_epoch vbase is m =
        Some (Inr \<lparr>ep_base = vbase, ep_tail = vbase, ep_outcomes = outs, ep_frames = []\<rparr>, m')"
      using start run(2) True outs base by (simp add: derive_vm_epoch_def)
    ultimately show ?thesis using s(2,5,7) True tip by simp
  next
    case False
    let ?wid = "calculate_world_id (w_id base) (w_version base + 1) (ew_next s) ops"
    let ?c = "\<lparr>c_base_world = w_id base, c_base_version = w_version base, c_id = ?wid, c_version = w_version base + 1,
        c_next_entity = ew_next s, c_base_operation_count = w_operation_count base, c_operations = ops, c_kernel = ew_kernel s\<rparr>"
    let ?f = "candidate_frame ?c" and ?a = "vm_active_slot_count (vm_workspace m')" and ?r = "vm_delta_count (vm_workspace m')"
    let ?w = "into_world K ?c (candidate_frame ?c) (w_history base)"
    have plan: "derive_epoch_world K base is [] =
        Some \<lparr>ep_base = base, ep_tail = ?w, ep_outcomes = map (publish_outcome ?w ?f) (ve_outcomes v), ep_frames = [?f]\<rparr>"
      using kn(1) run(1) False s(4) by (simp add: derive_epoch_world_def Let_def)
    have nxt: "ws_next_entity (vm_workspace m') = ew_next s"
      using s(2,3) by (simp add: mat_ok_def spec_shown_def vm_abs_def)
    obtain vw f where vw: "from_vm_epoch vbase ops (ew_next s) ?a ?r = (vw, f)" by fastforce
    then have f: "f = ?f" using base by (auto simp: from_vm_epoch_def candidate_frame_def Let_def)
    have vplan: "derive_vm_epoch vbase is m =
        Some (Inr \<lparr>ep_base = vbase, ep_tail = vw, ep_outcomes = map (publish_outcome vw f) (ve_outcomes v), ep_frames = [f]\<rparr>, m')"
      using start run(2) False s(4) nxt vw base by (simp add: derive_vm_epoch_def Let_def)
    have counts: "?a = k_active_slot_count K (ew_kernel s)" "?r = k_record_count K (ew_kernel s)"
      using mat_active_slots [OF s(2)] active_slots [OF s(1)] records [OF s(1)] s(2) by (simp_all add: mat_ok_def)
    have tip': "same_tip vw ?w"
      using vw counts f tip by (auto simp: from_vm_epoch_def same_tip_def into_world_def Let_def)
    have ops: "operations ?f = ops" by (simp add: candidate_frame_def)
    show ?thesis
      unfolding plan vplan f
      using tip' s(2,5,6) vw f ops outcome_result_world [of vw ?f _ ?w ?f] by (auto simp: o_def)
  qed
qed

end

section \<open>Catching up with a history\<close>

lemma mat_ok_new: "k \<le> 2 ^ 27 \<Longrightarrow> mat_ok k spec_new (materializer_new 1)"
proof -
  assume k: "k \<le> 2 ^ 27"
  let ?w = "with_indexes_from 1 0 32"
  have ws: "vm_workspace (materializer_new 1) = workspace_new 0 32 True"
    by (simp add: materializer_new_def with_indexes_from_def workspace_new_def)
  have "room (4 * k) (workspace_new 0 32 True)" using k by (simp add: room_def workspace_new_def arena_simps unat_NONE_32)
  moreover have "spec_shown (materializer_new 1) (vm_abs (workspace_new 0 32 True)) spec_new"
    by (simp add: spec_shown_def workspace_new_abs facts_rel_def slot_cells_def materializer_new_def spec_new_def)
  ultimately show ?thesis
    using k by (simp add: mat_ok_def materializer_new_vocab ws workspace_new_ok)
      (simp add: workspace_new_def vm_delta_count_def arena_simps spec_new_def)
qed

lemma well_linked_parents:
  "well_linked_from tip fs \<Longrightarrow> i < length fs \<Longrightarrow>
   parent_version (fs ! i) = (if i = 0 then fst (snd tip) else resulting_version (fs ! (i - 1)))"
proof (induction fs arbitrary: tip i)
  case (Cons f fs)
  then have f: "frame_ok tip f" "well_linked_from (frame_tip f) fs" by simp_all
  show ?case
  proof (cases i)
    case 0
    with f(1) show ?thesis by (cases tip) (simp add: frame_ok_def)
  next
    case (Suc j)
    with Cons.prems(2) Cons.IH [OF f(2), of j] show ?thesis by (cases j) simp_all
  qed
qed simp

context kernel
begin

lemma vm_world_parents:
  "vm_world K fs w \<Longrightarrow> length fs < 2 ^ 64 \<Longrightarrow> \<forall>i < length fs. parent_version (fs ! i) = word_of_nat i"
proof (induction rule: vm_world.induct)
  case (vm_reconstruct fs w)
  then have "well_linked_from (GENESIS, 0, 1) fs"
    using reconstruct_iff [of fs] by (auto simp: well_linked_def split: if_splits)
  with well_linked_parents [OF this] vm_reconstruct.hyps(2) show ?case
    by (auto simp: numbered_def)
next
  case (vm_epoch fs base ops nxt active_slots record_count w f)
  then have len: "length fs < 2 ^ 64" by simp
  have "w_version base = word_of_nat (length fs)"
    using vm_world_view_ok [OF vm_epoch.hyps(1) len] by (simp add: view_ok_def)
  then have "parent_version f = word_of_nat (length fs)"
    using vm_epoch.hyps(3) by (auto simp: from_vm_epoch_def Let_def)
  with vm_epoch.IH [OF len] show ?case by (auto simp: nth_append less_Suc_eq)
qed auto

end

lemma sync_frames_append:
  "sync_frames (xs @ ys) m =
    (case sync_frames xs m of Some (Inr u, m') \<Rightarrow> sync_frames ys m' | r \<Rightarrow> r)"
  by (induction xs m rule: sync_frames.induct) (auto split: option.splits sum.splits prod.splits)

lemma sync_frames_skip:
  "\<forall>f \<in> set fs. \<not> vm_version m < parent_version f + 1 \<Longrightarrow> sync_frames fs m = Some (Inr (), m)"
  by (induction fs) auto

definition frames_fit :: "commit_frame list \<Rightarrow> bool" where
  "frames_fit fs \<longleftrightarrow> list_all op_fits (concat (map operations fs))"

lemma apply_committed_ok:
  assumes "mat_ok (length ops + k) spec m" and "list_all op_fits ops" and "allocate_check ops (spec_next_entity spec) = Inr n"
  shows "\<exists>m'. apply_committed ops m = Some (Inr (), m') \<and> mat_ok k (fold spec_command (map command_of ops) spec) m' \<and>
    vm_version m' = vm_version m"
  using compile_execute_ok [OF assms] by (fastforce simp: apply_committed_def)

lemma sync_frames_ok:
  "allocators_ok fs \<Longrightarrow> \<forall>i < length fs. parent_version (fs ! i) = word_of_nat i \<Longrightarrow> length fs < 2 ^ 64 \<Longrightarrow>
   n \<le> length fs \<Longrightarrow> frames_fit (drop n fs) \<Longrightarrow> vm_version m = word_of_nat n \<Longrightarrow>
   mat_ok (length (concat (map operations (drop n fs))) + k) (frames_spec (take n fs)) m \<Longrightarrow>
   \<exists>m'. sync_frames fs m = Some (Inr (), m') \<and> mat_ok k (frames_spec fs) m' \<and> vm_version m' = word_of_nat (length fs)"
proof (induction fs arbitrary: k rule: rev_induct)
  case Nil
  then show ?case by simp
next
  case (snoc f fs)
  have parent: "parent_version f = word_of_nat (length fs)" "\<forall>i < length fs. parent_version (fs ! i) = word_of_nat i"
    using snoc.prems(2) by (auto simp: nth_append less_Suc_eq)
  have len: "length fs < 2 ^ 64" using snoc.prems(3) by simp
  have succ: "unat (word_of_nat i + 1 :: u64) = Suc i" if "i \<le> length fs" for i
    using that snoc.prems(3) by (simp add: unat_word_ariths unat_of_nat)
  show ?case
  proof (cases "n = Suc (length fs)")
    case True
    have "\<not> vm_version m < parent_version g + 1" if "g \<in> set (fs @ [f])" for g
    proof -
      from that obtain i where "i \<le> length fs" "parent_version g = word_of_nat i"
        using snoc.prems(2) unfolding in_set_conv_nth by (metis length_append_singleton less_Suc_eq_le)
      with succ [of i] succ [of "length fs"] True snoc.prems(6) show ?thesis
        by (simp add: not_less word_le_nat_alt add.commute [of 1])
    qed
    with True snoc.prems show ?thesis by (simp add: sync_frames_skip del: sync_frames.simps)
  next
    case False
    then have n: "n \<le> length fs" using snoc.prems(4) by simp
    have alloc: "allocators_ok fs" "allocate_check (operations f) (spec_next_entity (frames_spec fs)) = Inr (resulting_allocator f)"
      and fit: "frames_fit (drop n fs)" "list_all op_fits (operations f)"
      using snoc.prems(1,5) n by (simp_all add: allocators_ok_snoc frames_fit_def)
    have "mat_ok (length (concat (map operations (drop n fs))) + (length (operations f) + k)) (frames_spec (take n fs)) m"
      using snoc.prems(7) n by (simp add: algebra_simps)
    from snoc.IH [OF alloc(1) parent(2) len n fit(1) snoc.prems(6) this] obtain m1 where
      m1: "sync_frames fs m = Some (Inr (), m1)" "mat_ok (length (operations f) + k) (frames_spec fs) m1"
        "vm_version m1 = word_of_nat (length fs)" by blast
    from apply_committed_ok [OF m1(2) fit(2) alloc(2)] obtain m2 where
      m2: "apply_committed (operations f) m1 = Some (Inr (), m2)" "mat_ok k (frames_spec (fs @ [f])) m2"
        "vm_version m2 = vm_version m1"
      by (auto simp: reference.frames_spec_snoc)
    have "vm_version m1 < parent_version f + 1"
      using succ [of "length fs"] len by (simp add: m1(3) parent(1) word_less_nat_alt unat_of_nat)
    then have "sync_frames (fs @ [f]) m = Some (Inr (), m2\<lparr>vm_version := parent_version f + 1\<rparr>)"
      by (simp add: sync_frames_append m1(1) m2(1))
    moreover have "mat_ok k (frames_spec (fs @ [f])) (m2\<lparr>vm_version := parent_version f + 1\<rparr>)"
      using m2(2) by (simp add: mat_ok_version)
    ultimately show ?thesis by (simp add: parent(1) add.commute)
  qed
qed

text \<open>Operations with an entity at or above the literal cells do not compile.\<close>

lemma atom_cell_unfit: "\<not> atom_fits a \<Longrightarrow> \<exists>e. vm_atom_cell a m = (Inl e, m)"
  by (cases a) auto

lemma compile_loop_unfit: "\<not> list_all op_fits ops \<Longrightarrow> \<exists>e m'. compile_loop ops code m = (Inl e, m')"
proof (induction ops code m rule: compile_loop.induct)
  case (3 slot f ops code m)
  obtain token m1 where t: "vm_slot_token slot m = (token, m1)" by fastforce
  obtain r s where s: "vm_atom_cell (subject f) m1 = (r, s)" by fastforce
  show ?case
  proof (cases r)
    case (Inr c)
    obtain p m2 where p: "vm_predicate_cell (predicate f) s = (p, m2)" by fastforce
    obtain r2 m3 where ob: "vm_atom_cell (object f) m2 = (r2, m3)" by fastforce
    have fits: "atom_fits (subject f)"
      using atom_cell_unfit [of "subject f" m1] s Inr by auto
    show ?thesis
    proof (cases r2)
      case (Inr c2)
      have "atom_fits (object f)"
        using atom_cell_unfit [of "object f" m2] ob Inr by auto
      then have "\<not> list_all op_fits ops"
        using "3.prems" fits by simp
      then show ?thesis
        using "3.IH" [OF t [symmetric] refl] t s p ob Inr \<open>r = Inr c\<close> by simp
    qed (use t s p ob Inr in simp)
  qed (use t s in simp)
next
  case (4 slot ops code m)
  then show ?case by (auto split: prod.splits)
qed auto

lemma apply_committed_unfit: "\<not> list_all op_fits ops \<Longrightarrow> \<exists>e m'. apply_committed ops m = Some (Inl e, m')"
  using compile_loop_unfit [of ops "[]" m] by (auto simp: apply_committed_def compile_operations_def)

lemma first_unfit:
  "\<not> frames_fit fs \<Longrightarrow> \<exists>xs f ys. fs = xs @ f # ys \<and> frames_fit xs \<and> \<not> list_all op_fits (operations f)"
proof (induction fs)
  case (Cons f fs)
  show ?case
  proof (cases "list_all op_fits (operations f)")
    case True
    then have "\<not> frames_fit fs"
      using Cons.prems by (simp add: frames_fit_def)
    with Cons.IH obtain xs g ys where "fs = xs @ g # ys" "frames_fit xs" "\<not> list_all op_fits (operations g)"
      by blast
    then show ?thesis
      using True by (intro exI [of _ "f # xs"]) (auto simp: frames_fit_def)
  next
    case False
    then show ?thesis
      by (intro exI [of _ "[]"]) (simp add: frames_fit_def)
  qed
qed (simp add: frames_fit_def)

lemma allocators_ok_prefix:
  assumes "allocators_ok (xs @ ys)"
  shows "allocators_ok xs"
  unfolding allocators_ok_def
proof (intro allI impI)
  fix i assume "i < length xs"
  then show "allocate_check (operations (xs ! i)) (spec_next_entity (frames_spec (take i xs))) = Inr (resulting_allocator (xs ! i))"
    using assms [unfolded allocators_ok_def, rule_format, of i] by (simp add: nth_append)
qed

lemma sync_frames_unfit:
  assumes alloc: "allocators_ok fs" and parents: "\<forall>i < length fs. parent_version (fs ! i) = word_of_nat i"
    and len: "length fs < 2 ^ 64" and n: "n \<le> length fs" and unfit: "\<not> frames_fit (drop n fs)"
    and m: "vm_version m = word_of_nat n"
      "mat_ok (length (concat (map operations (drop n fs))) + k) (frames_spec (take n fs)) m"
  shows "\<exists>e m'. sync_frames fs m = Some (Inl e, m')"
proof -
  obtain xs f ys where split: "drop n fs = xs @ f # ys" "frames_fit xs" "\<not> list_all op_fits (operations f)"
    using first_unfit [OF unfit] by blast
  define zs where "zs = take n fs @ xs"
  have fs: "fs = zs @ f # ys"
    using split(1) by (metis zs_def append.assoc append_take_drop_id)
  have zs: "drop n zs = xs" "take n zs = take n fs" "n \<le> length zs"
    using n by (simp_all add: zs_def)
  have 1: "allocators_ok zs"
    using alloc fs by (auto intro: allocators_ok_prefix)
  have parent: "parent_version ((zs @ f # ys) ! i) = word_of_nat i" if "i \<le> length zs" for i
    using parents [unfolded fs, rule_format, of i] that by simp
  then have 2: "\<forall>i < length zs. parent_version (zs ! i) = word_of_nat i" and f: "parent_version f = word_of_nat (length zs)"
    by (metis less_imp_le nth_append, metis le_refl nth_append_length)
  have 3: "Suc (length zs) < 2 ^ 64" "length zs < 2 ^ 64"
    using len by (simp_all add: fs)
  have "mat_ok (length (concat (map operations (drop n zs))) + 0) (frames_spec (take n zs)) m"
    unfolding zs(1,2) by (rule mat_ok_less [OF m(2)]) (simp add: split(1))
  from sync_frames_ok [OF 1 2 3(2) zs(3) _ m(1) this] split(2) zs(1) obtain m1 where
    m1: "sync_frames zs m = Some (Inr (), m1)" "vm_version m1 = word_of_nat (length zs)"
    by auto
  have "unat (word_of_nat (length zs) + 1 :: u64) = Suc (length zs)"
    using 3 by (simp add: unat_word_ariths unat_of_nat)
  then have "vm_version m1 < parent_version f + 1"
    using 3 by (simp add: m1(2) f word_less_nat_alt unat_of_nat)
  then show ?thesis
    using apply_committed_unfit [OF split(3), of m1]
    by (auto simp add: fs sync_frames_append m1(1))
qed

lemma materializer_follows:
  assumes "vm_world reference_kernel fs w" and "length fs < 2 ^ 64" and "n \<le> length fs"
    and "length (concat (map operations fs)) + k \<le> 2 ^ 27"
    and "if n = 0 then m = materializer_new (w_next_entity w)
         else vm_version m = word_of_nat n \<and>
           mat_ok (length (concat (map operations (drop n fs))) + k) (frames_spec (take n fs)) m"
  shows "if frames_fit (drop n fs)
    then \<exists>m'. synchronize_to w m = Some (Inr (), m') \<and> vm_version m' = w_version w \<and> mat_ok k (frames_spec fs) m' \<and>
      (\<forall>slot. vm_resolve_fact m' slot = world_resolve reference_kernel slot w)
    else \<exists>e m'. synchronize_to w m = Some (Inl e, m')"
proof -
  have ok: "reference.view_ok fs w" by (rule reference.vm_world_view_ok [OF assms(1,2)])
  have w: "w_version w = word_of_nat (length fs)" "w_next_entity w = spec_next_entity (frames_spec fs)"
    "world_frames w = fs" "allocators_ok fs"
    using ok by (simp_all add: reference.view_ok_def world_frames_def)
  have spec: "frames_spec [] = spec_new" by (simp add: frames_spec_def frames_commands_def spec_run_def)
  let ?m = "if n = 0 then materializer_new 1 else m"
  have version: "vm_version m = word_of_nat n"
    using assms(5) by (cases "n = 0") (simp_all add: materializer_new_def)
  have start: "vm_version ?m = word_of_nat n"
    "mat_ok (length (concat (map operations (drop n fs))) + k) (frames_spec (take n fs)) ?m"
    using assms(4,5) spec mat_ok_new [of "length (concat (map operations fs)) + k"]
    by (simp_all add: materializer_new_def split: if_splits)
  have le: "unat (word_of_nat j :: u64) = j" if "j \<le> length fs" for j
    using that assms(2) by (simp add: unat_of_nat)
  have "if frames_fit (drop n fs)
    then \<exists>m'. synchronize_to w m = Some (Inr (), m') \<and> vm_version m' = w_version w \<and> mat_ok k (frames_spec fs) m'
    else \<exists>e m'. synchronize_to w m = Some (Inl e, m')"
  proof (cases "n = length fs")
    case True
    then have "?m = m" using assms(5) w(2) spec by (auto simp: spec_new_def)
    with True start version w(1) show ?thesis by (simp add: synchronize_to_def frames_fit_def split: if_splits)
  next
    case False
    with assms(3) have "n < length fs" by simp
    then have less: "vm_version m < w_version w"
      by (simp add: version w(1) word_less_nat_alt le)
    have reset: "(if vm_version m = 0 \<and> w_version w > 0 then m\<lparr>vm_workspace := with_indexes_from 1 0 32\<rparr> else m) = ?m"
    proof (cases "n = 0")
      case True
      with assms(5) less version show ?thesis by (simp add: materializer_new_def)
    next
      case False
      have "vm_version m \<noteq> 0" using False le [OF assms(3)] unfolding version by (metis unat_0)
      with False show ?thesis by simp
    qed
    have sync: "synchronize_to w m = sync_frames fs ?m"
      using less unfolding synchronize_to_def reset w(3) by auto
    note parents = reference.vm_world_parents [OF assms(1,2)]
    show ?thesis
    proof (cases "frames_fit (drop n fs)")
      case True
      show ?thesis
        using sync_frames_ok [OF w(4) parents assms(2,3) True start] w(1) True unfolding sync by auto
    next
      case False
      show ?thesis
        using sync_frames_unfit [OF w(4) parents assms(2,3) False start] False unfolding sync by simp
    qed
  qed
  then show ?thesis using mat_resolve vm_world_views [OF assms(1,2)] by (fastforce split: if_splits)
qed

lemma from_world_ok:
  assumes "vm_world reference_kernel fs w" and "length fs < 2 ^ 64" and "frames_fit fs"
    and "length (concat (map operations fs)) + k \<le> 2 ^ 27"
  shows "\<exists>m. from_world w = Some (Inr m) \<and> vm_version m = w_version w \<and> mat_ok k (frames_spec fs) m"
  using materializer_follows [OF assms(1,2), of 0 k "materializer_new (w_next_entity w)"] assms(3,4)
  by (auto simp: from_world_def)

section \<open>Properties\<close>

text \<open>
  C9. An epoch on the token machine is an epoch on the kernel: a materializer that shows the
  history of a world (\<open>mat_ok\<close>, with room for the operations of the epoch) derives without error
  or panic from any intents the frame, the outcomes with their entities and rejections, and the
  identity, version, allocator and counters of the published world that \<open>derive_epoch_world\<close>
  derives on a kernel, and afterwards it shows the history with the new frame.  The published
  world is again one of \<open>vm_world\<close>, so epochs can follow each other.  The entity identifiers
  have to stay below the literal cells.
\<close>

theorem vm_epoch_is_epoch_world:
  assumes "vm_world reference_kernel fs base" and "length fs + length is < 2 ^ 64"
    and "mat_ok ((\<Sum>i\<leftarrow>is. operation_count i) + k) (frames_spec fs) m" and "list_all intent_fits is"
    and "unat (w_next_entity base) + (\<Sum>i\<leftarrow>is. allocations i) \<le> 2 ^ 63"
  shows "\<exists>plan vplan m'. derive_epoch_world reference_kernel base is [] = Some plan \<and>
    derive_vm_epoch base is m = Some (Inr vplan, m') \<and> ep_base vplan = base \<and> ep_frames vplan = ep_frames plan \<and>
    map outcome_result (ep_outcomes vplan) = map outcome_result (ep_outcomes plan) \<and>
    same_tip (ep_tail vplan) (ep_tail plan) \<and> mat_ok k (frames_spec (fs @ ep_frames plan)) m' \<and>
    vm_world reference_kernel (fs @ ep_frames plan) (ep_tail vplan)"
proof -
  have len: "length fs < 2 ^ 64" using assms(2) by simp
  have ok: "reference.view_ok fs base" by (rule reference.vm_world_view_ok [OF assms(1) len])
  obtain db where db: "world_kernel reference_kernel base = Some db" "wf_db db" "abs_db db = frames_spec fs"
    using reference.world_kernel_ok [OF ok len] by (auto simp: reference.holds_def)
  have base: "w_version base = word_of_nat (length fs)" "w_next_entity base = spec_next_entity (frames_spec fs)"
    using ok by (simp_all add: reference.view_ok_def)
  have version: "unat (w_version base) + length is < 2 ^ 64"
    using assms(2) base(1) len by (simp add: unat_of_nat)
  have same: "same_tip base base" by (simp add: same_tip_def)
  have nxt: "w_next_entity base = spec_next_entity (abs_db db)"
    and room: "mat_ok ((\<Sum>i\<leftarrow>is. operation_count i) + k) (abs_db db) m" using base(2) assms(3) db(3) by simp_all
  from reference.vm_epoch_agrees [OF same db(1,2) nxt room version assms(4,5)]
  obtain plan vplan m' where run: "derive_epoch_world reference_kernel base is [] = Some plan"
    "derive_vm_epoch base is m = Some (Inr vplan, m')" "ep_base vplan = base" "ep_frames vplan = ep_frames plan"
    "map outcome_result (ep_outcomes vplan) = map outcome_result (ep_outcomes plan)" "same_tip (ep_tail vplan) (ep_tail plan)"
    and mat: "mat_ok k (fold spec_command (map command_of (concat (map operations (ep_frames plan)))) (frames_spec fs)) m'"
    and frames: "ep_frames plan = [] \<and> ep_tail vplan = base \<or> (\<exists>ops n a r f. ep_frames plan = [f] \<and>
      allocate_check ops (w_next_entity base) = Inr n \<and> from_vm_epoch base ops n a r = (ep_tail vplan, f))"
    unfolding db(3) by blast
  have "frames_spec (fs @ ep_frames plan) = fold spec_command (map command_of (concat (map operations (ep_frames plan)))) (frames_spec fs)"
    using frames by (auto simp: reference.frames_spec_snoc)
  moreover have "vm_world reference_kernel (fs @ ep_frames plan) (ep_tail vplan)"
    using frames assms(1) by (auto intro: vm_epoch)
  ultimately show ?thesis using run mat by auto
qed

theorem vm_epoch_is_epoch_world_witness:
  "\<exists>plan vplan m'. derive_epoch_world reference_kernel (genesis reference_kernel) [sample_intent, sample_intent] [] = Some plan \<and>
    derive_vm_epoch (genesis reference_kernel) [sample_intent, sample_intent] (materializer_new 1) = Some (Inr vplan, m') \<and>
    ep_frames vplan = ep_frames plan \<and> mat_ok 10 (frames_spec (ep_frames plan)) m'"
proof -
  have world: "vm_world reference_kernel [] (genesis reference_kernel)"
    by (rule vm_reconstruct) (simp_all add: sample_reconstruct numbered_def)
  have spec: "frames_spec [] = spec_new" by (simp add: frames_spec_def frames_commands_def spec_run_def)
  have "mat_ok ((\<Sum>i\<leftarrow>[sample_intent, sample_intent]. operation_count i) + 10) (frames_spec []) (materializer_new 1)"
    unfolding spec by (rule mat_ok_new) (simp add: sample_intent_def operation_count_def Let_def)
  moreover have "list_all intent_fits [sample_intent, sample_intent]" by (simp add: sample_intent_def intent_fits_def Let_def intent_fact_new_def)
  moreover have "unat (w_next_entity (genesis reference_kernel)) + (\<Sum>i\<leftarrow>[sample_intent, sample_intent]. allocations i) \<le> 2 ^ 63"
    by (simp add: genesis_def sample_allocations)
  ultimately show ?thesis
    using vm_epoch_is_epoch_world [OF world, of "[sample_intent, sample_intent]" 10 "materializer_new 1"] by auto
qed

text \<open>
  C19. A materializer catches up with a published world.  The world has at most \<open>2 ^ 27\<close> operations
  behind it, which the arenas of the machine hold; the materializer is new or shows the first \<open>n\<close>
  frames.  When every entity in the frames it has not seen is below the literal cells, it applies
  exactly these frames, has the version of the world and afterwards resolves every slot as the
  world does.  When one of them names an entity among the literal cells, it reports an error.
\<close>

theorem vm_materializer_follows:
  assumes "vm_world reference_kernel fs w" and "length fs < 2 ^ 64" and "n \<le> length fs"
    and "length (concat (map operations fs)) + k \<le> 2 ^ 27"
    and "if n = 0 then m = materializer_new (w_next_entity w)
         else vm_version m = word_of_nat n \<and>
           mat_ok (length (concat (map operations (drop n fs))) + k) (frames_spec (take n fs)) m"
  shows "if frames_fit (drop n fs)
    then \<exists>m'. synchronize_to w m = Some (Inr (), m') \<and> vm_version m' = w_version w \<and> mat_ok k (frames_spec fs) m' \<and>
      (\<forall>slot. vm_resolve_fact m' slot = world_resolve reference_kernel slot w)
    else \<exists>e m'. synchronize_to w m = Some (Inl e, m')"
  by (rule materializer_follows [OF assms])

theorem vm_materializer_follows_witness:
  "\<exists>m'. synchronize_to (fst sample_epoch) (materializer_new 2) = Some (Inr (), m') \<and>
    vm_resolve_fact m' ''book/title'' = Some (Some sample_fact)"
proof -
  let ?fs = "[snd sample_epoch]"
  have "vm_world reference_kernel [] (genesis reference_kernel)"
    by (rule vm_reconstruct) (simp_all add: sample_reconstruct numbered_def)
  from vm_epoch [OF this, of "[AllocateEntity 1, Define ''book/title'' sample_fact]" 2 1 1 "fst sample_epoch" "snd sample_epoch"]
  have w: "vm_world reference_kernel ?fs (fst sample_epoch)"
    by (simp add: sample_epoch_def genesis_def)
  have ops: "operations (snd sample_epoch) = [AllocateEntity 1, Define ''book/title'' sample_fact]"
    "w_next_entity (fst sample_epoch) = 2"
    by (simp_all add: sample_epoch_def from_vm_epoch_def Let_def)
  have fit: "frames_fit ?fs" by (simp add: frames_fit_def ops sample_fact_def fact_new_def VM_LITERAL_BASE_def)
  have "spec_stacks (frames_spec ?fs) ''book/title'' = [sample_fact]"
    by (simp add: frames_spec_def frames_commands_def spec_run_def spec_new_def ops)
  then have "world_resolve reference_kernel ''book/title'' (fst sample_epoch) = Some (Some sample_fact)"
    using vm_world_views [OF w] by simp
  then show ?thesis
    using vm_materializer_follows [OF w, of 0 0 "materializer_new 2"] fit by (auto simp: ops)
qed

end
