(* ===== verification/Epoch_Codec.thy ===== *)
theory Epoch_Codec
  imports Log_File
begin

text \<open>
  The second implementation of the log format (\<open>file_epoch_store.rs\<close>: \<open>EpochDecoder\<close>,
  \<open>decode_payload\<close>, \<open>inspect_file\<close> and the writers), which shares no code with \<open>file_store.rs\<close>.
  The lemmas show that the two accept the same bytes and return the same frames, so that what
  Log_File proves about the format holds for both.
\<close>

section \<open>The decoder\<close>

datatype epoch_decode_error =
    EPayloadEnd
  | EPayloadOverflow
  | EStringOverflow
  | EStringEnd
  | EInvalidUtf8
  | EUnknownAtomTag byte
  | EUnknownOperationTag byte
  | ETooManyOperations
  | ETrailingBytes nat

record epoch_decoder =
  ed_bytes :: "byte list"
  ed_offset :: nat

definition epoch_decoder_new :: "byte list \<Rightarrow> epoch_decoder" where
  "epoch_decoder_new bs = \<lparr>ed_bytes = bs, ed_offset = 0\<rparr>"

definition ed_byte :: "epoch_decoder \<Rightarrow> epoch_decode_error + (byte \<times> epoch_decoder)" where
  "ed_byte d =
     (if ed_offset d < length (ed_bytes d) then Inr (ed_bytes d ! ed_offset d, d\<lparr>ed_offset := ed_offset d + 1\<rparr>)
      else Inl EPayloadEnd)"

definition ed_u64 :: "epoch_decoder \<Rightarrow> epoch_decode_error + (u64 \<times> epoch_decoder)" where
  "ed_u64 d =
     (let end_pos = ed_offset d + 8
      in if end_pos \<ge> 2 ^ 64 then Inl EPayloadOverflow
         else if end_pos > length (ed_bytes d) then Inl EPayloadEnd
         else Inr (of_le_bytes (take 8 (drop (ed_offset d) (ed_bytes d))), d\<lparr>ed_offset := end_pos\<rparr>))"

definition ed_string :: "epoch_decoder \<Rightarrow> epoch_decode_error + (string \<times> epoch_decoder)" where
  "ed_string d =
     res_bind (ed_u64 d) (\<lambda>(len, d).
     let end_pos = ed_offset d + unat len
     in if end_pos \<ge> 2 ^ 64 then Inl EStringOverflow
        else if end_pos > length (ed_bytes d) then Inl EStringEnd
        else let bs = take (unat len) (drop (ed_offset d) (ed_bytes d)); d = d\<lparr>ed_offset := end_pos\<rparr>
        in if utf8_valid bs then Inr (of_bytes bs, d) else Inl EInvalidUtf8)"

definition ed_atom :: "epoch_decoder \<Rightarrow> epoch_decode_error + (atom \<times> epoch_decoder)" where
  "ed_atom d =
     res_bind (ed_byte d) (\<lambda>(tag, d).
     if tag = 0 then res_bind (ed_u64 d) (\<lambda>(e, d). Inr (AEntity e, d))
     else if tag = 1 then res_bind (ed_string d) (\<lambda>(s, d). Inr (ALiteral s, d))
     else Inl (EUnknownAtomTag tag))"

definition ed_finish :: "epoch_decoder \<Rightarrow> epoch_decode_error + unit" where
  "ed_finish d =
     (if ed_offset d = length (ed_bytes d) then Inr ()
      else Inl (ETrailingBytes (length (ed_bytes d) - ed_offset d)))"

definition ed_operation :: "epoch_decoder \<Rightarrow> epoch_decode_error + (operation \<times> epoch_decoder)" where
  "ed_operation d =
     res_bind (ed_byte d) (\<lambda>(tag, d).
     if tag = 0 then res_bind (ed_u64 d) (\<lambda>(e, d). Inr (AllocateEntity e, d))
     else if tag = 1 then
       res_bind (ed_string d) (\<lambda>(slot, d).
       res_bind (ed_atom d) (\<lambda>(s, d).
       res_bind (ed_string d) (\<lambda>(p, d).
       res_bind (ed_atom d) (\<lambda>(ob, d). Inr (Define slot (fact_new s p ob), d)))))
     else if tag = 2 then res_bind (ed_string d) (\<lambda>(slot, d). Inr (Forget slot, d))
     else Inl (EUnknownOperationTag tag))"

fun ed_operations :: "nat \<Rightarrow> epoch_decoder \<Rightarrow> epoch_decode_error + (operation list \<times> epoch_decoder)" where
  "ed_operations 0 d = Inr ([], d)"
| "ed_operations (Suc n) d =
     res_bind (ed_operation d) (\<lambda>(x, d). res_bind (ed_operations n d) (\<lambda>(xs, d). Inr (x # xs, d)))"

definition epoch_decode_payload :: "byte list \<Rightarrow> epoch_decode_error + commit_frame" where
  "epoch_decode_payload payload =
     res_bind (ed_u64 (epoch_decoder_new payload)) (\<lambda>(parent, d).
     res_bind (ed_u64 d) (\<lambda>(resulting, d).
     res_bind (ed_u64 d) (\<lambda>(pversion, d).
     res_bind (ed_u64 d) (\<lambda>(rversion, d).
     res_bind (ed_u64 d) (\<lambda>(allocator, d).
     res_bind (ed_u64 d) (\<lambda>(count, d).
     if count > MAX_OPERATIONS_PER_FRAME then Inl ETooManyOperations else
     res_bind (ed_operations (unat count) d) (\<lambda>(ops, d).
     res_map (\<lambda>_.
       \<lparr>parent_world = parent, resulting_world = resulting, parent_version = pversion,
        resulting_version = rversion, resulting_allocator = allocator, operations = ops\<rparr>)
       (ed_finish d))))))))"

section \<open>Writing\<close>

definition epoch_put_u64 :: "u64 \<Rightarrow> byte list" where
  "epoch_put_u64 w = le_bytes 8 w"

definition epoch_put_string :: "string \<Rightarrow> byte list" where
  "epoch_put_string s = epoch_put_u64 (word_of_nat (length s)) @ as_bytes s"

fun epoch_put_atom :: "atom \<Rightarrow> byte list" where
  "epoch_put_atom (AEntity e) = 0 # epoch_put_u64 e"
| "epoch_put_atom (ALiteral l) = 1 # epoch_put_string l"

fun epoch_put_operation :: "operation \<Rightarrow> byte list" where
  "epoch_put_operation (AllocateEntity e) = 0 # epoch_put_u64 e"
| "epoch_put_operation (Define slot f) =
     1 # epoch_put_string slot @ epoch_put_atom (subject f) @ epoch_put_string (predicate f) @ epoch_put_atom (object f)"
| "epoch_put_operation (Forget slot) = 2 # epoch_put_string slot"

definition epoch_encode_payload :: "commit_frame \<Rightarrow> byte list" where
  "epoch_encode_payload frame =
     epoch_put_u64 (parent_world frame) @ epoch_put_u64 (resulting_world frame) @
     epoch_put_u64 (parent_version frame) @ epoch_put_u64 (resulting_version frame) @
     epoch_put_u64 (resulting_allocator frame) @ epoch_put_u64 (word_of_nat (length (operations frame))) @
     concat (map epoch_put_operation (operations frame))"

definition digest_extend :: "u64 \<Rightarrow> byte list \<Rightarrow> u64" where
  "digest_extend v bs = foldl (\<lambda>v b. (v XOR ucast b) * fnv_prime) v bs"

definition digest :: "byte list \<Rightarrow> u64" where
  "digest bs = digest_extend fnv_offset_basis bs"

datatype epoch_corrupt_reason =
    EBadFrameMagic
  | EPayloadTooLong u64
  | EBadTrailer
  | EChecksumMismatch
  | EInvalidPayload epoch_decode_error
  | ENonlinearParent
  | ENonlinearVersion

text \<open>The values of \<open>FileCommitStoreError\<close> that this module makes, with its own texts.\<close>

datatype epoch_format_error =
    EInvalidHeader header_error
  | EUnsupportedFormat u32
  | ECorruptFrame nat epoch_corrupt_reason
  | ENonLinearAppend append_reason
  | EHistory candidate_error

definition epoch_encode_record :: "commit_frame \<Rightarrow> epoch_format_error + byte list" where
  "epoch_encode_record frame =
     (let payload = epoch_encode_payload frame
      in if length payload > MAX_FRAME_BYTES
         then Inl (ENonLinearAppend (FrameTooLarge (length payload)))
         else Inr (FRAME_MAGIC @ le_bytes 8 (word_of_nat (length payload) :: u64) @
                   le_bytes 8 (digest payload) @ payload @ FRAME_TRAILER))"

section \<open>Inspecting a file\<close>

text \<open>The version is not checked to be below the largest; the addition wraps.\<close>

definition epoch_validate_decoded_position ::
  "commit_frame list \<Rightarrow> commit_frame \<Rightarrow> nat \<Rightarrow> epoch_format_error + unit" where
  "epoch_validate_decoded_position frames frame offset =
     (let (parent, version) =
        (if frames = [] then (GENESIS, 0) else (resulting_world (last frames), resulting_version (last frames)))
      in if parent_world frame \<noteq> parent then Inl (ECorruptFrame offset ENonlinearParent)
         else if parent_version frame \<noteq> version \<or> resulting_version frame \<noteq> version + 1
           then Inl (ECorruptFrame offset ENonlinearVersion)
         else Inr ())"

function inspect_frames ::
  "byte list \<Rightarrow> nat \<Rightarrow> commit_frame list \<Rightarrow> nat \<Rightarrow> epoch_format_error + (commit_frame list \<times> nat)" where
  "inspect_frames bytes offset frames last_good =
     (if offset \<ge> length bytes then Inr (frames, last_good)
      else let avail = length bytes - offset
      in if avail < FRAME_PREFIX_LEN then Inr (frames, last_good)
      else if slice bytes offset 4 \<noteq> FRAME_MAGIC then Inl (ECorruptFrame offset EBadFrameMagic)
      else let payload_len = (of_le_bytes (slice bytes (offset + 4) 8) :: u64)
      in if unat payload_len > MAX_FRAME_BYTES then Inl (ECorruptFrame offset (EPayloadTooLong payload_len))
      else let total = FRAME_PREFIX_LEN + unat payload_len + FRAME_TRAILER_LEN
      in if avail < total then Inr (frames, last_good)
      else let expected = of_le_bytes (slice bytes (offset + 12) 8);
               payload = slice bytes (offset + FRAME_PREFIX_LEN) (unat payload_len)
      in if slice bytes (offset + FRAME_PREFIX_LEN + unat payload_len) FRAME_TRAILER_LEN \<noteq> FRAME_TRAILER
         then Inl (ECorruptFrame offset EBadTrailer)
      else if digest payload \<noteq> expected then Inl (ECorruptFrame offset EChecksumMismatch)
      else case epoch_decode_payload payload of
          Inl e \<Rightarrow> Inl (ECorruptFrame offset (EInvalidPayload e))
        | Inr frame \<Rightarrow>
            (case epoch_validate_decoded_position frames frame offset of
               Inl e \<Rightarrow> Inl e
             | Inr _ \<Rightarrow> inspect_frames bytes (offset + total) (frames @ [frame]) (offset + total)))"
  by pat_completeness auto
termination
  by (relation "measure (\<lambda>(bytes, offset, _). length bytes - offset)") auto

declare inspect_frames.simps [simp del]

definition inspect_file :: "byte list \<Rightarrow> epoch_format_error + (commit_frame list \<times> nat)" where
  "inspect_file bytes =
     (if length bytes < FILE_HEADER_LEN then Inl (EInvalidHeader HeaderIncomplete)
      else if slice bytes 0 8 \<noteq> FILE_MAGIC then Inl (EInvalidHeader HeaderMagic)
      else let version = of_le_bytes (slice bytes 8 4)
      in if version \<noteq> FILE_VERSION then Inl (EUnsupportedFormat version)
      else let flags = (of_le_bytes (slice bytes 12 4) :: u32)
      in if flags \<noteq> FILE_FLAGS then Inl (EInvalidHeader (HeaderFlags flags))
      else inspect_frames bytes FILE_HEADER_LEN [] FILE_HEADER_LEN)"

section \<open>The two writers\<close>

lemma epoch_put: "epoch_put_u64 = put_u64" "epoch_put_string = put_string" "epoch_put_atom = put_atom"
  "epoch_put_operation = put_operation" "epoch_encode_payload = encode_payload"
proof -
  show u: "epoch_put_u64 = put_u64" by (simp add: fun_eq_iff epoch_put_u64_def put_u64_def)
  show s: "epoch_put_string = put_string" by (simp add: fun_eq_iff epoch_put_string_def put_string_def u)
  show a: "epoch_put_atom = put_atom"
  proof
    fix x show "epoch_put_atom x = put_atom x" by (cases x) (simp_all add: u s)
  qed
  show x: "epoch_put_operation = put_operation"
  proof
    fix x show "epoch_put_operation x = put_operation x" by (cases x) (simp_all add: u s a)
  qed
  show "epoch_encode_payload = encode_payload" by (simp add: fun_eq_iff epoch_encode_payload_def encode_payload_def u x)
qed

lemma digest_checksum: "digest = checksum"
  by (simp add: fun_eq_iff digest_def digest_extend_def checksum_def)

lemma digest_extend_append: "digest_extend (digest xs) ys = digest (xs @ ys)"
  by (simp add: digest_def digest_extend_def)

lemma epoch_encode_record_Inr:
  "epoch_encode_record f = Inr bytes \<longleftrightarrow> length (encode_payload f) \<le> MAX_FRAME_BYTES \<and> bytes = frame_record f"
  by (auto simp: epoch_encode_record_def frame_record_def Let_def epoch_put digest_checksum)

section \<open>The two decoders\<close>

definition as_decoder :: "epoch_decoder \<Rightarrow> decoder" where
  "as_decoder d = \<lparr>d_bytes = ed_bytes d, d_position = ed_offset d\<rparr>"

definition ed_ok :: "epoch_decoder \<Rightarrow> bool" where
  "ed_ok d \<longleftrightarrow> ed_offset d \<le> length (ed_bytes d) \<and> length (ed_bytes d) < 2 ^ 64"

text \<open>Both fail, or both return the same value at the same place.\<close>

inductive same_read ::
  "epoch_decode_error + ('a \<times> epoch_decoder) \<Rightarrow> decode_error + ('a \<times> decoder) \<Rightarrow> bool" where
  same_fail: "same_read (Inl e) (Inl e')"
| same_value: "ed_ok d \<Longrightarrow> same_read (Inr (x, d)) (Inr (x, as_decoder d))"

lemma same_read_bind:
  assumes "same_read r r'" and "\<And>x d. ed_ok d \<Longrightarrow> same_read (f (x, d)) (f' (x, as_decoder d))"
  shows "same_read (res_bind r f) (res_bind r' f')"
  using assms by (auto elim!: same_read.cases intro: same_fail)

lemma same_read_map:
  assumes "same_read r r'"
  shows "same_read (res_bind r (\<lambda>(x, d). Inr (h x, d))) (res_map (\<lambda>(x, d). (h x, d)) r')"
  using assms by (auto elim!: same_read.cases intro: same_read.intros)

lemma same_valueI: "ed_ok d \<Longrightarrow> d' = as_decoder d \<Longrightarrow> same_read (Inr (x, d)) (Inr (x, d'))"
  by (simp add: same_value)

lemma same_u64: "ed_ok d \<Longrightarrow> same_read (ed_u64 d) (dec_u64 (as_decoder d))"
  by (auto simp: ed_u64_def dec_u64_def dec_take_def as_decoder_def ed_ok_def Let_def intro!: same_fail same_valueI)

lemma same_byte: "ed_ok d \<Longrightarrow> same_read (ed_byte d) (dec_byte (as_decoder d))"
  by (auto simp: ed_byte_def dec_byte_def dec_take_def as_decoder_def ed_ok_def Let_def hd_drop_conv_nth take_Suc
      intro!: same_fail same_valueI)

lemma same_string: "ed_ok d \<Longrightarrow> same_read (ed_string d) (dec_string (as_decoder d))"
  unfolding ed_string_def dec_string_def
  by (rule same_read_bind, erule same_u64)
    (auto simp: dec_take_def as_decoder_def ed_ok_def Let_def intro!: same_fail same_valueI)

lemma same_atom: "ed_ok d \<Longrightarrow> same_read (ed_atom d) (dec_atom (as_decoder d))"
  unfolding ed_atom_def dec_atom_def
  by (rule same_read_bind, erule same_byte)
    (auto intro!: same_fail same_read_map same_u64 same_string)

lemma same_operation: "ed_ok d \<Longrightarrow> same_read (ed_operation d) (dec_operation (as_decoder d))"
  unfolding ed_operation_def dec_operation_def
  by (rule same_read_bind, erule same_byte)
    (auto intro!: same_fail same_read_map same_u64 same_string same_read_bind [OF same_string]
      same_read_bind [OF same_atom] same_atom)

lemma same_operations: "ed_ok d \<Longrightarrow> same_read (ed_operations n d) (dec_operations n (as_decoder d))"
proof (induction n arbitrary: d)
  case (Suc n)
  then show ?case by (auto intro!: same_read_bind [OF same_operation] same_read_map)
qed (simp add: same_value)

text \<open>Both fail, or both return the same value.\<close>

definition same_result :: "'e + 'a \<Rightarrow> 'd + 'a \<Rightarrow> bool" where
  "same_result r r' \<longleftrightarrow> (\<forall>x. r = Inr x \<longleftrightarrow> r' = Inr x)"

lemma same_result_bind:
  assumes "same_read r r'" and "\<And>x d. ed_ok d \<Longrightarrow> same_result (f (x, d)) (f' (x, as_decoder d))"
  shows "same_result (res_bind r f) (res_bind r' f')"
  using assms by (auto elim!: same_read.cases simp: same_result_def)

lemma same_result_if: "same_result a b \<Longrightarrow> same_result (if c then Inl e else a) (if c then Inl e' else b)"
  by (simp add: same_result_def)

lemma same_result_cases:
  "(c \<Longrightarrow> same_result x y) \<Longrightarrow> (\<not> c \<Longrightarrow> same_result a b) \<Longrightarrow> same_result (if c then x else a) (if c then y else b)"
  by simp

lemma same_result_refl: "same_result (Inr x) (Inr x)"
  by (simp add: same_result_def)

lemma same_result_fail: "same_result (Inl e) (Inl e')"
  by (simp add: same_result_def)

lemma same_payload:
  assumes "length payload < 2 ^ 64"
  shows "same_result (epoch_decode_payload payload) (decode_payload payload)"
proof -
  have new: "ed_ok (epoch_decoder_new payload)" "decoder_new payload = as_decoder (epoch_decoder_new payload)"
    using assms by (simp_all add: ed_ok_def epoch_decoder_new_def decoder_new_def as_decoder_def)
  have fin: "same_result (res_map g (ed_finish d)) (res_map g (dec_finish (as_decoder d)))" for g :: "unit \<Rightarrow> commit_frame" and d
    by (simp add: same_result_def ed_finish_def dec_finish_def as_decoder_def)
  show ?thesis
    unfolding epoch_decode_payload_def decode_payload_def new(2)
    by (intro same_result_bind [OF same_u64] same_result_bind [OF same_operations] same_result_if new(1) fin; simp only: prod.case)+
qed

section \<open>The two files\<close>

definition numbered_tip :: "commit_frame list \<Rightarrow> bool" where
  "numbered_tip frames \<longleftrightarrow> snd (expected_tip frames) = word_of_nat (length frames)"

lemma same_position:
  assumes "numbered_tip frames" and "length frames < 2 ^ 64 - 1"
  shows "same_result (epoch_validate_decoded_position frames f offset) (validate_decoded_position frames f offset)"
    and "validate_decoded_position frames f offset = Inr () \<Longrightarrow> numbered_tip (frames @ [f])"
proof -
  obtain p v where tip: "expected_tip frames = (p, v)" by fastforce
  have "v \<noteq> - 1"
  proof
    assume "v = - 1"
    with assms tip have "unat (word_of_nat (length frames) :: u64) = unat (- 1 :: u64)" by (simp add: numbered_tip_def)
    with assms(2) show False by (simp add: unat_of_nat unsigned_minus_1_eq_mask mask_eq_exp_minus_1)
  qed
  then have add: "checked_add_u64 v 1 = Some (v + 1)" by (simp add: checked_add_one_u64)
  show "same_result (epoch_validate_decoded_position frames f offset) (validate_decoded_position frames f offset)"
    using tip add
    by (auto simp: same_result_def epoch_validate_decoded_position_def validate_decoded_position_def check_position_def
        expected_tip_def split: if_splits)
  show "numbered_tip (frames @ [f])" if "validate_decoded_position frames f offset = Inr ()"
    using that tip add assms(1)
    by (auto simp: validate_decoded_position_def check_position_def numbered_tip_def expected_tip_def split: if_splits)
qed

lemma same_frames:
  "length bytes < 2 ^ 64 \<Longrightarrow> numbered_tip frames \<Longrightarrow> length frames < offset \<Longrightarrow>
   same_result (inspect_frames bytes offset frames good) (decode_frames bytes offset frames good)"
proof (induction bytes offset frames good rule: decode_frames.induct)
  case (1 bytes offset frames good)
  show ?case
  proof (cases "length bytes \<le> offset")
    case True
    then show ?thesis by (subst inspect_frames.simps, subst decode_frames.simps) (simp add: same_result_def)
  next
    case False
    define n where "n = (of_le_bytes (slice bytes (offset + 4) 8) :: u64)"
    define payload where "payload = slice bytes (offset + FRAME_PREFIX_LEN) (unat n)"
    let ?total = "FRAME_PREFIX_LEN + unat n + FRAME_TRAILER_LEN"
    have small: "length frames < 2 ^ 64 - 1" using "1.prems"(1,3) False by simp
    have "length payload < 2 ^ 64" using "1.prems"(1) by (simp add: payload_def slice_def)
    note payload = same_payload [OF this]
    note position = same_position [OF "1.prems"(2) small]
    have rest: "same_result
        (case epoch_decode_payload payload of
          Inl e \<Rightarrow> Inl (ECorruptFrame offset (EInvalidPayload e))
        | Inr frame \<Rightarrow>
            (case epoch_validate_decoded_position frames frame offset of
               Inl e \<Rightarrow> Inl e
             | Inr _ \<Rightarrow> inspect_frames bytes (offset + ?total) (frames @ [frame]) (offset + ?total)))
        (case decode_payload payload of
          Inl e \<Rightarrow> Inl (CorruptFrame offset (InvalidPayload e))
        | Inr frame \<Rightarrow>
            (case validate_decoded_position frames frame offset of
               Inl e \<Rightarrow> Inl e
             | Inr _ \<Rightarrow> decode_frames bytes (offset + ?total) (frames @ [frame]) (offset + ?total)))"
      if "\<not> length bytes - offset < FRAME_PREFIX_LEN" "\<not> slice bytes offset 4 \<noteq> FRAME_MAGIC"
        "\<not> unat n > MAX_FRAME_BYTES" "\<not> length bytes - offset < ?total"
        "\<not> slice bytes (offset + FRAME_PREFIX_LEN + unat n) FRAME_TRAILER_LEN \<noteq> FRAME_TRAILER"
        "\<not> checksum payload \<noteq> of_le_bytes (slice bytes (offset + 12) 8)"
    proof (cases "decode_payload payload")
      case (Inl e)
      with payload show ?thesis by (cases "epoch_decode_payload payload") (auto simp: same_result_def)
    next
      case (Inr frame)
      then have e: "epoch_decode_payload payload = Inr frame" using payload by (simp add: same_result_def)
      show ?thesis
      proof (cases "validate_decoded_position frames frame offset")
        case (Inl err)
        with position(1) [of frame offset] e Inr show ?thesis
          by (cases "epoch_validate_decoded_position frames frame offset") (auto simp: same_result_def)
      next
        case pos: (Inr u)
        then have "epoch_validate_decoded_position frames frame offset = Inr ()"
          using position(1) [of frame offset] by (simp add: same_result_def)
        moreover have "same_result (inspect_frames bytes (offset + ?total) (frames @ [frame]) (offset + ?total))
            (decode_frames bytes (offset + ?total) (frames @ [frame]) (offset + ?total))"
          using "1.IH" [OF _ refl _ _ refl _ refl _ refl refl, of frame] False that Inr pos position(2) [of frame offset] "1.prems"
          unfolding n_def payload_def by simp
        ultimately show ?thesis using e Inr pos by simp
      qed
    qed
    show ?thesis
      unfolding inspect_frames.simps [of bytes offset] decode_frames.simps [of bytes offset] Let_def digest_checksum
        n_def [symmetric] payload_def [symmetric]
      by (intro same_result_cases same_result_fail same_result_refl rest; assumption)
  qed
qed

lemma same_file:
  assumes "length bytes < 2 ^ 64"
  shows "same_result (inspect_file bytes) (decode_file bytes)"
proof -
  have "same_result (inspect_frames bytes FILE_HEADER_LEN [] FILE_HEADER_LEN) (decode_frames bytes FILE_HEADER_LEN [] FILE_HEADER_LEN)"
    using assms by (intro same_frames) (simp_all add: numbered_tip_def expected_tip_def)
  then show ?thesis
    unfolding inspect_file_def decode_file_def Let_def
    by (intro same_result_cases same_result_fail; assumption)
qed

lemma inspect_file_Inr:
  "length bytes < 2 ^ 64 \<Longrightarrow> inspect_file bytes = Inr r \<longleftrightarrow> decode_file bytes = Inr r"
  using same_file [of bytes] unfolding same_result_def by blast

section \<open>Properties\<close>

text \<open>
  C20. The two implementations of the log format agree: they write the same record for every
  frame and refuse to write the same frames, and on every file they accept the same bytes and
  return the same frames and the same end of the last complete record.
\<close>

theorem epoch_format_agrees:
  "(\<forall>bytes. epoch_encode_record f = Inr bytes \<longleftrightarrow> encode_record f = Inr bytes) \<and>
   (length file < 2 ^ 64 \<longrightarrow> (\<forall>frames good. inspect_file file = Inr (frames, good) \<longleftrightarrow> decode_file file = Inr (frames, good)))"
  by (auto simp: inspect_file_Inr epoch_encode_record_def encode_record_def Let_def epoch_put digest_checksum)

theorem epoch_format_agrees_witness:
  "inspect_file (file_header @ records [sample_frame]) = Inr ([sample_frame], length (file_header @ records [sample_frame])) \<and>
   epoch_encode_record sample_frame = Inr (frame_record sample_frame)"
proof -
  have "length (file_header @ records [sample_frame]) < 2 ^ 64"
    using sample_frame_facts(4) by (simp add: length_frame_record encodable_def MAX_FRAME_BYTES_def)
  moreover have "decode_file (file_header @ records [sample_frame]) =
      Inr ([sample_frame], length (file_header @ records [sample_frame]))"
    by (rule decode_file_roundtrip) (simp_all add: sample_frame_facts)
  ultimately show ?thesis
    using epoch_format_agrees [of sample_frame "file_header @ records [sample_frame]"]
      encode_record_encodable [OF sample_frame_facts(4)] by blast
qed

end
