(* ===== verification/Epoch_Store.thy ===== *)
theory Epoch_Store
  imports Epoch_Codec File_Store
begin

text \<open>
  The store that appends whole epochs (\<open>FileEpochStore\<close> in \<open>file_epoch_store.rs\<close>): one or many
  syncs per epoch, repair of a failed epoch by truncation and verification, and poisoning when the
  repair cannot be verified.  The trait \<open>EpochFileIo\<close> is the record \<open>epoch_io\<close>, an argument of the
  store; the locale \<open>epoch_file\<close> states what the store relies on.  It is interpreted on
  \<open>StdEpochFileIo\<close>, with the answers of the operating system as a list in its state.
\<close>

section \<open>Phases, errors and metrics\<close>

datatype io_phase =
    EpochStart | EpochWrite | EpochSync | RepairTruncate | RepairSync | VerifyLength | VerifyRead

datatype epoch_state = Healthy | Repairing | Poisoned

datatype sync_policy = PerFrame | PerEpoch

record persist_metrics =
  pm_data_writes :: nat
  pm_data_syncs :: nat
  pm_bytes_written :: nat
  pm_submission_calls :: nat
  pm_completion_events :: nat
  pm_maximum_in_flight_writes :: nat
  pm_iovecs_submitted :: nat
  pm_arena_bytes_copied :: nat

record epoch_metrics =
  em_epoch_attempts :: nat
  em_epochs_committed :: nat
  em_frames_committed :: nat
  em_data_writes :: nat
  em_data_syncs :: nat
  em_repair_syncs :: nat
  em_repairs_succeeded :: nat
  em_repairs_failed :: nat
  em_bytes_written :: nat
  em_submission_calls :: nat
  em_completion_events :: nat
  em_maximum_in_flight_writes :: nat
  em_iovecs_submitted :: nat
  em_arena_bytes_copied :: nat

definition epoch_metrics_new :: epoch_metrics where
  "epoch_metrics_new =
     \<lparr>em_epoch_attempts = 0, em_epochs_committed = 0, em_frames_committed = 0, em_data_writes = 0,
      em_data_syncs = 0, em_repair_syncs = 0, em_repairs_succeeded = 0, em_repairs_failed = 0,
      em_bytes_written = 0, em_submission_calls = 0, em_completion_events = 0,
      em_maximum_in_flight_writes = 0, em_iovecs_submitted = 0, em_arena_bytes_copied = 0\<rparr>"

definition record_persist :: "persist_metrics \<Rightarrow> epoch_metrics \<Rightarrow> epoch_metrics" where
  "record_persist p m =
     m\<lparr>em_data_writes := em_data_writes m + pm_data_writes p,
       em_data_syncs := em_data_syncs m + pm_data_syncs p,
       em_bytes_written := em_bytes_written m + pm_bytes_written p,
       em_submission_calls := em_submission_calls m + pm_submission_calls p,
       em_completion_events := em_completion_events m + pm_completion_events p,
       em_maximum_in_flight_writes := max (em_maximum_in_flight_writes m) (pm_maximum_in_flight_writes p),
       em_iovecs_submitted := em_iovecs_submitted m + pm_iovecs_submitted p,
       em_arena_bytes_copied := em_arena_bytes_copied m + pm_arena_bytes_copied p\<rparr>"

datatype epoch_io_error = OsError io_error | WriteZero

datatype repair_error =
    RepairOs io_error
  | RepairedLength nat nat
  | RepairedDigest
  | RepairedFormat epoch_format_error
  | RepairedIncomplete
  | RepairedFrames nat nat
  | RepairedTail world_id u64 world_id u64
  | RepairedHistory candidate_error

datatype poison = RepairPoison io_phase epoch_io_error io_phase repair_error | ExternalPoison string

datatype stop_reason = StillRepairing | PoisonReason poison | NotVerified

datatype verification_error = UnverifiedTail nat | IncompleteTail

datatype epoch_store_error =
    EpochFormat epoch_format_error
  | EpochIo io_phase io_error
  | EpochRepaired io_phase epoch_io_error
  | RepairFailed io_phase epoch_io_error io_phase repair_error
  | EpochVerification verification_error
  | StorePoisoned stop_reason
  | ColdOpen file_store_error

section \<open>The file below the store\<close>

record 's epoch_io =
  eio_persist_epoch :: "nat \<Rightarrow> byte list list \<Rightarrow> 's \<Rightarrow> (persist_metrics \<times> (io_phase \<times> epoch_io_error + unit)) option \<times> 's"
  eio_len :: "io_phase \<Rightarrow> 's \<Rightarrow> (io_error + nat) \<times> 's"
  eio_write_at :: "io_phase \<Rightarrow> nat \<Rightarrow> byte list \<Rightarrow> 's \<Rightarrow> (io_error + nat) \<times> 's"
  eio_sync_data :: "io_phase \<Rightarrow> 's \<Rightarrow> (io_error + unit) \<times> 's"
  eio_set_len :: "io_phase \<Rightarrow> nat \<Rightarrow> 's \<Rightarrow> (io_error + unit) \<times> 's"
  eio_read_all :: "io_phase \<Rightarrow> 's \<Rightarrow> (io_error + byte list) \<times> 's"

text \<open>
  An ordinary file and the answers to the system calls to come; with none left every call works.
  A call that fails with \<open>Fails n e\<close> reports \<open>e\<close>; of a write, \<open>n\<close> bytes reach the file anyway.
\<close>

datatype io_answer = Works | Short nat | Fails nat io_error

record std_file =
  sf_bytes :: "byte list"
  sf_answers :: "io_answer list"

definition next_answer :: "std_file \<Rightarrow> io_answer \<times> std_file" where
  "next_answer s = (case sf_answers s of [] \<Rightarrow> (Works, s) | a # as \<Rightarrow> (a, s\<lparr>sf_answers := as\<rparr>))"

definition overwrite :: "nat \<Rightarrow> byte list \<Rightarrow> byte list \<Rightarrow> byte list" where
  "overwrite off bs file =
     take off (file @ replicate (off - length file) 0) @ bs @ drop (off + length bs) file"

definition std_len :: "io_phase \<Rightarrow> std_file \<Rightarrow> (io_error + nat) \<times> std_file" where
  "std_len ph s =
     (case next_answer s of (Fails n e, s) \<Rightarrow> (Inl e, s) | (_, s) \<Rightarrow> (Inr (length (sf_bytes s)), s))"

text \<open>The seek and the write have one answer: the code returns either error in the same way.\<close>

definition std_write_at :: "io_phase \<Rightarrow> nat \<Rightarrow> byte list \<Rightarrow> std_file \<Rightarrow> (io_error + nat) \<times> std_file" where
  "std_write_at ph off bs s =
     (case next_answer s of
        (Works, s) \<Rightarrow> (Inr (length bs), s\<lparr>sf_bytes := overwrite off bs (sf_bytes s)\<rparr>)
      | (Short n, s) \<Rightarrow> (Inr (min n (length bs)), s\<lparr>sf_bytes := overwrite off (take n bs) (sf_bytes s)\<rparr>)
      | (Fails n e, s) \<Rightarrow> (Inl e, s\<lparr>sf_bytes := overwrite off (take n bs) (sf_bytes s)\<rparr>))"

definition std_sync_data :: "io_phase \<Rightarrow> std_file \<Rightarrow> (io_error + unit) \<times> std_file" where
  "std_sync_data ph s = (case next_answer s of (Fails n e, s) \<Rightarrow> (Inl e, s) | (_, s) \<Rightarrow> (Inr (), s))"

definition std_set_len :: "io_phase \<Rightarrow> nat \<Rightarrow> std_file \<Rightarrow> (io_error + unit) \<times> std_file" where
  "std_set_len ph n s =
     (case next_answer s of
        (Fails _ e, s) \<Rightarrow> (Inl e, s)
      | (_, s) \<Rightarrow> (Inr (), s\<lparr>sf_bytes := take n (sf_bytes s) @ replicate (n - length (sf_bytes s)) 0\<rparr>))"

definition std_read_all :: "io_phase \<Rightarrow> std_file \<Rightarrow> (io_error + byte list) \<times> std_file" where
  "std_read_all ph s =
     (case next_answer s of (Fails n e, s) \<Rightarrow> (Inl e, s) | (_, s) \<Rightarrow> (Inr (sf_bytes s), s))"

definition std_io :: "std_file epoch_io" where
  "std_io =
     \<lparr>eio_persist_epoch = (\<lambda>start records s. (None, s)), eio_len = std_len, eio_write_at = std_write_at,
      eio_sync_data = std_sync_data, eio_set_len = std_set_len, eio_read_all = std_read_all\<rparr>"

section \<open>The store\<close>

record epoch_checkpoint =
  cp_start_offset :: nat
  cp_frame_count :: nat
  cp_world_id :: world_id
  cp_world_version :: u64
  cp_prefix_digest :: u64

record prepared_epoch =
  pe_checkpoint :: epoch_checkpoint
  pe_frames :: "commit_frame list"
  pe_records :: "byte list list"

record 's file_epoch_store =
  es_io :: 's
  es_frames :: "commit_frame list"
  es_policy :: sync_policy
  es_state :: epoch_state
  es_poison :: "poison option"
  es_prefix_digest :: u64
  es_recovered_tail_bytes :: nat
  es_metrics :: epoch_metrics

definition ensure_healthy :: "'s file_epoch_store \<Rightarrow> epoch_store_error + unit" where
  "ensure_healthy st =
     (case es_state st of
        Healthy \<Rightarrow> Inr ()
      | Repairing \<Rightarrow> Inl (StorePoisoned StillRepairing)
      | Poisoned \<Rightarrow> Inl (StorePoisoned (case es_poison st of Some p \<Rightarrow> PoisonReason p | None \<Rightarrow> NotVerified)))"

definition poison_external :: "string \<Rightarrow> 's file_epoch_store \<Rightarrow> 's file_epoch_store" where
  "poison_external reason st = st\<lparr>es_state := Poisoned, es_poison := Some (ExternalPoison reason)\<rparr>"

definition epoch_checkpoint_of :: "nat \<Rightarrow> 's file_epoch_store \<Rightarrow> epoch_checkpoint" where
  "epoch_checkpoint_of start st =
     (let (w, v) = (if es_frames st = [] then (GENESIS, 0)
                    else (resulting_world (last (es_frames st)), resulting_version (last (es_frames st))))
      in \<lparr>cp_start_offset = start, cp_frame_count = length (es_frames st), cp_world_id = w,
          cp_world_version = v, cp_prefix_digest = es_prefix_digest st\<rparr>)"

fun validate_frames :: "world_id \<times> u64 \<Rightarrow> commit_frame list \<Rightarrow> epoch_store_error + unit" where
  "validate_frames tip [] = Inr ()"
| "validate_frames tip (f # fs) =
     (let (parent, version) = tip; nonlinear = (\<lambda>e. Inl (EpochFormat (ENonLinearAppend (Nonlinear e))))
      in if parent_world f \<noteq> parent then nonlinear (WrongParent parent (parent_world f))
         else if parent_version f \<noteq> version then nonlinear (WrongParentVersion version (parent_version f))
         else case checked_add_u64 version 1 of
             None \<Rightarrow> nonlinear VersionOverflow
           | Some resulting \<Rightarrow>
               if resulting_version f \<noteq> resulting
               then nonlinear (WrongResultingVersion resulting (resulting_version f))
               else validate_frames (resulting_world f, resulting_version f) fs)"

definition validate_epoch :: "commit_frame list \<Rightarrow> 's file_epoch_store \<Rightarrow> epoch_store_error + unit" where
  "validate_epoch fs st =
     validate_frames
       (if es_frames st = [] then (GENESIS, 0)
        else (resulting_world (last (es_frames st)), resulting_version (last (es_frames st)))) fs"

fun encode_records :: "commit_frame list \<Rightarrow> epoch_store_error + byte list list" where
  "encode_records [] = Inr []"
| "encode_records (f # fs) =
     res_bind (res_map_err EpochFormat (epoch_encode_record f)) (\<lambda>r.
     res_map (\<lambda>rs. r # rs) (encode_records fs))"

definition prepare_epoch ::
  "'s epoch_io \<Rightarrow> commit_frame list \<Rightarrow> 's file_epoch_store \<Rightarrow> (epoch_store_error + prepared_epoch) \<times> 's file_epoch_store" where
  "prepare_epoch IO fs st =
     (case ensure_healthy st of
        Inl e \<Rightarrow> (Inl e, st)
      | Inr _ \<Rightarrow>
     if fs = [] then (Inr \<lparr>pe_checkpoint = epoch_checkpoint_of 0 st, pe_frames = [], pe_records = []\<rparr>, st)
     else case res_bind (validate_epoch fs st) (\<lambda>_. encode_records fs) of
        Inl e \<Rightarrow> (Inl e, st)
      | Inr recs \<Rightarrow>
          (case eio_len IO EpochStart (es_io st) of
             (Inl e, io) \<Rightarrow> (Inl (EpochIo EpochStart e), st\<lparr>es_io := io\<rparr>)
           | (Inr start, io) \<Rightarrow>
               (let st = st\<lparr>es_io := io, es_metrics := (es_metrics st)\<lparr>em_epoch_attempts := em_epoch_attempts (es_metrics st) + 1\<rparr>\<rparr>
                in (Inr \<lparr>pe_checkpoint = epoch_checkpoint_of start st, pe_frames = fs, pe_records = recs\<rparr>, st))))"

definition note_write :: "'s file_epoch_store \<Rightarrow> 's file_epoch_store" where
  "note_write st = st\<lparr>es_metrics := (es_metrics st)\<lparr>em_data_writes := em_data_writes (es_metrics st) + 1\<rparr>\<rparr>"

definition note_written :: "nat \<Rightarrow> 's file_epoch_store \<Rightarrow> 's file_epoch_store" where
  "note_written n st = st\<lparr>es_metrics := (es_metrics st)\<lparr>em_bytes_written := em_bytes_written (es_metrics st) + n\<rparr>\<rparr>"

text \<open>The loop; a file that claims to have written more than it was given is a panic.\<close>

type_synonym 's phase_result = "((io_phase \<times> epoch_io_error + unit) \<times> 's file_epoch_store) option"

function write_all_at :: "'s epoch_io \<Rightarrow> nat \<Rightarrow> byte list \<Rightarrow> 's file_epoch_store \<Rightarrow> 's phase_result" where
  "write_all_at IO offset bytes st =
     (if bytes = [] then Some (Inr (), st)
      else let st = note_write st
      in case eio_write_at IO EpochWrite offset bytes (es_io st) of
           (Inl e, io) \<Rightarrow> Some (Inl (EpochWrite, OsError e), st\<lparr>es_io := io\<rparr>)
         | (Inr written, io) \<Rightarrow>
             if written = 0 then Some (Inl (EpochWrite, WriteZero), st\<lparr>es_io := io\<rparr>)
             else if written > length bytes then None
             else write_all_at IO (offset + written) (drop written bytes) (note_written written (st\<lparr>es_io := io\<rparr>)))"
  by pat_completeness auto
termination
  by (relation "measure (\<lambda>(IO, offset, bytes, st). length bytes)") auto

declare write_all_at.simps [simp del]

definition sync_epoch :: "'s epoch_io \<Rightarrow> 's file_epoch_store \<Rightarrow> 's phase_result" where
  "sync_epoch IO st =
     (let st = st\<lparr>es_metrics := (es_metrics st)\<lparr>em_data_syncs := em_data_syncs (es_metrics st) + 1\<rparr>\<rparr>
      in case eio_sync_data IO EpochSync (es_io st) of
           (Inl e, io) \<Rightarrow> Some (Inl (EpochSync, OsError e), st\<lparr>es_io := io\<rparr>)
         | (Inr _, io) \<Rightarrow> Some (Inr (), st\<lparr>es_io := io\<rparr>))"

definition write_one_epoch :: "'s epoch_io \<Rightarrow> nat \<Rightarrow> byte list list \<Rightarrow> 's file_epoch_store \<Rightarrow> 's phase_result" where
  "write_one_epoch IO start recs st =
     (case write_all_at IO start (concat recs) st of
        Some (Inr _, st) \<Rightarrow> sync_epoch IO st
      | r \<Rightarrow> r)"

fun write_per_frame :: "'s epoch_io \<Rightarrow> nat \<Rightarrow> byte list list \<Rightarrow> 's file_epoch_store \<Rightarrow> 's phase_result" where
  "write_per_frame IO offset [] st = Some (Inr (), st)"
| "write_per_frame IO offset (r # rs) st =
     (case write_all_at IO offset r st of
        Some (Inr _, st) \<Rightarrow>
          (case sync_epoch IO st of
             Some (Inr _, st) \<Rightarrow> write_per_frame IO (offset + length r) rs st
           | e \<Rightarrow> e)
      | e \<Rightarrow> e)"

section \<open>Repair\<close>

text \<open>The checks on the bytes read back; the outer option is a panic of \<open>reconstruct\<close>.\<close>

definition verify_repaired :: "'k kernel_ops \<Rightarrow> epoch_checkpoint \<Rightarrow> byte list \<Rightarrow> (repair_error + unit) option" where
  "verify_repaired K cp bytes =
     (if digest bytes \<noteq> cp_prefix_digest cp then Some (Inl RepairedDigest)
      else case inspect_file bytes of
          Inl e \<Rightarrow> Some (Inl (RepairedFormat e))
        | Inr (frames, good) \<Rightarrow>
            if good \<noteq> length bytes then Some (Inl RepairedIncomplete)
            else if length frames \<noteq> cp_frame_count cp
              then Some (Inl (RepairedFrames (cp_frame_count cp) (length frames)))
            else let (w, v) = (if frames = [] then (GENESIS, 0)
                               else (resulting_world (last frames), resulting_version (last frames)))
            in if w \<noteq> cp_world_id cp \<or> v \<noteq> cp_world_version cp
               then Some (Inl (RepairedTail (cp_world_id cp) (cp_world_version cp) w v))
            else map_option (\<lambda>r. case r of Inl e \<Rightarrow> Inl (RepairedHistory e) | Inr _ \<Rightarrow> Inr ()) (reconstruct K frames))"

definition repair ::
  "'k kernel_ops \<Rightarrow> 's epoch_io \<Rightarrow> epoch_checkpoint \<Rightarrow> 's file_epoch_store \<Rightarrow>
   ((io_phase \<times> repair_error + unit) \<times> 's file_epoch_store) option" where
  "repair K IO cp st =
     (case eio_set_len IO RepairTruncate (cp_start_offset cp) (es_io st) of
        (Inl e, io) \<Rightarrow> Some (Inl (RepairTruncate, RepairOs e), st\<lparr>es_io := io\<rparr>)
      | (Inr _, io) \<Rightarrow>
     let st = st\<lparr>es_io := io, es_metrics := (es_metrics st)\<lparr>em_repair_syncs := em_repair_syncs (es_metrics st) + 1\<rparr>\<rparr>
     in (case eio_sync_data IO RepairSync (es_io st) of
        (Inl e, io) \<Rightarrow> Some (Inl (RepairSync, RepairOs e), st\<lparr>es_io := io\<rparr>)
      | (Inr _, io) \<Rightarrow>
     (case eio_len IO VerifyLength io of
        (Inl e, io) \<Rightarrow> Some (Inl (VerifyLength, RepairOs e), st\<lparr>es_io := io\<rparr>)
      | (Inr actual, io) \<Rightarrow>
     if actual \<noteq> cp_start_offset cp
     then Some (Inl (VerifyLength, RepairedLength (cp_start_offset cp) actual), st\<lparr>es_io := io\<rparr>)
     else (case eio_read_all IO VerifyRead io of
        (Inl e, io) \<Rightarrow> Some (Inl (VerifyRead, RepairOs e), st\<lparr>es_io := io\<rparr>)
      | (Inr bytes, io) \<Rightarrow>
          map_option (\<lambda>r. (res_map_err (Pair VerifyRead) r, st\<lparr>es_io := io\<rparr>)) (verify_repaired K cp bytes)))))"

definition handle_primary_failure ::
  "'k kernel_ops \<Rightarrow> 's epoch_io \<Rightarrow> epoch_checkpoint \<Rightarrow> io_phase \<Rightarrow> epoch_io_error \<Rightarrow> 's file_epoch_store \<Rightarrow>
   (epoch_store_error \<times> 's file_epoch_store) option" where
  "handle_primary_failure K IO cp phase primary st =
     (let st = st\<lparr>es_state := Repairing\<rparr>
      in map_option (\<lambda>(r, st).
        case r of
          Inr _ \<Rightarrow>
            (EpochRepaired phase primary,
             st\<lparr>es_state := Healthy,
                es_metrics := (es_metrics st)\<lparr>em_repairs_succeeded := em_repairs_succeeded (es_metrics st) + 1\<rparr>\<rparr>)
        | Inl (repair_phase, e) \<Rightarrow>
            (RepairFailed phase primary repair_phase e,
             st\<lparr>es_state := Poisoned, es_poison := Some (RepairPoison phase primary repair_phase e),
                es_metrics := (es_metrics st)\<lparr>em_repairs_failed := em_repairs_failed (es_metrics st) + 1\<rparr>\<rparr>))
        (repair K IO cp st))"

definition finish_prepared_epoch ::
  "'k kernel_ops \<Rightarrow> 's epoch_io \<Rightarrow> prepared_epoch \<Rightarrow> io_phase \<times> epoch_io_error + unit \<Rightarrow> 's file_epoch_store \<Rightarrow>
   ((epoch_store_error + unit) \<times> 's file_epoch_store) option" where
  "finish_prepared_epoch K IO p result st =
     (if pe_frames p = [] then Some (Inr (), st)
      else case result of
          Inl (phase, e) \<Rightarrow>
            map_option (\<lambda>(err, st). (Inl err, st)) (handle_primary_failure K IO (pe_checkpoint p) phase e st)
        | Inr _ \<Rightarrow>
            Some (Inr (),
              st\<lparr>es_prefix_digest := foldl digest_extend (es_prefix_digest st) (pe_records p),
                 es_frames := es_frames st @ pe_frames p, es_recovered_tail_bytes := 0,
                 es_metrics := (es_metrics st)\<lparr>em_epochs_committed := em_epochs_committed (es_metrics st) + 1,
                   em_frames_committed := em_frames_committed (es_metrics st) + length (pe_records p)\<rparr>\<rparr>))"

definition append_epoch ::
  "'k kernel_ops \<Rightarrow> 's epoch_io \<Rightarrow> commit_frame list \<Rightarrow> 's file_epoch_store \<Rightarrow>
   ((epoch_store_error + unit) \<times> 's file_epoch_store) option" where
  "append_epoch K IO fs st =
     (case prepare_epoch IO fs st of
        (Inl e, st) \<Rightarrow> Some (Inl e, st)
      | (Inr p, st) \<Rightarrow>
          if pe_frames p = [] then Some (Inr (), st)
          else let start = cp_start_offset (pe_checkpoint p)
          in case eio_persist_epoch IO start (pe_records p) (es_io st) of
               (Some (persisted, result), io) \<Rightarrow>
                 finish_prepared_epoch K IO p result
                   (st\<lparr>es_io := io, es_metrics := record_persist persisted (es_metrics st)\<rparr>)
             | (None, io) \<Rightarrow>
                 (case (case es_policy st of
                          PerFrame \<Rightarrow> write_per_frame IO start (pe_records p) (st\<lparr>es_io := io\<rparr>)
                        | PerEpoch \<Rightarrow> write_one_epoch IO start (pe_records p) (st\<lparr>es_io := io\<rparr>)) of
                    None \<Rightarrow> None
                  | Some (result, st) \<Rightarrow> finish_prepared_epoch K IO p result st))"

definition epoch_file_len :: "'s epoch_io \<Rightarrow> 's file_epoch_store \<Rightarrow> (epoch_store_error + nat) \<times> 's file_epoch_store" where
  "epoch_file_len IO st =
     (case ensure_healthy st of
        Inl e \<Rightarrow> (Inl e, st)
      | Inr _ \<Rightarrow> (case eio_len IO VerifyLength (es_io st) of (r, io) \<Rightarrow> (res_map_err (EpochIo VerifyLength) r, st\<lparr>es_io := io\<rparr>)))"

definition physical_frames ::
  "'s epoch_io \<Rightarrow> 's file_epoch_store \<Rightarrow> (epoch_store_error + commit_frame list) \<times> 's file_epoch_store" where
  "physical_frames IO st =
     (case ensure_healthy st of
        Inl e \<Rightarrow> (Inl e, st)
      | Inr _ \<Rightarrow>
          (case eio_read_all IO VerifyRead (es_io st) of
             (Inl e, io) \<Rightarrow> (Inl (EpochIo VerifyRead e), st\<lparr>es_io := io\<rparr>)
           | (Inr bytes, io) \<Rightarrow>
               (res_bind (res_map_err EpochFormat (inspect_file bytes)) (\<lambda>(frames, good).
                  if good \<noteq> length bytes then Inl (EpochVerification IncompleteTail) else Inr frames),
                st\<lparr>es_io := io\<rparr>)))"

section \<open>Opening\<close>

definition from_io ::
  "'k kernel_ops \<Rightarrow> 's epoch_io \<Rightarrow> sync_policy \<Rightarrow> 's \<Rightarrow> (epoch_store_error + 's file_epoch_store) option" where
  "from_io K IO policy io =
     (case eio_read_all IO VerifyRead io of
        (Inl e, io) \<Rightarrow> Some (Inl (EpochIo VerifyRead e))
      | (Inr bytes, io) \<Rightarrow>
          (case inspect_file bytes of
             Inl e \<Rightarrow> Some (Inl (EpochFormat e))
           | Inr (frames, good) \<Rightarrow>
               if good \<noteq> length bytes then Some (Inl (EpochVerification (UnverifiedTail (length bytes - good))))
               else map_option (\<lambda>r. case r of
                   Inl e \<Rightarrow> Inl (EpochFormat (EHistory e))
                 | Inr _ \<Rightarrow> Inr \<lparr>es_io = io, es_frames = frames, es_policy = policy, es_state = Healthy,
                     es_poison = None, es_prefix_digest = digest bytes, es_recovered_tail_bytes = 0,
                     es_metrics = epoch_metrics_new\<rparr>) (reconstruct K frames)))"

text \<open>\<open>cold\<close> are the answers to the calls of the first open, \<open>reopened\<close> the answer to opening the
  file a second time, \<open>answers\<close> those that follow.\<close>

definition epoch_open ::
  "'k kernel_ops \<Rightarrow> open_io \<Rightarrow> io_error option \<Rightarrow> io_answer list \<Rightarrow> sync_policy \<Rightarrow> byte list \<Rightarrow>
   (epoch_store_error + std_file file_epoch_store) option" where
  "epoch_open K cold reopened answers policy bytes =
     (case file_open K cold bytes of
        None \<Rightarrow> None
      | Some (Inl e, bytes) \<Rightarrow> Some (Inl (ColdOpen e))
      | Some (Inr cold, bytes) \<Rightarrow>
          (case reopened of
             Some e \<Rightarrow> Some (Inl (EpochIo VerifyRead e))
           | None \<Rightarrow>
               map_option (res_map (\<lambda>st. st\<lparr>es_recovered_tail_bytes := fs_recovered_tail_bytes cold\<rparr>))
                 (from_io K std_io policy \<lparr>sf_bytes = bytes, sf_answers = answers\<rparr>)))"

section \<open>Checked epochs\<close>

lemma expected_tip_snoc [simp]: "expected_tip (fs @ [f]) = (resulting_world f, resulting_version f)"
  by (simp add: expected_tip_def)

lemma validate_frames_linear: "validate_frames (expected_tip before) fs = Inr u \<Longrightarrow> linear_from before fs"
proof (induction fs arbitrary: before)
  case (Cons f fs)
  then have "check_position before f = Inr () \<and> validate_frames (expected_tip (before @ [f])) fs = Inr u"
    by (auto simp: check_position_def Let_def split: prod.splits if_splits option.splits)
  with Cons.IH show ?case by simp
qed simp

lemma encode_records_Inr:
  "encode_records fs = Inr recs \<Longrightarrow>
   recs = map frame_record fs \<and> (\<forall>f \<in> set fs. length (encode_payload f) \<le> MAX_FRAME_BYTES)"
  by (induction fs arbitrary: recs) (auto simp: res_bind_Inr res_map_Inr epoch_encode_record_Inr)

lemma digest_extend_records: "foldl digest_extend (digest bs) (map frame_record fs) = digest (bs @ records fs)"
proof (induction fs arbitrary: bs)
  case (Cons f fs)
  then show ?case by (simp add: digest_extend_append)
qed simp

lemma epoch_checkpoint_start [simp]: "cp_start_offset (epoch_checkpoint_of n st) = n"
  by (simp add: epoch_checkpoint_of_def Let_def split: prod.splits)

text \<open>Two states of a store that differ in the file and the metrics only.\<close>

definition io_moved :: "'s file_epoch_store \<Rightarrow> 's file_epoch_store \<Rightarrow> bool" where
  "io_moved st st' \<longleftrightarrow>
     es_frames st' = es_frames st \<and> es_policy st' = es_policy st \<and> es_state st' = es_state st \<and>
     es_poison st' = es_poison st \<and> es_prefix_digest st' = es_prefix_digest st \<and>
     es_recovered_tail_bytes st' = es_recovered_tail_bytes st"

text \<open>The file holds exactly the frames that the store answers with, and the digest is that of its bytes.\<close>

definition epoch_store_ok :: "'k kernel_ops \<Rightarrow> ('s \<Rightarrow> byte list) \<Rightarrow> 's file_epoch_store \<Rightarrow> bool" where
  "epoch_store_ok K content st \<longleftrightarrow>
     content (es_io st) = file_header @ records (es_frames st) \<and> (\<forall>f \<in> set (es_frames st). encodable f) \<and>
     linear (es_frames st) \<and> es_prefix_digest st = digest (content (es_io st)) \<and>
     (\<exists>w. reconstruct K (es_frames st) = Some (Inr w)) \<and> es_state st = Healthy"

lemma verify_good:
  assumes "epoch_store_ok K content st" and "length (content (es_io st)) < 2 ^ 64"
  shows "verify_repaired K (epoch_checkpoint_of start st) (content (es_io st)) = Some (Inr ())"
proof -
  have bytes: "content (es_io st) = file_header @ records (es_frames st)" and "es_prefix_digest st = digest (content (es_io st))"
    using assms(1) by (simp_all add: epoch_store_ok_def)
  moreover have "inspect_file (content (es_io st)) = Inr (es_frames st, length (content (es_io st)))"
    using assms decode_file_roundtrip [of "es_frames st"] by (simp add: inspect_file_Inr epoch_store_ok_def)
  ultimately show ?thesis
    using assms(1) by (auto simp: verify_repaired_def epoch_checkpoint_of_def epoch_store_ok_def)
qed

section \<open>What the store relies on\<close>

text \<open>
  A call that reports success did what it says, and no call changes the bytes before the offset it
  writes to.  Nothing is assumed of a truncation that fails.
\<close>

lemma es_update_order [simp]:
  "es_io_update f (es_metrics_update g st) = es_metrics_update g (es_io_update f st)"
  by (cases st) simp

locale epoch_file =
  fixes IO :: "'s epoch_io" and content :: "'s \<Rightarrow> byte list"
  assumes len_content: "eio_len IO ph s = (r, s') \<Longrightarrow> content s' = content s \<and> (\<forall>n. r = Inr n \<longrightarrow> n = length (content s))"
    and write_content: "eio_write_at IO ph off bs s = (r, s') \<Longrightarrow> off \<le> length (content s) \<Longrightarrow>
      take off (content s') = take off (content s) \<and> off \<le> length (content s') \<and>
      (\<forall>k. r = Inr k \<longrightarrow> k \<le> length bs \<and> content s' = take off (content s) @ take k bs @ drop (off + k) (content s))"
    and sync_content: "eio_sync_data IO ph s = (r', s') \<Longrightarrow> content s' = content s"
    and truncate_content: "eio_set_len IO ph n s = (Inr (), s') \<Longrightarrow> n \<le> length (content s) \<Longrightarrow> content s' = take n (content s)"
    and read_content: "eio_read_all IO ph s = (q, s') \<Longrightarrow> content s' = content s \<and> (\<forall>bs. q = Inr bs \<longrightarrow> bs = content s)"
    and persist_content: "eio_persist_epoch IO (length (content s)) recs s = (res, s') \<Longrightarrow>
      take (length (content s)) (content s') = content s \<and> length (content s) \<le> length (content s') \<and>
      (res = None \<longrightarrow> content s' = content s) \<and>
      (\<forall>p. res = Some (p, Inr ()) \<longrightarrow> content s' = content s @ concat recs)"
begin

text \<open>Writing at the end of the file either appends the bytes or leaves what was there in front.\<close>

lemma write_all_at_ok:
  "off = length (content (es_io st)) \<Longrightarrow>
   \<exists>r io m. write_all_at IO off bytes st = Some (r, st\<lparr>es_io := io, es_metrics := m\<rparr>) \<and>
     prefix (content (es_io st)) (content io) \<and> (\<forall>u. r = Inr u \<longrightarrow> content io = content (es_io st) @ bytes)"
proof (induction "length bytes" arbitrary: off bytes st rule: less_induct)
  case less
  let ?c = "content (es_io st)"
  show ?case
  proof (cases "bytes = []")
    case True
    then show ?thesis
      by (intro exI [of _ "Inr ()"] exI [of _ "es_io st"] exI [of _ "es_metrics st"]) (simp add: write_all_at.simps)
  next
    case False
    obtain w io where w: "eio_write_at IO EpochWrite off bytes (es_io st) = (w, io)" by fastforce
    note law = write_content [OF w] less.prems
    then have pre: "prefix ?c (content io)"
      by (metis append_take_drop_id order_refl prefix_def take_all)
    show ?thesis
    proof (cases w)
      case (Inl e)
      with w False pre show ?thesis
        by (intro exI [of _ "Inl (EpochWrite, OsError e)"] exI [of _ io] exI [of _ "es_metrics (note_write st)"])
          (simp add: write_all_at.simps note_write_def)
    next
      case (Inr k)
      show ?thesis
      proof (cases "k = 0")
        case True
        with w Inr False pre show ?thesis
          by (intro exI [of _ "Inl (EpochWrite, WriteZero)"] exI [of _ io] exI [of _ "es_metrics (note_write st)"])
          (simp add: write_all_at.simps note_write_def)
      next
        case pos: False
        have k: "k \<le> length bytes" "content io = ?c @ take k bytes" using law Inr by simp_all
        let ?st = "note_written k ((note_write st)\<lparr>es_io := io\<rparr>)"
        have shorter: "length (drop k bytes) < length bytes" using pos False by simp
        have "off + k = length (content (es_io ?st))" using k less.prems by (simp add: note_written_def)
        from less.hyps [OF shorter this] obtain r io2 m2 where
          2: "write_all_at IO (off + k) (drop k bytes) ?st = Some (r, ?st\<lparr>es_io := io2, es_metrics := m2\<rparr>)"
            "prefix (content io) (content io2)" "\<forall>u. r = Inr u \<longrightarrow> content io2 = content io @ drop k bytes"
          by (auto simp: note_written_def)
        have "write_all_at IO off bytes st = Some (r, st\<lparr>es_io := io2, es_metrics := m2\<rparr>)"
          using w Inr pos k(1) False 2(1)
          by (subst write_all_at.simps) (simp add: Let_def note_write_def note_written_def)
        moreover have "prefix ?c (content io2)" using prefix_order.trans [OF pre 2(2)] .
        ultimately show ?thesis using 2(3) k(2)
          by (intro exI [of _ r] exI [of _ io2] exI [of _ m2]) auto
      qed
    qed
  qed
qed

lemma sync_epoch_ok:
  "\<exists>r io m. sync_epoch IO st = Some (r, st\<lparr>es_io := io, es_metrics := m\<rparr>) \<and> content io = content (es_io st)"
proof -
  obtain r io where "eio_sync_data IO EpochSync (es_io st) = (r, io)" by fastforce
  with sync_content [OF this] show ?thesis
    by (cases r) (auto simp: sync_epoch_def Let_def)
qed

lemma write_one_epoch_ok:
  assumes "off = length (content (es_io st))"
  shows "\<exists>r io m. write_one_epoch IO off recs st = Some (r, st\<lparr>es_io := io, es_metrics := m\<rparr>) \<and>
     prefix (content (es_io st)) (content io) \<and> (\<forall>u. r = Inr u \<longrightarrow> content io = content (es_io st) @ concat recs)"
proof -
  from write_all_at_ok [OF assms, of "concat recs"] obtain r io m where
    1: "write_all_at IO off (concat recs) st = Some (r, st\<lparr>es_io := io, es_metrics := m\<rparr>)"
      "prefix (content (es_io st)) (content io)" "\<forall>u. r = Inr u \<longrightarrow> content io = content (es_io st) @ concat recs" by blast
  show ?thesis
  proof (cases r)
    case (Inl e)
    with 1 show ?thesis by (auto simp: write_one_epoch_def)
  next
    case (Inr u)
    obtain r2 io2 m2 where 2: "sync_epoch IO (st\<lparr>es_io := io, es_metrics := m\<rparr>) =
        Some (r2, (st\<lparr>es_io := io, es_metrics := m\<rparr>)\<lparr>es_io := io2, es_metrics := m2\<rparr>)" "content io2 = content io"
      using sync_epoch_ok [of "st\<lparr>es_io := io, es_metrics := m\<rparr>"] by auto
    with 1 Inr show ?thesis
      by (intro exI [of _ r2] exI [of _ io2] exI [of _ m2]) (simp add: write_one_epoch_def)
  qed
qed

lemma write_per_frame_ok:
  "off = length (content (es_io st)) \<Longrightarrow>
   \<exists>r io m. write_per_frame IO off recs st = Some (r, st\<lparr>es_io := io, es_metrics := m\<rparr>) \<and>
     prefix (content (es_io st)) (content io) \<and> (\<forall>u. r = Inr u \<longrightarrow> content io = content (es_io st) @ concat recs)"
proof (induction recs arbitrary: off st)
  case Nil
  then show ?case by (intro exI [of _ "Inr ()"] exI [of _ "es_io st"] exI [of _ "es_metrics st"]) simp
next
  case (Cons x recs)
  from write_one_epoch_ok [OF Cons.prems, of "[x]"] obtain r io m where
    1: "write_one_epoch IO off [x] st = Some (r, st\<lparr>es_io := io, es_metrics := m\<rparr>)"
      "prefix (content (es_io st)) (content io)" "\<forall>u. r = Inr u \<longrightarrow> content io = content (es_io st) @ x" by auto
  have step: "write_per_frame IO off (x # recs) st = (case write_one_epoch IO off [x] st of
      Some (Inr _, st) \<Rightarrow> write_per_frame IO (off + length x) recs st | e \<Rightarrow> e)"
    by (auto simp: write_one_epoch_def split: option.splits sum.splits prod.splits)
  show ?case
  proof (cases r)
    case (Inl e)
    with 1 step show ?thesis by auto
  next
    case (Inr u)
    let ?st = "st\<lparr>es_io := io, es_metrics := m\<rparr>"
    have "off + length x = length (content (es_io ?st))" using 1(3) Inr Cons.prems by simp
    from Cons.IH [OF this] obtain r2 io2 m2 where
      2: "write_per_frame IO (off + length x) recs ?st = Some (r2, ?st\<lparr>es_io := io2, es_metrics := m2\<rparr>)"
        "prefix (content io) (content io2)" "\<forall>u. r2 = Inr u \<longrightarrow> content io2 = content io @ concat recs" by auto
    have "prefix (content (es_io st)) (content io2)" using prefix_order.trans [OF 1(2) 2(2)] .
    with 1 2 Inr step show ?thesis
      by (intro exI [of _ r2] exI [of _ io2] exI [of _ m2]) auto
  qed
qed

text \<open>A repair finds the bytes of before the epoch, or fails with an error of the operating system.\<close>

lemma repair_ok:
  assumes ok: "epoch_store_ok K content st0" and len: "length (content (es_io st0)) < 2 ^ 64"
    and pre: "prefix (content (es_io st0)) (content (es_io st))"
  shows "\<exists>r st'. repair K IO (epoch_checkpoint_of (length (content (es_io st0))) st0) st = Some (r, st') \<and> io_moved st st' \<and>
    (case r of Inr _ \<Rightarrow> content (es_io st') = content (es_io st0) | Inl (phase, e) \<Rightarrow> \<exists>os. e = RepairOs os)"
proof -
  let ?c = "content (es_io st0)" and ?cp = "epoch_checkpoint_of (length (content (es_io st0))) st0"
  have le: "length ?c \<le> length (content (es_io st))" and "take (length ?c) (content (es_io st)) = ?c"
    using pre by (auto simp: prefix_def)
  obtain r1 io1 where 1: "eio_set_len IO RepairTruncate (length ?c) (es_io st) = (r1, io1)" by fastforce
  obtain r2 io2 where 2: "eio_sync_data IO RepairSync io1 = (r2, io2)" by fastforce
  obtain r3 io3 where 3: "eio_len IO VerifyLength io2 = (r3, io3)" by fastforce
  obtain r4 io4 where 4: "eio_read_all IO VerifyRead io3 = (r4, io4)" by fastforce
  have c1: "content io1 = ?c" if "r1 = Inr u" for u
    using truncate_content [of RepairTruncate "length ?c" "es_io st" io1] 1 le that
      \<open>take (length ?c) (content (es_io st)) = ?c\<close> by simp
  note c = sync_content [OF 2] len_content [OF 3] read_content [OF 4]
  show ?thesis
    using 1 2 3 4 c c1 verify_good [OF ok len, of "length ?c"]
    by (cases r1; cases r2; cases r3; cases r4) (auto simp: repair_def Let_def io_moved_def)
qed

lemma prepare_epoch_Inr:
  assumes "prepare_epoch IO fs st = (Inr p, st')" and "fs \<noteq> []"
  shows "validate_epoch fs st = Inr () \<and> encode_records fs = Inr (pe_records p) \<and> pe_frames p = fs \<and>
    pe_checkpoint p = epoch_checkpoint_of (length (content (es_io st))) st \<and> io_moved st st' \<and>
    content (es_io st') = content (es_io st)"
  using assms len_content
  by (auto simp: prepare_epoch_def io_moved_def epoch_checkpoint_of_def Let_def res_bind_Inr
      split: sum.splits prod.splits if_splits)

lemma written_ok:
  assumes "io_moved st st1" and "content (es_io st1) = content (es_io st)"
  shows "\<exists>r st2. (case eio_persist_epoch IO (length (content (es_io st))) recs (es_io st1) of
          (Some (persisted, result), io) \<Rightarrow> Some (result, st1\<lparr>es_io := io, es_metrics := record_persist persisted (es_metrics st1)\<rparr>)
        | (None, io) \<Rightarrow>
            (case es_policy st1 of
               PerFrame \<Rightarrow> write_per_frame IO (length (content (es_io st))) recs (st1\<lparr>es_io := io\<rparr>)
             | PerEpoch \<Rightarrow> write_one_epoch IO (length (content (es_io st))) recs (st1\<lparr>es_io := io\<rparr>))) = Some (r, st2) \<and>
      io_moved st st2 \<and> prefix (content (es_io st)) (content (es_io st2)) \<and>
      (\<forall>u. r = Inr u \<longrightarrow> content (es_io st2) = content (es_io st) @ concat recs)"
proof -
  let ?start = "length (content (es_io st))"
  obtain res io where p: "eio_persist_epoch IO ?start recs (es_io st1) = (res, io)" by fastforce
  note law = persist_content [where recs = recs and s = "es_io st1" and res = res and s' = io]
  have pre: "prefix (content (es_io st)) (content io)"
    using law p assms(2) by (metis append_take_drop_id prefix_def)
  show ?thesis
  proof (cases res)
    case (Some pr)
    then show ?thesis using law p assms pre by (cases pr) (auto simp: io_moved_def)
  next
    case None
    let ?st = "st1\<lparr>es_io := io\<rparr>"
    have c: "content io = content (es_io st)" using law p None assms(2) by simp
    then have start: "?start = length (content (es_io ?st))" by simp
    show ?thesis
      using write_per_frame_ok [OF start, of recs] write_one_epoch_ok [OF start, of recs] p None c assms
      by (cases "es_policy st1") (auto simp: io_moved_def)
  qed
qed

lemma append_epoch_cases:
  assumes ok: "epoch_store_ok K content st" and len: "length (content (es_io st)) < 2 ^ 64"
    and valid: "\<forall>f \<in> set fs. valid_frame f" and rec: "reconstruct K (es_frames st @ fs) = Some (Inr w)"
  shows "\<exists>r st'. append_epoch K IO fs st = Some (r, st') \<and>
    (case r of
       Inr _ \<Rightarrow> epoch_store_ok K content st' \<and> es_frames st' = es_frames st @ fs \<and>
         content (es_io st') = content (es_io st) @ records fs
     | Inl e \<Rightarrow> es_frames st' = es_frames st \<and>
         (epoch_store_ok K content st' \<and> content (es_io st') = content (es_io st) \<or>
          es_state st' = Poisoned \<and> (\<exists>p err q os. e = RepairFailed p err q (RepairOs os))))"
proof -
  let ?c = "content (es_io st)"
  have healthy: "es_state st = Healthy" and digest: "es_prefix_digest st = digest ?c" using ok by (simp_all add: epoch_store_ok_def)
  have moved_ok: "epoch_store_ok K content st'" if "io_moved st st'" "content (es_io st') = ?c" for st'
    using that ok by (simp add: epoch_store_ok_def io_moved_def)
  obtain q st1 where prep0: "prepare_epoch IO fs st = (q, st1)" by fastforce
  show ?thesis
  proof (cases q)
    case (Inl e)
    have "io_moved st st1 \<and> content (es_io st1) = ?c"
      using prep0 Inl healthy len_content
      by (auto simp: prepare_epoch_def ensure_healthy_def io_moved_def Let_def split: if_splits sum.splits prod.splits)
    with Inl prep0 moved_ok [of st1] show ?thesis by (simp add: append_epoch_def io_moved_def)
  next
    case (Inr p)
    show ?thesis
    proof (cases "fs = []")
      case True
      with prep0 Inr healthy ok show ?thesis
        by (auto simp: append_epoch_def prepare_epoch_def ensure_healthy_def)
    next
      case False
      note prep = prepare_epoch_Inr [OF prep0 [unfolded Inr] False]
      let ?start = "length ?c" and ?recs = "pe_records p"
      have moved: "io_moved st st1" "content (es_io st1) = ?c" using prep by simp_all
      have recs: "?recs = map frame_record fs" "\<forall>f \<in> set fs. encodable f"
        using encode_records_Inr prep valid by (auto simp: encodable_def)
      have "linear_from (es_frames st) fs"
        using prep validate_frames_linear [of "es_frames st"] by (simp add: validate_epoch_def expected_tip_def)
      then have linear: "linear (es_frames st @ fs)"
        using ok by (simp add: epoch_store_ok_def linear_def linear_from_append)
      define written where "written = (case eio_persist_epoch IO ?start ?recs (es_io st1) of
          (Some (persisted, result), io) \<Rightarrow> Some (result, st1\<lparr>es_io := io, es_metrics := record_persist persisted (es_metrics st1)\<rparr>)
        | (None, io) \<Rightarrow>
            (case es_policy st1 of
               PerFrame \<Rightarrow> write_per_frame IO ?start ?recs (st1\<lparr>es_io := io\<rparr>)
             | PerEpoch \<Rightarrow> write_one_epoch IO ?start ?recs (st1\<lparr>es_io := io\<rparr>)))"
      obtain r st2 where w: "written = Some (r, st2)" "io_moved st st2" "prefix ?c (content (es_io st2))"
        "\<forall>u. r = Inr u \<longrightarrow> content (es_io st2) = ?c @ concat ?recs"
        using written_ok [OF moved] unfolding written_def by blast
      have run: "append_epoch K IO fs st = finish_prepared_epoch K IO p r st2"
      proof -
        obtain res io where "eio_persist_epoch IO ?start ?recs (es_io st1) = (res, io)" by fastforce
        then show ?thesis
          using prep0 Inr prep False w(1) unfolding written_def
          by (cases res) (auto simp: append_epoch_def Let_def split: prod.splits)
      qed
      show ?thesis
      proof (cases r)
        case (Inr u)
        have "append_epoch K IO fs st = Some (Inr (), st2\<lparr>
            es_prefix_digest := foldl digest_extend (es_prefix_digest st2) ?recs, es_frames := es_frames st2 @ fs,
            es_recovered_tail_bytes := 0,
            es_metrics := (es_metrics st2)\<lparr>em_epochs_committed := em_epochs_committed (es_metrics st2) + 1,
                em_frames_committed := em_frames_committed (es_metrics st2) + length ?recs\<rparr>\<rparr>)" (is "_ = Some (Inr (), ?st3)")
          using run Inr prep False by (simp add: finish_prepared_epoch_def)
        moreover have "content (es_io ?st3) = ?c @ records fs" using w(4) Inr recs(1) by (simp add: records_def)
        moreover have "epoch_store_ok K content ?st3"
          using ok w(2) w(4) Inr recs linear rec digest_extend_records [of ?c fs] unfolding epoch_store_ok_def
          by (auto simp: io_moved_def records_def)
        moreover have "es_frames ?st3 = es_frames st @ fs" using w(2) by (simp add: io_moved_def)
        ultimately show ?thesis by (intro exI [of _ "Inr ()"] exI [of _ ?st3]) simp
      next
        case (Inl pe)
        obtain phase err where pe: "pe = (phase, err)" by fastforce
        let ?st2 = "st2\<lparr>es_state := Repairing\<rparr>"
        have "prefix ?c (content (es_io ?st2))" using w(3) by simp
        from repair_ok [OF ok len this] obtain r3 st3 where
          3: "repair K IO (epoch_checkpoint_of ?start st) ?st2 = Some (r3, st3)" "io_moved ?st2 st3"
            "case r3 of Inr _ \<Rightarrow> content (es_io st3) = ?c | Inl (phase, e) \<Rightarrow> \<exists>os. e = RepairOs os" by blast
        have frames: "es_frames st3 = es_frames st" "es_prefix_digest st3 = es_prefix_digest st"
          using 3(2) w(2) by (simp_all add: io_moved_def)
        show ?thesis
        proof (cases r3)
          case r3: (Inr u)
          let ?st4 = "st3\<lparr>es_state := Healthy, es_metrics := (es_metrics st3)\<lparr>em_repairs_succeeded := em_repairs_succeeded (es_metrics st3) + 1\<rparr>\<rparr>"
          have "append_epoch K IO fs st = Some (Inl (EpochRepaired phase err), ?st4)"
            using run Inl pe 3(1) r3 prep False by (simp add: finish_prepared_epoch_def handle_primary_failure_def Let_def)
          moreover have "epoch_store_ok K content ?st4" "content (es_io ?st4) = ?c"
            using ok 3(3) r3 frames by (simp_all add: epoch_store_ok_def)
          ultimately show ?thesis using frames by (intro exI [of _ "Inl (EpochRepaired phase err)"] exI [of _ ?st4]) simp
        next
          case r3: (Inl pr)
          obtain phase2 os where pr: "pr = (phase2, RepairOs os)" using 3(3) r3 by (cases pr) auto
          show ?thesis
            using run Inl pe 3(1) r3 pr prep False frames
            by (auto simp: finish_prepared_epoch_def handle_primary_failure_def Let_def)
        qed
      qed
    qed
  qed
qed

end

interpretation std_epoch_file: epoch_file std_io sf_bytes
proof
  fix ph :: io_phase and s s' :: std_file
  fix r assume "eio_len std_io ph s = (r, s')"
  then show "sf_bytes s' = sf_bytes s \<and> (\<forall>n. r = Inr n \<longrightarrow> n = length (sf_bytes s))"
    by (auto simp: std_io_def std_len_def next_answer_def split: list.splits io_answer.splits)
next
  fix ph :: io_phase and s s' :: std_file and off bs r
  assume "eio_write_at std_io ph off bs s = (r, s')" and "off \<le> length (sf_bytes s)"
  then show "take off (sf_bytes s') = take off (sf_bytes s) \<and> off \<le> length (sf_bytes s') \<and>
      (\<forall>k. r = Inr k \<longrightarrow> k \<le> length bs \<and> sf_bytes s' = take off (sf_bytes s) @ take k bs @ drop (off + k) (sf_bytes s))"
    by (auto simp: std_io_def std_write_at_def next_answer_def overwrite_def min_def split: list.splits io_answer.splits)
next
  fix ph :: io_phase and s s' :: std_file and r
  assume "eio_sync_data std_io ph s = (r, s')"
  then show "sf_bytes s' = sf_bytes s"
    by (auto simp: std_io_def std_sync_data_def next_answer_def split: list.splits io_answer.splits)
next
  fix ph :: io_phase and s s' :: std_file and n
  assume "eio_set_len std_io ph n s = (Inr (), s')" and "n \<le> length (sf_bytes s)"
  then show "sf_bytes s' = take n (sf_bytes s)"
    by (auto simp: std_io_def std_set_len_def next_answer_def split: list.splits io_answer.splits)
next
  fix ph :: io_phase and s s' :: std_file and q
  assume "eio_read_all std_io ph s = (q, s')"
  then show "sf_bytes s' = sf_bytes s \<and> (\<forall>bs. q = Inr bs \<longrightarrow> bs = sf_bytes s)"
    by (auto simp: std_io_def std_read_all_def next_answer_def split: list.splits io_answer.splits)
next
  fix s s' :: std_file and recs res
  assume "eio_persist_epoch std_io (length (sf_bytes s)) recs s = (res, s')"
  then show "take (length (sf_bytes s)) (sf_bytes s') = sf_bytes s \<and> length (sf_bytes s) \<le> length (sf_bytes s') \<and>
      (res = None \<longrightarrow> sf_bytes s' = sf_bytes s) \<and>
      (\<forall>p. res = Some (p, Inr ()) \<longrightarrow> sf_bytes s' = sf_bytes s @ concat recs)"
    by (simp add: std_io_def)
qed

section \<open>Properties\<close>

text \<open>
  C21. Appending an epoch to an ordinary file, with one sync per frame or one for the epoch and
  with any answers of the operating system, either adds exactly the records of its frames, or
  reports an error and leaves the frames and the bytes as before, or, when a call of the repair
  itself failed, poisons the store: then every later append is refused without touching the file.
  It never panics, and a repair never fails because of what it reads back.
\<close>

theorem append_epoch_atomic:
  assumes "epoch_store_ok reference_kernel sf_bytes st" and "length (sf_bytes (es_io st)) < 2 ^ 64"
    and "\<forall>f \<in> set fs. valid_frame f" and "reconstruct reference_kernel (es_frames st @ fs) = Some (Inr w)"
  shows "\<exists>r st'. append_epoch reference_kernel std_io fs st = Some (r, st') \<and>
    (case r of
       Inr _ \<Rightarrow> epoch_store_ok reference_kernel sf_bytes st' \<and> es_frames st' = es_frames st @ fs \<and>
         sf_bytes (es_io st') = sf_bytes (es_io st) @ records fs
     | Inl e \<Rightarrow> es_frames st' = es_frames st \<and>
         (epoch_store_ok reference_kernel sf_bytes st' \<and> sf_bytes (es_io st') = sf_bytes (es_io st) \<or>
          (\<exists>p err q os. e = RepairFailed p err q (RepairOs os)) \<and>
          (\<forall>gs. \<exists>reason. append_epoch reference_kernel std_io gs st' = Some (Inl (StorePoisoned reason), st'))))"
proof -
  from std_epoch_file.append_epoch_cases [OF assms] obtain r st' where
    run: "append_epoch reference_kernel std_io fs st = Some (r, st')" and
    res: "case r of
       Inr _ \<Rightarrow> epoch_store_ok reference_kernel sf_bytes st' \<and> es_frames st' = es_frames st @ fs \<and>
         sf_bytes (es_io st') = sf_bytes (es_io st) @ records fs
     | Inl e \<Rightarrow> es_frames st' = es_frames st \<and>
         (epoch_store_ok reference_kernel sf_bytes st' \<and> sf_bytes (es_io st') = sf_bytes (es_io st) \<or>
          es_state st' = Poisoned \<and> (\<exists>p err q os. e = RepairFailed p err q (RepairOs os)))" by blast
  have "\<exists>reason. append_epoch reference_kernel std_io gs st' = Some (Inl (StorePoisoned reason), st')"
    if "es_state st' = Poisoned" for gs
    using that by (simp add: append_epoch_def prepare_epoch_def ensure_healthy_def)
  with run res show ?thesis by (cases r) auto
qed

definition epoch_sample :: commit_frame where
  "epoch_sample =
     \<lparr>parent_world = GENESIS, resulting_world = calculate_world_id GENESIS 1 2 [AllocateEntity 1], parent_version = 0,
      resulting_version = 1, resulting_allocator = 2, operations = [AllocateEntity 1]\<rparr>"

definition fresh_epoch_store :: "sync_policy \<Rightarrow> io_answer list \<Rightarrow> std_file file_epoch_store" where
  "fresh_epoch_store policy answers =
     \<lparr>es_io = \<lparr>sf_bytes = file_header, sf_answers = answers\<rparr>, es_frames = [], es_policy = policy, es_state = Healthy,
      es_poison = None, es_prefix_digest = digest file_header, es_recovered_tail_bytes = 0, es_metrics = epoch_metrics_new\<rparr>"

lemma fresh_epoch_store_ok: "epoch_store_ok reference_kernel sf_bytes (fresh_epoch_store policy answers)"
  by (simp add: epoch_store_ok_def fresh_epoch_store_def linear_def reconstruct_def)

lemma epoch_sample_facts: "valid_frame epoch_sample" "well_linked [epoch_sample]"
  by (simp_all add: valid_frame_def epoch_sample_def well_linked_def frame_ok_def)

theorem append_epoch_atomic_witness:
  "\<forall>policy answers. \<exists>r st'. append_epoch reference_kernel std_io [epoch_sample] (fresh_epoch_store policy answers) = Some (r, st') \<and>
    (case r of
       Inr _ \<Rightarrow> sf_bytes (es_io st') = file_header @ frame_record epoch_sample
     | Inl e \<Rightarrow> sf_bytes (es_io st') = file_header \<or> (\<exists>reason. append_epoch reference_kernel std_io [] st' = Some (Inl (StorePoisoned reason), st')))"
proof (intro allI)
  fix policy answers
  let ?st = "fresh_epoch_store policy answers"
  have bytes: "sf_bytes (es_io ?st) = file_header" "es_frames ?st = []" by (simp_all add: fresh_epoch_store_def)
  obtain w where w: "reconstruct reference_kernel (es_frames ?st @ [epoch_sample]) = Some (Inr w)"
    using reference.reconstruct_iff [of "[epoch_sample]"] epoch_sample_facts(2) by (auto simp: bytes)
  have len: "length (sf_bytes (es_io ?st)) < 2 ^ 64" by (simp add: bytes)
  have "\<forall>f \<in> set [epoch_sample]. valid_frame f" by (simp add: epoch_sample_facts)
  from append_epoch_atomic [OF fresh_epoch_store_ok len this w, unfolded bytes] obtain r st' where
    r: "append_epoch reference_kernel std_io [epoch_sample] ?st = Some (r, st')"
      "case r of
       Inr _ \<Rightarrow> epoch_store_ok reference_kernel sf_bytes st' \<and> es_frames st' = [] @ [epoch_sample] \<and>
         sf_bytes (es_io st') = file_header @ records [epoch_sample]
     | Inl e \<Rightarrow> es_frames st' = [] \<and>
         (epoch_store_ok reference_kernel sf_bytes st' \<and> sf_bytes (es_io st') = file_header \<or>
          (\<exists>p err q os. e = RepairFailed p err q (RepairOs os)) \<and>
          (\<forall>gs. \<exists>reason. append_epoch reference_kernel std_io gs st' = Some (Inl (StorePoisoned reason), st')))"
    by blast
  then show "\<exists>r st'. append_epoch reference_kernel std_io [epoch_sample] ?st = Some (r, st') \<and>
    (case r of
       Inr _ \<Rightarrow> sf_bytes (es_io st') = file_header @ frame_record epoch_sample
     | Inl e \<Rightarrow> sf_bytes (es_io st') = file_header \<or> (\<exists>reason. append_epoch reference_kernel std_io [] st' = Some (Inl (StorePoisoned reason), st')))"
    by (intro exI [of _ r] exI [of _ st'] conjI r(1)) (cases r, auto)
qed

lemma well_linked_from_prefix: "well_linked_from tip (xs @ ys) \<Longrightarrow> well_linked_from tip xs"
  by (induction xs arbitrary: tip) auto

lemma records_take_le: "m \<le> length fs \<Longrightarrow> length (records (take m fs)) \<le> length (records fs)"
  by (metis append_take_drop_id le_add1 length_append records_simps(3))

text \<open>
  C22. A crash in the middle of an epoch keeps every acknowledged frame.  The crash is one that
  loses the appended bytes from some point on, at or behind the acknowledged bytes; blocks that are
  missing in the middle are not covered.  The frames \<open>fs\<close> of the epoch are ones that an append
  accepts.  Opening the file again then finds all acknowledged frames and exactly those frames of
  the epoch whose records are complete, and gives a store whose file holds exactly these.
\<close>

theorem epoch_crash_keeps_acknowledged_frames:
  assumes "epoch_store_ok reference_kernel sf_bytes st" and "\<forall>f \<in> set fs. encodable f"
    and "linear (es_frames st @ fs)" and "well_linked (es_frames st @ fs)"
    and "length (sf_bytes (es_io st)) \<le> n" and "n < 2 ^ 64"
  shows "\<exists>m st'. epoch_open reference_kernel open_fine None (Works # answers) policy (take n (sf_bytes (es_io st) @ records fs)) =
      Some (Inr st') \<and>
    es_frames st' = es_frames st @ take m fs \<and> m \<le> length fs \<and>
    length (sf_bytes (es_io st) @ records (take m fs)) \<le> n \<and>
    (m < length fs \<longrightarrow> n < length (sf_bytes (es_io st) @ records (take (Suc m) fs))) \<and>
    epoch_store_ok reference_kernel sf_bytes st'"
proof -
  let ?old = "es_frames st" and ?all = "es_frames st @ fs"
  have bytes: "sf_bytes (es_io st) = file_header @ records ?old" and enc: "\<forall>f \<in> set ?all. encodable f"
    using assms(1,2) by (auto simp: epoch_store_ok_def)
  have n: "16 \<le> n" "16 + length (records ?old) \<le> n" using assms(5) by (simp_all add: bytes)
  from log_truncation [OF enc assms(3) n(1)] obtain k where
    k: "k \<le> length ?all" "decode_file (take n (file_header @ records ?all)) =
        Inr (take k ?all, length (file_header @ records (take k ?all)))"
      "length (file_header @ records (take k ?all)) \<le> n" "k < length ?all \<longrightarrow> n < 16 + length (records (take (Suc k) ?all))"
    using n(1) by auto
  let ?fs = "take k ?all" and ?cut = "take n (file_header @ records ?all)"
  have old: "length ?old \<le> k"
  proof (rule ccontr)
    assume "\<not> length ?old \<le> k"
    then have "take (Suc k) ?all = take (Suc k) ?old" "k < length ?all" "Suc k \<le> length ?old" by simp_all
    with k(4) n(2) records_take_le [of "Suc k" ?old] show False by simp
  qed
  have linked: "well_linked ?fs"
    using assms(4) unfolding well_linked_def by (metis append_take_drop_id well_linked_from_prefix)
  then obtain w where w: "reconstruct reference_kernel ?fs = Some (Inr w)"
    using reference.reconstruct_iff [of ?fs] by auto
  have "length ?cut \<noteq> 0" using n(1) by simp
  then have "?cut \<noteq> []" by (metis list.size(3))
  moreover have "length (file_header @ records ?fs) \<le> length ?cut"
    using k(3) by (metis append_take_drop_id length_append length_take le_add1 min.bounded_iff records_simps(3) append.assoc)
  ultimately obtain cold where cold: "file_open reference_kernel open_fine ?cut =
      Some (Inr cold, take (length (file_header @ records ?fs)) ?cut)"
    using file_open_good [OF k(2) w] by blast
  have cut: "take (length (file_header @ records ?fs)) ?cut = file_header @ records ?fs"
  proof -
    have "file_header @ records ?all = (file_header @ records ?fs) @ records (drop k ?all)"
      by (metis append.assoc append_take_drop_id records_simps(3))
    then show ?thesis using k(3) by simp
  qed
  have lin: "linear ?fs" "\<forall>f \<in> set ?fs. encodable f"
  proof -
    show "linear ?fs" using assms(3) by (metis append_take_drop_id linear_appendD)
    show "\<forall>f \<in> set ?fs. encodable f" using enc by (meson in_set_takeD)
  qed
  have "inspect_file (file_header @ records ?fs) = Inr (?fs, length (file_header @ records ?fs))"
    using decode_file_roundtrip [OF lin(2,1)] k(3) assms(6) by (subst inspect_file_Inr) auto
  then obtain st1 where st1: "from_io reference_kernel std_io policy \<lparr>sf_bytes = file_header @ records ?fs, sf_answers = Works # answers\<rparr> = Some (Inr st1)"
    "es_frames st1 = ?fs" "epoch_store_ok reference_kernel sf_bytes st1"
    using w lin by (auto simp: from_io_def std_io_def std_read_all_def next_answer_def epoch_store_ok_def)
  have "epoch_open reference_kernel open_fine None (Works # answers) policy (take n (sf_bytes (es_io st) @ records fs)) =
      Some (Inr (st1\<lparr>es_recovered_tail_bytes := fs_recovered_tail_bytes cold\<rparr>))"
    using cold cut st1(1) by (simp add: epoch_open_def bytes)
  moreover have fs: "?fs = ?old @ take (k - length ?old) fs" using old by simp
  moreover have "k - length ?old \<le> length fs" using k(1) by simp
  moreover have "length (sf_bytes (es_io st) @ records (take (k - length ?old) fs)) \<le> n"
    using k(3) n(1) unfolding fs bytes by simp
  moreover have "n < length (sf_bytes (es_io st) @ records (take (Suc (k - length ?old)) fs))"
    if "k - length ?old < length fs"
  proof -
    have "take (Suc k) ?all = ?old @ take (Suc (k - length ?old)) fs" using old by (simp add: Suc_diff_le)
    with k(4) that old show ?thesis by (simp add: bytes less_diff_conv2)
  qed
  ultimately show ?thesis
    using st1(2,3) by (intro exI [of _ "k - length ?old"] exI) (auto simp: epoch_store_ok_def)
qed

text \<open>A store with one acknowledged frame, and a second frame of which 30 bytes were written.\<close>

definition next_sample :: commit_frame where
  "next_sample =
     \<lparr>parent_world = resulting_world epoch_sample,
      resulting_world = calculate_world_id (resulting_world epoch_sample) 2 3 [AllocateEntity 2], parent_version = 1,
      resulting_version = 2, resulting_allocator = 3, operations = [AllocateEntity 2]\<rparr>"

definition sample_epoch_store :: "std_file file_epoch_store" where
  "sample_epoch_store =
     (fresh_epoch_store PerEpoch [])
       \<lparr>es_io := \<lparr>sf_bytes = file_header @ records [epoch_sample], sf_answers = []\<rparr>, es_frames := [epoch_sample],
        es_prefix_digest := digest (file_header @ records [epoch_sample])\<rparr>"

lemma epoch_samples:
  "\<forall>f \<in> {epoch_sample, next_sample}. encodable f" "linear [epoch_sample, next_sample]"
  "well_linked [epoch_sample, next_sample]" "length (encode_payload next_sample) = 57" "length (encode_payload epoch_sample) = 57"
proof -
  show len: "length (encode_payload next_sample) = 57" "length (encode_payload epoch_sample) = 57"
    by (simp_all add: encode_payload_def epoch_sample_def next_sample_def)
  show "\<forall>f \<in> {epoch_sample, next_sample}. encodable f"
    using len by (simp add: encodable_def MAX_FRAME_BYTES_def valid_frame_def) (simp add: epoch_sample_def next_sample_def)
  show "linear [epoch_sample, next_sample]"
    by (simp add: linear_def check_position_def expected_tip_def checked_add_u64_def) (simp add: epoch_sample_def next_sample_def)
  show "well_linked [epoch_sample, next_sample]"
    by (simp add: well_linked_def frame_ok_def frame_tip_def) (simp add: epoch_sample_def next_sample_def)
qed

lemma sample_epoch_store_ok: "epoch_store_ok reference_kernel sf_bytes sample_epoch_store"
proof -
  have "linear [epoch_sample]" using epoch_samples(2) linear_appendD [of "[epoch_sample]" "[next_sample]"] by simp
  moreover have "\<exists>w. reconstruct reference_kernel [epoch_sample] = Some (Inr w)"
    using reference.reconstruct_iff [of "[epoch_sample]"] epoch_sample_facts(2) by auto
  ultimately show ?thesis
    using epoch_samples(1) by (simp add: epoch_store_ok_def sample_epoch_store_def fresh_epoch_store_def)
qed

theorem epoch_crash_keeps_acknowledged_frames_witness:
  "\<exists>st'. epoch_open reference_kernel open_fine None [Works] PerEpoch
      (take (length (file_header @ records [epoch_sample]) + 30) (file_header @ records [epoch_sample] @ records [next_sample])) =
      Some (Inr st') \<and>
    es_frames st' = [epoch_sample] \<and> sf_bytes (es_io st') = file_header @ records [epoch_sample]"
proof -
  let ?n = "length (file_header @ records [epoch_sample]) + 30"
  have st: "es_frames sample_epoch_store = [epoch_sample]"
    "sf_bytes (es_io sample_epoch_store) = file_header @ records [epoch_sample]"
    by (simp_all add: sample_epoch_store_def)
  have enc: "\<forall>f \<in> set [next_sample]. encodable f" and l: "linear (es_frames sample_epoch_store @ [next_sample])"
    and wl: "well_linked (es_frames sample_epoch_store @ [next_sample])"
    using epoch_samples(1-3) by (simp_all add: st)
  have n: "length (sf_bytes (es_io sample_epoch_store)) \<le> ?n" "?n < 2 ^ 64"
    using epoch_samples(5) by (simp_all add: st length_frame_record)
  from epoch_crash_keeps_acknowledged_frames [OF sample_epoch_store_ok enc l wl n, of "[]" PerEpoch] show ?thesis
    using epoch_samples(4,5) by (auto simp: st length_frame_record epoch_store_ok_def le_Suc_eq)
qed

end
