(* ===== verification/Durable_Epochs.thy ===== *)
theory Durable_Epochs
  imports Epoch_Store VM_Epochs
begin

text \<open>
  The durable step of the epoch controller (\<open>file_epoch_controller.rs\<close>): an epoch is derived on
  the token machine, appended to the epoch store and published.  The lemmas show that the step is
  atomic, and which epoch it is: the materializer of the step is a new one, so the slot
  preconditions of the intents are checked against a world without facts.
\<close>

section \<open>What a ticket is told\<close>

text \<open>Error values stand for their texts.\<close>

datatype ticket_rejection =
    TWorldPrecondition world_id world_id
  | TSlotPrecondition slot_id "fact option" "fact option"
  | TUnknownTemporaryEntity temp_entity
  | TCandidate candidate_error
  | TValidation string

fun from_intent :: "intent_rejection \<Rightarrow> ticket_rejection" where
  "from_intent (WorldPrecondition expected actual) = TWorldPrecondition expected actual"
| "from_intent (SlotPrecondition slot expected actual) = TSlotPrecondition slot expected actual"
| "from_intent (UnknownTemporaryEntity t) = TUnknownTemporaryEntity t"
| "from_intent (CandidateRejected e) = TCandidate e"
| "from_intent (ValidationRejected msg) = TValidation msg"

text \<open>Why the worker failed: the text given to \<open>expect\<close>, or a panic below it.\<close>

datatype worker_failure = VmMaterialize string | MaterializePanic

text \<open>The reasons a controller is poisoned for, and their texts (without the text of a panic).\<close>

datatype poison_cause = EpochFailed worker_failure | ChannelDisconnected | WorkerExited | ControllerPoisoned

fun cause_text :: "poison_cause \<Rightarrow> string" where
  "cause_text (EpochFailed (VmMaterialize e)) = ''durable epoch worker failed: vm materialize: '' @ [CHR 0x22] @ e @ [CHR 0x22]"
| "cause_text (EpochFailed MaterializePanic) = ''durable epoch worker failed: ''"
| "cause_text ChannelDisconnected = ''durable worker command channel disconnected unexpectedly''"
| "cause_text WorkerExited = ''durable worker exited while controller was running''"
| "cause_text ControllerPoisoned = ''durable controller is poisoned''"

datatype ticket_stop = ShutdownBeforeClaim | WorkerFailed poison_cause

datatype 'k ticket_outcome =
    TAccepted "'k world" commit_frame entity_map
  | TRejected ticket_rejection
  | TDurabilityFailed epoch_store_error
  | TStopped ticket_stop

fun outcome_world :: "'k ticket_outcome \<Rightarrow> 'k world option" where
  "outcome_world (TAccepted w f es) = Some w"
| "outcome_world (TRejected e) = None"
| "outcome_world (TDurabilityFailed e) = None"
| "outcome_world (TStopped r) = None"

fun outcome_rejection :: "'k ticket_outcome \<Rightarrow> ticket_rejection option" where
  "outcome_rejection (TRejected e) = Some e"
| "outcome_rejection (TAccepted w f es) = None"
| "outcome_rejection (TDurabilityFailed e) = None"
| "outcome_rejection (TStopped r) = None"

fun durability_error :: "'k ticket_outcome \<Rightarrow> epoch_store_error option" where
  "durability_error (TDurabilityFailed e) = Some e"
| "durability_error (TAccepted w f es) = None"
| "durability_error (TRejected e) = None"
| "durability_error (TStopped r) = None"

fun outcome_stop_reason :: "'k ticket_outcome \<Rightarrow> ticket_stop option" where
  "outcome_stop_reason (TStopped r) = Some r"
| "outcome_stop_reason (TAccepted w f es) = None"
| "outcome_stop_reason (TRejected e) = None"
| "outcome_stop_reason (TDurabilityFailed e) = None"

definition success_outcome :: "'k epoch_outcome \<Rightarrow> 'k ticket_outcome" where
  "success_outcome out =
     (case out of
        EpochAccepted a \<Rightarrow> TAccepted (ai_world a) (ai_frame a) (ai_entities a)
      | EpochRejected r \<Rightarrow> TRejected (from_intent (ri_error r)))"

definition failure_outcome :: "epoch_store_error \<Rightarrow> 'k epoch_outcome \<Rightarrow> 'k ticket_outcome" where
  "failure_outcome e out =
     (case out of
        EpochAccepted a \<Rightarrow> TDurabilityFailed e
      | EpochRejected r \<Rightarrow> TRejected (from_intent (ri_error r)))"

section \<open>The durable step\<close>

text \<open>
  A panic of \<open>materialize\<close> or of the \<open>expect\<close> on its result is caught by the caller, and the
  database is as before.  A panic inside the store is not followed (\<open>None\<close>).
\<close>

datatype 'k durable_result =
    Durable "'k epoch_plan"
  | NotDurable "'k epoch_plan" epoch_store_error
  | WorkerPanic worker_failure

definition derive_prepared :: "'k kernel_ops \<Rightarrow> queued_intent list \<Rightarrow> 'k world \<Rightarrow> 'k validator list \<Rightarrow> worker_failure + 'k epoch_plan" where
  "derive_prepared K is base vs =
     (case materialize K base is vs (materializer_new (w_next_entity base)) of
        None \<Rightarrow> Inl MaterializePanic
      | Some (Inl e, m) \<Rightarrow> Inl (VmMaterialize e)
      | Some (Inr (plan, direct), m) \<Rightarrow> Inr plan)"

definition commit_durable_epoch ::
  "'k kernel_ops \<Rightarrow> 's epoch_io \<Rightarrow> queued_intent list \<Rightarrow> ('k, 's file_epoch_store) database \<Rightarrow>
   ('k durable_result \<times> ('k, 's file_epoch_store) database) option" where
  "commit_durable_epoch K IO is db =
     (case derive_prepared K is (db_current db) (db_validators db) of
        Inl failure \<Rightarrow> Some (WorkerPanic failure, db)
      | Inr plan \<Rightarrow>
          if plan_is_empty plan then Some (Durable plan, db)
          else (case append_epoch K IO (ep_frames plan) (db_store db) of
                  None \<Rightarrow> None
                | Some (Inl e, s) \<Rightarrow> Some (NotDurable plan e, db\<lparr>db_store := s\<rparr>)
                | Some (Inr _, s) \<Rightarrow> Some (Durable plan, db\<lparr>db_store := s, db_current := ep_tail plan\<rparr>)))"

section \<open>Intents that can be written\<close>

fun intent_atom_valid :: "intent_atom \<Rightarrow> bool" where
  "intent_atom_valid (ILiteral l) \<longleftrightarrow> valid_string l"
| "intent_atom_valid _ \<longleftrightarrow> True"

fun intent_op_valid :: "intent_operation \<Rightarrow> bool" where
  "intent_op_valid (IAllocateEntity t) \<longleftrightarrow> True"
| "intent_op_valid (IDefine slot f) \<longleftrightarrow> valid_string slot \<and> intent_atom_valid (if_subject f) \<and>
     valid_string (if_predicate f) \<and> intent_atom_valid (if_object f)"
| "intent_op_valid (IForget slot) \<longleftrightarrow> valid_string slot"

definition intent_valid :: "queued_intent \<Rightarrow> bool" where
  "intent_valid i \<longleftrightarrow> list_all intent_op_valid (qi_operations i)"

lemma resolve_atom_valid: "resolve_atom a ns m = Inr b \<Longrightarrow> intent_atom_valid a \<Longrightarrow> valid_atom b"
  by (cases "(a, ns, m)" rule: resolve_atom.cases) (auto split: if_splits option.splits)

lemma resolve_fact_valid:
  "resolve_fact f ns m = Inr g \<Longrightarrow> intent_op_valid (IDefine slot f) \<Longrightarrow> valid_operation (Define slot g)"
  by (cases "resolve_atom (if_subject f) ns m"; cases "resolve_atom (if_object f) ns m")
    (auto simp: resolve_fact_def fact_new_def dest: resolve_atom_valid)

lemma resolve_loop_valid:
  "resolve_loop ns xs n m ops = Some (Inr (res, m')) \<Longrightarrow> list_all intent_op_valid xs \<Longrightarrow>
   list_all valid_operation ops \<Longrightarrow> list_all valid_operation res \<and> length res = length ops + length xs"
proof (induction ns xs n m ops rule: resolve_loop.induct)
  case (3 ns slot f xs n m ops)
  then show ?case using resolve_fact_valid [of f ns m _ slot] by (auto split: sum.splits)
qed (auto split: if_splits)

lemma vm_epoch_intent_valid:
  "vm_epoch_intent pos i (s, m) = Some (Inr s', m') \<Longrightarrow> intent_valid i \<Longrightarrow> list_all valid_operation (ve_operations s) \<Longrightarrow>
   list_all valid_operation (ve_operations s') \<and> length (ve_operations s') \<le> length (ve_operations s) + operation_count i"
  by (auto simp: vm_epoch_intent_def ve_reject_def ve_accept_def Let_def resolve_operations_from_def intent_valid_def
      operation_count_def dest!: resolve_loop_valid split: option.splits sum.splits prod.splits execution_outcome.splits)

lemma vm_epoch_loop_valid:
  "vm_epoch_loop pos is (s, m) = Some (Inr s', m') \<Longrightarrow> list_all intent_valid is \<Longrightarrow> list_all valid_operation (ve_operations s) \<Longrightarrow>
   list_all valid_operation (ve_operations s') \<and>
   length (ve_operations s') \<le> length (ve_operations s) + (\<Sum>i\<leftarrow>is. operation_count i)"
proof (induction "is" arbitrary: pos s m)
  case (Cons i "is")
  then obtain s1 m1 where 1: "vm_epoch_intent pos i (s, m) = Some (Inr s1, m1)" "vm_epoch_loop (Suc pos) is (s1, m1) = Some (Inr s', m')"
    by (auto split: option.splits sum.splits)
  with vm_epoch_intent_valid [OF 1(1)] Cons.IH [OF 1(2)] Cons.prems(2,3) show ?case by simp
qed simp

lemma derive_vm_epoch_valid:
  assumes "derive_vm_epoch base is m = Some (Inr plan, m')" and "list_all intent_valid is"
    and "(\<Sum>i\<leftarrow>is. operation_count i) \<le> unat MAX_OPERATIONS_PER_FRAME"
  shows "\<forall>f \<in> set (ep_frames plan). valid_frame f"
proof -
  let ?s = "\<lparr>ve_id = w_id base, ve_version = w_version base, ve_operations = [], ve_accepted = 0, ve_outcomes = []\<rparr>"
  from assms(1) obtain s where s: "vm_epoch_loop 0 is (?s, m) = Some (Inr s, m')"
    "\<forall>f \<in> set (ep_frames plan). operations f = ve_operations s"
    by (auto simp: derive_vm_epoch_def from_vm_epoch_def Let_def split: if_splits option.splits sum.splits)
  from vm_epoch_loop_valid [OF s(1) assms(2)] s(2) assms(3) show ?thesis
    by (auto simp: valid_frame_def)
qed

section \<open>The histories of published worlds\<close>

context kernel
begin

lemma vm_world_linked:
  "vm_world K fs w \<Longrightarrow> length fs < 2 ^ 64 \<Longrightarrow>
   well_linked fs \<and> (w_id w, w_version w, w_next_entity w) = foldl (\<lambda>_. frame_tip) (GENESIS, 0, 1) fs"
proof (induction rule: vm_world.induct)
  case (vm_reconstruct fs w)
  then show ?case using reconstruct_iff [of fs] reconstruct_tip [of fs w] by (auto split: if_splits)
next
  case (vm_epoch fs base ops nxt active_slots record_count w f)
  then have base: "well_linked fs" "foldl (\<lambda>_. frame_tip) (GENESIS, 0, 1) fs = (w_id base, w_version base, w_next_entity base)"
    by simp_all
  with vm_epoch.hyps(2,3) show ?case
    by (auto simp: well_linked_def well_linked_from_append frame_ok_def frame_tip_def from_vm_epoch_def Let_def)
qed (auto simp: fill_kernel_def fill_vm_query_def split: if_splits option.splits)

end

text \<open>A kernel without facts that has allocated as many entities.\<close>

definition blank_spec :: "u64 \<Rightarrow> kernel_spec" where
  "blank_spec n = spec_new\<lparr>spec_next_entity := n\<rparr>"

definition blank_db :: "u64 \<Rightarrow> forth_db" where
  "blank_db n = db_new\<lparr>next_entity := n\<rparr>"

definition blank_world :: "forth_db world \<Rightarrow> forth_db world" where
  "blank_world w = w\<lparr>w_eager_kernel := Some (blank_db (w_next_entity w))\<rparr>"

lemma blank_db_ok: "wf_db (blank_db n)" "abs_db (blank_db n) = blank_spec n"
proof -
  show "wf_db (blank_db n)" using wf_db_new by (simp add: wf_db_def blank_db_def active_ids_def)
  have "stack (blank_db n) = stack db_new" by (simp add: fun_eq_iff stack_def blank_db_def)
  moreover have "db_record_count (blank_db n) = db_record_count db_new"
    by (simp add: blank_db_def db_record_count_def)
  ultimately show "abs_db (blank_db n) = blank_spec n"
    using abs_db_new by (auto simp: abs_db_def blank_spec_def blank_db_def spec_new_def)
qed

lemma mat_ok_blank:
  assumes "k \<le> 2 ^ 27"
  shows "mat_ok k (blank_spec n) (materializer_new n)"
proof -
  have "room (4 * k) (with_indexes_from n 0 32)"
    using assms by (simp add: with_indexes_from_def room_def workspace_new_def arena_simps unat_NONE_32)
  moreover have "vm_abs (with_indexes_from n 0 32) = \<lparr>vs_facts = (\<lambda>_. []), vs_next = n\<rparr>"
    using workspace_new_abs [of 0 32 True] by (simp add: with_indexes_from_def vm_abs_def)
  moreover have "ws_ok (with_indexes_from n 0 32)"
    using workspace_new_ok [of 0 32 True] by (simp add: with_indexes_from_def ws_ok_def)
  ultimately show ?thesis
    using assms by (simp add: mat_ok_def materializer_new_vocab spec_shown_def blank_spec_def facts_rel_def slot_cells_def spec_new_def)
      (simp add: materializer_new_def with_indexes_from_def workspace_new_def vm_delta_count_def arena_simps)
qed

text \<open>The epoch of the step is an epoch on a world without facts.\<close>

lemma derive_prepared_ok:
  assumes "vm_world reference_kernel fs base" and "Suc (length fs + length is) < 2 ^ 64" and "list_all intent_fits is"
    and "list_all intent_valid is" and "(\<Sum>i\<leftarrow>is. operation_count i) \<le> unat MAX_OPERATIONS_PER_FRAME"
    and "unat (w_next_entity base) + (\<Sum>i\<leftarrow>is. allocations i) \<le> 2 ^ 63"
  shows "\<exists>plan p. derive_epoch_world reference_kernel (blank_world base) is [] = Some plan \<and>
    derive_prepared reference_kernel is base [] = Inr p \<and> ep_frames p = ep_frames plan \<and>
    map outcome_result (ep_outcomes p) = map outcome_result (ep_outcomes plan) \<and>
    vm_world reference_kernel (fs @ ep_frames p) (ep_tail p) \<and> (ep_frames p = [] \<longrightarrow> ep_tail p = base) \<and>
    (\<forall>f \<in> set (ep_frames p). valid_frame f) \<and> length (ep_frames p) \<le> 1"
proof -
  let ?n = "w_next_entity base" and ?m = "materializer_new (w_next_entity base)"
  have "w_version base = word_of_nat (length fs)"
    using reference.vm_world_view_ok [OF assms(1)] assms(2) by (simp add: reference.view_ok_def)
  then have version: "unat (w_version (blank_world base)) + length is < 2 ^ 64"
    using assms(2) by (simp add: blank_world_def unat_of_nat)
  have same: "same_tip base (blank_world base)" by (simp add: same_tip_def blank_world_def)
  have kn: "world_kernel reference_kernel (blank_world base) = Some (blank_db ?n)"
    by (simp add: world_kernel_def blank_world_def)
  have mat: "mat_ok ((\<Sum>i\<leftarrow>is. operation_count i) + 0) (abs_db (blank_db ?n)) ?m"
    using assms(5) by (simp add: blank_db_ok mat_ok_blank)
  have alloc: "w_next_entity (blank_world base) = spec_next_entity (abs_db (blank_db ?n))"
    "unat (w_next_entity (blank_world base)) + (\<Sum>i\<leftarrow>is. allocations i) \<le> 2 ^ 63"
    using assms(6) by (simp_all add: blank_world_def blank_db_ok blank_spec_def)
  from reference.vm_epoch_agrees [OF same kn blank_db_ok(1) alloc(1) mat version assms(3) alloc(2)]
  obtain plan p m where run: "derive_epoch_world reference_kernel (blank_world base) is [] = Some plan"
    "derive_vm_epoch base is ?m = Some (Inr p, m)" "ep_frames p = ep_frames plan"
    "map outcome_result (ep_outcomes p) = map outcome_result (ep_outcomes plan)"
    and frames: "ep_frames plan = [] \<and> ep_tail p = base \<or> (\<exists>ops n a r f. ep_frames plan = [f] \<and>
      allocate_check ops (w_next_entity (blank_world base)) = Inr n \<and> from_vm_epoch base ops n a r = (ep_tail p, f))"
    by blast
  have "derive_prepared reference_kernel is base [] = Inr p"
    using run(2) by (simp add: derive_prepared_def materialize_def)
  moreover have "vm_world reference_kernel (fs @ ep_frames p) (ep_tail p)" "ep_frames p = [] \<longrightarrow> ep_tail p = base"
    "length (ep_frames p) \<le> 1"
    using frames run(3) assms(1) by (auto simp: blank_world_def intro: vm_epoch)
  ultimately show ?thesis using run derive_vm_epoch_valid [OF run(2) assms(4,5)] by blast
qed

definition durable_ok :: "commit_frame list \<Rightarrow> (forth_db, std_file file_epoch_store) database \<Rightarrow> bool" where
  "durable_ok fs db \<longleftrightarrow>
     vm_world reference_kernel fs (db_current db) \<and> epoch_store_ok reference_kernel sf_bytes (db_store db) \<and>
     es_frames (db_store db) = fs \<and> db_validators db = []"

lemma commit_durable_epoch_ok:
  assumes ok: "durable_ok fs db" and len: "length (sf_bytes (es_io (db_store db))) < 2 ^ 64"
    and bounds: "Suc (length fs + length is) < 2 ^ 64" "list_all intent_fits is" "list_all intent_valid is"
      "(\<Sum>i\<leftarrow>is. operation_count i) \<le> unat MAX_OPERATIONS_PER_FRAME"
      "unat (w_next_entity (db_current db)) + (\<Sum>i\<leftarrow>is. allocations i) \<le> 2 ^ 63"
  shows "\<exists>plan r db'. derive_epoch_world reference_kernel (blank_world (db_current db)) is [] = Some plan \<and>
    commit_durable_epoch reference_kernel std_io is db = Some (r, db') \<and>
    (case r of
       Durable p \<Rightarrow> durable_ok (fs @ ep_frames plan) db' \<and> ep_frames p = ep_frames plan \<and>
         map outcome_result (ep_outcomes p) = map outcome_result (ep_outcomes plan)
     | NotDurable p e \<Rightarrow> db_current db' = db_current db \<and> es_frames (db_store db') = fs \<and>
         (durable_ok fs db' \<and> sf_bytes (es_io (db_store db')) = sf_bytes (es_io (db_store db)) \<or>
          es_state (db_store db') = Poisoned)
     | WorkerPanic failure \<Rightarrow> False)"
proof -
  from ok have world: "vm_world reference_kernel fs (db_current db)" and st: "epoch_store_ok reference_kernel sf_bytes (db_store db)"
    and fs: "es_frames (db_store db) = fs" and vs: "db_validators db = []"
    by (simp_all add: durable_ok_def)
  from derive_prepared_ok [OF world bounds] obtain plan p where
    plan: "derive_epoch_world reference_kernel (blank_world (db_current db)) is [] = Some plan" and
    p: "derive_prepared reference_kernel is (db_current db) [] = Inr p" "ep_frames p = ep_frames plan"
      "map outcome_result (ep_outcomes p) = map outcome_result (ep_outcomes plan)"
      "vm_world reference_kernel (fs @ ep_frames p) (ep_tail p)" "ep_frames p = [] \<longrightarrow> ep_tail p = db_current db"
      "\<forall>f \<in> set (ep_frames p). valid_frame f" "length (ep_frames p) \<le> 1" by blast
  show ?thesis
  proof (cases "ep_frames p = []")
    case True
    with p vs have "commit_durable_epoch reference_kernel std_io is db = Some (Durable p, db)"
      by (simp add: commit_durable_epoch_def plan_is_empty_def)
    with plan p True ok show ?thesis by auto
  next
    case False
    have "length (fs @ ep_frames p) < 2 ^ 64" using bounds(1) p(7) by simp
    with reference.vm_world_linked [OF p(4)] obtain w where
      "reconstruct reference_kernel (es_frames (db_store db) @ ep_frames p) = Some (Inr w)"
      using reference.reconstruct_iff [of "fs @ ep_frames p"] fs by auto
    from std_epoch_file.append_epoch_cases [OF st len p(6) this] obtain r s where
      run: "append_epoch reference_kernel std_io (ep_frames p) (db_store db) = Some (r, s)" and
      res: "case r of
         Inr _ \<Rightarrow> epoch_store_ok reference_kernel sf_bytes s \<and> es_frames s = fs @ ep_frames p \<and>
           sf_bytes (es_io s) = sf_bytes (es_io (db_store db)) @ records (ep_frames p)
       | Inl e \<Rightarrow> es_frames s = fs \<and>
           (epoch_store_ok reference_kernel sf_bytes s \<and> sf_bytes (es_io s) = sf_bytes (es_io (db_store db)) \<or>
            es_state s = Poisoned \<and> (\<exists>p err q os. e = RepairFailed p err q (RepairOs os)))"
      unfolding fs by blast
    show ?thesis
    proof (cases r)
      case (Inl e)
      with run p(1) vs False have "commit_durable_epoch reference_kernel std_io is db = Some (NotDurable p e, db\<lparr>db_store := s\<rparr>)"
        by (simp add: commit_durable_epoch_def plan_is_empty_def)
      with plan res Inl world vs show ?thesis by (auto simp: durable_ok_def)
    next
      case (Inr u)
      with run p(1) vs False have "commit_durable_epoch reference_kernel std_io is db =
          Some (Durable p, db\<lparr>db_store := s, db_current := ep_tail p\<rparr>)"
        by (simp add: commit_durable_epoch_def plan_is_empty_def)
      with plan res Inr p vs show ?thesis by (auto simp: durable_ok_def)
    qed
  qed
qed

section \<open>Properties\<close>

text \<open>The intent that defines a fact about an entity.\<close>

definition entity_intent :: "slot_id \<Rightarrow> entity_id \<Rightarrow> string \<Rightarrow> string \<Rightarrow> queued_intent" where
  "entity_intent slot e p l =
     intent_define slot \<lparr>if_subject = IEntity e, if_predicate = p, if_object = ILiteral l\<rparr> (fst (intent_new 0))"

lemma entity_intent_panics:
  assumes "durable_ok fs db" and "VM_LITERAL_BASE \<le> e"
  shows "commit_durable_epoch reference_kernel std_io [entity_intent slot e p l] db =
    Some (WorkerPanic (VmMaterialize ''entity identifier overlaps the VM literal namespace''), db)"
proof -
  obtain token m where token: "vm_slot_token slot (materializer_new (w_next_entity (db_current db))) = (token, m)"
    by fastforce
  have allocator: "ws_next_entity (vm_workspace (materializer_new n)) = n" for n
    by (simp add: materializer_new_def with_indexes_from_def workspace_new_def)
  have "\<not> e < VM_LITERAL_BASE"
    using assms(2) by simp
  then show ?thesis
    using assms(1)
    by (simp add: commit_durable_epoch_def derive_prepared_def materialize_def derive_vm_epoch_def vm_epoch_intent_def
        vm_check_preconditions_def resolve_operations_from_def resolve_fact_def fact_new_def compile_operations_def
        entity_intent_def intent_define_def intent_new_def durable_ok_def allocator token)
qed

text \<open>
  C23. The durable step of the controller is atomic.  Take a consistent database without validators
  and an epoch of at most a million operations whose entities, given and allocated, are below the
  literal cells and whose strings are UTF-8.  The step then does not panic and either makes its
  epoch durable and publishes it, so that the store holds the longer history and the current world
  shows it, or reports a failure and leaves the current world and the recorded frames as they were,
  with the store repaired or poisoned.  The epoch is the one of a world at the same place without
  any fact (\<open>blank_world\<close>).  On the same database an intent that defines a fact about an entity
  among the literal cells makes the step panic, and nothing is changed.
\<close>

theorem durable_epoch_commits:
  assumes "durable_ok fs db" and "length (sf_bytes (es_io (db_store db))) < 2 ^ 64"
    and "Suc (length fs + length is) < 2 ^ 64" and "list_all intent_fits is" and "list_all intent_valid is"
    and "(\<Sum>i\<leftarrow>is. operation_count i) \<le> unat MAX_OPERATIONS_PER_FRAME"
    and "unat (w_next_entity (db_current db)) + (\<Sum>i\<leftarrow>is. allocations i) \<le> 2 ^ 63"
  shows "(\<exists>plan r db'. derive_epoch_world reference_kernel (blank_world (db_current db)) is [] = Some plan \<and>
    commit_durable_epoch reference_kernel std_io is db = Some (r, db') \<and>
    (case r of
       Durable p \<Rightarrow> durable_ok (fs @ ep_frames plan) db' \<and> ep_frames p = ep_frames plan \<and>
         map outcome_result (ep_outcomes p) = map outcome_result (ep_outcomes plan)
     | NotDurable p e \<Rightarrow> db_current db' = db_current db \<and> es_frames (db_store db') = fs \<and>
         (durable_ok fs db' \<and> sf_bytes (es_io (db_store db')) = sf_bytes (es_io (db_store db)) \<or>
          es_state (db_store db') = Poisoned)
     | WorkerPanic failure \<Rightarrow> False)) \<and>
   (\<forall>slot e p l. VM_LITERAL_BASE \<le> e \<longrightarrow> (\<exists>failure.
     commit_durable_epoch reference_kernel std_io [entity_intent slot e p l] db = Some (WorkerPanic failure, db)))"
  using commit_durable_epoch_ok [OF assms] entity_intent_panics [OF assms(1)] by blast

definition durable_sample :: "io_answer list \<Rightarrow> (forth_db, std_file file_epoch_store) database" where
  "durable_sample answers =
     \<lparr>db_current = genesis reference_kernel, db_store = fresh_epoch_store PerEpoch answers, db_validators = []\<rparr>"

lemma durable_sample_ok: "durable_ok [] (durable_sample answers)"
proof -
  have "vm_world reference_kernel [] (genesis reference_kernel)"
    by (rule vm_reconstruct) (simp_all add: sample_reconstruct numbered_def)
  then show ?thesis
    using fresh_epoch_store_ok [of PerEpoch answers] by (simp add: durable_ok_def durable_sample_def) (simp add: fresh_epoch_store_def)
qed

theorem durable_epoch_commits_witness:
  "\<exists>frames r db. commit_durable_epoch reference_kernel std_io [sample_intent] (durable_sample [Works, Short 5, Works, Fails 3 5]) = Some (r, db) \<and>
     (case r of Durable p \<Rightarrow> durable_ok frames db | NotDurable p e \<Rightarrow> durable_ok [] db \<or> es_state (db_store db) = Poisoned
      | WorkerPanic f \<Rightarrow> False)"
proof -
  let ?db = "durable_sample [Works, Short 5, Works, Fails 3 5]"
  have 1: "length (sf_bytes (es_io (db_store ?db))) < 2 ^ 64" by (simp add: durable_sample_def fresh_epoch_store_def)
  have 2: "Suc (length [] + length [sample_intent]) < 2 ^ 64" by simp
  have 3: "list_all intent_fits [sample_intent]" "list_all intent_valid [sample_intent]"
    by (simp_all add: sample_intent_def intent_fits_def intent_valid_def Let_def intent_fact_new_def valid_string_def
        rust_string_def small_def as_bytes_def byte_of_char_def utf8_valid_ascii)
  have 4: "(\<Sum>i\<leftarrow>[sample_intent]. operation_count i) \<le> unat MAX_OPERATIONS_PER_FRAME"
    by (simp add: sample_intent_def operation_count_def Let_def)
  have 5: "unat (w_next_entity (db_current ?db)) + (\<Sum>i\<leftarrow>[sample_intent]. allocations i) \<le> 2 ^ 63"
    by (simp add: durable_sample_def genesis_def sample_allocations)
  from durable_epoch_commits [OF durable_sample_ok 1 2 3 4 5] obtain plan :: "forth_db epoch_plan" and r db where
    run: "commit_durable_epoch reference_kernel std_io [sample_intent] ?db = Some (r, db)"
    and res: "case r of
       Durable p \<Rightarrow> durable_ok ([] @ ep_frames plan) db \<and> ep_frames p = ep_frames plan \<and>
         map outcome_result (ep_outcomes p) = map outcome_result (ep_outcomes plan)
     | NotDurable p e \<Rightarrow> db_current db = db_current ?db \<and> es_frames (db_store db) = [] \<and>
         (durable_ok [] db \<and> sf_bytes (es_io (db_store db)) = sf_bytes (es_io (db_store ?db)) \<or>
          es_state (db_store db) = Poisoned)
     | WorkerPanic failure \<Rightarrow> False" by blast
  show ?thesis
    by (rule exI [of _ "ep_frames plan"], rule exI [of _ r], rule exI [of _ db]) (use run res in \<open>cases r; auto\<close>)
qed

text \<open>An intent that only checks one slot.\<close>

lemma guard_epoch:
  assumes "world_kernel reference_kernel base = Some k" and "wf_db k"
    and "qi_preconditions i = [ExpectedSlot slot expected]" and "qi_operations i = []"
  shows "\<exists>plan. derive_epoch_world reference_kernel base [i] [] = Some plan \<and>
    map outcome_result (ep_outcomes plan) =
      [(0, if top (stack k slot) = expected then Inr Map.empty else Inl (SlotPrecondition slot expected (top (stack k slot))))]"
proof -
  have look: "k_resolve reference_kernel slot k = Some (top (stack k slot))"
    using reference.resolve [OF assms(2), of slot] by simp
  show ?thesis
    using assms(1,3,4) look reference.validate [OF assms(2)]
    by (auto simp: derive_epoch_world_def workspace_intent_def check_workspace_preconditions_def
        resolve_operations_from_def construct_from_state_def outcome_result_def into_materialized_state_def Let_def
        split: option.splits)
qed

lemma guard_intents:
  "qi_preconditions (expect_value slot f (fst (intent_new ns))) = [ExpectedSlot slot (Some f)]"
  "qi_preconditions (expect_absent slot (fst (intent_new ns))) = [ExpectedSlot slot None]"
  "qi_operations (expect_value slot f (fst (intent_new ns))) = []"
  "qi_operations (expect_absent slot (fst (intent_new ns))) = []"
  by (simp_all add: expect_value_def expect_absent_def intent_new_def)

text \<open>
  C33. The durable controller checks slot preconditions against an empty world.  When the
  published world shows a fact in a slot, an intent that expects this fact is rejected as if the
  slot were empty, although an epoch on the world accepts it, and an intent that expects the slot
  to be empty is accepted, although an epoch on the world rejects it.
\<close>

theorem durable_epoch_ignores_world:
  assumes "vm_world reference_kernel fs base" and "length fs < 2 ^ 64 - 2" and "w_next_entity base \<le> 2 ^ 63"
    and "world_resolve reference_kernel slot base = Some (Some f)"
  shows "(\<exists>durable world.
     derive_prepared reference_kernel [expect_value slot f (fst (intent_new ns))] base [] = Inr durable \<and>
     map outcome_result (ep_outcomes durable) = [(0, Inl (SlotPrecondition slot (Some f) None))] \<and>
     derive_epoch_world reference_kernel base [expect_value slot f (fst (intent_new ns))] [] = Some world \<and>
     map outcome_result (ep_outcomes world) = [(0, Inr Map.empty)]) \<and>
    (\<exists>durable world.
     derive_prepared reference_kernel [expect_absent slot (fst (intent_new ns))] base [] = Inr durable \<and>
     map outcome_result (ep_outcomes durable) = [(0, Inr Map.empty)] \<and>
     derive_epoch_world reference_kernel base [expect_absent slot (fst (intent_new ns))] [] = Some world \<and>
     map outcome_result (ep_outcomes world) = [(0, Inl (SlotPrecondition slot None (Some f)))])"
proof -
  have len: "length fs < 2 ^ 64" using assms(2) by simp
  obtain k where k: "world_kernel reference_kernel base = Some k" "wf_db k" "stack k = spec_stacks (frames_spec fs)"
    using reference.world_kernel_ok [OF reference.vm_world_view_ok [OF assms(1) len] len]
    by (auto simp: reference.holds_def simp flip: abs_db_sel(1))
  then have shown: "top (stack k slot) = Some f"
    using vm_world_views [OF assms(1) len] assms(4) by simp
  have blank: "world_kernel reference_kernel (blank_world base) = Some (blank_db (w_next_entity base))"
    by (simp add: world_kernel_def blank_world_def)
  have empty: "stack (blank_db n) slot = []" for n
    using abs_db_sel(1) [of "blank_db n", symmetric] by (simp add: blank_db_ok blank_spec_def spec_new_def)
  have run: "\<exists>durable world. derive_prepared reference_kernel [i] base [] = Inr durable \<and>
      map outcome_result (ep_outcomes durable) =
        [(0, if None = expected then Inr Map.empty else Inl (SlotPrecondition slot expected None))] \<and>
      derive_epoch_world reference_kernel base [i] [] = Some world \<and>
      map outcome_result (ep_outcomes world) =
        [(0, if Some f = expected then Inr Map.empty else Inl (SlotPrecondition slot expected (Some f)))]"
    if i: "qi_preconditions i = [ExpectedSlot slot expected]" "qi_operations i = []" for i expected
  proof -
    have "list_all intent_fits [i]" "list_all intent_valid [i]" "(\<Sum>i\<leftarrow>[i]. operation_count i) \<le> unat MAX_OPERATIONS_PER_FRAME"
      "unat (w_next_entity base) + (\<Sum>i\<leftarrow>[i]. allocations i) \<le> 2 ^ 63" "Suc (length fs + length [i]) < 2 ^ 64"
      using i assms(2,3) by (simp_all add: intent_fits_def intent_valid_def operation_count_def allocations_def word_le_nat_alt)
    with derive_prepared_ok [OF assms(1), of "[i]"] obtain plan p where
      "derive_epoch_world reference_kernel (blank_world base) [i] [] = Some plan"
      "derive_prepared reference_kernel [i] base [] = Inr p"
      "map outcome_result (ep_outcomes p) = map outcome_result (ep_outcomes plan)" by blast
    with guard_epoch [OF blank blank_db_ok(1) i] guard_epoch [OF k(1,2) i] show ?thesis
      by (auto simp: empty shown)
  qed
  show ?thesis
    using run [OF guard_intents(1) [of slot f ns] guard_intents(3)] run [OF guard_intents(2) [of slot ns] guard_intents(4)]
    by simp
qed

definition guarded_sample :: commit_frame where
  "guarded_sample =
     (let ops = [Define ''s'' (fact_new (ALiteral ''x'') ''p'' (AEntity 1))]
      in \<lparr>parent_world = GENESIS, resulting_world = calculate_world_id GENESIS 1 1 ops, parent_version = 0,
          resulting_version = 1, resulting_allocator = 1, operations = ops\<rparr>)"

theorem durable_epoch_ignores_world_witness:
  "\<exists>base durable. vm_world reference_kernel [guarded_sample] base \<and>
    world_resolve reference_kernel ''s'' base = Some (Some (fact_new (ALiteral ''x'') ''p'' (AEntity 1))) \<and>
    derive_prepared reference_kernel [expect_absent ''s'' (fst (intent_new 3))] base [] = Inr durable \<and>
    map outcome_result (ep_outcomes durable) = [(0, Inr Map.empty)]"
proof -
  obtain base where base: "reconstruct reference_kernel [guarded_sample] = Some (Inr base)"
    using reference.reconstruct_iff [of "[guarded_sample]"]
    by (auto simp: well_linked_def guarded_sample_def frame_ok_def Let_def)
  have world: "vm_world reference_kernel [guarded_sample] base"
    by (rule vm_reconstruct [OF base]) (simp add: numbered_def guarded_sample_def Let_def)
  have "w_next_entity base \<le> 2 ^ 63"
    using reference.reconstruct_tip [OF base] by (simp add: frame_tip_def guarded_sample_def Let_def)
  moreover have "world_resolve reference_kernel ''s'' base = Some (Some (fact_new (ALiteral ''x'') ''p'' (AEntity 1)))"
    using vm_world_views [OF world] by (simp add: frames_spec_def frames_commands_def spec_run_def spec_new_def guarded_sample_def Let_def)
  ultimately show ?thesis
    using durable_epoch_ignores_world [OF world, of "''s''" "fact_new (ALiteral ''x'') ''p'' (AEntity 1)" 3] world by auto
qed

end
