(* ===== verification/Durable_Controller.thy ===== *)
theory Durable_Controller
  imports Durable_Epochs
begin

text \<open>
  The durable controller (\<open>file_epoch_controller.rs\<close>): clients submit intents through a bounded
  channel, one worker claims them in batches, commits each batch as an epoch and resolves the
  tickets.  Every action on shared state is a step of \<open>worker_step\<close> or \<open>client_step\<close>, and client,
  shutdown and worker steps interleave; the sender lock, which \<open>submit\<close> holds from its check of
  the state to its send, is the field \<open>ct_submitting\<close>.  When a batch is sealed depends on clocks
  and on the channel being empty; the model may seal at any time, which covers every batch policy.
  Clocks and the timing metrics are not modelled; a submission is two steps, up to its reservation and
  from its send; a ticket is named by its position.

  An epoch, from its derivation to the routing of its outcomes, is one step of the worker: clients
  see of it only the tickets, which are routed at its end, and the world, which is published once.
  Other holders of the database of the controller (strict commits, new validators) are not client
  steps.  A panic inside the epoch is caught and followed; a panic inside the store, and one in the
  loop outside the epoch, which \<open>run_durable_worker\<close> would also catch, is not: the loop has none in
  the model.
\<close>

section \<open>State\<close>

datatype ctl_state = CStarting | CRunning | CDraining | CClosed | CPoisoned

datatype ticket_phase = TQueued | TClaimed | TResolved

text \<open>
  \<open>tk_sender\<close>: the worker's end of the completion channel exists; \<open>tk_receiver\<close>: the client's.
\<close>

record 'k ticket =
  tk_phase :: ticket_phase
  tk_abandoned :: bool
  tk_sender :: bool
  tk_receiver :: bool
  tk_mailbox :: "'k ticket_outcome option"
  tk_observed :: bool

definition ticket_new :: "'k ticket" where
  "ticket_new = \<lparr>tk_phase = TQueued, tk_abandoned = False, tk_sender = True, tk_receiver = True,
     tk_mailbox = None, tk_observed = False\<rparr>"

record staged_intent =
  si_intent :: queued_intent
  si_ticket :: nat

datatype ctl_command = CIntent staged_intent | CBarrier nat

datatype flush_state = FlushSending | FlushWaiting | FlushDone bool

datatype drain_reason = DrainShutdown | DrainWorkerFailed poison_cause

datatype worker_pc =
    WReceive
  | WBatch "staged_intent list"
  | WSealed "staged_intent list"
  | WTakeSender poison_cause
  | WDrain drain_reason
  | WLeaving
  | WReturning
  | WExited

datatype shutdown_pc = ShutNone | ShutMark ctl_state | ShutTake ctl_state | ShutJoin ctl_state | ShutDone ctl_state ctl_state

record ctl_metrics =
  cm_submitted :: nat
  cm_backpressured :: nat
  cm_queue_depth :: nat
  cm_maximum_queue_depth :: nat
  cm_claimed :: nat
  cm_in_flight :: nat
  cm_accepted :: nat
  cm_rejected :: nat
  cm_durability_failed :: nat
  cm_shutdown_before_claim :: nat
  cm_worker_failed :: nat
  cm_completion_delivery_failures :: nat
  cm_abandoned_tickets :: nat
  cm_epochs :: nat

record ('k, 's) controller =
  ct_database :: "('k, 's file_epoch_store) database"
  ct_state :: ctl_state
  ct_reason :: "poison_cause option"
  ct_capacity :: nat
  ct_max_batch :: nat
  ct_sender :: bool
  ct_receiver :: bool
  ct_channel :: "ctl_command list"
  ct_pending :: "ctl_command list"
  ct_worker :: worker_pc
  ct_submitting :: "queued_intent option"
  ct_tickets :: "'k ticket list"
  ct_flushes :: "flush_state list"
  ct_shutdown :: shutdown_pc
  ct_metrics :: ctl_metrics

datatype config_error = ZeroCapacity | ZeroBatchSize

definition controller_new ::
  "('k, 's file_epoch_store) database \<Rightarrow> nat \<Rightarrow> nat \<Rightarrow> config_error + ('k, 's) controller" where
  "controller_new db capacity max_batch =
     (if capacity = 0 then Inl ZeroCapacity
      else if max_batch = 0 then Inl ZeroBatchSize
      else Inr \<lparr>ct_database = db, ct_state = CRunning, ct_reason = None, ct_capacity = capacity, ct_max_batch = max_batch,
        ct_sender = True, ct_receiver = True, ct_channel = [], ct_pending = [], ct_worker = WReceive,
        ct_submitting = None, ct_tickets = [], ct_flushes = [], ct_shutdown = ShutNone,
        ct_metrics = \<lparr>cm_submitted = 0, cm_backpressured = 0, cm_queue_depth = 0, cm_maximum_queue_depth = 0,
          cm_claimed = 0, cm_in_flight = 0, cm_accepted = 0, cm_rejected = 0, cm_durability_failed = 0,
          cm_shutdown_before_claim = 0, cm_worker_failed = 0, cm_completion_delivery_failures = 0,
          cm_abandoned_tickets = 0, cm_epochs = 0\<rparr>\<rparr>)"

section \<open>Shared helpers\<close>

definition update_metrics :: "(ctl_metrics \<Rightarrow> ctl_metrics) \<Rightarrow> ('k, 's) controller \<Rightarrow> ('k, 's) controller" where
  "update_metrics g ct = ct\<lparr>ct_metrics := g (ct_metrics ct)\<rparr>"

definition update_ticket :: "nat \<Rightarrow> ('k ticket \<Rightarrow> 'k ticket) \<Rightarrow> ('k, 's) controller \<Rightarrow> ('k, 's) controller" where
  "update_ticket t g ct = ct\<lparr>ct_tickets := (ct_tickets ct)[t := g (ct_tickets ct ! t)]\<rparr>"

definition ctl_poison :: "poison_cause \<Rightarrow> ('k, 's) controller \<Rightarrow> ('k, 's) controller" where
  "ctl_poison cause ct = ct\<lparr>ct_reason := Some cause, ct_state := CPoisoned\<rparr>"

definition poison_store :: "poison_cause \<Rightarrow> ('k, 's) controller \<Rightarrow> ('k, 's) controller" where
  "poison_store cause ct =
     ct\<lparr>ct_database := (ct_database ct)\<lparr>db_store := poison_external (cause_text cause) (db_store (ct_database ct))\<rparr>\<rparr>"

definition reserve_ingress :: "('k, 's) controller \<Rightarrow> ('k, 's) controller option" where
  "reserve_ingress ct =
     (if cm_queue_depth (ct_metrics ct) \<ge> ct_capacity ct then None
      else Some (update_metrics (\<lambda>m. m\<lparr>cm_queue_depth := cm_queue_depth m + 1\<rparr>) ct))"

definition release_ingress :: "('k, 's) controller \<Rightarrow> ('k, 's) controller" where
  "release_ingress = update_metrics (\<lambda>m. m\<lparr>cm_queue_depth := cm_queue_depth m - 1\<rparr>)"

text \<open>\<open>resolve\<close>: the worker's end is used up by the send.\<close>

definition ticket_resolve :: "nat \<Rightarrow> 'k ticket_outcome \<Rightarrow> ('k, 's) controller \<Rightarrow> ('k, 's) controller" where
  "ticket_resolve t out ct =
     (let ct = update_ticket t (\<lambda>tk. tk\<lparr>tk_phase := TResolved, tk_sender := False,
                 tk_mailbox := (if tk_receiver tk then Some out else tk_mailbox tk)\<rparr>) ct
      in if tk_receiver (ct_tickets ct ! t) then ct
         else update_metrics (\<lambda>m. m\<lparr>cm_completion_delivery_failures := cm_completion_delivery_failures m + 1\<rparr>) ct)"

definition flush_set :: "nat \<Rightarrow> flush_state \<Rightarrow> ('k, 's) controller \<Rightarrow> ('k, 's) controller" where
  "flush_set n fl ct = ct\<lparr>ct_flushes := (ct_flushes ct)[n := fl]\<rparr>"

section \<open>Clients\<close>

datatype submit_error = SubmitPoisoned "poison_cause option" | SubmitClosed | SubmitFull

text \<open>The first half of \<open>submit\<close>, under the sender lock, up to the send.\<close>

definition submit_begin :: "queued_intent \<Rightarrow> ('k, 's) controller \<Rightarrow> (submit_error + unit) \<times> ('k, 's) controller" where
  "submit_begin i ct =
     (case ct_state ct of
        CPoisoned \<Rightarrow> (Inl (SubmitPoisoned (ct_reason ct)), ct)
      | CRunning \<Rightarrow>
          if \<not> ct_sender ct then (Inl SubmitClosed, ct)
          else (case reserve_ingress ct of
                  None \<Rightarrow> (Inl SubmitFull, update_metrics (\<lambda>m. m\<lparr>cm_backpressured := cm_backpressured m + 1\<rparr>) ct)
                | Some ct \<Rightarrow> (Inr (), ct\<lparr>ct_submitting := Some i\<rparr>))
      | _ \<Rightarrow> (Inl SubmitClosed, ct))"

text \<open>The send, and what follows it; the depth observed is the one reserved.\<close>

definition submit_end :: "queued_intent \<Rightarrow> ('k, 's) controller \<Rightarrow> (submit_error + nat) \<times> ('k, 's) controller" where
  "submit_end i ct =
     (let ct = ct\<lparr>ct_submitting := None\<rparr>
      in if \<not> ct_receiver ct
         then (Inl (SubmitPoisoned (Some ChannelDisconnected)), ctl_poison ChannelDisconnected (release_ingress ct))
         else if length (ct_channel ct) \<ge> ct_capacity ct
         then (Inl SubmitFull, update_metrics (\<lambda>m. m\<lparr>cm_backpressured := cm_backpressured m + 1\<rparr>) (release_ingress ct))
         else let t = length (ct_tickets ct)
           in (Inr t, update_metrics (\<lambda>m. m\<lparr>cm_maximum_queue_depth := max (cm_maximum_queue_depth m) (cm_queue_depth m),
                        cm_submitted := cm_submitted m + 1\<rparr>)
                (ct\<lparr>ct_channel := ct_channel ct @ [CIntent \<lparr>si_intent = i, si_ticket = t\<rparr>],
                    ct_tickets := ct_tickets ct @ [ticket_new]\<rparr>)))"

definition flush_begin :: "('k, 's) controller \<Rightarrow> ('k, 's) controller" where
  "flush_begin ct =
     ct\<lparr>ct_flushes := ct_flushes ct @ [if ct_state ct \<noteq> CRunning \<or> \<not> ct_sender ct then FlushDone False else FlushSending]\<rparr>"

text \<open>The blocking send of a barrier: it waits (\<open>None\<close>) while the channel is full.\<close>

definition flush_send :: "nat \<Rightarrow> ('k, 's) controller \<Rightarrow> ('k, 's) controller option" where
  "flush_send n ct =
     (if \<not> ct_receiver ct then Some (flush_set n (FlushDone False) ct)
      else if length (ct_channel ct) \<ge> ct_capacity ct then None
      else Some (flush_set n FlushWaiting (ct\<lparr>ct_channel := ct_channel ct @ [CBarrier n]\<rparr>)))"

text \<open>\<open>try_wait\<close>: the outcome, nothing yet, or the error that no outcome will come.\<close>

definition ticket_try_wait :: "nat \<Rightarrow> ('k, 's) controller \<Rightarrow> (unit + 'k ticket_outcome option) \<times> ('k, 's) controller" where
  "ticket_try_wait t ct =
     (let tk = ct_tickets ct ! t; seen = update_ticket t (\<lambda>tk. tk\<lparr>tk_observed := True, tk_receiver := False, tk_mailbox := None\<rparr>) ct
      in case tk_mailbox tk of
           Some out \<Rightarrow> (Inr (Some out), seen)
         | None \<Rightarrow> if tk_sender tk then (Inr None, ct) else (Inl (), seen))"

definition ticket_drop :: "nat \<Rightarrow> ('k, 's) controller \<Rightarrow> ('k, 's) controller" where
  "ticket_drop t ct =
     (let tk = ct_tickets ct ! t; ct' = update_ticket t (\<lambda>tk. tk\<lparr>tk_receiver := False\<rparr>) ct
      in if tk_observed tk then ct'
         else let gone = update_ticket t (\<lambda>tk. tk\<lparr>tk_abandoned := True\<rparr>) ct'
              in if tk_abandoned tk then gone
                 else update_metrics (\<lambda>m. m\<lparr>cm_abandoned_tickets := cm_abandoned_tickets m + 1\<rparr>) gone)"

section \<open>Shutdown\<close>

text \<open>\<open>shutdown_internal\<close> reads the state and then stores the new one.\<close>

definition shutdown_begin :: "('k, 's) controller \<Rightarrow> ('k, 's) controller" where
  "shutdown_begin ct = ct\<lparr>ct_shutdown := ShutMark (ct_state ct)\<rparr>"

definition shutdown_mark :: "ctl_state \<Rightarrow> ('k, 's) controller \<Rightarrow> ('k, 's) controller" where
  "shutdown_mark previous ct =
     ct\<lparr>ct_shutdown := ShutTake previous,
        ct_state := (if previous \<in> {CStarting, CRunning} then CDraining else ct_state ct)\<rparr>"

definition shutdown_take :: "ctl_state \<Rightarrow> ('k, 's) controller \<Rightarrow> ('k, 's) controller" where
  "shutdown_take previous ct = ct\<lparr>ct_sender := False, ct_shutdown := ShutJoin previous\<rparr>"

definition shutdown_join :: "ctl_state \<Rightarrow> ('k, 's) controller \<Rightarrow> ('k, 's) controller" where
  "shutdown_join previous ct =
     (let final = (if ct_state ct = CDraining then CClosed else ct_state ct)
      in ct\<lparr>ct_state := final, ct_shutdown := ShutDone previous final\<rparr>)"

section \<open>The worker\<close>

definition claim :: "staged_intent \<Rightarrow> ('k, 's) controller \<Rightarrow> ('k, 's) controller" where
  "claim s ct =
     update_ticket (si_ticket s) (\<lambda>tk. tk\<lparr>tk_phase := TClaimed\<rparr>)
       (update_metrics (\<lambda>m. m\<lparr>cm_claimed := cm_claimed m + 1\<rparr>) (release_ingress ct))"

definition reject_command :: "ctl_command \<Rightarrow> drain_reason \<Rightarrow> ('k, 's) controller \<Rightarrow> ('k, 's) controller" where
  "reject_command c reason ct =
     (case c of
        CIntent s \<Rightarrow>
          let ct = release_ingress ct
          in (case reason of
                DrainShutdown \<Rightarrow>
                  ticket_resolve (si_ticket s) (TStopped ShutdownBeforeClaim)
                    (update_metrics (\<lambda>m. m\<lparr>cm_shutdown_before_claim := cm_shutdown_before_claim m + 1\<rparr>) ct)
              | DrainWorkerFailed cause \<Rightarrow>
                  ticket_resolve (si_ticket s) (TStopped (WorkerFailed cause))
                    (update_metrics (\<lambda>m. m\<lparr>cm_worker_failed := cm_worker_failed m + 1\<rparr>) ct))
      | CBarrier n \<Rightarrow> flush_set n (FlushDone False) ct)"

text \<open>The next command of the loop: the pending ones first.\<close>

fun next_command :: "('k, 's) controller \<Rightarrow> (ctl_command \<times> ('k, 's) controller) option" where
  "next_command ct =
     (case ct_pending ct of
        c # cs \<Rightarrow> Some (c, ct\<lparr>ct_pending := cs\<rparr>)
      | [] \<Rightarrow> (case ct_channel ct of c # cs \<Rightarrow> Some (c, ct\<lparr>ct_channel := cs\<rparr>) | [] \<Rightarrow> None))"

text \<open>\<open>recv\<close> fails when nothing is left and every sender is gone; a flush holds a clone of it.\<close>

definition disconnected :: "('k, 's) controller \<Rightarrow> bool" where
  "disconnected ct \<longleftrightarrow> \<not> ct_sender ct \<and> (\<forall>fl \<in> set (ct_flushes ct). fl \<noteq> FlushSending \<and> fl \<noteq> FlushWaiting)"

definition worker_receive :: "('k, 's) controller \<Rightarrow> ('k, 's) controller option" where
  "worker_receive ct =
     (case next_command ct of
        None \<Rightarrow> if disconnected ct then Some (ct\<lparr>ct_worker := WLeaving\<rparr>) else None
      | Some (c, ct) \<Rightarrow>
          if ct_state ct \<in> {CDraining, CClosed}
          then Some ((reject_command c DrainShutdown ct)\<lparr>ct_worker := WDrain DrainShutdown\<rparr>)
          else if ct_state ct = CPoisoned
          then let reason = DrainWorkerFailed (case ct_reason ct of Some cause \<Rightarrow> cause | None \<Rightarrow> ControllerPoisoned)
               in Some ((reject_command c reason ct)\<lparr>ct_worker := WDrain reason\<rparr>)
          else (case c of
                  CIntent s \<Rightarrow> Some ((claim s ct)\<lparr>ct_worker := WBatch [s]\<rparr>)
                | CBarrier n \<Rightarrow> Some (flush_set n (FlushDone True) ct)))"

text \<open>
  One more turn of a batch loop: a further intent, or a barrier that seals the batch.  The loops
  check the state of the controller before they wait for a command, so a command that arrives
  after a change of state is still claimed.
\<close>

definition worker_more :: "staged_intent list \<Rightarrow> ('k, 's) controller \<Rightarrow> ('k, 's) controller option" where
  "worker_more batch ct =
     (if length batch < ct_max_batch ct
      then (case ct_channel ct of
              [] \<Rightarrow> None
            | CIntent s # cs \<Rightarrow> Some ((claim s (ct\<lparr>ct_channel := cs\<rparr>))\<lparr>ct_worker := WBatch (batch @ [s])\<rparr>)
            | CBarrier n # cs \<Rightarrow>
                Some (ct\<lparr>ct_channel := cs, ct_pending := ct_pending ct @ [CBarrier n], ct_worker := WSealed batch\<rparr>))
      else None)"

definition count_outcome :: "'k ticket_outcome \<Rightarrow> ctl_metrics \<Rightarrow> ctl_metrics" where
  "count_outcome out m =
     (case out of
        TAccepted w f es \<Rightarrow> m\<lparr>cm_accepted := cm_accepted m + 1\<rparr>
      | TRejected e \<Rightarrow> m\<lparr>cm_rejected := cm_rejected m + 1\<rparr>
      | TDurabilityFailed e \<Rightarrow> m\<lparr>cm_durability_failed := cm_durability_failed m + 1\<rparr>
      | TStopped r \<Rightarrow> m)"

text \<open>\<open>route_success\<close>, \<open>route_failure\<close> and \<open>route_stopped\<close> differ in the outcomes.\<close>

fun route :: "(nat \<times> 'k ticket_outcome) list \<Rightarrow> ('k, 's) controller \<Rightarrow> ('k, 's) controller" where
  "route [] ct = ct"
| "route ((t, out) # rs) ct = route rs (ticket_resolve t out (update_metrics (count_outcome out) ct))"

definition route_success :: "nat list \<Rightarrow> 'k epoch_plan \<Rightarrow> ('k, 's) controller \<Rightarrow> ('k, 's) controller" where
  "route_success routes plan = route (zip routes (map success_outcome (ep_outcomes plan)))"

definition route_failure :: "nat list \<Rightarrow> 'k epoch_plan \<Rightarrow> epoch_store_error \<Rightarrow> ('k, 's) controller \<Rightarrow> ('k, 's) controller" where
  "route_failure routes plan e = route (zip routes (map (failure_outcome e) (ep_outcomes plan)))"

definition route_stopped :: "nat list \<Rightarrow> ticket_stop \<Rightarrow> ('k, 's) controller \<Rightarrow> ('k, 's) controller" where
  "route_stopped routes reason = route (map (\<lambda>t. (t, TStopped reason)) routes)"

definition process_durable_batch ::
  "'k kernel_ops \<Rightarrow> 's epoch_io \<Rightarrow> staged_intent list \<Rightarrow> ('k, 's) controller \<Rightarrow>
   ((poison_cause + unit) \<times> ('k, 's) controller) option" where
  "process_durable_batch K IO batch ct =
     (let ct = update_metrics (\<lambda>m. m\<lparr>cm_in_flight := length batch\<rparr>) ct;
          routes = map si_ticket batch
      in case commit_durable_epoch K IO (map si_intent batch) (ct_database ct) of
           None \<Rightarrow> None
         | Some (r, db) \<Rightarrow>
             let ct = ct\<lparr>ct_database := db\<rparr>;
                 finished = update_metrics (\<lambda>m. m\<lparr>cm_epochs := cm_epochs m + 1, cm_in_flight := 0\<rparr>)
             in Some (case r of
                  Durable plan \<Rightarrow> (Inr (), finished (route_success routes plan ct))
                | NotDurable plan e \<Rightarrow> (Inr (), finished (route_failure routes plan e ct))
                | WorkerPanic failure \<Rightarrow>
                    (Inl (EpochFailed failure),
                     update_metrics (\<lambda>m. m\<lparr>cm_worker_failed := cm_worker_failed m + 1, cm_in_flight := 0\<rparr>)
                       (route_stopped routes (WorkerFailed (EpochFailed failure)) ct))))"

definition worker_process ::
  "'k kernel_ops \<Rightarrow> 's epoch_io \<Rightarrow> staged_intent list \<Rightarrow> ('k, 's) controller \<Rightarrow> ('k, 's) controller option" where
  "worker_process K IO batch ct =
     map_option (\<lambda>(r, ct). case r of
         Inr _ \<Rightarrow> ct\<lparr>ct_worker := WReceive\<rparr>
       | Inl cause \<Rightarrow> (poison_store cause (ctl_poison cause ct))\<lparr>ct_worker := WTakeSender cause\<rparr>)
       (process_durable_batch K IO batch ct)"

definition worker_take_sender :: "poison_cause \<Rightarrow> ('k, 's) controller \<Rightarrow> ('k, 's) controller" where
  "worker_take_sender cause ct = ct\<lparr>ct_sender := False, ct_worker := WDrain (DrainWorkerFailed cause)\<rparr>"

definition worker_drain :: "drain_reason \<Rightarrow> ('k, 's) controller \<Rightarrow> ('k, 's) controller" where
  "worker_drain reason ct =
     (case next_command ct of
        Some (c, ct) \<Rightarrow> reject_command c reason ct
      | None \<Rightarrow> ct\<lparr>ct_worker := WLeaving\<rparr>)"

text \<open>The end of \<open>run_durable_worker\<close>.\<close>

definition worker_leave :: "('k, 's) controller \<Rightarrow> ('k, 's) controller" where
  "worker_leave ct =
     (if ct_state ct = CRunning then poison_store WorkerExited (ctl_poison WorkerExited ct)
      else if ct_state ct = CDraining then ct\<lparr>ct_state := CClosed\<rparr> else ct)\<lparr>ct_worker := WReturning\<rparr>"

text \<open>The receiver is dropped, and with it the commands left in the channel.\<close>

definition drop_command :: "ctl_command \<Rightarrow> ('k, 's) controller \<Rightarrow> ('k, 's) controller" where
  "drop_command c ct =
     (case c of
        CIntent s \<Rightarrow> update_ticket (si_ticket s) (\<lambda>tk. tk\<lparr>tk_sender := False\<rparr>) ct
      | CBarrier n \<Rightarrow> flush_set n (FlushDone False) ct)"

definition worker_return :: "('k, 's) controller \<Rightarrow> ('k, 's) controller" where
  "worker_return ct =
     (fold drop_command (ct_channel ct) ct)\<lparr>ct_channel := [], ct_receiver := False, ct_worker := WExited\<rparr>"

section \<open>Steps\<close>

inductive worker_step :: "'k kernel_ops \<Rightarrow> 's epoch_io \<Rightarrow> ('k, 's) controller \<Rightarrow> ('k, 's) controller \<Rightarrow> bool"
  for K :: "'k kernel_ops" and IO :: "'s epoch_io" where
  ws_receive: "ct_worker ct = WReceive \<Longrightarrow> worker_receive ct = Some ct' \<Longrightarrow> worker_step K IO ct ct'"
| ws_more: "ct_worker ct = WBatch batch \<Longrightarrow> worker_more batch ct = Some ct' \<Longrightarrow> worker_step K IO ct ct'"
| ws_seal: "ct_worker ct = WBatch batch \<Longrightarrow> worker_step K IO ct (ct\<lparr>ct_worker := WSealed batch\<rparr>)"
| ws_process: "ct_worker ct = WSealed batch \<Longrightarrow> worker_process K IO batch ct = Some ct' \<Longrightarrow> worker_step K IO ct ct'"
| ws_take: "ct_worker ct = WTakeSender cause \<Longrightarrow> ct_submitting ct = None \<Longrightarrow>
    worker_step K IO ct (worker_take_sender cause ct)"
| ws_drain: "ct_worker ct = WDrain reason \<Longrightarrow> worker_step K IO ct (worker_drain reason ct)"
| ws_leave: "ct_worker ct = WLeaving \<Longrightarrow> worker_step K IO ct (worker_leave ct)"
| ws_return: "ct_worker ct = WReturning \<Longrightarrow> worker_step K IO ct (worker_return ct)"

inductive client_step :: "('k, 's) controller \<Rightarrow> ('k, 's) controller \<Rightarrow> bool" where
  cs_submit: "ct_submitting ct = None \<Longrightarrow> submit_begin i ct = (r, ct') \<Longrightarrow> client_step ct ct'"
| cs_send: "ct_submitting ct = Some i \<Longrightarrow> submit_end i ct = (r, ct') \<Longrightarrow> client_step ct ct'"
| cs_flush: "ct_submitting ct = None \<Longrightarrow> client_step ct (flush_begin ct)"
| cs_flush_send: "n < length (ct_flushes ct) \<Longrightarrow> ct_flushes ct ! n = FlushSending \<Longrightarrow> flush_send n ct = Some ct' \<Longrightarrow>
    client_step ct ct'"
| cs_wait: "t < length (ct_tickets ct) \<Longrightarrow> tk_receiver (ct_tickets ct ! t) \<Longrightarrow> ticket_try_wait t ct = (r, ct') \<Longrightarrow>
    client_step ct ct'"
| cs_drop: "t < length (ct_tickets ct) \<Longrightarrow> client_step ct (ticket_drop t ct)"
| cs_shutdown: "ct_shutdown ct = ShutNone \<Longrightarrow> client_step ct (shutdown_begin ct)"
| cs_shutdown_mark: "ct_shutdown ct = ShutMark previous \<Longrightarrow> client_step ct (shutdown_mark previous ct)"
| cs_shutdown_take: "ct_shutdown ct = ShutTake previous \<Longrightarrow> ct_submitting ct = None \<Longrightarrow>
    client_step ct (shutdown_take previous ct)"
| cs_shutdown_join: "ct_shutdown ct = ShutJoin previous \<Longrightarrow> ct_worker ct = WExited \<Longrightarrow>
    client_step ct (shutdown_join previous ct)"

inductive ctl_reach :: "'k kernel_ops \<Rightarrow> 's epoch_io \<Rightarrow> ('k, 's) controller \<Rightarrow> ('k, 's) controller \<Rightarrow> bool"
  for K :: "'k kernel_ops" and IO :: "'s epoch_io" and start :: "('k, 's) controller" where
  reach_start: "ctl_reach K IO start start"
| reach_worker: "ctl_reach K IO start ct \<Longrightarrow> worker_step K IO ct ct' \<Longrightarrow> ctl_reach K IO start ct'"
| reach_client: "ctl_reach K IO start ct \<Longrightarrow> client_step ct ct' \<Longrightarrow> ctl_reach K IO start ct'"

section \<open>The worker stops\<close>

definition worker_weight :: "worker_pc \<Rightarrow> nat" where
  "worker_weight pc =
     (case pc of WBatch b \<Rightarrow> 7 | WSealed b \<Rightarrow> 6 | WReceive \<Rightarrow> 5 | WTakeSender c \<Rightarrow> 4 | WDrain r \<Rightarrow> 3 | WLeaving \<Rightarrow> 2
      | WReturning \<Rightarrow> 1 | WExited \<Rightarrow> 0)"

definition worker_measure :: "('k, 's) controller \<Rightarrow> nat" where
  "worker_measure ct = 6 * length (ct_channel ct) + 3 * length (ct_pending ct) + worker_weight (ct_worker ct)"

text \<open>The fields that the small helpers leave alone.\<close>

lemma update_metrics_sel [simp]:
  "ct_database (update_metrics g ct) = ct_database ct" "ct_state (update_metrics g ct) = ct_state ct"
  "ct_capacity (update_metrics g ct) = ct_capacity ct" "ct_max_batch (update_metrics g ct) = ct_max_batch ct"
  "ct_sender (update_metrics g ct) = ct_sender ct" "ct_receiver (update_metrics g ct) = ct_receiver ct"
  "ct_channel (update_metrics g ct) = ct_channel ct" "ct_pending (update_metrics g ct) = ct_pending ct"
  "ct_worker (update_metrics g ct) = ct_worker ct" "ct_submitting (update_metrics g ct) = ct_submitting ct"
  "ct_tickets (update_metrics g ct) = ct_tickets ct" "ct_shutdown (update_metrics g ct) = ct_shutdown ct"
  "ct_flushes (update_metrics g ct) = ct_flushes ct" "ct_metrics (update_metrics g ct) = g (ct_metrics ct)"
  by (simp_all add: update_metrics_def)

lemma update_ticket_sel [simp]:
  "ct_database (update_ticket t h ct) = ct_database ct" "ct_state (update_ticket t h ct) = ct_state ct"
  "ct_capacity (update_ticket t h ct) = ct_capacity ct" "ct_max_batch (update_ticket t h ct) = ct_max_batch ct"
  "ct_sender (update_ticket t h ct) = ct_sender ct" "ct_receiver (update_ticket t h ct) = ct_receiver ct"
  "ct_channel (update_ticket t h ct) = ct_channel ct" "ct_pending (update_ticket t h ct) = ct_pending ct"
  "ct_worker (update_ticket t h ct) = ct_worker ct" "ct_submitting (update_ticket t h ct) = ct_submitting ct"
  "ct_shutdown (update_ticket t h ct) = ct_shutdown ct" "ct_flushes (update_ticket t h ct) = ct_flushes ct"
  "ct_metrics (update_ticket t h ct) = ct_metrics ct"
  "ct_tickets (update_ticket t h ct) = (ct_tickets ct)[t := h (ct_tickets ct ! t)]"
  by (simp_all add: update_ticket_def)

lemma ticket_resolve_sel [simp]:
  "ct_database (ticket_resolve t out ct) = ct_database ct" "ct_state (ticket_resolve t out ct) = ct_state ct"
  "ct_capacity (ticket_resolve t out ct) = ct_capacity ct" "ct_max_batch (ticket_resolve t out ct) = ct_max_batch ct"
  "ct_sender (ticket_resolve t out ct) = ct_sender ct" "ct_receiver (ticket_resolve t out ct) = ct_receiver ct"
  "ct_channel (ticket_resolve t out ct) = ct_channel ct" "ct_pending (ticket_resolve t out ct) = ct_pending ct"
  "ct_worker (ticket_resolve t out ct) = ct_worker ct" "ct_submitting (ticket_resolve t out ct) = ct_submitting ct"
  "ct_shutdown (ticket_resolve t out ct) = ct_shutdown ct" "ct_flushes (ticket_resolve t out ct) = ct_flushes ct"
  "cm_queue_depth (ct_metrics (ticket_resolve t out ct)) = cm_queue_depth (ct_metrics ct)"
  "ct_tickets (ticket_resolve t out ct) = (ct_tickets ct)[t := (ct_tickets ct ! t)\<lparr>tk_phase := TResolved, tk_sender := False,
     tk_mailbox := (if tk_receiver (ct_tickets ct ! t) then Some out else tk_mailbox (ct_tickets ct ! t))\<rparr>]"
  by (simp_all add: ticket_resolve_def Let_def)

lemma flush_set_sel [simp]:
  "ct_database (flush_set n fl ct) = ct_database ct" "ct_state (flush_set n fl ct) = ct_state ct"
  "ct_capacity (flush_set n fl ct) = ct_capacity ct" "ct_max_batch (flush_set n fl ct) = ct_max_batch ct"
  "ct_sender (flush_set n fl ct) = ct_sender ct" "ct_receiver (flush_set n fl ct) = ct_receiver ct"
  "ct_channel (flush_set n fl ct) = ct_channel ct" "ct_pending (flush_set n fl ct) = ct_pending ct"
  "ct_worker (flush_set n fl ct) = ct_worker ct" "ct_submitting (flush_set n fl ct) = ct_submitting ct"
  "ct_shutdown (flush_set n fl ct) = ct_shutdown ct" "ct_metrics (flush_set n fl ct) = ct_metrics ct"
  "ct_tickets (flush_set n fl ct) = ct_tickets ct"
  by (simp_all add: flush_set_def)

text \<open>What only touches tickets, flushes and metrics keeps the rest of the state.\<close>

definition same_control :: "('k, 's) controller \<Rightarrow> ('k, 's) controller \<Rightarrow> bool" where
  "same_control ct ct' \<longleftrightarrow>
     ct_database ct' = ct_database ct \<and> ct_state ct' = ct_state ct \<and> ct_capacity ct' = ct_capacity ct \<and>
     ct_max_batch ct' = ct_max_batch ct \<and> ct_sender ct' = ct_sender ct \<and> ct_receiver ct' = ct_receiver ct \<and>
     ct_channel ct' = ct_channel ct \<and> ct_pending ct' = ct_pending ct \<and> ct_worker ct' = ct_worker ct \<and>
     ct_submitting ct' = ct_submitting ct \<and> ct_shutdown ct' = ct_shutdown ct"

lemma same_control_helpers:
  "same_control ct (reject_command c r ct)" "same_control ct (claim s ct)" "same_control ct (drop_command c ct)"
  by (simp_all add: same_control_def reject_command_def claim_def drop_command_def release_ingress_def Let_def
      split: ctl_command.splits drain_reason.splits)

lemma same_control_trans: "same_control a b \<Longrightarrow> same_control b c \<Longrightarrow> same_control a c"
  by (simp add: same_control_def)

lemma same_control_drop: "same_control ct (fold drop_command cs ct)"
proof (induction cs arbitrary: ct)
  case (Cons c cs)
  have "same_control ct (drop_command c ct)" by (rule same_control_helpers)
  from same_control_trans [OF this Cons.IH] show ?case by simp
qed (simp add: same_control_def)

lemma same_control_route: "same_control ct (route rs ct) \<and> cm_queue_depth (ct_metrics (route rs ct)) = cm_queue_depth (ct_metrics ct)"
proof (induction rs ct rule: route.induct)
  case (2 t out rs ct)
  let ?ct = "ticket_resolve t out (update_metrics (count_outcome out) ct)"
  have "same_control ct ?ct" by (simp add: same_control_def)
  moreover have "cm_queue_depth (ct_metrics ?ct) = cm_queue_depth (ct_metrics ct)"
    by (simp add: count_outcome_def split: ticket_outcome.splits)
  ultimately show ?case using 2 same_control_trans by fastforce
qed (simp add: same_control_def)

lemmas control_simps [simp] = same_control_helpers [unfolded same_control_def]
  same_control_route [unfolded same_control_def] same_control_drop [unfolded same_control_def]

lemma process_durable_batch_control:
  assumes "process_durable_batch K IO batch ct = Some (r, ct')"
  shows "same_control (ct\<lparr>ct_database := ct_database ct'\<rparr>) ct' \<and> cm_queue_depth (ct_metrics ct') = cm_queue_depth (ct_metrics ct)"
  using assms
  by (auto simp: process_durable_batch_def same_control_def route_success_def route_failure_def route_stopped_def Let_def
      split: option.splits durable_result.splits)

lemma worker_process_cases:
  assumes "worker_process K IO batch ct = Some ct'"
  obtains r b where "process_durable_batch K IO batch ct = Some (r, b)"
    and "ct' = (case r of Inr _ \<Rightarrow> b\<lparr>ct_worker := WReceive\<rparr>
      | Inl cause \<Rightarrow> (poison_store cause (ctl_poison cause b))\<lparr>ct_worker := WTakeSender cause\<rparr>)"
  using assms by (auto simp: worker_process_def)

lemma worker_step_decreases:
  "worker_step K IO ct ct' \<Longrightarrow> worker_measure ct' < worker_measure ct"
proof (induction rule: worker_step.induct)
  case (ws_process ct batch ct')
  from worker_process_cases [OF ws_process.hyps(2)] obtain r b where run: "process_durable_batch K IO batch ct = Some (r, b)"
    "ct' = (case r of Inr _ \<Rightarrow> b\<lparr>ct_worker := WReceive\<rparr>
      | Inl cause \<Rightarrow> (poison_store cause (ctl_poison cause b))\<lparr>ct_worker := WTakeSender cause\<rparr>)" .
  with process_durable_batch_control [OF run(1)] ws_process.hyps(1) show ?case
    by (cases r) (simp_all add: worker_measure_def worker_weight_def poison_store_def ctl_poison_def same_control_def)
qed (auto simp: worker_measure_def worker_weight_def worker_receive_def worker_more_def worker_take_sender_def
    worker_drain_def worker_leave_def worker_return_def poison_store_def ctl_poison_def Let_def
    split: list.splits if_splits ctl_command.splits)

section \<open>What the worker delivers\<close>

lemma rejected_only_length: "rejected_only outs = Some eouts \<Longrightarrow> length eouts = length outs"
  by (induction outs arbitrary: eouts rule: rejected_only.induct) auto

lemma rejected_only_no_accepted: "rejected_only outs = Some eouts \<Longrightarrow> EpochAccepted a \<notin> set eouts"
  by (induction outs arbitrary: eouts rule: rejected_only.induct) auto

lemma vm_epoch_loop_length:
  "vm_epoch_loop pos is (s, m) = Some (Inr s', m') \<Longrightarrow> length (ve_outcomes s') = length (ve_outcomes s) + length is"
proof (induction "is" arbitrary: pos s m)
  case (Cons i "is")
  then obtain s1 m1 where 1: "vm_epoch_intent pos i (s, m) = Some (Inr s1, m1)" "vm_epoch_loop (Suc pos) is (s1, m1) = Some (Inr s', m')"
    by (auto split: option.splits sum.splits)
  have "length (ve_outcomes s1) = length (ve_outcomes s) + 1"
    using 1(1) by (auto simp: vm_epoch_intent_def ve_reject_def ve_accept_def Let_def
        split: option.splits sum.splits prod.splits execution_outcome.splits)
  with Cons.IH [OF 1(2)] show ?case by simp
qed simp

lemma workspace_loop_length:
  "workspace_loop K vs pos is s ops n outs = Some (s', ops', n', outs') \<Longrightarrow> length outs' = length outs + length is"
  by (induction "is" arbitrary: pos s ops n outs) (fastforce split: option.splits sum.splits prod.splits)+

lemma publish_outcome_frame: "publish_outcome w f out = EpochAccepted a \<Longrightarrow> ai_frame a = f"
  by (cases out) auto

lemma materialize_Inr:
  "materialize K base is vs m = Some (Inr (plan, direct), m') \<Longrightarrow>
   derive_epoch_world K base is vs = Some plan \<or> derive_vm_epoch base is m = Some (Inr plan, m')"
  by (auto simp: materialize_def bind_eq_Some_conv res_map_Inr neq_Nil_conv split: if_splits list.splits)

text \<open>Every intent of a plan has an outcome, and an accepted one names a frame of the plan.\<close>

lemma derive_prepared_outcomes:
  assumes "derive_prepared K is base vs = Inr plan"
  shows "length (ep_outcomes plan) = length is"
    and "EpochAccepted a \<in> set (ep_outcomes plan) \<Longrightarrow> ai_frame a \<in> set (ep_frames plan)"
proof -
  have world: "length (ep_outcomes p) = length is \<and> (\<forall>a. EpochAccepted a \<in> set (ep_outcomes p) \<longrightarrow> ai_frame a \<in> set (ep_frames p))"
    if "derive_epoch_world K base is vs = Some p" for p
    using that rejected_only_length rejected_only_no_accepted
    by (fastforce simp: derive_epoch_world_def bind_eq_Some_conv Let_def dest: workspace_loop_length publish_outcome_frame [OF sym]
        split: if_splits prod.splits)
  have vm: "length (ep_outcomes p) = length is \<and> (\<forall>a. EpochAccepted a \<in> set (ep_outcomes p) \<longrightarrow> ai_frame a \<in> set (ep_frames p))"
    if "derive_vm_epoch base is m = Some (Inr p, m')" for p m m'
    using that rejected_only_length rejected_only_no_accepted
    by (fastforce simp: derive_vm_epoch_def Let_def dest: vm_epoch_loop_length publish_outcome_frame [OF sym]
        split: if_splits prod.splits option.splits sum.splits)
  from assms obtain direct m where "materialize K base is vs (materializer_new (w_next_entity base)) = Some (Inr (plan, direct), m)"
    by (auto simp: derive_prepared_def split: option.splits sum.splits prod.splits)
  from materialize_Inr [OF this] world vm
  show "length (ep_outcomes plan) = length is" "EpochAccepted a \<in> set (ep_outcomes plan) \<Longrightarrow> ai_frame a \<in> set (ep_frames plan)"
    by auto
qed

text \<open>What an append does to the recorded frames, whatever the file below does.\<close>

lemma write_all_at_frames: "write_all_at IO off bs st = Some (r, st') \<Longrightarrow> es_frames st' = es_frames st"
proof (induction IO off bs st rule: write_all_at.induct)
  case (1 IO off bs st)
  from 1(2) show ?case
    by (subst (asm) write_all_at.simps)
      (auto simp: note_write_def note_written_def Let_def split: if_splits sum.splits prod.splits dest!: 1(1))
qed

lemma sync_epoch_frames: "sync_epoch IO st = Some (r, st') \<Longrightarrow> es_frames st' = es_frames st"
  by (auto simp: sync_epoch_def Let_def split: sum.splits prod.splits)

lemma write_per_frame_frames: "write_per_frame IO off recs st = Some (r, st') \<Longrightarrow> es_frames st' = es_frames st"
proof (induction recs arbitrary: off st)
  case (Cons x recs)
  obtain r1 st1 where 1: "write_all_at IO off x st = Some (r1, st1)"
    using Cons.prems by (cases "write_all_at IO off x st") auto
  show ?case
  proof (cases r1)
    case (Inl e)
    with 1 Cons.prems write_all_at_frames [OF 1] show ?thesis by simp
  next
    case (Inr u)
    then obtain r2 st2 where 2: "sync_epoch IO st1 = Some (r2, st2)"
      using Cons.prems 1 by (cases "sync_epoch IO st1") auto
    show ?thesis
      using 1 2 Inr Cons.prems Cons.IH [of "off + length x" st2] write_all_at_frames [OF 1] sync_epoch_frames [OF 2]
      by (cases r2) simp_all
  qed
qed simp

lemma write_one_epoch_frames: "write_one_epoch IO off recs st = Some (r, st') \<Longrightarrow> es_frames st' = es_frames st"
  by (auto simp: write_one_epoch_def split: option.splits sum.splits prod.splits dest!: write_all_at_frames sync_epoch_frames)

lemma repair_frames: "repair K IO cp st = Some (r, st') \<Longrightarrow> es_frames st' = es_frames st"
  by (auto simp: repair_def Let_def split: sum.splits prod.splits if_splits)

lemma handle_primary_failure_frames:
  assumes "handle_primary_failure K IO cp ph e st = Some (r, st')"
  shows "es_frames st' = es_frames st"
proof -
  from assms obtain q st1 where 1: "repair K IO cp (st\<lparr>es_state := Repairing\<rparr>) = Some (q, st1)"
    by (auto simp: handle_primary_failure_def Let_def)
  with assms repair_frames [OF 1] show ?thesis by (cases q) (auto simp: handle_primary_failure_def Let_def)
qed

lemma finish_prepared_epoch_frames:
  "finish_prepared_epoch K IO p res st = Some (r, st') \<Longrightarrow>
   es_frames st' = (case r of Inl e \<Rightarrow> es_frames st | Inr _ \<Rightarrow> es_frames st @ pe_frames p)"
  by (auto simp: finish_prepared_epoch_def split: sum.splits prod.splits if_splits dest!: handle_primary_failure_frames)

lemma prepare_epoch_frames:
  "prepare_epoch IO fs st = (r, st') \<Longrightarrow> es_frames st' = es_frames st \<and> (\<forall>p. r = Inr p \<longrightarrow> pe_frames p = fs)"
  by (auto simp: prepare_epoch_def Let_def split: sum.splits prod.splits if_splits)

lemma append_epoch_frames:
  assumes "append_epoch K IO fs st = Some (r, st')"
  shows "es_frames st' = (case r of Inl e \<Rightarrow> es_frames st | Inr _ \<Rightarrow> es_frames st @ fs)"
proof -
  obtain q st1 where p: "prepare_epoch IO fs st = (q, st1)" by fastforce
  note prepared = prepare_epoch_frames [OF p]
  show ?thesis
    using assms p prepared
    by (auto simp: append_epoch_def Let_def split: sum.splits prod.splits option.splits if_splits sync_policy.splits
        dest!: finish_prepared_epoch_frames write_per_frame_frames write_one_epoch_frames)
qed

lemma commit_durable_epoch_outcomes:
  assumes "commit_durable_epoch K IO is db = Some (r, db')"
  shows "set (es_frames (db_store db)) \<subseteq> set (es_frames (db_store db'))"
    and "r = Durable plan \<Longrightarrow> length (ep_outcomes plan) = length is"
    and "r = Durable plan \<Longrightarrow> EpochAccepted a \<in> set (ep_outcomes plan) \<Longrightarrow> ai_frame a \<in> set (es_frames (db_store db'))"
    and "r = NotDurable plan e \<Longrightarrow> length (ep_outcomes plan) = length is"
  using assms derive_prepared_outcomes [of K "is" "db_current db" "db_validators db" plan]
  by (auto simp: commit_durable_epoch_def plan_is_empty_def split: sum.splits option.splits if_splits prod.splits
      dest!: append_epoch_frames)

section \<open>Invariants\<close>

fun intents_of :: "ctl_command list \<Rightarrow> nat list" where
  "intents_of [] = []"
| "intents_of (CIntent s # cs) = si_ticket s # intents_of cs"
| "intents_of (CBarrier n # cs) = intents_of cs"

fun batch_of :: "worker_pc \<Rightarrow> nat list" where
  "batch_of (WBatch b) = map si_ticket b"
| "batch_of (WSealed b) = map si_ticket b"
| "batch_of pc = []"

text \<open>The tickets that an intent in the channel or in the batch will resolve.\<close>

definition waiting_tickets :: "('k, 's) controller \<Rightarrow> nat list" where
  "waiting_tickets ct = batch_of (ct_worker ct) @ intents_of (ct_channel ct)"

lemma intents_of_append [simp]: "intents_of (xs @ ys) = intents_of xs @ intents_of ys"
  by (induction xs rule: intents_of.induct) auto

lemma length_intents_of: "length (intents_of cs) \<le> length cs"
  by (induction cs rule: intents_of.induct) auto

text \<open>\<open>lost\<close>: a ticket may have been dropped with the receiver.\<close>

definition tickets_ok :: "'k ticket list \<Rightarrow> nat list \<Rightarrow> bool \<Rightarrow> bool" where
  "tickets_ok tks waiting lost \<longleftrightarrow>
     distinct waiting \<and> (\<forall>t \<in> set waiting. t < length tks) \<and>
     (\<forall>t < length tks. (tk_sender (tks ! t) \<longleftrightarrow> t \<in> set waiting) \<and>
        (tk_sender (tks ! t) \<longrightarrow> tk_phase (tks ! t) \<noteq> TResolved \<and> tk_mailbox (tks ! t) = None) \<and>
        (\<not> tk_sender (tks ! t) \<longrightarrow> tk_phase (tks ! t) = TResolved \<or> lost))"

lemma tickets_ok_change:
  assumes "tickets_ok tks waiting lost" and "t < length tks"
    and "tk_sender tk = tk_sender (tks ! t)" and "tk_sender tk \<Longrightarrow> tk_phase tk \<noteq> TResolved \<and> tk_mailbox tk = None"
    and "\<not> tk_sender tk \<Longrightarrow> tk_phase tk = tk_phase (tks ! t)"
  shows "tickets_ok (tks[t := tk]) waiting lost"
  using assms by (auto simp: tickets_ok_def nth_list_update)

lemma tickets_ok_leave:
  assumes "tickets_ok tks waiting lost" and "mset waiting = mset (t # rest)"
    and "\<not> tk_sender tk" and "tk_phase tk = TResolved \<or> lost"
  shows "tickets_ok (tks[t := tk]) rest lost"
proof -
  have "distinct (t # rest)" "set waiting = set (t # rest)"
    using assms(1,2) mset_eq_imp_distinct_iff [OF assms(2)] mset_eq_setD [OF assms(2)] by (simp_all add: tickets_ok_def)
  with assms(1,3,4) show ?thesis by (auto simp: tickets_ok_def nth_list_update)
qed

lemma tickets_ok_perm: "tickets_ok tks waiting lost \<Longrightarrow> mset waiting = mset waiting' \<Longrightarrow> tickets_ok tks waiting' lost"
  using mset_eq_imp_distinct_iff [of waiting waiting'] mset_eq_setD [of waiting waiting'] by (simp add: tickets_ok_def)

lemma tickets_ok_new:
  "tickets_ok tks waiting lost \<Longrightarrow> tickets_ok (tks @ [ticket_new]) (waiting @ [length tks]) lost"
  by (auto simp: tickets_ok_def nth_append ticket_new_def less_Suc_eq)

lemma tickets_ok_lost: "tickets_ok tks waiting lost \<Longrightarrow> (lost \<Longrightarrow> lost') \<Longrightarrow> tickets_ok tks waiting lost'"
  by (auto simp: tickets_ok_def)

text \<open>Who holds what: the program counters, the states and the ends of the channel.\<close>

fun active :: "worker_pc \<Rightarrow> bool" where
  "active WReceive \<longleftrightarrow> True"
| "active (WBatch batch) \<longleftrightarrow> True"
| "active (WSealed batch) \<longleftrightarrow> True"
| "active pc \<longleftrightarrow> False"

fun failed_drain :: "worker_pc \<Rightarrow> bool" where
  "failed_drain (WDrain (DrainWorkerFailed cause)) \<longleftrightarrow> True"
| "failed_drain pc \<longleftrightarrow> False"

fun leaving :: "worker_pc \<Rightarrow> bool" where
  "leaving WLeaving \<longleftrightarrow> True"
| "leaving WReturning \<longleftrightarrow> True"
| "leaving WExited \<longleftrightarrow> True"
| "leaving pc \<longleftrightarrow> False"

fun batch_ok :: "nat \<Rightarrow> worker_pc \<Rightarrow> bool" where
  "batch_ok n (WBatch batch) \<longleftrightarrow> batch \<noteq> [] \<and> length batch \<le> n"
| "batch_ok n (WSealed batch) \<longleftrightarrow> batch \<noteq> [] \<and> length batch \<le> n"
| "batch_ok n pc \<longleftrightarrow> True"

definition phase_ok :: "ctl_state \<Rightarrow> worker_pc \<Rightarrow> bool \<Rightarrow> bool \<Rightarrow> bool \<Rightarrow> bool \<Rightarrow> bool" where
  "phase_ok st pc sender submitting shutdown none \<longleftrightarrow>
     (st = CPoisoned \<longrightarrow> \<not> active pc) \<and>
     (st = CDraining \<or> st = CClosed \<or> pc = WDrain DrainShutdown \<longrightarrow> shutdown) \<and>
     (submitting \<longrightarrow> sender) \<and> (failed_drain pc \<longrightarrow> \<not> sender) \<and>
     (leaving pc \<longrightarrow> shutdown \<or> \<not> sender \<and> none)"

definition queue_ok :: "('k, 's) controller \<Rightarrow> bool" where
  "queue_ok ct \<longleftrightarrow>
     (\<forall>c \<in> set (ct_pending ct). \<exists>n. c = CBarrier n) \<and> length (ct_channel ct) \<le> ct_capacity ct \<and>
     (ct_worker ct \<noteq> WExited \<longrightarrow>
        cm_queue_depth (ct_metrics ct) = length (intents_of (ct_channel ct)) + (if ct_submitting ct = None then 0 else 1)) \<and>
     cm_queue_depth (ct_metrics ct) \<le> ct_capacity ct"

definition control_ok :: "('k, 's) controller \<Rightarrow> bool" where
  "control_ok ct \<longleftrightarrow> queue_ok ct \<and>
     phase_ok (ct_state ct) (ct_worker ct) (ct_sender ct) (ct_submitting ct \<noteq> None) (ct_shutdown ct \<noteq> ShutNone)
       (intents_of (ct_channel ct) = []) \<and>
     (ct_receiver ct \<longleftrightarrow> ct_worker ct \<noteq> WExited) \<and> (ct_worker ct = WExited \<longrightarrow> ct_channel ct = []) \<and>
     batch_ok (ct_max_batch ct) (ct_worker ct) \<and> 0 < ct_max_batch ct"

lemmas control_defs = control_ok_def queue_ok_def phase_ok_def

definition frames_acknowledged :: "('k, 's) controller \<Rightarrow> bool" where
  "frames_acknowledged ct \<longleftrightarrow>
     (\<forall>tk \<in> set (ct_tickets ct). \<forall>w f es. tk_mailbox tk = Some (TAccepted w f es) \<longrightarrow>
        f \<in> set (es_frames (db_store (ct_database ct))))"

definition ctl_ok :: "('k, 's) controller \<Rightarrow> bool" where
  "ctl_ok ct \<longleftrightarrow> control_ok ct \<and> frames_acknowledged ct \<and>
     tickets_ok (ct_tickets ct) (waiting_tickets ct) (ct_worker ct = WExited \<and> ct_shutdown ct \<noteq> ShutNone)"

lemma controller_new_ok: "controller_new db capacity max_batch = Inr ct \<Longrightarrow> ctl_ok ct"
  by (auto simp: controller_new_def ctl_ok_def control_defs frames_acknowledged_def tickets_ok_def waiting_tickets_def
      split: if_splits)

subsection \<open>Client steps\<close>

lemma submit_begin_cases:
  "submit_begin i ct = (r, ct') \<Longrightarrow>
   ct' = ct \<or> ct' = update_metrics (\<lambda>m. m\<lparr>cm_backpressured := cm_backpressured m + 1\<rparr>) ct \<or>
   ct_state ct = CRunning \<and> ct_sender ct \<and> cm_queue_depth (ct_metrics ct) < ct_capacity ct \<and>
   ct' = (update_metrics (\<lambda>m. m\<lparr>cm_queue_depth := cm_queue_depth m + 1\<rparr>) ct)\<lparr>ct_submitting := Some i\<rparr>"
  by (cases "ct_state ct") (auto simp: submit_begin_def reserve_ingress_def split: if_splits)

lemma client_control_ok: "client_step ct ct' \<Longrightarrow> control_ok ct \<Longrightarrow> control_ok ct'"
proof (induction rule: client_step.induct)
  case (cs_submit ct i r ct')
  from submit_begin_cases [OF cs_submit.hyps(2)] show ?case
  proof (elim disjE)
    assume "ct_state ct = CRunning \<and> ct_sender ct \<and> cm_queue_depth (ct_metrics ct) < ct_capacity ct \<and>
      ct' = (update_metrics (\<lambda>m. m\<lparr>cm_queue_depth := cm_queue_depth m + 1\<rparr>) ct)\<lparr>ct_submitting := Some i\<rparr>"
    with cs_submit show ?thesis by (simp add: control_defs)
  qed (use cs_submit in \<open>simp_all add: control_defs\<close>)
next
  case (cs_send ct i r ct')
  from cs_send.prems cs_send.hyps(1) have ok: "ct_sender ct" "control_ok (release_ingress (ct\<lparr>ct_submitting := None\<rparr>))"
    by (auto simp: control_defs release_ingress_def)
  show ?case
  proof (cases "ct_receiver ct")
    case False
    with cs_send ok(2) show ?thesis
      by (auto simp: submit_end_def ctl_poison_def control_defs release_ingress_def)
  next
    case True
    show ?thesis
    proof (cases "length (ct_channel ct) < ct_capacity ct")
      case sent: True
      have "ct_channel ct' = ct_channel ct @ [CIntent \<lparr>si_intent = i, si_ticket = length (ct_tickets ct)\<rparr>]"
        "ct_submitting ct' = None" "cm_queue_depth (ct_metrics ct') = cm_queue_depth (ct_metrics ct)"
        "ct_worker ct' = ct_worker ct" "ct_state ct' = ct_state ct" "ct_sender ct' = ct_sender ct"
        "ct_receiver ct' = ct_receiver ct" "ct_pending ct' = ct_pending ct" "ct_capacity ct' = ct_capacity ct"
        "ct_max_batch ct' = ct_max_batch ct" "ct_shutdown ct' = ct_shutdown ct"
        using cs_send.hyps True sent by (auto simp: submit_end_def Let_def)
      moreover have "ct_worker ct \<noteq> WExited" using cs_send.prems True by (simp add: control_ok_def)
      ultimately show ?thesis using cs_send.prems cs_send.hyps(1) True sent ok(1) by (simp add: control_defs)
    next
      case full: False
      then have "ct' = update_metrics (\<lambda>m. m\<lparr>cm_backpressured := cm_backpressured m + 1\<rparr>)
          (release_ingress (ct\<lparr>ct_submitting := None\<rparr>))"
        using cs_send.hyps True by (simp add: submit_end_def Let_def)
      with ok(2) show ?thesis by (simp add: control_defs)
    qed
  qed
next
  case (cs_flush ct)
  then show ?case by (simp add: flush_begin_def control_defs)
next
  case (cs_flush_send n ct ct')
  then consider "ct' = flush_set n (FlushDone False) ct" | "ct_receiver ct" "length (ct_channel ct) < ct_capacity ct"
      "ct' = flush_set n FlushWaiting (ct\<lparr>ct_channel := ct_channel ct @ [CBarrier n]\<rparr>)"
    by (auto simp: flush_send_def split: if_splits)
  then show ?case
  proof cases
    case 1
    with cs_flush_send.prems show ?thesis by (simp add: control_defs)
  next
    case 2
    moreover have "ct_worker ct \<noteq> WExited" using 2(1) cs_flush_send.prems by (simp add: control_ok_def)
    ultimately show ?thesis using cs_flush_send.prems by (simp add: control_defs)
  qed
next
  case (cs_wait t ct r ct')
  then have "ct' = ct \<or> (\<exists>g. ct' = update_ticket t g ct)"
    by (auto simp: ticket_try_wait_def Let_def split: option.splits if_splits)
  with cs_wait.prems show ?case by (elim disjE exE) (simp_all add: control_defs)
next
  case (cs_drop t ct)
  have "same_control ct (ticket_drop t ct) \<and> cm_queue_depth (ct_metrics (ticket_drop t ct)) = cm_queue_depth (ct_metrics ct)"
    by (simp add: ticket_drop_def same_control_def Let_def)
  with cs_drop.prems show ?case by (simp add: control_defs same_control_def)
next
  case (cs_shutdown ct)
  then show ?case by (simp add: shutdown_begin_def control_defs)
next
  case (cs_shutdown_mark ct previous)
  then show ?case by (simp add: shutdown_mark_def control_defs)
next
  case (cs_shutdown_take ct previous)
  then show ?case by (simp add: shutdown_take_def control_defs)
next
  case (cs_shutdown_join ct previous)
  then show ?case by (simp add: shutdown_join_def control_defs Let_def)
qed

subsection \<open>Worker steps\<close>

lemma next_command_None: "next_command ct = None \<longleftrightarrow> ct_pending ct = [] \<and> ct_channel ct = []"
  by (auto split: list.splits)

lemma next_command_Some:
  "next_command ct = Some (c, ct1) \<Longrightarrow>
   (\<exists>cs. ct_pending ct = c # cs \<and> ct1 = ct\<lparr>ct_pending := cs\<rparr>) \<or>
   (\<exists>cs. ct_pending ct = [] \<and> ct_channel ct = c # cs \<and> ct1 = ct\<lparr>ct_channel := cs\<rparr>)"
  by (auto split: list.splits)

declare next_command.simps [simp del]

lemma helper_depth [simp]:
  "cm_queue_depth (ct_metrics (reject_command c r ct)) = cm_queue_depth (ct_metrics ct) - length (intents_of [c])"
  "cm_queue_depth (ct_metrics (claim s ct)) = cm_queue_depth (ct_metrics ct) - 1"
  by (cases c; cases r; simp add: reject_command_def claim_def release_ingress_def Let_def)+

text \<open>Taking a command and rejecting it, or claiming its intent, keeps the depth right.\<close>

lemma control_ok_take:
  assumes "control_ok ct" and "next_command ct = Some (c, ct1)"
  shows "control_ok (reject_command c r ct1)" and "c = CIntent s \<Longrightarrow> control_ok (claim s ct1)"
    and "c = CBarrier n \<Longrightarrow> control_ok (flush_set n fl ct1)"
proof -
  have barriers: "\<forall>c \<in> set (ct_pending ct). \<exists>n. c = CBarrier n" using assms(1) by (simp add: control_defs)
  consider cs n where "ct_pending ct = CBarrier n # cs" "ct1 = ct\<lparr>ct_pending := cs\<rparr>" "c = CBarrier n"
    | cs where "ct_pending ct = []" "ct_channel ct = c # cs" "ct1 = ct\<lparr>ct_channel := cs\<rparr>"
    using next_command_Some [OF assms(2)] barriers by auto
  note cases = this
  have run: "ct_worker ct \<noteq> WExited" if "ct_channel ct = c # cs" for cs
    using that assms(1) by (auto simp: control_ok_def)
  show "control_ok (reject_command c r ct1)"
  proof (cases rule: cases)
    case (1 cs n)
    then show ?thesis using assms(1) by (simp add: control_defs)
  next
    case (2 cs)
    then show ?thesis using assms(1) run by (cases c) (simp_all add: control_defs)
  qed
  show "control_ok (claim s ct1)" if "c = CIntent s"
  proof (cases rule: cases)
    case (2 cs)
    then show ?thesis using assms(1) that run by (simp add: control_defs)
  qed (use that in simp)
  show "control_ok (flush_set n fl ct1)" if "c = CBarrier n"
  proof (cases rule: cases)
    case (1 cs n)
    then show ?thesis using assms(1) by (simp add: control_defs)
  next
    case (2 cs)
    then show ?thesis using assms(1) that run by (simp add: control_defs)
  qed
qed

lemma next_command_control:
  "next_command ct = Some (c, ct1) \<Longrightarrow> ct_state ct1 = ct_state ct \<and> ct_shutdown ct1 = ct_shutdown ct \<and>
   ct_worker ct1 = ct_worker ct \<and> ct_sender ct1 = ct_sender ct \<and> ct_tickets ct1 = ct_tickets ct \<and>
   ct_database ct1 = ct_database ct \<and> ct_max_batch ct1 = ct_max_batch ct"
  by (drule next_command_Some) auto

text \<open>Moving the program counter of a worker that still runs.\<close>

lemma control_ok_worker:
  assumes "control_ok ct" and "ct_worker ct \<noteq> WExited" and "pc \<noteq> WExited" and "batch_ok (ct_max_batch ct) pc"
    and "phase_ok (ct_state ct) pc (ct_sender ct) (ct_submitting ct \<noteq> None) (ct_shutdown ct \<noteq> ShutNone)
      (intents_of (ct_channel ct) = [])"
  shows "control_ok (ct\<lparr>ct_worker := pc\<rparr>)"
  using assms by (simp add: control_ok_def queue_ok_def)

lemma worker_receive_control_ok:
  assumes worker: "ct_worker ct = WReceive" and step: "worker_receive ct = Some ct'" and ok: "control_ok ct"
  shows "control_ok ct'"
proof (cases "next_command ct")
  case None
  with step have "ct' = ct\<lparr>ct_worker := WLeaving\<rparr>" "\<not> ct_sender ct" "ct_channel ct = []"
    by (simp_all add: worker_receive_def disconnected_def next_command_None split: if_splits)
  with worker ok show ?thesis by (simp add: control_defs)
next
  case (Some p)
  then obtain c ct1 where 1: "next_command ct = Some (c, ct1)" by (cases p) simp
  note same = next_command_control [OF 1] and taken = control_ok_take [OF ok 1]
  have healthy: "ct_state ct \<noteq> CPoisoned" using ok worker by (auto simp: control_defs)
  show ?thesis
  proof (cases "ct_state ct = CDraining \<or> ct_state ct = CClosed")
    case True
    let ?ct = "reject_command c DrainShutdown ct1"
    have "ct' = ?ct\<lparr>ct_worker := WDrain DrainShutdown\<rparr>"
      using True step 1 same by (auto simp: worker_receive_def)
    moreover have "control_ok (?ct\<lparr>ct_worker := WDrain DrainShutdown\<rparr>)"
      using taken(1) [of DrainShutdown] same worker True
      by (intro control_ok_worker) (simp_all add: control_ok_def phase_ok_def)
    ultimately show ?thesis by simp
  next
    case False
    show ?thesis
    proof (cases c)
      case (CIntent i)
      with False healthy step 1 same have "ct' = (claim i ct1)\<lparr>ct_worker := WBatch [i]\<rparr>"
        by (auto simp: worker_receive_def)
      moreover have "control_ok ((claim i ct1)\<lparr>ct_worker := WBatch [i]\<rparr>)"
        using taken(2) [OF CIntent] same worker healthy
        by (intro control_ok_worker) (simp_all add: control_ok_def phase_ok_def)
      ultimately show ?thesis by simp
    next
      case (CBarrier n)
      with False healthy step 1 same taken(3) [OF CBarrier] show ?thesis by (auto simp: worker_receive_def)
    qed
  qed
qed

lemma worker_more_control_ok:
  assumes worker: "ct_worker ct = WBatch batch" and step: "worker_more batch ct = Some ct'" and ok: "control_ok ct"
  shows "control_ok ct'"
proof -
  from step obtain c cs where room: "length batch < ct_max_batch ct" and channel: "ct_channel ct = c # cs"
    and ct': "ct' = (case c of CIntent s \<Rightarrow> (claim s (ct\<lparr>ct_channel := cs\<rparr>))\<lparr>ct_worker := WBatch (batch @ [s])\<rparr>
      | CBarrier n \<Rightarrow> ct\<lparr>ct_channel := cs, ct_pending := ct_pending ct @ [CBarrier n], ct_worker := WSealed batch\<rparr>)"
    by (auto simp: worker_more_def split: if_splits list.splits ctl_command.splits)
  show ?thesis
  proof (cases c)
    case (CIntent s)
    with ct' worker channel room ok show ?thesis by (simp add: control_defs)
  next
    case (CBarrier n)
    with ct' worker channel ok show ?thesis by (simp add: control_defs)
  qed
qed

lemma worker_process_control_ok:
  assumes worker: "ct_worker ct = WSealed batch" and step: "worker_process K IO batch ct = Some ct'" and ok: "control_ok ct"
  shows "control_ok ct'"
proof -
  from worker_process_cases [OF step] obtain r b where run: "process_durable_batch K IO batch ct = Some (r, b)"
    "ct' = (case r of Inr _ \<Rightarrow> b\<lparr>ct_worker := WReceive\<rparr>
      | Inl cause \<Rightarrow> (poison_store cause (ctl_poison cause b))\<lparr>ct_worker := WTakeSender cause\<rparr>)" .
  from process_durable_batch_control [OF run(1)] run(2) worker ok show ?thesis
    by (cases r) (simp_all add: control_defs same_control_def poison_store_def ctl_poison_def)
qed

lemma drop_depth [simp]:
  "cm_queue_depth (ct_metrics (fold drop_command cs ct)) = cm_queue_depth (ct_metrics ct)"
proof (induction cs arbitrary: ct)
  case (Cons c cs)
  have "cm_queue_depth (ct_metrics (drop_command c ct)) = cm_queue_depth (ct_metrics ct)"
    by (cases c) (simp_all add: drop_command_def)
  with Cons.IH [of "drop_command c ct"] show ?case by simp
qed simp

lemma worker_control_ok: "worker_step K IO ct ct' \<Longrightarrow> control_ok ct \<Longrightarrow> control_ok ct'"
proof (induction rule: worker_step.induct)
  case (ws_receive ct ct')
  then show ?case by (rule worker_receive_control_ok)
next
  case (ws_more ct batch ct')
  then show ?case by (rule worker_more_control_ok)
next
  case (ws_process ct batch ct')
  then show ?case by (rule worker_process_control_ok)
next
  case (ws_drain ct reason)
  show ?case
  proof (cases "next_command ct")
    case None
    have "leaving WLeaving \<longrightarrow> ct_shutdown ct \<noteq> ShutNone \<or> \<not> ct_sender ct"
      using ws_drain by (cases reason) (simp_all add: control_defs)
    moreover have "worker_drain reason ct = ct\<lparr>ct_worker := WLeaving\<rparr>" using None by (simp add: worker_drain_def)
    moreover have "ct_channel ct = []" using None by (simp add: next_command_None)
    ultimately show ?thesis using ws_drain by (simp add: control_defs)
  next
    case (Some p)
    then show ?thesis using control_ok_take(1) [OF ws_drain.prems] by (cases p) (simp add: worker_drain_def)
  qed
next
  case (ws_leave ct)
  have "ct_shutdown ct \<noteq> ShutNone \<or> \<not> ct_sender ct \<and> intents_of (ct_channel ct) = []"
    using ws_leave by (simp add: control_defs)
  with ws_leave show ?case
    by (cases "ct_state ct") (simp_all add: worker_leave_def poison_store_def ctl_poison_def control_defs)
qed (simp_all add: worker_take_sender_def worker_return_def control_defs)

subsection \<open>Tickets\<close>

lemma route_tickets_ok:
  "tickets_ok (ct_tickets ct) (map fst rs @ rest) lost \<Longrightarrow> tickets_ok (ct_tickets (route rs ct)) rest lost"
proof (induction rs ct rule: route.induct)
  case (2 t out rs ct)
  let ?ct = "ticket_resolve t out (update_metrics (count_outcome out) ct)"
  have "tickets_ok (ct_tickets ?ct) (map fst rs @ rest) lost"
    using tickets_ok_leave [OF "2.prems", of t "map fst rs @ rest"] by simp
  with "2.IH" show ?case by simp
qed simp

lemma drop_tickets_ok:
  "tickets_ok (ct_tickets ct) (intents_of cs) True \<Longrightarrow> tickets_ok (ct_tickets (fold drop_command cs ct)) [] True"
proof (induction cs arbitrary: ct)
  case (Cons c cs)
  have "tickets_ok (ct_tickets (drop_command c ct)) (intents_of cs) True"
    using Cons.prems tickets_ok_leave [OF Cons.prems, of _ "intents_of cs"]
    by (cases c) (simp_all add: drop_command_def)
  with Cons.IH show ?case by simp
qed simp

lemma drop_no_tickets: "intents_of cs = [] \<Longrightarrow> ct_tickets (fold drop_command cs ct) = ct_tickets ct"
proof (induction cs arbitrary: ct)
  case (Cons c cs)
  then show ?case by (cases c) (simp_all add: drop_command_def)
qed simp

text \<open>The tickets of a state, as the invariant wants them.\<close>

definition held :: "('k, 's) controller \<Rightarrow> bool" where
  "held ct \<longleftrightarrow> tickets_ok (ct_tickets ct) (waiting_tickets ct) (ct_worker ct = WExited \<and> ct_shutdown ct \<noteq> ShutNone)"

lemma client_held:
  assumes "client_step ct ct'" and "held ct"
  shows "held ct'"
  using assms
proof (induction rule: client_step.induct)
  case (cs_submit ct i r ct')
  from submit_begin_cases [OF cs_submit.hyps(2)] cs_submit.prems show ?case
    by (elim disjE) (simp_all add: held_def waiting_tickets_def)
next
  case (cs_send ct i r ct')
  show ?case
  proof (cases "ct_receiver ct \<and> length (ct_channel ct) < ct_capacity ct")
    case True
    then have "ct_tickets ct' = ct_tickets ct @ [ticket_new]" "ct_worker ct' = ct_worker ct" "ct_shutdown ct' = ct_shutdown ct"
      "waiting_tickets ct' = waiting_tickets ct @ [length (ct_tickets ct)]"
      using cs_send.hyps by (auto simp: submit_end_def waiting_tickets_def Let_def)
    with cs_send.prems show ?thesis by (simp add: held_def tickets_ok_new)
  next
    case False
    with cs_send.hyps have "ct_tickets ct' = ct_tickets ct" "ct_worker ct' = ct_worker ct" "ct_shutdown ct' = ct_shutdown ct"
      "ct_channel ct' = ct_channel ct"
      by (auto simp: submit_end_def ctl_poison_def release_ingress_def Let_def split: if_splits)
    with cs_send.prems show ?thesis by (simp add: held_def waiting_tickets_def)
  qed
next
  case (cs_flush_send n ct ct')
  then have "ct_tickets ct' = ct_tickets ct" "waiting_tickets ct' = waiting_tickets ct" "ct_worker ct' = ct_worker ct"
    "ct_shutdown ct' = ct_shutdown ct"
    by (auto simp: flush_send_def waiting_tickets_def split: if_splits)
  with cs_flush_send.prems show ?case by (simp add: held_def)
next
  case (cs_wait t ct r ct')
  then consider "ct' = ct" | "ct' = update_ticket t (\<lambda>tk. tk\<lparr>tk_observed := True, tk_receiver := False, tk_mailbox := None\<rparr>) ct"
    by (auto simp: ticket_try_wait_def Let_def split: option.splits if_splits)
  then show ?case
  proof cases
    case 2
    with cs_wait show ?thesis
      by (auto simp: held_def waiting_tickets_def tickets_ok_def nth_list_update)
  qed (use cs_wait.prems in simp)
next
  case (cs_drop t ct)
  define tk where "tk = ct_tickets (ticket_drop t ct) ! t"
  have "ct_tickets (ticket_drop t ct) = (ct_tickets ct)[t := tk]" "tk_sender tk = tk_sender (ct_tickets ct ! t)"
    "tk_phase tk = tk_phase (ct_tickets ct ! t)" "tk_mailbox tk = tk_mailbox (ct_tickets ct ! t)"
    "waiting_tickets (ticket_drop t ct) = waiting_tickets ct" "ct_worker (ticket_drop t ct) = ct_worker ct"
    "ct_shutdown (ticket_drop t ct) = ct_shutdown ct"
    using cs_drop.hyps by (simp_all add: tk_def ticket_drop_def waiting_tickets_def Let_def)
  with cs_drop show ?case by (auto simp: held_def tickets_ok_def nth_list_update)
qed (simp_all add: held_def waiting_tickets_def flush_begin_def shutdown_begin_def shutdown_mark_def shutdown_take_def shutdown_join_def Let_def
    tickets_ok_def)

definition durable_outcome :: "commit_frame set \<Rightarrow> 'k ticket_outcome \<Rightarrow> bool" where
  "durable_outcome frames out \<longleftrightarrow> (\<forall>w f es. out = TAccepted w f es \<longrightarrow> f \<in> frames)"

definition ctl_frames :: "('k, 's) controller \<Rightarrow> commit_frame set" where
  "ctl_frames ct = set (es_frames (db_store (ct_database ct)))"

text \<open>Every ticket of a batch is told an outcome, and an acceptance names a recorded frame.\<close>

lemma process_routes:
  fixes K :: "'k kernel_ops" and IO :: "'s epoch_io"
  assumes run: "process_durable_batch K IO batch ct = Some (r, b)"
  obtains rs and ct1 :: "('k, 's) controller" where "map fst rs = map si_ticket batch" and "ct_tickets ct1 = ct_tickets ct"
    and "ct_tickets b = ct_tickets (route rs ct1)" and "ctl_frames ct \<subseteq> ctl_frames b"
    and "\<forall>out \<in> snd ` set rs. durable_outcome (ctl_frames b) out"
proof -
  from run obtain res db where commit: "commit_durable_epoch K IO (map si_intent batch) (ct_database ct) = Some (res, db)"
    by (auto simp: process_durable_batch_def Let_def split: option.splits)
  note outcomes = commit_durable_epoch_outcomes [OF commit]
  let ?rs = "case res of
      Durable plan \<Rightarrow> zip (map si_ticket batch) (map success_outcome (ep_outcomes plan))
    | NotDurable plan e \<Rightarrow> zip (map si_ticket batch) (map (failure_outcome e) (ep_outcomes plan))
    | WorkerPanic failure \<Rightarrow> map (\<lambda>t. (t, TStopped (WorkerFailed (EpochFailed failure)))) (map si_ticket batch)"
  let ?ct = "(update_metrics (\<lambda>m. m\<lparr>cm_in_flight := length batch\<rparr>) ct)\<lparr>ct_database := db\<rparr>"
  have "map fst ?rs = map si_ticket batch"
    using outcomes(2,4) by (cases res) (simp_all add: comp_def)
  moreover have b: "ct_tickets b = ct_tickets (route ?rs ?ct)" "ct_database b = db"
    using run commit
    by (auto simp: process_durable_batch_def route_success_def route_failure_def route_stopped_def Let_def
        split: durable_result.splits)
  moreover have "ctl_frames ct \<subseteq> ctl_frames b" using outcomes(1) b(2) by (simp add: ctl_frames_def)
  moreover have "\<forall>out \<in> snd ` set ?rs. durable_outcome (ctl_frames b) out"
    using outcomes(3) b(2)
    by (auto simp: durable_outcome_def ctl_frames_def success_outcome_def failure_outcome_def
        dest!: set_zip_rightD split: durable_result.splits epoch_outcome.splits)
  ultimately show ?thesis by (intro that [of ?rs ?ct]) simp_all
qed

lemma reject_held:
  assumes "tickets_ok (ct_tickets ct) (batch @ intents_of (c # cs)) lost"
  shows "tickets_ok (ct_tickets (reject_command c r ct)) (batch @ intents_of cs) lost"
proof (cases c)
  case (CIntent s)
  with assms tickets_ok_leave [OF assms, of "si_ticket s" "batch @ intents_of cs"] show ?thesis
    by (cases r) (simp_all add: reject_command_def release_ingress_def Let_def)
qed (use assms in \<open>simp add: reject_command_def\<close>)

lemma claim_held:
  assumes "tickets_ok (ct_tickets ct) waiting lost" and "si_ticket s \<in> set waiting"
  shows "tickets_ok (ct_tickets (claim s ct)) waiting lost"
proof -
  let ?t = "si_ticket s"
  have t: "?t < length (ct_tickets ct)" "tk_sender (ct_tickets ct ! ?t)" "tk_mailbox (ct_tickets ct ! ?t) = None"
    using assms by (auto simp: tickets_ok_def)
  with assms(1) show ?thesis
    by (auto simp: claim_def release_ingress_def intro!: tickets_ok_change)
qed

lemma next_command_intents:
  assumes "control_ok ct" and "next_command ct = Some (c, ct1)"
  shows "intents_of (ct_channel ct) = intents_of (c # ct_channel ct1)"
proof -
  have "\<forall>c \<in> set (ct_pending ct). \<exists>n. c = CBarrier n" using assms(1) by (simp add: control_defs)
  then show ?thesis using next_command_Some [OF assms(2)] by (cases c) auto
qed

lemma worker_held:
  fixes K :: "'k kernel_ops" and IO :: "'s epoch_io"
  assumes "worker_step K IO ct ct'" and "control_ok ct" and "held ct"
  shows "held ct'"
  using assms
proof (induction rule: worker_step.induct)
  case (ws_receive ct ct')
  show ?case
  proof (cases "next_command ct")
    case None
    with ws_receive.hyps(2) have "ct' = ct\<lparr>ct_worker := WLeaving\<rparr>" by (simp add: worker_receive_def split: if_splits)
    with ws_receive show ?thesis by (simp add: held_def waiting_tickets_def)
  next
    case (Some p)
    then obtain c ct1 where 1: "next_command ct = Some (c, ct1)" by (cases p) simp
    note same = next_command_control [OF 1] and intents = next_command_intents [OF ws_receive.prems(1) 1]
    have ok: "tickets_ok (ct_tickets ct1) ([] @ intents_of (c # ct_channel ct1)) False"
      using ws_receive.prems(2) ws_receive.hyps(1) intents same by (simp add: held_def waiting_tickets_def)
    from 1 ws_receive.hyps(2) consider r where "ct' = (reject_command c r ct1)\<lparr>ct_worker := WDrain r\<rparr>"
      | s where "c = CIntent s" "ct' = (claim s ct1)\<lparr>ct_worker := WBatch [s]\<rparr>"
      | n where "c = CBarrier n" "ct' = flush_set n (FlushDone True) ct1"
      by (auto simp: worker_receive_def Let_def split: if_splits ctl_command.splits)
    then show ?thesis
    proof cases
      case (1 r)
      with reject_held [OF ok] show ?thesis by (simp add: held_def waiting_tickets_def)
    next
      case (2 s)
      with claim_held [OF ok, of s] show ?thesis by (simp add: held_def waiting_tickets_def)
    next
      case (3 n)
      with ok ws_receive.hyps(1) same show ?thesis by (simp add: held_def waiting_tickets_def)
    qed
  qed
next
  case (ws_more ct batch ct')
  then obtain c cs where channel: "ct_channel ct = c # cs"
    and ct': "ct' = (case c of CIntent s \<Rightarrow> (claim s (ct\<lparr>ct_channel := cs\<rparr>))\<lparr>ct_worker := WBatch (batch @ [s])\<rparr>
      | CBarrier n \<Rightarrow> ct\<lparr>ct_channel := cs, ct_pending := ct_pending ct @ [CBarrier n], ct_worker := WSealed batch\<rparr>)"
    by (auto simp: worker_more_def split: if_splits list.splits ctl_command.splits)
  have ok: "tickets_ok (ct_tickets (ct\<lparr>ct_channel := cs\<rparr>)) (map si_ticket batch @ intents_of (c # cs)) False"
    using ws_more.prems(2) ws_more.hyps(1) channel by (simp add: held_def waiting_tickets_def)
  show ?case
  proof (cases c)
    case (CIntent s)
    with ct' claim_held [OF ok, of s] show ?thesis by (simp add: held_def waiting_tickets_def)
  next
    case (CBarrier n)
    with ct' ok show ?thesis by (simp add: held_def waiting_tickets_def)
  qed
next
  case (ws_process ct batch ct')
  from worker_process_cases [OF ws_process.hyps(2)] obtain r b where run: "process_durable_batch K IO batch ct = Some (r, b)"
    and "ct' = (case r of Inr _ \<Rightarrow> b\<lparr>ct_worker := WReceive\<rparr>
      | Inl cause \<Rightarrow> (poison_store cause (ctl_poison cause b))\<lparr>ct_worker := WTakeSender cause\<rparr>)" .
  then have ct': "ct_tickets ct' = ct_tickets b" "ct_channel ct' = ct_channel b"
      "ct_worker ct' = (case r of Inr _ \<Rightarrow> WReceive | Inl cause \<Rightarrow> WTakeSender cause)"
    by (cases r; simp add: poison_store_def ctl_poison_def)+
  have ok: "tickets_ok (ct_tickets ct) (map si_ticket batch @ intents_of (ct_channel ct)) False"
    using ws_process.prems(2) ws_process.hyps(1) by (simp add: held_def waiting_tickets_def)
  from process_routes [OF run] obtain rs and ct1 :: "('k, 's) controller" where
    rs: "map fst rs = map si_ticket batch" "ct_tickets ct1 = ct_tickets ct" "ct_tickets b = ct_tickets (route rs ct1)" .
  have "tickets_ok (ct_tickets b) (intents_of (ct_channel ct)) False"
    unfolding rs(3) by (rule route_tickets_ok) (use ok rs(1,2) in simp)
  moreover have "ct_channel b = ct_channel ct"
    using process_durable_batch_control [OF run] by (simp add: same_control_def)
  ultimately show ?case using ct' by (cases r) (simp_all add: held_def waiting_tickets_def)
next
  case (ws_drain ct reason)
  show ?case
  proof (cases "next_command ct")
    case None
    then have "worker_drain reason ct = ct\<lparr>ct_worker := WLeaving\<rparr>" by (simp add: worker_drain_def)
    with ws_drain show ?thesis by (simp add: held_def waiting_tickets_def)
  next
    case (Some p)
    then obtain c ct1 where 1: "next_command ct = Some (c, ct1)" by (cases p) simp
    note same = next_command_control [OF 1] and intents = next_command_intents [OF ws_drain.prems(1) 1]
    have "tickets_ok (ct_tickets ct1) ([] @ intents_of (c # ct_channel ct1)) False"
      using ws_drain.prems(2) ws_drain.hyps intents same by (simp add: held_def waiting_tickets_def)
    from reject_held [OF this, of reason] 1 ws_drain.hyps same show ?thesis
      by (simp add: worker_drain_def held_def waiting_tickets_def)
  qed
next
  case (ws_return ct)
  then have ok: "tickets_ok (ct_tickets ct) (intents_of (ct_channel ct)) False"
    by (simp add: held_def waiting_tickets_def)
  show ?case
  proof (cases "ct_shutdown ct = ShutNone")
    case True
    with ws_return have "intents_of (ct_channel ct) = []" by (simp add: control_defs)
    with ok True show ?thesis by (simp add: held_def waiting_tickets_def worker_return_def drop_no_tickets)
  next
    case False
    have "tickets_ok (ct_tickets ct) (intents_of (ct_channel ct)) True" using ok by (rule tickets_ok_lost) simp
    with False drop_tickets_ok show ?thesis by (simp add: held_def waiting_tickets_def worker_return_def)
  qed
qed (simp_all add: held_def waiting_tickets_def worker_take_sender_def worker_leave_def poison_store_def ctl_poison_def)

subsection \<open>What was acknowledged is durable\<close>

text \<open>The outcomes that wait in the completion channels.\<close>

definition mailboxes :: "('k, 's) controller \<Rightarrow> 'k ticket_outcome set" where
  "mailboxes ct = {out. \<exists>tk \<in> set (ct_tickets ct). tk_mailbox tk = Some out}"

lemma acknowledged_iff: "frames_acknowledged ct \<longleftrightarrow> (\<forall>out \<in> mailboxes ct. durable_outcome (ctl_frames ct) out)"
  by (auto simp: frames_acknowledged_def mailboxes_def durable_outcome_def ctl_frames_def)

lemma update_mailbox:
  "mailboxes (update_ticket t h ct) \<subseteq> mailboxes ct \<union> {out. tk_mailbox (h (ct_tickets ct ! t)) = Some out}"
  using set_update_subset_insert [of "ct_tickets ct" t "h (ct_tickets ct ! t)"] by (auto simp: mailboxes_def)

lemma resolve_mailbox:
  assumes "t < length (ct_tickets ct)"
  shows "mailboxes (ticket_resolve t out ct) \<subseteq> insert out (mailboxes ct)"
proof -
  have "ct_tickets ct ! t \<in> set (ct_tickets ct)" using assms by simp
  then show ?thesis
    using set_update_subset_insert [of "ct_tickets ct" t] by (fastforce simp: mailboxes_def split: if_splits)
qed

lemma route_mailbox:
  "\<forall>t \<in> set (map fst rs). t < length (ct_tickets ct) \<Longrightarrow> mailboxes (route rs ct) \<subseteq> mailboxes ct \<union> snd ` set rs"
proof (induction rs ct rule: route.induct)
  case (2 t out rs ct)
  let ?ct = "update_metrics (count_outcome out) ct"
  have "mailboxes ?ct = mailboxes ct" by (simp add: mailboxes_def)
  moreover have "mailboxes (ticket_resolve t out ?ct) \<subseteq> insert out (mailboxes ?ct)"
    by (rule resolve_mailbox) (use "2.prems" in simp)
  moreover have "mailboxes (route rs (ticket_resolve t out ?ct)) \<subseteq> mailboxes (ticket_resolve t out ?ct) \<union> snd ` set rs"
    by (rule "2.IH") (use "2.prems" in simp)
  ultimately show ?case by auto
qed simp

lemma acknowledged_grows:
  assumes "frames_acknowledged ct" and "mailboxes ct' \<subseteq> mailboxes ct \<union> new" and "ctl_frames ct \<subseteq> ctl_frames ct'"
    and "\<forall>out \<in> new. durable_outcome (ctl_frames ct') out"
  shows "frames_acknowledged ct'"
  using assms unfolding acknowledged_iff durable_outcome_def by blast

lemma reject_mailbox:
  assumes "\<forall>t \<in> set (intents_of [c]). t < length (ct_tickets ct)"
  shows "mailboxes (reject_command c r ct) \<subseteq> mailboxes ct \<union> range TStopped"
proof (cases c)
  case (CIntent s)
  let ?stop = "case r of DrainShutdown \<Rightarrow> ShutdownBeforeClaim | DrainWorkerFailed cause \<Rightarrow> WorkerFailed cause"
  have "ct_tickets (reject_command c r ct) = ct_tickets (ticket_resolve (si_ticket s) (TStopped ?stop) ct)"
    using CIntent by (cases r) (simp_all add: reject_command_def release_ingress_def Let_def)
  then have "mailboxes (reject_command c r ct) = mailboxes (ticket_resolve (si_ticket s) (TStopped ?stop) ct)"
    by (simp add: mailboxes_def)
  moreover have "mailboxes (ticket_resolve (si_ticket s) (TStopped ?stop) ct) \<subseteq> insert (TStopped ?stop) (mailboxes ct)"
    by (rule resolve_mailbox) (use assms CIntent in simp)
  ultimately show ?thesis by auto
qed (simp add: reject_command_def mailboxes_def)

lemma client_acknowledged:
  assumes "client_step ct ct'" and "frames_acknowledged ct"
  shows "frames_acknowledged ct'"
proof -
  have "mailboxes ct' \<subseteq> mailboxes ct \<and> ct_database ct' = ct_database ct"
    using assms(1)
  proof (induction rule: client_step.induct)
    case (cs_submit ct i r ct')
    from submit_begin_cases [OF cs_submit.hyps(2)] show ?case by (elim disjE) (simp_all add: mailboxes_def)
  next
    case (cs_send ct i r ct')
    then show ?case
      by (auto simp: submit_end_def release_ingress_def ctl_poison_def mailboxes_def ticket_new_def Let_def split: if_splits)
  next
    case (cs_flush_send n ct ct')
    then show ?case by (auto simp: flush_send_def mailboxes_def split: if_splits)
  next
    case (cs_wait t ct r ct')
    then consider "ct' = ct" | "ct' = update_ticket t (\<lambda>tk. tk\<lparr>tk_observed := True, tk_receiver := False, tk_mailbox := None\<rparr>) ct"
      by (auto simp: ticket_try_wait_def Let_def split: option.splits if_splits)
    then show ?case
    proof cases
      case 2
      show ?thesis unfolding 2 using update_mailbox [of t "\<lambda>tk. tk\<lparr>tk_observed := True, tk_receiver := False, tk_mailbox := None\<rparr>" ct] by auto
    qed simp
  next
    case (cs_drop t ct)
    define tk where "tk = ct_tickets (ticket_drop t ct) ! t"
    have "ct_tickets (ticket_drop t ct) = (ct_tickets ct)[t := tk]" "tk_mailbox tk = tk_mailbox (ct_tickets ct ! t)"
      using cs_drop.hyps by (simp_all add: tk_def ticket_drop_def Let_def)
    moreover have "ct_tickets ct ! t \<in> set (ct_tickets ct)" using cs_drop.hyps by simp
    ultimately show ?case
      using set_update_subset_insert [of "ct_tickets ct" t tk] by (fastforce simp: mailboxes_def ticket_drop_def Let_def)
  qed (simp_all add: mailboxes_def flush_begin_def shutdown_begin_def shutdown_mark_def shutdown_take_def shutdown_join_def Let_def)
  then show ?thesis using acknowledged_grows [OF assms(2), of ct' "{}"] by (simp add: ctl_frames_def)
qed

lemma claim_mailbox:
  assumes "si_ticket s < length (ct_tickets ct)"
  shows "mailboxes (claim s ct) \<subseteq> mailboxes ct"
proof -
  have "ct_tickets ct ! si_ticket s \<in> set (ct_tickets ct)" using assms by simp
  then show ?thesis
    using set_update_subset_insert [of "ct_tickets ct" "si_ticket s"]
    by (fastforce simp: mailboxes_def claim_def release_ingress_def)
qed

lemma drop_mailbox:
  "\<forall>t \<in> set (intents_of cs). t < length (ct_tickets ct) \<Longrightarrow> mailboxes (fold drop_command cs ct) \<subseteq> mailboxes ct"
proof (induction cs arbitrary: ct)
  case (Cons c cs)
  have "mailboxes (drop_command c ct) \<subseteq> mailboxes ct \<and> length (ct_tickets (drop_command c ct)) = length (ct_tickets ct)"
  proof (cases c)
    case (CIntent s)
    then have "ct_tickets ct ! si_ticket s \<in> set (ct_tickets ct)" using Cons.prems by simp
    with CIntent update_mailbox [of "si_ticket s" "\<lambda>tk. tk\<lparr>tk_sender := False\<rparr>" ct] show ?thesis
      by (auto simp: drop_command_def mailboxes_def)
  qed (simp add: drop_command_def mailboxes_def)
  with Cons.IH [of "drop_command c ct"] Cons.prems show ?case by (cases c) auto
qed simp

lemma process_acknowledged:
  fixes K :: "'k kernel_ops" and IO :: "'s epoch_io"
  assumes run: "process_durable_batch K IO batch ct = Some (r, b)" and ack: "frames_acknowledged ct"
    and tickets: "\<forall>t \<in> set (map si_ticket batch). t < length (ct_tickets ct)"
  shows "frames_acknowledged b"
proof -
  from process_routes [OF run] obtain rs and ct1 :: "('k, 's) controller" where
    rs: "map fst rs = map si_ticket batch" "ct_tickets ct1 = ct_tickets ct" "ct_tickets b = ct_tickets (route rs ct1)"
      "ctl_frames ct \<subseteq> ctl_frames b" "\<forall>out \<in> snd ` set rs. durable_outcome (ctl_frames b) out" .
  have "\<forall>t \<in> set (map fst rs). t < length (ct_tickets ct1)" using tickets rs(1,2) by simp
  from route_mailbox [OF this] rs(2,3) have "mailboxes b \<subseteq> mailboxes ct \<union> snd ` set rs"
    by (simp add: mailboxes_def)
  then show ?thesis using rs(4,5) by (rule acknowledged_grows [OF ack])
qed

lemma held_waiting: "held ct \<Longrightarrow> t \<in> set (batch_of (ct_worker ct)) \<union> set (intents_of (ct_channel ct)) \<Longrightarrow> t < length (ct_tickets ct)"
  by (auto simp: held_def tickets_ok_def waiting_tickets_def)

lemma worker_acknowledged:
  assumes "worker_step K IO ct ct'" and "control_ok ct" and "held ct" and "frames_acknowledged ct"
  shows "frames_acknowledged ct'"
  using assms
proof (induction rule: worker_step.induct)
  case (ws_receive ct ct')
  show ?case
  proof (cases "next_command ct")
    case None
    with ws_receive have "ct' = ct\<lparr>ct_worker := WLeaving\<rparr>" by (simp add: worker_receive_def split: if_splits)
    with ws_receive.prems show ?thesis by (simp add: frames_acknowledged_def)
  next
    case (Some p)
    then obtain c ct1 where 1: "next_command ct = Some (c, ct1)" by (cases p) simp
    note same = next_command_control [OF 1]
    have less: "\<forall>t \<in> set (intents_of [c]). t < length (ct_tickets ct1)"
      using next_command_intents [OF ws_receive.prems(1) 1] held_waiting [OF ws_receive.prems(2)] same
      by (cases c) simp_all
    have ack: "frames_acknowledged ct1" using ws_receive.prems(3) same by (simp add: frames_acknowledged_def)
    from 1 ws_receive.hyps(2) consider r where "ct' = (reject_command c r ct1)\<lparr>ct_worker := WDrain r\<rparr>"
      | s where "c = CIntent s" "ct' = (claim s ct1)\<lparr>ct_worker := WBatch [s]\<rparr>"
      | n where "c = CBarrier n" "ct' = flush_set n (FlushDone True) ct1"
      by (auto simp: worker_receive_def Let_def split: if_splits ctl_command.splits)
    then show ?thesis
    proof cases
      case (1 r)
      with reject_mailbox [OF less, of r] show ?thesis
        by (intro acknowledged_grows [OF ack, of _ "range TStopped"]) (auto simp: mailboxes_def ctl_frames_def durable_outcome_def)
    next
      case (2 s)
      with claim_mailbox [of s ct1] less show ?thesis
        by (intro acknowledged_grows [OF ack, of _ "{}"]) (auto simp: mailboxes_def ctl_frames_def)
    next
      case (3 n)
      with ack show ?thesis by (simp add: frames_acknowledged_def)
    qed
  qed
next
  case (ws_more ct batch ct')
  then obtain c cs where channel: "ct_channel ct = c # cs"
    and ct': "ct' = (case c of CIntent s \<Rightarrow> (claim s (ct\<lparr>ct_channel := cs\<rparr>))\<lparr>ct_worker := WBatch (batch @ [s])\<rparr>
      | CBarrier n \<Rightarrow> ct\<lparr>ct_channel := cs, ct_pending := ct_pending ct @ [CBarrier n], ct_worker := WSealed batch\<rparr>)"
    by (auto simp: worker_more_def split: if_splits list.splits ctl_command.splits)
  have ack: "frames_acknowledged (ct\<lparr>ct_channel := cs\<rparr>)" using ws_more.prems(3) by (simp add: frames_acknowledged_def)
  show ?case
  proof (cases c)
    case (CIntent s)
    then have "si_ticket s < length (ct_tickets (ct\<lparr>ct_channel := cs\<rparr>))"
      using held_waiting [OF ws_more.prems(2)] channel by simp
    from claim_mailbox [OF this] CIntent ct' show ?thesis
      by (intro acknowledged_grows [OF ack, of _ "{}"]) (auto simp: mailboxes_def ctl_frames_def)
  next
    case (CBarrier n)
    with ct' ack show ?thesis by (simp add: frames_acknowledged_def)
  qed
next
  case (ws_process ct batch ct')
  from worker_process_cases [OF ws_process.hyps(2)] obtain r b where run: "process_durable_batch K IO batch ct = Some (r, b)"
    and "ct' = (case r of Inr _ \<Rightarrow> b\<lparr>ct_worker := WReceive\<rparr>
      | Inl cause \<Rightarrow> (poison_store cause (ctl_poison cause b))\<lparr>ct_worker := WTakeSender cause\<rparr>)" .
  then have "ct_tickets ct' = ct_tickets b" "ctl_frames ct' = ctl_frames b"
    by (cases r; simp add: poison_store_def ctl_poison_def ctl_frames_def poison_external_def)+
  moreover have "frames_acknowledged b"
    by (rule process_acknowledged [OF run ws_process.prems(3)])
      (use held_waiting [OF ws_process.prems(2)] ws_process.hyps(1) in auto)
  ultimately show ?case by (simp add: acknowledged_iff mailboxes_def)
next
  case (ws_drain ct reason)
  show ?case
  proof (cases "next_command ct")
    case None
    then have "worker_drain reason ct = ct\<lparr>ct_worker := WLeaving\<rparr>" by (simp add: worker_drain_def)
    with ws_drain.prems(3) show ?thesis by (simp add: frames_acknowledged_def)
  next
    case (Some p)
    then obtain c ct1 where 1: "next_command ct = Some (c, ct1)" by (cases p) simp
    note same = next_command_control [OF 1]
    have less: "\<forall>t \<in> set (intents_of [c]). t < length (ct_tickets ct1)"
      using next_command_intents [OF ws_drain.prems(1) 1] held_waiting [OF ws_drain.prems(2)] same
      by (cases c) simp_all
    have ack: "frames_acknowledged ct1" using ws_drain.prems(3) same by (simp add: frames_acknowledged_def)
    have "worker_drain reason ct = reject_command c reason ct1" using 1 by (simp add: worker_drain_def)
    with reject_mailbox [OF less, of reason] show ?thesis
      by (intro acknowledged_grows [OF ack, of _ "range TStopped"]) (auto simp: ctl_frames_def durable_outcome_def)
  qed
next
  case (ws_return ct)
  have "mailboxes (worker_return ct) \<subseteq> mailboxes ct"
    using drop_mailbox [of "ct_channel ct" ct] held_waiting [OF ws_return.prems(2)]
    by (simp add: worker_return_def mailboxes_def)
  then show ?case
    by (intro acknowledged_grows [OF ws_return.prems(3), of _ "{}"]) (simp_all add: ctl_frames_def worker_return_def)
next
  case (ws_leave ct)
  then show ?case
    by (simp add: worker_leave_def poison_store_def ctl_poison_def frames_acknowledged_def poison_external_def)
qed (simp_all add: frames_acknowledged_def worker_take_sender_def)

lemma ctl_reach_ok: "ctl_reach K IO start ct \<Longrightarrow> ctl_ok start \<Longrightarrow> ctl_ok ct"
proof (induction rule: ctl_reach.induct)
  case (reach_worker ct ct')
  then show ?case
    using worker_control_ok [OF reach_worker.hyps(2)] worker_held [OF reach_worker.hyps(2)] worker_acknowledged [OF reach_worker.hyps(2)]
    by (simp add: ctl_ok_def flip: held_def)
next
  case (reach_client ct ct')
  then show ?case
    using client_control_ok [OF reach_client.hyps(2)] client_held [OF reach_client.hyps(2)] client_acknowledged [OF reach_client.hyps(2)]
    by (simp add: ctl_ok_def flip: held_def)
qed simp

end
