(* ===== verification/Durable_Progress.thy ===== *)
theory Durable_Progress
  imports Durable_Controller
begin

section \<open>Draining\<close>

text \<open>Without senders the worker drains the channel before it leaves.\<close>

definition quiet :: "('k, 's) controller \<Rightarrow> bool" where
  "quiet ct \<longleftrightarrow> disconnected ct \<and> (leaving (ct_worker ct) \<longrightarrow> ct_channel ct = []) \<and>
     tickets_ok (ct_tickets ct) (waiting_tickets ct) False"

lemma flushes_done:
  "set (ct_flushes (flush_set n (FlushDone b) ct)) \<subseteq> set (ct_flushes ct) \<union> range FlushDone"
  "ct_flushes (claim s ct) = ct_flushes ct" "ct_flushes (route rs ct) = ct_flushes ct"
  "set (ct_flushes (reject_command c r ct)) \<subseteq> set (ct_flushes ct) \<union> range FlushDone"
  "set (ct_flushes (fold drop_command cs ct)) \<subseteq> set (ct_flushes ct) \<union> range FlushDone"
proof -
  show set1: "set (ct_flushes (flush_set n (FlushDone b) ct)) \<subseteq> set (ct_flushes ct) \<union> range FlushDone" for n b and ct :: "('a, 'b) controller"
    using set_update_subset_insert [of "ct_flushes ct" n "FlushDone b"] by (auto simp: flush_set_def)
  show "ct_flushes (claim s ct) = ct_flushes ct" by (simp add: claim_def release_ingress_def)
  show "ct_flushes (route rs ct) = ct_flushes ct" by (induction rs ct rule: route.induct) simp_all
  show "set (ct_flushes (reject_command c r ct)) \<subseteq> set (ct_flushes ct) \<union> range FlushDone"
    using set1 [of _ False ct] by (cases c; cases r) (auto simp: reject_command_def release_ingress_def Let_def)
  have drop: "set (ct_flushes (drop_command c ct)) \<subseteq> set (ct_flushes ct) \<union> range FlushDone" for c and ct :: "('a, 'b) controller"
    using set1 [of _ False ct] by (cases c) (auto simp: drop_command_def)
  show "set (ct_flushes (fold drop_command cs ct)) \<subseteq> set (ct_flushes ct) \<union> range FlushDone"
  proof (induction cs arbitrary: ct)
    case (Cons c cs)
    from Cons.IH [of "drop_command c ct"] drop [of c ct] show ?case by auto
  qed auto
qed

lemma next_command_flushes: "next_command ct = Some (c, ct1) \<Longrightarrow> ct_flushes ct1 = ct_flushes ct"
  by (drule next_command_Some) auto

lemma worker_disconnected:
  assumes "worker_step K IO ct ct'" and "disconnected ct"
  shows "disconnected ct'"
proof -
  have "set (ct_flushes ct') \<subseteq> set (ct_flushes ct) \<union> range FlushDone \<and> (\<not> ct_sender ct \<longrightarrow> \<not> ct_sender ct')"
    using assms(1)
  proof (induction rule: worker_step.induct)
    case (ws_receive ct ct')
    show ?case
    proof (cases "next_command ct")
      case None
      with ws_receive have "ct' = ct\<lparr>ct_worker := WLeaving\<rparr>" by (simp add: worker_receive_def split: if_splits)
      then show ?thesis by simp
    next
      case (Some p)
      then obtain c ct1 where 1: "next_command ct = Some (c, ct1)" by (cases p) simp
      from 1 ws_receive.hyps(2) consider r where "ct' = (reject_command c r ct1)\<lparr>ct_worker := WDrain r\<rparr>"
        | s where "ct' = (claim s ct1)\<lparr>ct_worker := WBatch [s]\<rparr>"
        | n where "ct' = flush_set n (FlushDone True) ct1"
        by (auto simp: worker_receive_def Let_def split: if_splits ctl_command.splits)
      then show ?thesis
        using next_command_control [OF 1] next_command_flushes [OF 1] flushes_done(4) [of c _ ct1] flushes_done(1) [of _ True ct1]
        by cases (simp_all add: flushes_done(2))
    qed
  next
    case (ws_more ct batch ct')
    then show ?case
      by (auto simp: worker_more_def flushes_done(2) split: if_splits list.splits ctl_command.splits)
  next
    case (ws_process ct batch ct')
    from worker_process_cases [OF ws_process.hyps(2)] obtain r b where run: "process_durable_batch K IO batch ct = Some (r, b)"
      and ct': "ct' = (case r of Inr _ \<Rightarrow> b\<lparr>ct_worker := WReceive\<rparr>
        | Inl cause \<Rightarrow> (poison_store cause (ctl_poison cause b))\<lparr>ct_worker := WTakeSender cause\<rparr>)" .
    have "ct_flushes b = ct_flushes ct \<and> ct_sender b = ct_sender ct"
      using run by (auto simp: process_durable_batch_def route_success_def route_failure_def route_stopped_def flushes_done(3) Let_def
          split: option.splits durable_result.splits)
    with ct' show ?case by (cases r) (simp_all add: poison_store_def ctl_poison_def)
  next
    case (ws_drain ct reason)
    show ?case
    proof (cases "next_command ct")
      case None
      then have "worker_drain reason ct = ct\<lparr>ct_worker := WLeaving\<rparr>" by (simp add: worker_drain_def)
      then show ?thesis by simp
    next
      case (Some p)
      then obtain c ct1 where 1: "next_command ct = Some (c, ct1)" by (cases p) simp
      with next_command_control [OF 1] next_command_flushes [OF 1] flushes_done(4) [of c reason ct1] show ?thesis
        by (simp add: worker_drain_def)
    qed
  next
    case (ws_return ct)
    show ?case using flushes_done(5) [of "ct_channel ct" ct] by (simp add: worker_return_def)
  qed (simp_all add: worker_take_sender_def worker_leave_def poison_store_def ctl_poison_def)
  with assms(2) show ?thesis by (fastforce simp: disconnected_def)
qed

lemma helper_tickets [simp]:
  "length (ct_tickets (claim s ct)) = length (ct_tickets ct)"
  "length (ct_tickets (reject_command c r ct)) = length (ct_tickets ct)"
  "length (ct_tickets (route rs ct)) = length (ct_tickets ct)"
  "length (ct_tickets (fold drop_command cs ct)) = length (ct_tickets ct)"
proof -
  show "length (ct_tickets (claim s ct)) = length (ct_tickets ct)" by (simp add: claim_def release_ingress_def)
  show "length (ct_tickets (reject_command c r ct)) = length (ct_tickets ct)"
    by (cases c; cases r) (simp_all add: reject_command_def release_ingress_def Let_def)
  show "length (ct_tickets (route rs ct)) = length (ct_tickets ct)" by (induction rs ct rule: route.induct) simp_all
  have "length (ct_tickets (drop_command c ct)) = length (ct_tickets ct)" for c and ct :: "('a, 'b) controller"
    by (cases c) (simp_all add: drop_command_def)
  then show "length (ct_tickets (fold drop_command cs ct)) = length (ct_tickets ct)"
    by (induction cs arbitrary: ct) simp_all
qed

text \<open>How the program counter moves.\<close>

definition leaves :: "('k, 's) controller \<Rightarrow> ('k, 's) controller \<Rightarrow> bool" where
  "leaves ct ct' \<longleftrightarrow> ct_channel ct' = [] \<and> ct_worker ct' \<noteq> WExited \<or>
     leaving (ct_worker ct) \<and> ct_channel ct' = ct_channel ct \<and> ct_worker ct' \<noteq> WExited \<or>
     ct_worker ct = WReturning \<and> ct' = worker_return ct"

lemma worker_moves:
  "worker_step K IO ct ct' \<Longrightarrow>
   (leaving (ct_worker ct') \<longrightarrow> leaves ct ct') \<and> length (ct_tickets ct') = length (ct_tickets ct)"
proof (induction rule: worker_step.induct)
  case (ws_receive ct ct')
  show ?case
  proof (cases "next_command ct")
    case None
    with ws_receive have "ct' = ct\<lparr>ct_worker := WLeaving\<rparr>" by (simp add: worker_receive_def split: if_splits)
    moreover have "ct_channel ct = []" using None by (simp add: next_command_None)
    ultimately show ?thesis by (simp add: leaves_def)
  next
    case (Some p)
    then obtain c ct1 where 1: "next_command ct = Some (c, ct1)" by (cases p) simp
    from 1 ws_receive.hyps(2) consider r where "ct' = (reject_command c r ct1)\<lparr>ct_worker := WDrain r\<rparr>"
      | s where "ct' = (claim s ct1)\<lparr>ct_worker := WBatch [s]\<rparr>"
      | n where "ct' = flush_set n (FlushDone True) ct1"
      by (auto simp: worker_receive_def Let_def split: if_splits ctl_command.splits)
    then show ?thesis using next_command_control [OF 1] ws_receive.hyps(1) by cases simp_all
  qed
next
  case (ws_more ct batch ct')
  then show ?case by (auto simp: worker_more_def split: if_splits list.splits ctl_command.splits)
next
  case (ws_process ct batch ct')
  from worker_process_cases [OF ws_process.hyps(2)] obtain r b where run: "process_durable_batch K IO batch ct = Some (r, b)"
    and ct': "ct' = (case r of Inr _ \<Rightarrow> b\<lparr>ct_worker := WReceive\<rparr>
      | Inl cause \<Rightarrow> (poison_store cause (ctl_poison cause b))\<lparr>ct_worker := WTakeSender cause\<rparr>)" .
  obtain rs and ct1 :: "('a, 'b) controller" where "map fst rs = map si_ticket batch" "ct_tickets ct1 = ct_tickets ct"
    "ct_tickets b = ct_tickets (route rs ct1)" "ctl_frames ct \<subseteq> ctl_frames b"
    "\<forall>out \<in> snd ` set rs. durable_outcome (ctl_frames b) out"
    by (rule process_routes [OF run])
  with ct' show ?case by (cases r) (simp_all add: poison_store_def ctl_poison_def)
next
  case (ws_drain ct reason)
  show ?case
  proof (cases "next_command ct")
    case None
    moreover have "ct_channel ct = []" using None by (simp add: next_command_None)
    moreover have "worker_drain reason ct = ct\<lparr>ct_worker := WLeaving\<rparr>" using None by (simp add: worker_drain_def)
    ultimately show ?thesis by (simp add: leaves_def)
  next
    case (Some p)
    then obtain c ct1 where 1: "next_command ct = Some (c, ct1)" by (cases p) simp
    with next_command_control [OF 1] ws_drain show ?thesis by (simp add: worker_drain_def)
  qed
next
  case (ws_return ct)
  then show ?case by (simp add: leaves_def) (simp add: worker_return_def)
qed (simp_all add: leaves_def worker_take_sender_def worker_leave_def poison_store_def ctl_poison_def)

lemma quiet_step:
  assumes step: "worker_step K IO ct ct'" and control: "control_ok ct" and quiet: "quiet ct"
  shows "quiet ct' \<and> length (ct_tickets ct') = length (ct_tickets ct)"
proof -
  have "ct_worker ct \<noteq> WExited" using step by (cases rule: worker_step.cases) auto
  then have held: "held ct" using quiet by (simp add: held_def quiet_def)
  note moves = worker_moves [OF step]
  have gone: "disconnected ct'" using worker_disconnected [OF step] quiet by (simp add: quiet_def)
  show ?thesis
  proof (cases "ct_worker ct' = WExited")
    case False
    have "ct_channel ct' = []" if "leaving (ct_worker ct')"
      using that moves quiet False by (auto simp: leaves_def quiet_def worker_return_def)
    then show ?thesis using worker_held [OF step control held] False gone moves by (simp add: held_def quiet_def)
  next
    case True
    with moves have "ct_worker ct = WReturning" "ct' = worker_return ct" by (auto simp: leaves_def)
    moreover from \<open>ct_worker ct = WReturning\<close> quiet have "ct_channel ct = []" by (simp add: quiet_def)
    ultimately have "ct' = ct\<lparr>ct_receiver := False, ct_worker := WExited\<rparr>" by (simp add: worker_return_def)
    with quiet gone \<open>ct_worker ct = WReturning\<close> \<open>ct_channel ct = []\<close>
    show ?thesis by (simp add: quiet_def waiting_tickets_def)
  qed
qed

text \<open>The reference kernel and the ordinary file never panic below the controller.\<close>

lemma std_write_at_le: "std_write_at ph off bs s = (Inr n, s') \<Longrightarrow> n \<le> length bs"
  by (auto simp: std_write_at_def split: prod.splits io_answer.splits)

lemma write_all_at_returns: "write_all_at std_io off bs st \<noteq> None"
proof (induction "length bs" arbitrary: off bs st rule: less_induct)
  case less
  show ?case
  proof (cases "bs = []")
    case False
    obtain r io where w: "std_write_at EpochWrite off bs (es_io (note_write st)) = (r, io)" by fastforce
    show ?thesis
    proof (cases r)
      case (Inr n)
      with w std_write_at_le have "n \<le> length bs" by blast
      moreover have "write_all_at std_io (off + n) (drop n bs) st' \<noteq> None" if "0 < n" for st'
        using less [of "drop n bs"] that False by simp
      ultimately show ?thesis using w Inr False by (subst write_all_at.simps) (simp add: std_io_def Let_def)
    qed (use w False in \<open>subst write_all_at.simps, simp add: std_io_def Let_def\<close>)
  qed (simp add: write_all_at.simps)
qed

lemma sync_epoch_returns: "sync_epoch IO st \<noteq> None"
  by (simp add: sync_epoch_def Let_def split: prod.splits sum.splits)

lemma write_one_epoch_returns: "write_one_epoch std_io off recs st \<noteq> None"
  using write_all_at_returns sync_epoch_returns
  by (auto simp: write_one_epoch_def split: option.splits prod.splits sum.splits)

lemma write_per_frame_returns: "write_per_frame std_io off recs st \<noteq> None"
proof (induction recs arbitrary: off st)
  case (Cons x recs)
  obtain r1 st1 where 1: "write_all_at std_io off x st = Some (r1, st1)"
    using write_all_at_returns [of off x st] by auto
  obtain r2 st2 where 2: "sync_epoch std_io st1 = Some (r2, st2)" using sync_epoch_returns [of std_io st1] by auto
  show ?case using 1 2 Cons.IH by (cases r1; cases r2) simp_all
qed simp

lemma verify_repaired_returns: "verify_repaired reference_kernel cp bytes \<noteq> None"
proof -
  have "reconstruct reference_kernel frames \<noteq> None" for frames
    using reference.reconstruct_iff [of frames] by (auto split: if_splits)
  then show ?thesis by (simp add: verify_repaired_def Let_def split: sum.splits prod.splits)
qed

lemma finish_prepared_epoch_returns: "finish_prepared_epoch reference_kernel IO p res st \<noteq> None"
proof -
  have "repair reference_kernel IO cp st' \<noteq> None" for cp st'
    by (simp add: repair_def Let_def verify_repaired_returns del: not_None_eq split: sum.split prod.split)
  then have "handle_primary_failure reference_kernel IO cp ph e st' \<noteq> None" for cp ph e st'
    by (simp add: handle_primary_failure_def del: not_None_eq)
  then show ?thesis
    by (cases res) (auto simp: finish_prepared_epoch_def simp del: not_None_eq split: prod.split)
qed

lemma append_epoch_returns: "append_epoch reference_kernel std_io fs st \<noteq> None"
proof -
  obtain r st1 where 1: "prepare_epoch std_io fs st = (r, st1)" by fastforce
  show ?thesis
  proof (cases r)
    case (Inr p)
    have std_persist: "eio_persist_epoch std_io a b c = (None, c)" for a b c by (simp add: std_io_def)
    let ?start = "cp_start_offset (pe_checkpoint p)"
    let ?saved = "case es_policy st1 of PerFrame \<Rightarrow> write_per_frame std_io ?start (pe_records p) st1
      | PerEpoch \<Rightarrow> write_one_epoch std_io ?start (pe_records p) st1"
    obtain res st2 where 2: "?saved = Some (res, st2)"
      using write_one_epoch_returns write_per_frame_returns by (cases "es_policy st1") (simp_all, fastforce+)
    have "append_epoch reference_kernel std_io fs st =
        (if pe_frames p = [] then Some (Inr (), st1) else finish_prepared_epoch reference_kernel std_io p res st2)"
      using 1 2 Inr std_persist by (cases "es_policy st1") (simp_all add: append_epoch_def Let_def)
    then show ?thesis using finish_prepared_epoch_returns by (cases "pe_frames p = []") (simp_all del: not_None_eq)
  qed (simp add: append_epoch_def 1)
qed

lemma commit_durable_epoch_returns: "commit_durable_epoch reference_kernel std_io is db \<noteq> None"
  by (simp add: commit_durable_epoch_def append_epoch_returns split: sum.splits option.splits)


lemma process_durable_batch_returns: "process_durable_batch reference_kernel std_io batch ct \<noteq> None"
  by (simp add: process_durable_batch_def Let_def commit_durable_epoch_returns split: option.splits)

lemma worker_process_returns: "worker_process reference_kernel std_io batch ct \<noteq> None"
  by (simp add: worker_process_def process_durable_batch_returns)

lemma worker_receive_returns: "disconnected ct \<Longrightarrow> worker_receive ct \<noteq> None"
  by (auto simp: worker_receive_def Let_def split: option.splits ctl_command.splits)

text \<open>A worker without senders is never blocked.\<close>

lemma worker_progress:
  assumes "quiet ct" and "control_ok ct" and "ct_worker ct \<noteq> WExited"
  shows "\<exists>ct'. worker_step reference_kernel std_io ct ct'"
proof (cases "ct_worker ct")
  case WReceive
  have "worker_receive ct \<noteq> None" by (rule worker_receive_returns) (use assms(1) in \<open>simp add: quiet_def\<close>)
  then show ?thesis using ws_receive [OF WReceive] by blast
next
  case (WSealed batch)
  have "worker_process reference_kernel std_io batch ct \<noteq> None" by (rule worker_process_returns)
  then show ?thesis using ws_process [OF WSealed] by blast
next
  case (WTakeSender cause)
  have "ct_submitting ct = None" using assms(1,2) by (simp add: quiet_def disconnected_def control_defs)
  then show ?thesis using ws_take [OF WTakeSender] by blast
qed (use assms(3) ws_seal ws_drain ws_leave ws_return in blast)+

definition all_resolved :: "('k, 's) controller \<Rightarrow> bool" where
  "all_resolved ct \<longleftrightarrow> (\<forall>tk \<in> set (ct_tickets ct). tk_phase tk = TResolved)"

lemma quiet_resolved:
  assumes "quiet ct" and "ct_worker ct = WExited"
  shows "all_resolved ct"
proof -
  have "waiting_tickets ct = []" using assms by (simp add: quiet_def waiting_tickets_def)
  with assms(1) show ?thesis by (auto simp: quiet_def tickets_ok_def all_resolved_def in_set_conv_nth)
qed

lemma quiet_exits:
  "quiet ct \<Longrightarrow> control_ok ct \<Longrightarrow>
   \<exists>ct'. (worker_step reference_kernel std_io)\<^sup>*\<^sup>* ct ct' \<and> ct_worker ct' = WExited \<and> all_resolved ct' \<and>
     length (ct_tickets ct') = length (ct_tickets ct)"
proof (induction "worker_measure ct" arbitrary: ct rule: less_induct)
  case less
  show ?case
  proof (cases "ct_worker ct = WExited")
    case True
    then show ?thesis using quiet_resolved [OF less.prems(1)] by blast
  next
    case False
    obtain ct1 where 1: "worker_step reference_kernel std_io ct ct1"
      using worker_progress [OF less.prems False] by blast
    note kept = quiet_step [OF 1 less.prems(2,1)]
    obtain ct' where "(worker_step reference_kernel std_io)\<^sup>*\<^sup>* ct1 ct'" "ct_worker ct' = WExited" "all_resolved ct'"
      "length (ct_tickets ct') = length (ct_tickets ct1)"
      using less.hyps [OF worker_step_decreases [OF 1]] kept worker_control_ok [OF 1 less.prems(2)] by blast
    then show ?thesis using 1 kept by (metis converse_rtranclp_into_rtranclp)
  qed
qed

lemma quiet_steps:
  "(worker_step K IO)\<^sup>*\<^sup>* ct ct' \<Longrightarrow> quiet ct \<Longrightarrow> control_ok ct \<Longrightarrow>
   quiet ct' \<and> control_ok ct' \<and> length (ct_tickets ct') = length (ct_tickets ct)"
proof (induction rule: rtranclp_induct)
  case (step y z)
  then show ?case using quiet_step [OF step.hyps(2)] worker_control_ok [OF step.hyps(2)] by simp
qed simp

lemma ctl_reach_quiet:
  assumes "ctl_reach K IO start ct" and "ctl_ok start" and "disconnected ct" and "\<not> leaving (ct_worker ct)"
  shows "quiet ct \<and> control_ok ct"
proof -
  have "ctl_ok ct" by (rule ctl_reach_ok [OF assms(1,2)])
  moreover have "ct_worker ct \<noteq> WExited" using assms(4) by auto
  ultimately show ?thesis using assms(3,4) by (simp add: quiet_def ctl_ok_def)
qed


section \<open>Properties\<close>

text \<open>
  C24. The tickets of a durable controller.  In every state that its clients, a shutdown and the
  worker can reach in any interleaving: an intent waits at most once, in the channel or in the
  worker's batch; its ticket is then unresolved and its mailbox is empty; every other ticket is
  resolved, unless the worker has exited after a shutdown began.  The queue depth stays within the
  capacity and, while the worker runs, counts exactly the queued intents and the submission under
  way; a batch never exceeds its limit.
\<close>

theorem controller_tickets:
  assumes "controller_new db capacity max_batch = Inr start" and "ctl_reach K IO start ct"
  shows "distinct (waiting_tickets ct) \<and>
    (\<forall>t < length (ct_tickets ct).
       (t \<in> set (waiting_tickets ct) \<longrightarrow> tk_phase (ct_tickets ct ! t) \<noteq> TResolved \<and> tk_mailbox (ct_tickets ct ! t) = None) \<and>
       (t \<notin> set (waiting_tickets ct) \<longrightarrow> tk_phase (ct_tickets ct ! t) = TResolved \<or>
          ct_worker ct = WExited \<and> ct_shutdown ct \<noteq> ShutNone)) \<and>
    cm_queue_depth (ct_metrics ct) \<le> ct_capacity ct \<and>
    (ct_worker ct \<noteq> WExited \<longrightarrow> cm_queue_depth (ct_metrics ct) =
       length (intents_of (ct_channel ct)) + (if ct_submitting ct = None then 0 else 1)) \<and>
    length (batch_of (ct_worker ct)) \<le> ct_max_batch ct"
  using ctl_reach_ok [OF assms(2) controller_new_ok [OF assms(1)]]
  by (cases "ct_worker ct") (auto simp: ctl_ok_def control_ok_def queue_ok_def tickets_ok_def)

text \<open>A run of one intent up to its outcome.\<close>

definition guard_intent :: queued_intent where
  "guard_intent = expect_absent ''s'' (fst (intent_new 3))"

lemma controller_new_started:
  "\<exists>start. controller_new db 2 1 = Inr start \<and> ct_state start = CRunning \<and> ct_reason start = None \<and> ct_capacity start = 2 \<and>
     ct_max_batch start = 1 \<and> ct_sender start \<and> ct_receiver start \<and> ct_channel start = [] \<and> ct_pending start = [] \<and>
     ct_worker start = WReceive \<and> ct_submitting start = None \<and> ct_tickets start = [] \<and> ct_flushes start = [] \<and>
     ct_shutdown start = ShutNone \<and> cm_queue_depth (ct_metrics start) = 0 \<and> cm_submitted (ct_metrics start) = 0 \<and>
     cm_maximum_queue_depth (ct_metrics start) = 0"
  by (simp add: controller_new_def)

lemma submitted_run:
  assumes "ctl_reach K IO start ct" and "ct_state ct = CRunning" and "ct_sender ct" and "ct_receiver ct"
    and "ct_submitting ct = None" and "cm_queue_depth (ct_metrics ct) < ct_capacity ct" and "length (ct_channel ct) < ct_capacity ct"
  shows "ctl_reach K IO start (snd (submit_end i (snd (submit_begin i ct))))"
proof -
  let ?ct = "snd (submit_begin i ct)"
  have "client_step ct ?ct" by (rule cs_submit [of ct i "fst (submit_begin i ct)"]) (simp_all add: assms(5))
  then have 1: "ctl_reach K IO start ?ct" by (rule reach_client [OF assms(1)])
  have "client_step ?ct (snd (submit_end i ?ct))"
    by (rule cs_send [of ?ct i "fst (submit_end i ?ct)"]) (use assms in \<open>simp_all add: submit_begin_def reserve_ingress_def\<close>)
  then show ?thesis by (rule reach_client [OF 1])
qed


lemma submitted_ct:
  assumes "ct_state ct = CRunning" and "ct_sender ct" and "ct_receiver ct"
    and "cm_queue_depth (ct_metrics ct) < ct_capacity ct" and "length (ct_channel ct) < ct_capacity ct"
  shows "snd (submit_end i (snd (submit_begin i ct))) =
    ct\<lparr>ct_submitting := None,
       ct_metrics := (ct_metrics ct)\<lparr>cm_queue_depth := cm_queue_depth (ct_metrics ct) + 1,
         cm_maximum_queue_depth := max (cm_maximum_queue_depth (ct_metrics ct)) (cm_queue_depth (ct_metrics ct) + 1),
         cm_submitted := cm_submitted (ct_metrics ct) + 1\<rparr>,
       ct_channel := ct_channel ct @ [CIntent \<lparr>si_intent = i, si_ticket = length (ct_tickets ct)\<rparr>],
       ct_tickets := ct_tickets ct @ [ticket_new]\<rparr>"
  using assms by (simp add: submit_begin_def submit_end_def reserve_ingress_def update_metrics_def Let_def)

text \<open>A run of one intent up to its outcome.\<close>

lemma claimed_run:
  assumes start: "controller_new db 2 1 = Inr start"
  shows "\<exists>ct s. ctl_reach K IO start ct \<and> ct_worker ct = WSealed [s] \<and> ct_channel ct = [] \<and> length (ct_tickets ct) = 1"
proof -
  note fields = controller_new_started [of db, unfolded start]
  let ?s = "\<lparr>si_intent = guard_intent, si_ticket = 0\<rparr>"
  let ?sent = "snd (submit_end guard_intent (snd (submit_begin guard_intent start)))"
  let ?taken = "(claim ?s (?sent\<lparr>ct_channel := []\<rparr>))\<lparr>ct_worker := WBatch [?s]\<rparr>"
  have sent: "ctl_reach K IO start ?sent"
    by (rule submitted_run [OF reach_start]) (use fields in simp_all)
  have "worker_receive ?sent = Some ?taken"
    using fields by (simp add: submitted_ct worker_receive_def next_command.simps)
  moreover have "ct_worker ?sent = WReceive" using fields by (simp add: submitted_ct)
  ultimately have taken: "ctl_reach K IO start ?taken" by (intro reach_worker [OF sent] ws_receive)
  have "worker_step K IO ?taken (?taken\<lparr>ct_worker := WSealed [?s]\<rparr>)" by (rule ws_seal) simp
  from reach_worker [OF taken this] show ?thesis using fields
    by (intro exI [of _ "?taken\<lparr>ct_worker := WSealed [?s]\<rparr>"] exI [of _ ?s]) (simp add: submitted_ct)
qed

lemma processed_run:
  assumes start: "controller_new db 2 1 = Inr start"
  shows "\<exists>ct. ctl_reach reference_kernel std_io start ct \<and> waiting_tickets ct = [] \<and> ct_worker ct \<noteq> WExited \<and>
    length (ct_tickets ct) = 1"
proof -
  from claimed_run [OF start, of reference_kernel std_io] obtain ct s where
    ct: "ctl_reach reference_kernel std_io start ct" "ct_worker ct = WSealed [s]" "ct_channel ct = []" "length (ct_tickets ct) = 1"
    by blast
  from worker_process_returns [of "[s]" ct] obtain ct' where run: "worker_process reference_kernel std_io [s] ct = Some ct'" by blast
  have step: "worker_step reference_kernel std_io ct ct'" by (rule ws_process [OF ct(2) run])
  from worker_process_cases [OF run] obtain r b where "process_durable_batch reference_kernel std_io [s] ct = Some (r, b)"
    and ct': "ct' = (case r of Inr _ \<Rightarrow> b\<lparr>ct_worker := WReceive\<rparr>
      | Inl cause \<Rightarrow> (poison_store cause (ctl_poison cause b))\<lparr>ct_worker := WTakeSender cause\<rparr>)" .
  then have "ct_channel b = []" using process_durable_batch_control ct(3) by (fastforce simp: same_control_def)
  then have "waiting_tickets ct' = []" "ct_worker ct' \<noteq> WExited"
    using ct' by (cases r; simp add: waiting_tickets_def poison_store_def ctl_poison_def)+
  then show ?thesis using reach_worker [OF ct(1) step] worker_moves [OF step] ct(4) by auto
qed

theorem controller_tickets_witness:
  "\<exists>start ct. controller_new (durable_sample []) 2 1 = Inr start \<and> ctl_reach reference_kernel std_io start ct \<and>
    length (ct_tickets ct) = 1 \<and> tk_phase (ct_tickets ct ! 0) = TResolved \<and> cm_queue_depth (ct_metrics ct) \<le> ct_capacity ct"
proof -
  obtain start where start: "controller_new (durable_sample []) 2 1 = Inr start" using controller_new_started by blast
  from processed_run [OF start] obtain ct where ct: "ctl_reach reference_kernel std_io start ct" "waiting_tickets ct = []"
    "ct_worker ct \<noteq> WExited" "length (ct_tickets ct) = 1" by blast
  from controller_tickets [OF start ct(1)] ct start show ?thesis by auto
qed

text \<open>
  C25. Only durable intents are acknowledged: in every reachable state, a ticket whose mailbox
  holds an acceptance names a frame that the store has made durable.
\<close>

theorem acknowledged_is_durable:
  assumes "controller_new db capacity max_batch = Inr start" and "ctl_reach K IO start ct"
  shows "frames_acknowledged ct"
  using ctl_reach_ok [OF assms(2) controller_new_ok [OF assms(1)]] by (simp add: ctl_ok_def)

theorem acknowledged_is_durable_witness:
  "\<exists>start ct. controller_new (durable_sample [Works, Short 5]) 2 1 = Inr start \<and> ctl_reach reference_kernel std_io start ct \<and>
    waiting_tickets ct = [] \<and> length (ct_tickets ct) = 1 \<and> frames_acknowledged ct"
proof -
  obtain start where start: "controller_new (durable_sample [Works, Short 5]) 2 1 = Inr start" using controller_new_started by blast
  from processed_run [OF start] obtain ct where ct: "ctl_reach reference_kernel std_io start ct" "waiting_tickets ct = []"
    "length (ct_tickets ct) = 1" by blast
  with acknowledged_is_durable [OF start ct(1)] start show ?thesis by auto
qed

text \<open>
  C27. The worker of a durable controller stops: however the intents, the answers of the file and
  the kernel behave, no run of worker steps is infinite.
\<close>

theorem worker_terminates: "wfp (\<lambda>ct' ct. worker_step K IO ct ct')"
  by (rule wfp_if_convertible_to_nat [of _ worker_measure]) (rule worker_step_decreases)

text \<open>
  C26. A shutdown resolves every ticket.  Once every sender is gone and the worker has not begun to
  leave, the worker is never stuck before it has exited: every run of its steps can go on to the
  exit (and, by termination, has to), and there every ticket ever issued is resolved.
\<close>

theorem shutdown_resolves:
  assumes "controller_new db capacity max_batch = Inr start" and "ctl_reach reference_kernel std_io start ct"
    and "disconnected ct" and "\<not> leaving (ct_worker ct)"
    and "(worker_step reference_kernel std_io)\<^sup>*\<^sup>* ct ct1"
  shows "(ct_worker ct1 \<noteq> WExited \<longrightarrow> (\<exists>ct2. worker_step reference_kernel std_io ct1 ct2)) \<and>
    (\<exists>ct2. (worker_step reference_kernel std_io)\<^sup>*\<^sup>* ct1 ct2 \<and> ct_worker ct2 = WExited \<and>
       length (ct_tickets ct2) = length (ct_tickets ct) \<and> (\<forall>tk \<in> set (ct_tickets ct2). tk_phase tk = TResolved))"
proof -
  have "quiet ct \<and> control_ok ct" by (rule ctl_reach_quiet [OF assms(2) controller_new_ok [OF assms(1)] assms(3,4)])
  then have "quiet ct1" "control_ok ct1" "length (ct_tickets ct1) = length (ct_tickets ct)"
    using quiet_steps [OF assms(5)] by simp_all
  then show ?thesis using worker_progress [of ct1] quiet_exits [of ct1] by (simp add: all_resolved_def) blast
qed


text \<open>A shutdown of a controller with one queued intent, up to the end of admission.\<close>

lemma shutdown_run:
  assumes "ctl_reach K IO start ct" and "ct_shutdown ct = ShutNone"
  shows "ctl_reach K IO start (shutdown_mark (ct_state ct) (shutdown_begin ct))"
  by (rule reach_client [OF reach_client [OF assms(1) cs_shutdown [OF assms(2)]] cs_shutdown_mark]) (simp add: shutdown_begin_def)

theorem shutdown_resolves_witness:
  "\<exists>start ct ct2. controller_new (durable_sample []) 2 1 = Inr start \<and> ctl_reach reference_kernel std_io start ct \<and>
    tk_phase (ct_tickets ct ! 0) = TQueued \<and> (worker_step reference_kernel std_io)\<^sup>*\<^sup>* ct ct2 \<and>
    ct_worker ct2 = WExited \<and> tk_phase (ct_tickets ct2 ! 0) = TResolved"
proof -
  obtain start where start: "controller_new (durable_sample []) 2 1 = Inr start" using controller_new_started by blast
  note fields = controller_new_started [of "durable_sample []", unfolded start]
  let ?sent = "snd (submit_end guard_intent (snd (submit_begin guard_intent start)))"
  let ?marked = "shutdown_mark CRunning (shutdown_begin ?sent)"
  let ?ct = "shutdown_take CRunning ?marked"
  have "ctl_reach reference_kernel std_io start ?sent"
    by (rule submitted_run [OF reach_start]) (use fields in simp_all)
  then have "ctl_reach reference_kernel std_io start ?marked"
    using shutdown_run [of reference_kernel std_io start ?sent] fields by (simp add: submitted_ct)
  then have reach: "ctl_reach reference_kernel std_io start ?ct"
    by (rule reach_client) (rule cs_shutdown_take, use fields in \<open>simp_all add: submitted_ct shutdown_mark_def shutdown_begin_def\<close>)
  have "disconnected ?ct" "\<not> leaving (ct_worker ?ct)" "length (ct_tickets ?ct) = 1" "tk_phase (ct_tickets ?ct ! 0) = TQueued"
    using fields by (simp_all add: disconnected_def shutdown_take_def shutdown_mark_def shutdown_begin_def submitted_ct ticket_new_def)
  note before = this
  from shutdown_resolves [OF start reach before(1,2) rtranclp.rtrancl_refl] obtain ct2 where
    after: "(worker_step reference_kernel std_io)\<^sup>*\<^sup>* ?ct ct2" "ct_worker ct2 = WExited"
    "length (ct_tickets ct2) = length (ct_tickets ?ct)" "\<forall>tk \<in> set (ct_tickets ct2). tk_phase tk = TResolved" by blast
  have "tk_phase (ct_tickets ct2 ! 0) = TResolved" using after(3,4) before(3) by (metis nth_mem zero_less_one)
  with start reach before(4) after(1,2) show ?thesis by blast
qed


text \<open>
  The worker of a draining controller: it rejects the queued intent, finds the channel empty and
  leaves, while a second submission that was admitted before the shutdown has not sent yet.
\<close>

lemma late_run:
  fixes K :: "'k kernel_ops" and IO :: "'s epoch_io"
  assumes start: "controller_new db 2 1 = Inr start"
  shows "\<exists>ct. ctl_reach K IO start ct \<and> ct_submitting ct = Some guard_intent \<and> ct_worker ct = WReturning \<and>
    ct_state ct = CClosed \<and> ct_reason ct = None \<and> ct_channel ct = [] \<and> ct_receiver ct \<and> ct_capacity ct = 2 \<and>
    length (ct_tickets ct) = 1 \<and> cm_submitted (ct_metrics ct) = 1 \<and> ct_shutdown ct = ShutTake CRunning \<and> ct_database ct = db"
proof -
  note fields = controller_new_started [of db, unfolded start]
  have database: "ct_database start = db" using start by (auto simp: controller_new_def)
  let ?s = "\<lparr>si_intent = guard_intent, si_ticket = 0\<rparr>"
  define c1 where "c1 = snd (submit_end guard_intent (snd (submit_begin guard_intent start)))"
  define c2 where "c2 = snd (submit_begin guard_intent c1)"
  define c3 where "c3 = shutdown_mark CRunning (shutdown_begin c2)"
  define c4 where "c4 = (reject_command (CIntent ?s) DrainShutdown (c3\<lparr>ct_channel := []\<rparr>))\<lparr>ct_worker := WDrain DrainShutdown\<rparr>"
  note defs = c1_def c2_def c3_def c4_def
  have r1: "ctl_reach K IO start c1" unfolding c1_def
    by (rule submitted_run [OF reach_start]) (use fields in simp_all)
  have f1: "ct_state c1 = CRunning" "ct_reason c1 = None" "ct_sender c1" "ct_receiver c1" "ct_channel c1 = [CIntent ?s]"
    "ct_pending c1 = []" "ct_worker c1 = WReceive" "ct_submitting c1 = None" "length (ct_tickets c1) = 1" "ct_capacity c1 = 2"
    "ct_shutdown c1 = ShutNone" "cm_queue_depth (ct_metrics c1) = 1" "cm_submitted (ct_metrics c1) = 1" "ct_database c1 = db"
    using fields database by (simp_all add: c1_def submitted_ct)
  have "client_step c1 c2" unfolding c2_def
    by (rule cs_submit [of c1 guard_intent "fst (submit_begin guard_intent c1)"]) (simp_all add: f1)
  then have r2: "ctl_reach K IO start c2" by (rule reach_client [OF r1])
  have f2: "ct_state c2 = CRunning" "ct_shutdown c2 = ShutNone" "ct_submitting c2 = Some guard_intent"
    "ct_reason c2 = None" "ct_receiver c2" "ct_channel c2 = [CIntent ?s]" "ct_pending c2 = []" "ct_worker c2 = WReceive"
    "length (ct_tickets c2) = 1" "ct_capacity c2 = 2" "cm_submitted (ct_metrics c2) = 1" "ct_database c2 = db"
    using f1 by (simp_all add: c2_def submit_begin_def reserve_ingress_def update_metrics_def)
  have r3: "ctl_reach K IO start c3" using shutdown_run [OF r2 f2(2)] f2(1) by (simp add: c3_def)
  have f3: "ct_state c3 = CDraining" "ct_shutdown c3 = ShutTake CRunning" "ct_submitting c3 = Some guard_intent"
    "ct_reason c3 = None" "ct_receiver c3" "ct_channel c3 = [CIntent ?s]" "ct_pending c3 = []" "ct_worker c3 = WReceive"
    "length (ct_tickets c3) = 1" "ct_capacity c3 = 2" "cm_submitted (ct_metrics c3) = 1" "ct_database c3 = db"
    using f2 by (simp_all add: c3_def shutdown_mark_def shutdown_begin_def)
  have "worker_receive c3 = Some c4" by (simp add: worker_receive_def next_command.simps f3 c4_def)
  then have r4: "ctl_reach K IO start c4" by (intro reach_worker [OF r3] ws_receive) (simp_all add: f3)
  have f4: "ct_state c4 = CDraining" "ct_shutdown c4 = ShutTake CRunning" "ct_submitting c4 = Some guard_intent"
    "ct_reason c4 = None" "ct_receiver c4" "ct_channel c4 = []" "ct_pending c4 = []" "ct_worker c4 = WDrain DrainShutdown"
    "length (ct_tickets c4) = 1" "ct_capacity c4 = 2" "cm_submitted (ct_metrics c4) = 1" "ct_database c4 = db"
    using f3 by (simp_all add: c4_def reject_command_def release_ingress_def ticket_resolve_def update_metrics_def update_ticket_def Let_def)
  have "worker_drain DrainShutdown c4 = c4\<lparr>ct_worker := WLeaving\<rparr>"
    by (simp add: worker_drain_def next_command.simps f4)
  then have r5: "ctl_reach K IO start (c4\<lparr>ct_worker := WLeaving\<rparr>)" using reach_worker [OF r4 ws_drain [OF f4(8)]] by simp
  have "ctl_reach K IO start (worker_leave (c4\<lparr>ct_worker := WLeaving\<rparr>))"
    by (rule reach_worker [OF r5 ws_leave]) simp
  with f4 show ?thesis
    by (intro exI [of _ "worker_leave (c4\<lparr>ct_worker := WLeaving\<rparr>)"]) (simp add: worker_leave_def)
qed


text \<open>
  C32. A clean shutdown can lose an admitted intent or end poisoned, with any kernel and any file.
  A submission checks the state before it sends; when the worker drains the channel in between,
  the intent is either admitted (\<open>submitted\<close> counts it) into a channel that nobody reads, and the
  controller closes with a ticket that never gets an outcome; or its send finds the receiver gone
  and poisons a controller that had closed without any failure.
\<close>

theorem shutdown_races_submission:
  "\<exists>start. controller_new db 2 1 = Inr start \<and>
    (\<exists>ct. ctl_reach K IO start ct \<and> ct_shutdown ct = ShutDone CRunning CClosed \<and> ct_reason ct = None \<and>
       cm_submitted (ct_metrics ct) = 2 \<and> length (ct_tickets ct) = 2 \<and> tk_phase (ct_tickets ct ! 1) = TQueued \<and>
       fst (ticket_try_wait 1 ct) = Inl ()) \<and>
    (\<exists>ct. ctl_reach K IO start ct \<and> ct_shutdown ct = ShutDone CRunning CPoisoned \<and>
       ct_reason ct = Some ChannelDisconnected \<and> cm_submitted (ct_metrics ct) = 1 \<and> ct_database ct = db)"
proof -
  obtain start where start: "controller_new db 2 1 = Inr start" using controller_new_started by blast
  from late_run [OF start, of K IO] obtain ct where reach: "ctl_reach K IO start ct"
    and f: "ct_submitting ct = Some guard_intent" "ct_worker ct = WReturning" "ct_state ct = CClosed" "ct_reason ct = None"
      "ct_channel ct = []" "ct_receiver ct" "ct_capacity ct = 2" "length (ct_tickets ct) = 1"
      "cm_submitted (ct_metrics ct) = 1" "ct_shutdown ct = ShutTake CRunning" "ct_database ct = db" by blast
  define sent where "sent = snd (submit_end guard_intent ct)"
  have step: "client_step ct sent" unfolding sent_def
    by (rule cs_send [OF f(1), of "fst (submit_end guard_intent ct)"]) simp
  let ?s = "\<lparr>si_intent = guard_intent, si_ticket = 1\<rparr>"
  have s: "ct_submitting sent = None" "ct_worker sent = WReturning" "ct_state sent = CClosed" "ct_reason sent = None"
    "ct_channel sent = [CIntent ?s]" "ct_tickets sent = ct_tickets ct @ [ticket_new]" "cm_submitted (ct_metrics sent) = 2"
    "ct_shutdown sent = ShutTake CRunning"
    using f by (simp_all add: sent_def submit_end_def update_metrics_def Let_def)
  have left: "ctl_reach K IO start (worker_return sent)"
    by (rule reach_worker [OF reach_client [OF reach step] ws_return]) (rule s(2))
  have one: "\<exists>ct. ctl_reach K IO start ct \<and> ct_shutdown ct = ShutDone CRunning CClosed \<and> ct_reason ct = None \<and>
      cm_submitted (ct_metrics ct) = 2 \<and> length (ct_tickets ct) = 2 \<and> tk_phase (ct_tickets ct ! 1) = TQueued \<and>
      fst (ticket_try_wait 1 ct) = Inl ()"
  proof (intro exI conjI)
    let ?ct = "worker_return sent"
    have g: "ct_submitting ?ct = None" "ct_worker ?ct = WExited" "ct_shutdown ?ct = ShutTake CRunning" "ct_state ?ct = CClosed"
      "ct_reason ?ct = None" "cm_submitted (ct_metrics ?ct) = 2"
      "ct_tickets ?ct = ct_tickets ct @ [ticket_new\<lparr>tk_sender := False\<rparr>]"
      using s f(8) by (simp_all add: worker_return_def drop_command_def update_ticket_def nth_append list_update_append)
    have "ctl_reach K IO start (shutdown_take CRunning ?ct)"
      by (rule reach_client [OF left cs_shutdown_take]) (use g in simp_all)
    then show "ctl_reach K IO start (shutdown_join CRunning (shutdown_take CRunning ?ct))"
      by (rule reach_client [OF _ cs_shutdown_join]) (use g in \<open>simp_all add: shutdown_take_def\<close>)
  qed (use s f(8) in \<open>simp_all add: shutdown_join_def shutdown_take_def worker_return_def drop_command_def update_ticket_def
      nth_append ticket_new_def ticket_try_wait_def Let_def\<close>)
  define gone where "gone = snd (submit_end guard_intent (worker_return ct))"
  have two: "\<exists>ct. ctl_reach K IO start ct \<and> ct_shutdown ct = ShutDone CRunning CPoisoned \<and>
      ct_reason ct = Some ChannelDisconnected \<and> cm_submitted (ct_metrics ct) = 1 \<and> ct_database ct = db"
  proof (intro exI conjI)
    have "ctl_reach K IO start (worker_return ct)" by (rule reach_worker [OF reach ws_return [OF f(2)]])
    moreover have "client_step (worker_return ct) gone" unfolding gone_def
      by (rule cs_send [where r = "fst (submit_end guard_intent (worker_return ct))"]) (simp_all add: f worker_return_def)
    ultimately have reach: "ctl_reach K IO start gone" by (rule reach_client)
    have g: "ct_submitting gone = None" "ct_worker gone = WExited" "ct_shutdown gone = ShutTake CRunning" "ct_state gone = CPoisoned"
      "ct_reason gone = Some ChannelDisconnected" "cm_submitted (ct_metrics gone) = 1" "ct_database gone = db"
      using f by (simp_all add: gone_def submit_end_def worker_return_def release_ingress_def update_metrics_def ctl_poison_def Let_def)
    have "ctl_reach K IO start (shutdown_take CRunning gone)"
      by (rule reach_client [OF reach cs_shutdown_take]) (use g in simp_all)
    then show "ctl_reach K IO start (shutdown_join CRunning (shutdown_take CRunning gone))"
      by (rule reach_client [OF _ cs_shutdown_join]) (use g in \<open>simp_all add: shutdown_take_def\<close>)
    show "ct_shutdown (shutdown_join CRunning (shutdown_take CRunning gone)) = ShutDone CRunning CPoisoned"
      "ct_reason (shutdown_join CRunning (shutdown_take CRunning gone)) = Some ChannelDisconnected"
      "cm_submitted (ct_metrics (shutdown_join CRunning (shutdown_take CRunning gone))) = 1"
      "ct_database (shutdown_join CRunning (shutdown_take CRunning gone)) = db"
      using g by (simp_all add: shutdown_join_def shutdown_take_def Let_def)
  qed
  from start one two show ?thesis by blast
qed

end
