(* ===== verification/Semantic_Stream.thy ===== *)
theory Semantic_Stream
  imports Stack_VM Frame_Codec
begin

text \<open>
  The instruction streams of frontends and of the admission journal (\<open>semantic_isa.rs\<close>) and the
  readers and writers that they share with \<open>queued.rs\<close>.  A cursor is the list of bytes that are
  left; every reader stops at its first error, so the position after an error does not matter.
  Messages of errors are constructors.  The position of a cursor plus the length of a string, both
  below \<open>2 ^ 63\<close>, never overflows; running out of memory for a large announced count is not
  modelled.
\<close>

section \<open>Readers and writers\<close>

datatype wire_error =
    ShortRead
  | TruncatedString
  | InvalidUtf8
  | InvalidStreamMagic "byte list"
  | UnsupportedIsaVersion u32
  | UnknownOpcode string
  | InvalidTag string byte
  | UnknownSlotToken u32

type_synonym 'a reader = "byte list \<Rightarrow> wire_error + ('a \<times> byte list)"

definition wire_u8 :: "byte \<Rightarrow> byte list" where
  "wire_u8 b = [b]"

definition wire_u32 :: "u32 \<Rightarrow> byte list" where
  "wire_u32 n = le_bytes 4 n"

definition wire_u64 :: "u64 \<Rightarrow> byte list" where
  "wire_u64 n = le_bytes 8 n"

definition wire_string :: "string \<Rightarrow> byte list" where
  "wire_string s = wire_u32 (word_of_nat (length s)) @ as_bytes s"

definition read_exact :: "nat \<Rightarrow> byte list reader" where
  "read_exact n bs = (if length bs < n then Inl ShortRead else Inr (take n bs, drop n bs))"

definition take_u8 :: "byte reader" where
  "take_u8 bs = res_bind (read_exact 1 bs) (\<lambda>(b, bs). Inr (hd b, bs))"

definition take_u32 :: "u32 reader" where
  "take_u32 bs = res_bind (read_exact 4 bs) (\<lambda>(b, bs). Inr (of_le_bytes b, bs))"

definition take_u64 :: "u64 reader" where
  "take_u64 bs = res_bind (read_exact 8 bs) (\<lambda>(b, bs). Inr (of_le_bytes b, bs))"

definition take_string :: "string reader" where
  "take_string bs =
     res_bind (take_u32 bs) (\<lambda>(n, bs).
       if unat n > length bs then Inl TruncatedString
       else if \<not> utf8_valid (take (unat n) bs) then Inl InvalidUtf8
       else Inr (of_bytes (take (unat n) bs), drop (unat n) bs))"

text \<open>The loops over an announced count.\<close>

primrec take_times :: "nat \<Rightarrow> 'a reader \<Rightarrow> 'a list reader" where
  "take_times 0 get bs = Inr ([], bs)"
| "take_times (Suc n) get bs =
     res_bind (get bs) (\<lambda>(x, bs). res_bind (take_times n get bs) (\<lambda>(xs, bs). Inr (x # xs, bs)))"

definition take_counted :: "'a reader \<Rightarrow> 'a list reader" where
  "take_counted get bs = res_bind (take_u32 bs) (\<lambda>(n, bs). take_times (unat n) get bs)"

definition wire_counted :: "('a \<Rightarrow> byte list) \<Rightarrow> 'a list \<Rightarrow> byte list" where
  "wire_counted put xs = wire_u32 (word_of_nat (length xs)) @ concat (map put xs)"

text \<open>
  What a format relies on: a reader accepts exactly what its writer writes.  Then it reads back
  what was written, whatever follows, and accepts nothing else.
\<close>

locale wire =
  fixes put :: "'a \<Rightarrow> byte list" and get :: "'a reader" and valid :: "'a \<Rightarrow> bool"
  assumes get_iff: "get bs = Inr (x, rest) \<longleftrightarrow> valid x \<and> bs = put x @ rest"
begin

lemma get_put: "valid x \<Longrightarrow> get (put x @ rest) = Inr (x, rest)"
  by (simp add: get_iff)

lemma times_iff:
  "take_times n get bs = Inr (xs, rest) \<longleftrightarrow> length xs = n \<and> list_all valid xs \<and> bs = concat (map put xs) @ rest"
proof (induction n arbitrary: bs xs)
  case (Suc n)
  show ?case
  proof (cases xs)
    case (Cons y ys)
    have "take_times (Suc n) get bs = Inr (xs, rest) \<longleftrightarrow>
        (\<exists>bs1. get bs = Inr (y, bs1) \<and> take_times n get bs1 = Inr (ys, rest))"
      by (auto simp: res_bind_Inr Cons)
    then show ?thesis by (auto simp: get_iff Suc.IH Cons)
  qed (auto simp: res_bind_Inr)
qed auto

end

lemma read_exact_iff: "read_exact n bs = Inr (xs, rest) \<longleftrightarrow> length xs = n \<and> bs = xs @ rest"
  by (auto simp: read_exact_def)

lemma le_bytes_iff_u32: "length b = 4 \<and> x = of_le_bytes b \<longleftrightarrow> b = le_bytes 4 (x :: u32)"
  by (metis le_roundtrip_u32 length_le_bytes le_bytes_of_le_bytes_u32)

lemma le_bytes_iff_u64: "length b = 8 \<and> x = of_le_bytes b \<longleftrightarrow> b = le_bytes 8 (x :: u64)"
  by (metis le_roundtrip_u64 length_le_bytes le_bytes_of_le_bytes_u64)

interpretation u8_wire: wire wire_u8 take_u8 "\<lambda>x. True"
  by unfold_locales (auto simp: take_u8_def wire_u8_def res_bind_Inr read_exact_iff length_Suc_conv)

interpretation u32_wire: wire wire_u32 take_u32 "\<lambda>x. True"
proof
  fix bs rest :: "byte list" and x :: u32
  have "take_u32 bs = Inr (x, rest) \<longleftrightarrow> (\<exists>b. (length b = 4 \<and> x = of_le_bytes b) \<and> bs = b @ rest)"
    by (auto simp: take_u32_def res_bind_Inr read_exact_iff)
  then show "take_u32 bs = Inr (x, rest) \<longleftrightarrow> True \<and> bs = wire_u32 x @ rest"
    unfolding le_bytes_iff_u32 by (simp add: wire_u32_def)
qed

interpretation u64_wire: wire wire_u64 take_u64 "\<lambda>x. True"
proof
  fix bs rest :: "byte list" and x :: u64
  have "take_u64 bs = Inr (x, rest) \<longleftrightarrow> (\<exists>b. (length b = 8 \<and> x = of_le_bytes b) \<and> bs = b @ rest)"
    by (auto simp: take_u64_def res_bind_Inr read_exact_iff)
  then show "take_u64 bs = Inr (x, rest) \<longleftrightarrow> True \<and> bs = wire_u64 x @ rest"
    unfolding le_bytes_iff_u64 by (simp add: wire_u64_def)
qed

definition wire_text :: "string \<Rightarrow> bool" where
  "wire_text s \<longleftrightarrow> rust_string s \<and> length s < 2 ^ 32"

lemma unat_length_u32: "unat (word_of_nat n :: u32) = n \<longleftrightarrow> n < 2 ^ 32"
proof -
  have "unat (word_of_nat n :: u32) = n mod 2 ^ 32" by (simp add: unat_of_nat)
  then show ?thesis by (metis mod_less mod_less_divisor zero_less_numeral zero_less_power)
qed

interpretation string_wire: wire wire_string take_string wire_text
proof
  fix bs rest :: "byte list" and s :: string
  show "take_string bs = Inr (s, rest) \<longleftrightarrow> wire_text s \<and> bs = wire_string s @ rest"
  proof
    assume "take_string bs = Inr (s, rest)"
    then obtain n bs1 where "bs = wire_u32 n @ bs1" "unat n \<le> length bs1" "utf8_valid (take (unat n) bs1)"
      "s = of_bytes (take (unat n) bs1)" "rest = drop (unat n) bs1"
      by (auto simp: take_string_def res_bind_Inr u32_wire.get_iff split: if_splits)
    moreover from this have "length s = unat n" by (simp add: of_bytes_def)
    moreover from this have "word_of_nat (length s) = n" "length s < 2 ^ 32"
      using unsigned_less [of n, where ?'a = nat] by simp_all
    ultimately show "wire_text s \<and> bs = wire_string s @ rest"
      by (auto simp: wire_text_def rust_string_def wire_string_def)
  next
    assume a: "wire_text s \<and> bs = wire_string s @ rest"
    then have "unat (word_of_nat (length s) :: u32) = length s" by (simp add: wire_text_def unat_length_u32)
    with a show "take_string bs = Inr (s, rest)"
      by (simp add: take_string_def wire_string_def u32_wire.get_put wire_text_def rust_string_def)
  qed
qed

context wire
begin

lemma counted: "wire (wire_counted put) (take_counted get) (\<lambda>xs. length xs < 2 ^ 32 \<and> list_all valid xs)"
proof
  fix bs rest :: "byte list" and xs
  show "take_counted get bs = Inr (xs, rest) \<longleftrightarrow> (length xs < 2 ^ 32 \<and> list_all valid xs) \<and> bs = wire_counted put xs @ rest"
  proof
    assume "take_counted get bs = Inr (xs, rest)"
    then obtain n where "bs = wire_u32 n @ concat (map put xs) @ rest" "length xs = unat n" "list_all valid xs"
      by (auto simp: take_counted_def res_bind_Inr u32_wire.get_iff times_iff)
    moreover from this have "word_of_nat (length xs) = n" "length xs < 2 ^ 32"
      using unsigned_less [of n, where ?'a = nat] by simp_all
    ultimately show "(length xs < 2 ^ 32 \<and> list_all valid xs) \<and> bs = wire_counted put xs @ rest"
      by (simp add: wire_counted_def)
  next
    assume a: "(length xs < 2 ^ 32 \<and> list_all valid xs) \<and> bs = wire_counted put xs @ rest"
    then have "unat (word_of_nat (length xs) :: u32) = length xs" by (simp add: unat_length_u32)
    with a show "take_counted get bs = Inr (xs, rest)"
      by (simp add: take_counted_def wire_counted_def u32_wire.get_put times_iff)
  qed
qed

end

lemmas wire_iffs = u8_wire.get_iff u32_wire.get_iff u64_wire.get_iff string_wire.get_iff

section \<open>Frames of instructions\<close>

definition SEMANTIC_ISA_VERSION_1 :: u32 where
  "SEMANTIC_ISA_VERSION_1 = 1"

definition STREAM_MAGIC :: "byte list" where
  "STREAM_MAGIC = as_bytes ''SISA''"

record stream_dictionary =
  di_slots :: "(slot_token \<times> slot_id) list"
  di_predicates :: "(cell \<times> string) list"
  di_literals :: "(cell \<times> string) list"

definition dictionary_new :: stream_dictionary where
  "dictionary_new = \<lparr>di_slots = [], di_predicates = [], di_literals = []\<rparr>"

record stream_frame =
  st_version :: u32
  st_namespace :: u64
  st_dictionary :: stream_dictionary
  st_local_count :: u32
  st_instructions :: "instruction list"

definition stream_frame_new :: "u64 \<Rightarrow> stream_dictionary \<Rightarrow> u32 \<Rightarrow> instruction list \<Rightarrow> stream_frame" where
  "stream_frame_new ns dict locals is =
     \<lparr>st_version = SEMANTIC_ISA_VERSION_1, st_namespace = ns, st_dictionary = dict, st_local_count = locals,
      st_instructions = is\<rparr>"

definition encode_instruction :: "instruction \<Rightarrow> byte list" where
  "encode_instruction i = wire_u8 (opcode_u8 (i_opcode i)) @ wire_u32 (i_argument i) @ wire_u64 (i_immediate i)"

definition decode_instruction :: "instruction reader" where
  "decode_instruction bs =
     res_bind (take_u8 bs) (\<lambda>(b, bs).
     res_bind (take_u32 bs) (\<lambda>(arg, bs).
     res_bind (take_u64 bs) (\<lambda>(imm, bs).
     res_bind (res_map_err UnknownOpcode (opcode_from_u8 b)) (\<lambda>opc.
       Inr (instr_raw opc arg imm, bs)))))"

definition encode_slot_entry :: "slot_token \<times> slot_id \<Rightarrow> byte list" where
  "encode_slot_entry e = wire_u32 (fst e) @ wire_string (snd e)"

definition decode_slot_entry :: "(slot_token \<times> slot_id) reader" where
  "decode_slot_entry bs = res_bind (take_u32 bs) (\<lambda>(t, bs). res_bind (take_string bs) (\<lambda>(s, bs). Inr ((t, s), bs)))"

definition encode_cell_entry :: "cell \<times> string \<Rightarrow> byte list" where
  "encode_cell_entry e = wire_u64 (fst e) @ wire_string (snd e)"

definition decode_cell_entry :: "(cell \<times> string) reader" where
  "decode_cell_entry bs = res_bind (take_u64 bs) (\<lambda>(c, bs). res_bind (take_string bs) (\<lambda>(s, bs). Inr ((c, s), bs)))"

definition encode_instruction_stream_frame :: "stream_frame \<Rightarrow> byte list" where
  "encode_instruction_stream_frame f =
     STREAM_MAGIC @ wire_u32 (st_version f) @ wire_u64 (st_namespace f) @
     wire_counted encode_slot_entry (di_slots (st_dictionary f)) @
     wire_counted encode_cell_entry (di_predicates (st_dictionary f)) @
     wire_counted encode_cell_entry (di_literals (st_dictionary f)) @
     wire_u32 (st_local_count f) @ wire_counted encode_instruction (st_instructions f)"

definition decode_instruction_stream_frame :: "stream_frame reader" where
  "decode_instruction_stream_frame bs =
     res_bind (read_exact 4 bs) (\<lambda>(magic, bs).
     if magic \<noteq> STREAM_MAGIC then Inl (InvalidStreamMagic magic) else
     res_bind (take_u32 bs) (\<lambda>(version, bs).
     if version \<noteq> SEMANTIC_ISA_VERSION_1 then Inl (UnsupportedIsaVersion version) else
     res_bind (take_u64 bs) (\<lambda>(ns, bs).
     res_bind (take_counted decode_slot_entry bs) (\<lambda>(slots, bs).
     res_bind (take_counted decode_cell_entry bs) (\<lambda>(preds, bs).
     res_bind (take_counted decode_cell_entry bs) (\<lambda>(lits, bs).
     res_bind (take_u32 bs) (\<lambda>(locals, bs).
     res_bind (take_counted decode_instruction bs) (\<lambda>(is, bs).
       Inr (\<lparr>st_version = version, st_namespace = ns,
             st_dictionary = \<lparr>di_slots = slots, di_predicates = preds, di_literals = lits\<rparr>,
             st_local_count = locals, st_instructions = is\<rparr>, bs)))))))))"

section \<open>The format\<close>

lemma opcode_from_u8_iff: "opcode_from_u8 b = Inr opc \<longleftrightarrow> b = opcode_u8 opc"
proof
  assume "opcode_from_u8 b = Inr opc"
  then show "b = opcode_u8 opc" by (auto simp: opcode_from_u8_def split: if_splits)
qed (cases opc; simp add: opcode_from_u8_def)

interpretation instruction_wire: wire encode_instruction decode_instruction "\<lambda>x. True"
proof
  fix bs rest :: "byte list" and x :: instruction
  show "decode_instruction bs = Inr (x, rest) \<longleftrightarrow> True \<and> bs = encode_instruction x @ rest"
  proof
    assume "decode_instruction bs = Inr (x, rest)"
    then obtain opc arg imm where "x = instr_raw opc arg imm" "bs = wire_u8 (opcode_u8 opc) @ wire_u32 arg @ wire_u64 imm @ rest"
      by (auto simp: decode_instruction_def res_bind_Inr wire_iffs opcode_from_u8_iff)
    then show "True \<and> bs = encode_instruction x @ rest" by (simp add: instr_raw_def encode_instruction_def)
  next
    have "opcode_from_u8 (opcode_u8 (i_opcode x)) = Inr (i_opcode x)" by (simp add: opcode_from_u8_iff)
    moreover assume "True \<and> bs = encode_instruction x @ rest"
    ultimately show "decode_instruction bs = Inr (x, rest)"
      by (simp add: decode_instruction_def encode_instruction_def instr_raw_def u8_wire.get_put u32_wire.get_put u64_wire.get_put)
  qed
qed

interpretation slot_entry_wire: wire encode_slot_entry decode_slot_entry "\<lambda>e. wire_text (snd e)"
  by unfold_locales (auto simp: encode_slot_entry_def decode_slot_entry_def res_bind_Inr wire_iffs)

interpretation cell_entry_wire: wire encode_cell_entry decode_cell_entry "\<lambda>e. wire_text (snd e)"
  by unfold_locales (auto simp: encode_cell_entry_def decode_cell_entry_def res_bind_Inr wire_iffs)

definition stream_valid :: "stream_frame \<Rightarrow> bool" where
  "stream_valid f \<longleftrightarrow> st_version f = SEMANTIC_ISA_VERSION_1 \<and>
     (let d = st_dictionary f in
      length (di_slots d) < 2 ^ 32 \<and> (\<forall>e \<in> set (di_slots d). wire_text (snd e)) \<and>
      length (di_predicates d) < 2 ^ 32 \<and> (\<forall>e \<in> set (di_predicates d). wire_text (snd e)) \<and>
      length (di_literals d) < 2 ^ 32 \<and> (\<forall>e \<in> set (di_literals d). wire_text (snd e))) \<and>
     length (st_instructions f) < 2 ^ 32"

lemmas stream_iffs = wire.get_iff [OF slot_entry_wire.counted] wire.get_iff [OF cell_entry_wire.counted]
  wire.get_iff [OF instruction_wire.counted]

lemma length_STREAM_MAGIC [simp]: "length STREAM_MAGIC = 4"
  by (simp add: STREAM_MAGIC_def)

interpretation stream_wire: wire encode_instruction_stream_frame decode_instruction_stream_frame stream_valid
proof
  fix bs rest :: "byte list" and f :: stream_frame
  have "decode_instruction_stream_frame bs = Inr (f, rest) \<longleftrightarrow>
    (\<exists>ns slots preds lits locals is.
       f = \<lparr>st_version = SEMANTIC_ISA_VERSION_1, st_namespace = ns,
             st_dictionary = \<lparr>di_slots = slots, di_predicates = preds, di_literals = lits\<rparr>,
             st_local_count = locals, st_instructions = is\<rparr> \<and>
       length slots < 2 ^ 32 \<and> list_all (\<lambda>e. wire_text (snd e)) slots \<and>
       length preds < 2 ^ 32 \<and> list_all (\<lambda>e. wire_text (snd e)) preds \<and>
       length lits < 2 ^ 32 \<and> list_all (\<lambda>e. wire_text (snd e)) lits \<and> length is < 2 ^ 32 \<and>
       bs = STREAM_MAGIC @ wire_u32 SEMANTIC_ISA_VERSION_1 @ wire_u64 ns @ wire_counted encode_slot_entry slots @
         wire_counted encode_cell_entry preds @ wire_counted encode_cell_entry lits @ wire_u32 locals @
         wire_counted encode_instruction is @ rest)"
    by (auto simp: decode_instruction_stream_frame_def res_bind_Inr read_exact_iff wire_iffs stream_iffs list_all_iff
        split: if_splits)
  also have "\<dots> \<longleftrightarrow> stream_valid f \<and> bs = encode_instruction_stream_frame f @ rest"
    by (cases f, cases "st_dictionary f")
      (auto simp: stream_valid_def encode_instruction_stream_frame_def list_all_iff Let_def)
  finally show "decode_instruction_stream_frame bs = Inr (f, rest) \<longleftrightarrow> stream_valid f \<and> bs = encode_instruction_stream_frame f @ rest" .
qed

section \<open>Properties\<close>

text \<open>
  C28. The stream format is exact: decoding accepts precisely the encodings of frames that the
  format can hold (its version, counts and lengths below \<open>2 ^ 32\<close>, UTF-8 strings), returns the
  encoded frame and leaves what follows it.
\<close>

theorem stream_codec_exact:
  "decode_instruction_stream_frame bs = Inr (f, rest) \<longleftrightarrow>
   stream_valid f \<and> bs = encode_instruction_stream_frame f @ rest"
  by (rule stream_wire.get_iff)

end
