(* ===== verification/Intent_Codec.thy ===== *)
theory Intent_Codec
  imports Semantic_Stream Queued_Intents
begin

text \<open>
  The plain byte format of queued intents (\<open>queued.rs\<close>: \<open>encode_queued_intent\<close> and
  \<open>decode_queued_intent\<close>), with the readers and writers of \<open>Semantic_Stream\<close>, which the code has
  twice.  A tag that is not expected is an error that names the place of the tag.
\<close>

section \<open>Writers and readers\<close>

definition encode_temporary :: "temp_entity \<Rightarrow> byte list" where
  "encode_temporary t = wire_u64 (te_namespace t) @ wire_u32 (te_index t)"

definition decode_temporary :: "temp_entity reader" where
  "decode_temporary bs =
     res_bind (take_u64 bs) (\<lambda>(ns, bs). res_bind (take_u32 bs) (\<lambda>(k, bs).
       Inr (\<lparr>te_namespace = ns, te_index = k\<rparr>, bs)))"

fun encode_intent_atom :: "intent_atom \<Rightarrow> byte list" where
  "encode_intent_atom (IEntity e) = wire_u8 0 @ wire_u64 e"
| "encode_intent_atom (ITemporary t) = wire_u8 1 @ encode_temporary t"
| "encode_intent_atom (ILiteral l) = wire_u8 2 @ wire_string l"

definition decode_intent_atom :: "intent_atom reader" where
  "decode_intent_atom bs =
     res_bind (take_u8 bs) (\<lambda>(tag, bs).
       if tag = 0 then res_bind (take_u64 bs) (\<lambda>(e, bs). Inr (IEntity e, bs))
       else if tag = 1 then res_bind (decode_temporary bs) (\<lambda>(t, bs). Inr (ITemporary t, bs))
       else if tag = 2 then res_bind (take_string bs) (\<lambda>(l, bs). Inr (ILiteral l, bs))
       else Inl (InvalidTag ''intent atom'' tag))"

definition encode_intent_fact :: "intent_fact \<Rightarrow> byte list" where
  "encode_intent_fact f =
     encode_intent_atom (if_subject f) @ wire_string (if_predicate f) @ encode_intent_atom (if_object f)"

definition decode_intent_fact :: "intent_fact reader" where
  "decode_intent_fact bs =
     res_bind (decode_intent_atom bs) (\<lambda>(s, bs).
     res_bind (take_string bs) (\<lambda>(p, bs).
     res_bind (decode_intent_atom bs) (\<lambda>(ob, bs).
       Inr (\<lparr>if_subject = s, if_predicate = p, if_object = ob\<rparr>, bs))))"

fun encode_wire_atom :: "atom \<Rightarrow> byte list" where
  "encode_wire_atom (AEntity e) = wire_u8 0 @ wire_u64 e"
| "encode_wire_atom (ALiteral l) = wire_u8 1 @ wire_string l"

definition decode_wire_atom :: "atom reader" where
  "decode_wire_atom bs =
     res_bind (take_u8 bs) (\<lambda>(tag, bs).
       if tag = 0 then res_bind (take_u64 bs) (\<lambda>(e, bs). Inr (AEntity e, bs))
       else if tag = 1 then res_bind (take_string bs) (\<lambda>(l, bs). Inr (ALiteral l, bs))
       else Inl (InvalidTag ''fact atom'' tag))"

definition encode_wire_fact :: "fact \<Rightarrow> byte list" where
  "encode_wire_fact f = encode_wire_atom (subject f) @ wire_string (predicate f) @ encode_wire_atom (object f)"

definition decode_wire_fact :: "fact reader" where
  "decode_wire_fact bs =
     res_bind (decode_wire_atom bs) (\<lambda>(s, bs).
     res_bind (take_string bs) (\<lambda>(p, bs).
     res_bind (decode_wire_atom bs) (\<lambda>(ob, bs).
       Inr (fact_new s p ob, bs))))"

fun encode_precondition :: "intent_precondition \<Rightarrow> byte list" where
  "encode_precondition (ExpectedWorld w) = wire_u8 0 @ wire_u64 w"
| "encode_precondition (ExpectedSlot slot (Some f)) = wire_u8 1 @ wire_string slot @ wire_u8 1 @ encode_wire_fact f"
| "encode_precondition (ExpectedSlot slot None) = wire_u8 1 @ wire_string slot @ wire_u8 0"

definition decode_precondition :: "intent_precondition reader" where
  "decode_precondition bs =
     res_bind (take_u8 bs) (\<lambda>(tag, bs).
       if tag = 0 then res_bind (take_u64 bs) (\<lambda>(w, bs). Inr (ExpectedWorld w, bs))
       else if tag = 1 then
         res_bind (take_string bs) (\<lambda>(slot, bs).
         res_bind (take_u8 bs) (\<lambda>(tag, bs).
           if tag = 0 then Inr (ExpectedSlot slot None, bs)
           else if tag = 1 then res_bind (decode_wire_fact bs) (\<lambda>(f, bs). Inr (ExpectedSlot slot (Some f), bs))
           else Inl (InvalidTag ''expected fact'' tag)))
       else Inl (InvalidTag ''intent precondition'' tag))"

fun encode_intent_operation :: "intent_operation \<Rightarrow> byte list" where
  "encode_intent_operation (IAllocateEntity t) = wire_u8 0 @ encode_temporary t"
| "encode_intent_operation (IDefine slot f) = wire_u8 1 @ wire_string slot @ encode_intent_fact f"
| "encode_intent_operation (IForget slot) = wire_u8 2 @ wire_string slot"

definition decode_intent_operation :: "intent_operation reader" where
  "decode_intent_operation bs =
     res_bind (take_u8 bs) (\<lambda>(tag, bs).
       if tag = 0 then res_bind (decode_temporary bs) (\<lambda>(t, bs). Inr (IAllocateEntity t, bs))
       else if tag = 1 then
         res_bind (take_string bs) (\<lambda>(slot, bs). res_bind (decode_intent_fact bs) (\<lambda>(f, bs). Inr (IDefine slot f, bs)))
       else if tag = 2 then res_bind (take_string bs) (\<lambda>(slot, bs). Inr (IForget slot, bs))
       else Inl (InvalidTag ''intent operation'' tag))"

definition encode_queued_intent :: "queued_intent \<Rightarrow> byte list" where
  "encode_queued_intent i =
     wire_u64 (qi_namespace i) @ wire_u32 (qi_next_temporary i) @
     wire_counted encode_precondition (qi_preconditions i) @ wire_counted encode_intent_operation (qi_operations i)"

definition read_queued_intent :: "queued_intent reader" where
  "read_queued_intent bs =
     res_bind (take_u64 bs) (\<lambda>(ns, bs).
     res_bind (take_u32 bs) (\<lambda>(k, bs).
     res_bind (take_counted decode_precondition bs) (\<lambda>(ps, bs).
     res_bind (take_counted decode_intent_operation bs) (\<lambda>(os, bs).
       Inr (\<lparr>qi_namespace = ns, qi_next_temporary = k, qi_preconditions = ps, qi_operations = os\<rparr>, bs)))))"

text \<open>Decoding moves the counter of namespaces behind the namespace that was read.\<close>

definition decode_queued_intent :: "u64 \<Rightarrow> byte list \<Rightarrow> wire_error + ((queued_intent \<times> u64) \<times> byte list)" where
  "decode_queued_intent counter bs =
     res_map (\<lambda>(i, bs). ((i, max counter (saturating_add_u64 (qi_namespace i) 1)), bs)) (read_queued_intent bs)"

section \<open>The format\<close>

fun wire_intent_atom :: "intent_atom \<Rightarrow> bool" where
  "wire_intent_atom (ILiteral l) \<longleftrightarrow> wire_text l"
| "wire_intent_atom a \<longleftrightarrow> True"

definition wire_intent_fact :: "intent_fact \<Rightarrow> bool" where
  "wire_intent_fact f \<longleftrightarrow> wire_intent_atom (if_subject f) \<and> wire_text (if_predicate f) \<and> wire_intent_atom (if_object f)"

fun wire_atom :: "atom \<Rightarrow> bool" where
  "wire_atom (ALiteral l) \<longleftrightarrow> wire_text l"
| "wire_atom (AEntity e) \<longleftrightarrow> True"

definition wire_fact :: "fact \<Rightarrow> bool" where
  "wire_fact f \<longleftrightarrow> wire_atom (subject f) \<and> wire_text (predicate f) \<and> wire_atom (object f)"

fun wire_precondition :: "intent_precondition \<Rightarrow> bool" where
  "wire_precondition (ExpectedWorld w) \<longleftrightarrow> True"
| "wire_precondition (ExpectedSlot slot expected) \<longleftrightarrow> wire_text slot \<and> (\<forall>f. expected = Some f \<longrightarrow> wire_fact f)"

fun wire_operation :: "intent_operation \<Rightarrow> bool" where
  "wire_operation (IAllocateEntity t) \<longleftrightarrow> True"
| "wire_operation (IDefine slot f) \<longleftrightarrow> wire_text slot \<and> wire_intent_fact f"
| "wire_operation (IForget slot) \<longleftrightarrow> wire_text slot"

definition wire_intent :: "queued_intent \<Rightarrow> bool" where
  "wire_intent i \<longleftrightarrow> length (qi_preconditions i) < 2 ^ 32 \<and> list_all wire_precondition (qi_preconditions i) \<and>
     length (qi_operations i) < 2 ^ 32 \<and> list_all wire_operation (qi_operations i)"

lemmas wire_puts = u8_wire.get_put u32_wire.get_put u64_wire.get_put string_wire.get_put

interpretation temporary_wire: wire encode_temporary decode_temporary "\<lambda>t. True"
proof
  fix bs rest :: "byte list" and t :: temp_entity
  show "decode_temporary bs = Inr (t, rest) \<longleftrightarrow> True \<and> bs = encode_temporary t @ rest"
    by (cases t) (auto simp: decode_temporary_def encode_temporary_def res_bind_Inr wire_iffs)
qed

interpretation intent_atom_wire: wire encode_intent_atom decode_intent_atom wire_intent_atom
proof
  fix bs rest :: "byte list" and a :: intent_atom
  show "decode_intent_atom bs = Inr (a, rest) \<longleftrightarrow> wire_intent_atom a \<and> bs = encode_intent_atom a @ rest"
  proof
    assume "decode_intent_atom bs = Inr (a, rest)"
    then show "wire_intent_atom a \<and> bs = encode_intent_atom a @ rest"
      by (auto simp: decode_intent_atom_def res_bind_Inr wire_iffs temporary_wire.get_iff split: if_splits)
  qed (cases a; simp add: decode_intent_atom_def wire_puts temporary_wire.get_put)
qed

interpretation intent_fact_wire: wire encode_intent_fact decode_intent_fact wire_intent_fact
proof
  fix bs rest :: "byte list" and f :: intent_fact
  show "decode_intent_fact bs = Inr (f, rest) \<longleftrightarrow> wire_intent_fact f \<and> bs = encode_intent_fact f @ rest"
    by (cases f) (auto simp: decode_intent_fact_def encode_intent_fact_def wire_intent_fact_def res_bind_Inr wire_iffs
        intent_atom_wire.get_iff)
qed

interpretation atom_wire: wire encode_wire_atom decode_wire_atom wire_atom
proof
  fix bs rest :: "byte list" and a :: atom
  show "decode_wire_atom bs = Inr (a, rest) \<longleftrightarrow> wire_atom a \<and> bs = encode_wire_atom a @ rest"
  proof
    assume "decode_wire_atom bs = Inr (a, rest)"
    then show "wire_atom a \<and> bs = encode_wire_atom a @ rest"
      by (auto simp: decode_wire_atom_def res_bind_Inr wire_iffs split: if_splits)
  qed (cases a; simp add: decode_wire_atom_def wire_puts)
qed

interpretation fact_wire: wire encode_wire_fact decode_wire_fact wire_fact
proof
  fix bs rest :: "byte list" and f :: fact
  show "decode_wire_fact bs = Inr (f, rest) \<longleftrightarrow> wire_fact f \<and> bs = encode_wire_fact f @ rest"
    by (cases f) (auto simp: decode_wire_fact_def encode_wire_fact_def wire_fact_def res_bind_Inr wire_iffs
        atom_wire.get_iff fact_new_def)
qed

interpretation precondition_wire: wire encode_precondition decode_precondition wire_precondition
proof
  fix bs rest :: "byte list" and p :: intent_precondition
  show "decode_precondition bs = Inr (p, rest) \<longleftrightarrow> wire_precondition p \<and> bs = encode_precondition p @ rest"
  proof
    assume "decode_precondition bs = Inr (p, rest)"
    then show "wire_precondition p \<and> bs = encode_precondition p @ rest"
      by (auto simp: decode_precondition_def res_bind_Inr wire_iffs fact_wire.get_iff split: if_splits)
  next
    assume "wire_precondition p \<and> bs = encode_precondition p @ rest"
    then show "decode_precondition bs = Inr (p, rest)"
      by (cases p rule: encode_precondition.cases) (simp_all add: decode_precondition_def wire_puts fact_wire.get_put)
  qed
qed

interpretation operation_wire: wire encode_intent_operation decode_intent_operation wire_operation
proof
  fix bs rest :: "byte list" and p :: intent_operation
  show "decode_intent_operation bs = Inr (p, rest) \<longleftrightarrow> wire_operation p \<and> bs = encode_intent_operation p @ rest"
  proof
    assume "decode_intent_operation bs = Inr (p, rest)"
    then show "wire_operation p \<and> bs = encode_intent_operation p @ rest"
      by (auto simp: decode_intent_operation_def res_bind_Inr wire_iffs temporary_wire.get_iff intent_fact_wire.get_iff
          split: if_splits)
  qed (cases p; simp add: decode_intent_operation_def wire_puts temporary_wire.get_put intent_fact_wire.get_put)
qed

interpretation intent_wire: wire encode_queued_intent read_queued_intent wire_intent
proof
  fix bs rest :: "byte list" and i :: queued_intent
  show "read_queued_intent bs = Inr (i, rest) \<longleftrightarrow> wire_intent i \<and> bs = encode_queued_intent i @ rest"
    by (cases i) (auto simp: read_queued_intent_def encode_queued_intent_def wire_intent_def res_bind_Inr wire_iffs
        wire.get_iff [OF precondition_wire.counted] wire.get_iff [OF operation_wire.counted])
qed

section \<open>Properties\<close>

text \<open>
  C29. The plain format of intents is exact: decoding accepts precisely the encodings of intents
  whose strings are UTF-8 and whose counts and lengths fit in 32 bits, returns the encoded intent,
  leaves what follows it, and moves the counter of namespaces past the namespace it read.
\<close>

theorem intent_codec_exact:
  "decode_queued_intent counter bs = Inr ((i, counter'), rest) \<longleftrightarrow>
   wire_intent i \<and> bs = encode_queued_intent i @ rest \<and> counter' = max counter (saturating_add_u64 (qi_namespace i) 1)"
  using intent_wire.get_iff [of bs i rest] by (auto simp: decode_queued_intent_def res_map_Inr)

end
