(* ===== verification/Intent_Stream.thy ===== *)
theory Intent_Stream
  imports Intent_Codec VM_Compile
begin

text \<open>
  Queued intents as instruction streams (\<open>queued.rs\<close>: \<open>compile_to_stream_frame\<close> and
  \<open>from_stream_frame\<close>), the form in which the admission journal keeps them.  Compiling numbers
  the slots, predicates and literals in the order of their first use; reading a stream back
  interprets its instructions on a stack of values.
\<close>

section \<open>Compiling\<close>

record stream_compiler =
  sc_slots :: "(slot_id, slot_token) hash_map"
  sc_slot_vec :: "(slot_token \<times> slot_id) list"
  sc_preds :: "(string, cell) hash_map"
  sc_pred_vec :: "(cell \<times> string) list"
  sc_lits :: "(string, cell) hash_map"
  sc_lit_vec :: "(cell \<times> string) list"
  sc_code :: "instruction list"

definition stream_compiler_new :: stream_compiler where
  "stream_compiler_new =
     \<lparr>sc_slots = [], sc_slot_vec = [], sc_preds = [], sc_pred_vec = [], sc_lits = [], sc_lit_vec = [], sc_code = []\<rparr>"

definition get_slot :: "slot_id \<Rightarrow> stream_compiler \<Rightarrow> slot_token \<times> stream_compiler" where
  "get_slot x s =
     (case hm_get (sc_slots s) x of
        Some t \<Rightarrow> (t, s)
      | None \<Rightarrow>
          let t = word_of_nat (length (sc_slots s))
          in (t, s\<lparr>sc_slots := hm_insert x t (sc_slots s), sc_slot_vec := sc_slot_vec s @ [(t, x)]\<rparr>))"

definition get_predicate :: "string \<Rightarrow> stream_compiler \<Rightarrow> cell \<times> stream_compiler" where
  "get_predicate x s =
     (case hm_get (sc_preds s) x of
        Some c \<Rightarrow> (c, s)
      | None \<Rightarrow>
          let c = word_of_nat (length (sc_preds s))
          in (c, s\<lparr>sc_preds := hm_insert x c (sc_preds s), sc_pred_vec := sc_pred_vec s @ [(c, x)]\<rparr>))"

definition get_literal :: "string \<Rightarrow> stream_compiler \<Rightarrow> cell \<times> stream_compiler" where
  "get_literal x s =
     (case hm_get (sc_lits s) x of
        Some c \<Rightarrow> (c, s)
      | None \<Rightarrow>
          let c = VM_LITERAL_BASE + word_of_nat (length (sc_lits s))
          in (c, s\<lparr>sc_lits := hm_insert x c (sc_lits s), sc_lit_vec := sc_lit_vec s @ [(c, x)]\<rparr>))"

definition stream_emit :: "instruction list \<Rightarrow> stream_compiler \<Rightarrow> stream_compiler" where
  "stream_emit is s = s\<lparr>sc_code := sc_code s @ is\<rparr>"

fun compile_intent_atom :: "intent_atom \<Rightarrow> stream_compiler \<Rightarrow> stream_compiler" where
  "compile_intent_atom (IEntity e) s = stream_emit [push_cell e] s"
| "compile_intent_atom (ITemporary t) s = stream_emit [load_local (te_index t)] s"
| "compile_intent_atom (ILiteral l) s = (case get_literal l s of (c, s) \<Rightarrow> stream_emit [push_cell c] s)"

definition compile_intent_fact :: "intent_fact \<Rightarrow> stream_compiler \<Rightarrow> stream_compiler" where
  "compile_intent_fact f s =
     (case get_predicate (if_predicate f) (compile_intent_atom (if_subject f) s) of
        (c, s) \<Rightarrow> compile_intent_atom (if_object f) (stream_emit [push_cell c] s))"

text \<open>The atoms of an expected fact are compiled in the same way.\<close>

fun compile_precondition :: "intent_precondition \<Rightarrow> stream_compiler \<Rightarrow> stream_compiler" where
  "compile_precondition (ExpectedWorld w) s = stream_emit [instr_raw OpExpectObject (- 1) w] s"
| "compile_precondition (ExpectedSlot slot expected) s =
     (case get_slot slot s of (t, s) \<Rightarrow>
        (case expected of
           Some f \<Rightarrow> stream_emit [expect_object t 1] (compile_intent_fact (intent_fact_of f) s)
         | None \<Rightarrow> stream_emit [expect_object t 0] s))"

fun compile_operation :: "intent_operation \<Rightarrow> stream_compiler \<Rightarrow> stream_compiler" where
  "compile_operation (IAllocateEntity t) s = stream_emit [allocate, store_local (te_index t)] s"
| "compile_operation (IDefine slot f) s =
     (case get_slot slot s of (t, s) \<Rightarrow> stream_emit [define_slot t] (compile_intent_fact f s))"
| "compile_operation (IForget slot) s = (case get_slot slot s of (t, s) \<Rightarrow> stream_emit [forget_slot t] s)"

definition compile_to_stream_frame :: "queued_intent \<Rightarrow> wire_error + stream_frame" where
  "compile_to_stream_frame i =
     (let s = fold compile_operation (qi_operations i) (fold compile_precondition (qi_preconditions i) stream_compiler_new)
      in Inr (stream_frame_new (qi_namespace i)
           \<lparr>di_slots = sc_slot_vec s, di_predicates = sc_pred_vec s, di_literals = sc_lit_vec s\<rparr>
           (qi_next_temporary i) (sc_code s)))"

section \<open>Reading back\<close>

datatype stack_val = SAtom intent_atom | SCell u64

record stream_maps =
  sm_slots :: "slot_token \<rightharpoonup> slot_id"
  sm_preds :: "cell \<rightharpoonup> string"
  sm_lits :: "cell \<rightharpoonup> string"

definition stream_maps_of :: "stream_dictionary \<Rightarrow> stream_maps" where
  "stream_maps_of d =
     \<lparr>sm_slots = fold (\<lambda>(t, x) m. m(t \<mapsto> x)) (di_slots d) Map.empty,
      sm_preds = fold (\<lambda>(c, x) m. m(c \<mapsto> x)) (di_predicates d) Map.empty,
      sm_lits = fold (\<lambda>(c, x) m. m(c \<mapsto> x)) (di_literals d) Map.empty\<rparr>"

fun stream_atom :: "stream_maps \<Rightarrow> stack_val \<Rightarrow> intent_atom" where
  "stream_atom m (SAtom a) = a"
| "stream_atom m (SCell c) =
     (if c < VM_LITERAL_BASE then IEntity c
      else case sm_lits m c of Some l \<Rightarrow> ILiteral l | None \<Rightarrow> ILiteral (''lit_'' @ decimal (unat c)))"

fun stream_predicate :: "stream_maps \<Rightarrow> stack_val \<Rightarrow> string" where
  "stream_predicate m (SCell c) = (case sm_preds m c of Some p \<Rightarrow> p | None \<Rightarrow> ''pred_'' @ decimal (unat c))"
| "stream_predicate m (SAtom (ILiteral l)) = l"
| "stream_predicate m (SAtom a) = ''predicate''"

fun plain_atom :: "intent_atom \<Rightarrow> atom" where
  "plain_atom (IEntity e) = AEntity e"
| "plain_atom (ILiteral l) = ALiteral l"
| "plain_atom (ITemporary t) = AEntity 0"

definition stream_slot :: "stream_maps \<Rightarrow> slot_token \<Rightarrow> wire_error + slot_id" where
  "stream_slot m t = (case sm_slots m t of Some x \<Rightarrow> Inr x | None \<Rightarrow> Inl (UnknownSlotToken t))"

text \<open>
  The loop.  An \<open>Allocate\<close> takes a following \<open>StoreLocal\<close> with it; a definition or an expected fact
  without three values below it is skipped, as are the other instructions.  \<open>None\<close> is the panic of
  \<open>entity\<close>.
\<close>

definition skip_store :: "instruction list \<Rightarrow> instruction list" where
  "skip_store xs = (case xs of [] \<Rightarrow> [] | y # ys \<Rightarrow> if i_opcode y = OpStoreLocal then ys else xs)"

lemma length_skip_store: "length (skip_store xs) \<le> length xs"
  by (simp add: skip_store_def split: list.split)

function stream_loop ::
  "stream_maps \<Rightarrow> instruction list \<Rightarrow> stack_val list \<Rightarrow> queued_intent \<Rightarrow> (wire_error + queued_intent) option" where
  "stream_loop m [] stk i = Some (Inr i)"
| "stream_loop m (x # xs) stk i =
     (case i_opcode x of
        OpAllocate \<Rightarrow>
          (case intent_entity i of
             None \<Rightarrow> None
           | Some (t, i) \<Rightarrow>
               stream_loop m (skip_store xs) stk i)
      | OpAllocateDiscard \<Rightarrow> (case intent_entity i of None \<Rightarrow> None | Some (t, i) \<Rightarrow> stream_loop m xs stk i)
      | OpPushCell \<Rightarrow> stream_loop m xs (SCell (i_immediate x) # stk) i
      | OpLoadLocal \<Rightarrow>
          stream_loop m xs (SAtom (ITemporary \<lparr>te_namespace = qi_namespace i, te_index = i_argument x\<rparr>) # stk) i
      | OpDefine \<Rightarrow>
          (case stk of
             obj # pred # subj # stk' \<Rightarrow>
               (case stream_slot m (i_argument x) of
                  Inl e \<Rightarrow> Some (Inl e)
                | Inr slot \<Rightarrow>
                    stream_loop m xs stk'
                      (intent_define slot
                        \<lparr>if_subject = stream_atom m subj, if_predicate = stream_predicate m pred,
                         if_object = stream_atom m obj\<rparr> i))
           | _ \<Rightarrow> stream_loop m xs stk i)
      | OpForget \<Rightarrow>
          (case stream_slot m (i_argument x) of
             Inl e \<Rightarrow> Some (Inl e)
           | Inr slot \<Rightarrow> stream_loop m xs stk (intent_forget slot i))
      | OpExpectObject \<Rightarrow>
          if i_argument x = - 1 then stream_loop m xs stk (expect_world (i_immediate x) i)
          else (case stream_slot m (i_argument x) of
                  Inl e \<Rightarrow> Some (Inl e)
                | Inr slot \<Rightarrow>
                    if i_immediate x = 0 then stream_loop m xs stk (expect_absent slot i)
                    else (case stk of
                            obj # pred # subj # stk' \<Rightarrow>
                              stream_loop m xs stk'
                                (expect_value slot
                                  (fact_new (plain_atom (stream_atom m subj)) (stream_predicate m pred)
                                    (plain_atom (stream_atom m obj))) i)
                          | _ \<Rightarrow> stream_loop m xs stk i))
      | _ \<Rightarrow> stream_loop m xs stk i)"
  by pat_completeness auto
termination
  by (relation "measure (\<lambda>(m, xs, stk, i). length xs)") (auto simp: less_Suc_eq_le length_skip_store)

text \<open>The first argument is the counter of namespaces, which \<open>QueuedIntent::new\<close> moves on.\<close>

definition from_stream_frame :: "u64 \<Rightarrow> stream_frame \<Rightarrow> ((wire_error + queued_intent) \<times> u64) option" where
  "from_stream_frame counter f =
     (case intent_new counter of (i, counter) \<Rightarrow>
        map_option (\<lambda>r. (r, counter))
          (stream_loop (stream_maps_of (st_dictionary f)) (st_instructions f) [] (i\<lparr>qi_namespace := st_namespace f\<rparr>)))"


section \<open>Numbering\<close>

lemma hm_insert_new: "hm_get m k = None \<Longrightarrow> hm_insert k v m = m @ [(k, v)]"
  by (induction m) (auto split: if_splits)

definition numbers :: "(nat \<Rightarrow> 'b) \<Rightarrow> nat \<Rightarrow> ('a, 'b) hash_map \<Rightarrow> ('b \<times> 'a) list \<Rightarrow> bool" where
  "numbers name n m vec \<longleftrightarrow> m = map (\<lambda>(t, x). (x, t)) vec \<and> map fst vec = map name [0..<length vec] \<and> length vec \<le> n"

definition compiler_ok :: "nat \<Rightarrow> stream_compiler \<Rightarrow> bool" where
  "compiler_ok n s \<longleftrightarrow>
     numbers word_of_nat n (sc_slots s) (sc_slot_vec s) \<and>
     numbers word_of_nat n (sc_preds s) (sc_pred_vec s) \<and>
     numbers (\<lambda>k. VM_LITERAL_BASE + word_of_nat k) n (sc_lits s) (sc_lit_vec s)"


lemma numbers_insert:
  assumes "numbers name n m vec" and "hm_get m k = None"
  shows "numbers name (Suc n) (hm_insert k (name (length m)) m) (vec @ [(name (length m), k)])"
  using assms hm_insert_new [OF assms(2)] by (simp add: numbers_def)

lemma numbers_get: "numbers name n m vec \<Longrightarrow> hm_get m k = Some t \<Longrightarrow> (t, k) \<in> set vec"
  by (auto simp: numbers_def dest!: map_of_SomeD)

lemma numbers_mono: "numbers name n m vec \<Longrightarrow> n \<le> n' \<Longrightarrow> numbers name n' m vec"
  by (simp add: numbers_def)

lemma numbers_Suc: "numbers name n m vec \<Longrightarrow> numbers name (Suc n) m vec"
  by (simp add: numbers_def)

definition compiler_grows :: "stream_compiler \<Rightarrow> stream_compiler \<Rightarrow> bool" where
  "compiler_grows s s' \<longleftrightarrow> set (sc_slot_vec s) \<subseteq> set (sc_slot_vec s') \<and>
     set (sc_pred_vec s) \<subseteq> set (sc_pred_vec s') \<and> set (sc_lit_vec s) \<subseteq> set (sc_lit_vec s')"

lemma compiler_grows_refl [simp]: "compiler_grows s s" "compiler_grows s' (stream_emit is s) \<longleftrightarrow> compiler_grows s' s"
  by (simp_all add: compiler_grows_def stream_emit_def)

lemma stream_emit_vecs [simp]:
  "sc_slot_vec (stream_emit is s) = sc_slot_vec s" "sc_pred_vec (stream_emit is s) = sc_pred_vec s"
  "sc_lit_vec (stream_emit is s) = sc_lit_vec s" "sc_code (stream_emit is s) = sc_code s @ is"
  by (simp_all add: stream_emit_def)

lemma compiler_grows_trans: "compiler_grows s s' \<Longrightarrow> compiler_grows s' s'' \<Longrightarrow> compiler_grows s s''"
  unfolding compiler_grows_def by blast

lemma compiler_ok_emit [simp]: "compiler_ok n (stream_emit is s) \<longleftrightarrow> compiler_ok n s"
  by (simp add: compiler_ok_def stream_emit_def)

lemma compiler_ok_mono: "compiler_ok n s \<Longrightarrow> n \<le> n' \<Longrightarrow> compiler_ok n' s"
  by (simp add: compiler_ok_def numbers_def)

text \<open>The maps of a reader that know every name of a compiler.\<close>

definition reads :: "stream_maps \<Rightarrow> stream_compiler \<Rightarrow> bool" where
  "reads m s \<longleftrightarrow>
     (\<forall>(t, x) \<in> set (sc_slot_vec s). sm_slots m t = Some x \<and> t \<noteq> - 1) \<and>
     (\<forall>(c, x) \<in> set (sc_pred_vec s). sm_preds m c = Some x) \<and>
     (\<forall>(c, x) \<in> set (sc_lit_vec s). sm_lits m c = Some x \<and> \<not> c < VM_LITERAL_BASE)"

lemma reads_grows: "compiler_grows s s' \<Longrightarrow> reads m s' \<Longrightarrow> reads m s"
  unfolding compiler_grows_def reads_def by blast

lemma get_slot_ok:
  assumes "compiler_ok n s" and "get_slot x s = (t, s')"
  shows "compiler_ok (Suc n) s' \<and> compiler_grows s s' \<and> sc_code s' = sc_code s \<and> (t, x) \<in> set (sc_slot_vec s')"
proof (cases "hm_get (sc_slots s) x")
  case None
  with assms show ?thesis
    using numbers_insert [of word_of_nat n "sc_slots s" "sc_slot_vec s" x]
    by (auto simp: get_slot_def Let_def compiler_ok_def compiler_grows_def intro: numbers_Suc)
next
  case (Some u)
  with assms show ?thesis
    using numbers_get [of word_of_nat n "sc_slots s" "sc_slot_vec s" x] compiler_ok_mono [of n s "Suc n"]
    by (auto simp: get_slot_def compiler_ok_def)
qed

lemma get_predicate_ok:
  assumes "compiler_ok n s" and "get_predicate x s = (c, s')"
  shows "compiler_ok (Suc n) s' \<and> compiler_grows s s' \<and> sc_code s' = sc_code s \<and> (c, x) \<in> set (sc_pred_vec s')"
proof (cases "hm_get (sc_preds s) x")
  case None
  with assms show ?thesis
    using numbers_insert [of word_of_nat n "sc_preds s" "sc_pred_vec s" x]
    by (auto simp: get_predicate_def Let_def compiler_ok_def compiler_grows_def intro: numbers_Suc)
next
  case (Some u)
  with assms show ?thesis
    using numbers_get [of word_of_nat n "sc_preds s" "sc_pred_vec s" x] compiler_ok_mono [of n s "Suc n"]
    by (auto simp: get_predicate_def compiler_ok_def)
qed

lemma get_literal_ok:
  assumes "compiler_ok n s" and "get_literal x s = (c, s')"
  shows "compiler_ok (Suc n) s' \<and> compiler_grows s s' \<and> sc_code s' = sc_code s \<and> (c, x) \<in> set (sc_lit_vec s')"
proof (cases "hm_get (sc_lits s) x")
  case None
  with assms show ?thesis
    using numbers_insert [of "\<lambda>k. VM_LITERAL_BASE + word_of_nat k" n "sc_lits s" "sc_lit_vec s" x]
    by (auto simp: get_literal_def Let_def compiler_ok_def compiler_grows_def intro: numbers_Suc)
next
  case (Some u)
  with assms show ?thesis
    using numbers_get [of "\<lambda>k. VM_LITERAL_BASE + word_of_nat k" n "sc_lits s" "sc_lit_vec s" x] compiler_ok_mono [of n s "Suc n"]
    by (auto simp: get_literal_def compiler_ok_def)
qed

section \<open>Reading what was compiled\<close>

text \<open>Atoms that a stream can name in an intent of the namespace.\<close>

fun local_atom :: "u64 \<Rightarrow> intent_atom \<Rightarrow> bool" where
  "local_atom ns (IEntity e) \<longleftrightarrow> e < VM_LITERAL_BASE"
| "local_atom ns (ITemporary t) \<longleftrightarrow> te_namespace t = ns"
| "local_atom ns (ILiteral l) \<longleftrightarrow> True"

definition local_fact :: "u64 \<Rightarrow> intent_fact \<Rightarrow> bool" where
  "local_fact ns f \<longleftrightarrow> local_atom ns (if_subject f) \<and> local_atom ns (if_object f)"

lemma atom_code:
  assumes ok: "compiler_ok n s"
  shows "compiler_ok (Suc n) (compile_intent_atom a s) \<and> compiler_grows s (compile_intent_atom a s) \<and>
    (\<exists>c. sc_code (compile_intent_atom a s) = sc_code s @ c \<and>
      (\<forall>m i rest stk. reads m (compile_intent_atom a s) \<longrightarrow> local_atom (qi_namespace i) a \<longrightarrow>
         (\<exists>v. stream_atom m v = a \<and> stream_loop m (c @ rest) stk i = stream_loop m rest (v # stk) i)))"
proof (cases a)
  case (IEntity e)
  have "\<exists>v. stream_atom m v = a \<and> stream_loop m ([push_cell e] @ rest) stk i = stream_loop m rest (v # stk) i"
    if "local_atom (qi_namespace i) a" for m i rest stk
    using that IEntity by (intro exI [of _ "SCell e"]) (simp add: push_cell_def)
  then show ?thesis using ok IEntity compiler_ok_mono [of n s "Suc n"] by auto
next
  case (ITemporary t)
  have "\<exists>v. stream_atom m v = a \<and> stream_loop m ([load_local (te_index t)] @ rest) stk i = stream_loop m rest (v # stk) i"
    if "local_atom (qi_namespace i) a" for m i rest stk
    using that ITemporary
    by (intro exI [of _ "SAtom (ITemporary \<lparr>te_namespace = qi_namespace i, te_index = te_index t\<rparr>)"]) (simp add: load_local_def)
  then show ?thesis using ok ITemporary compiler_ok_mono [of n s "Suc n"] by auto
next
  case (ILiteral l)
  obtain c s1 where g: "get_literal l s = (c, s1)" by fastforce
  note 1 = get_literal_ok [OF ok g]
  have "\<exists>v. stream_atom m v = a \<and> stream_loop m ([push_cell c] @ rest) stk i = stream_loop m rest (v # stk) i"
    if "reads m s1" for m i rest stk
    using that 1 ILiteral by (intro exI [of _ "SCell c"]) (auto simp: push_cell_def reads_def)
  moreover have "reads m (stream_emit is s1) \<longleftrightarrow> reads m s1" for m "is" by (simp add: reads_def stream_emit_def)
  ultimately show ?thesis using 1 ILiteral g compiler_grows_trans [of s s1 "stream_emit [push_cell c] s1"]
    by auto
qed


lemma reads_emit [simp]: "reads m (stream_emit is s) \<longleftrightarrow> reads m s"
  by (simp add: reads_def stream_emit_def)

lemma fact_code:
  assumes ok: "compiler_ok n s"
  shows "compiler_ok (n + 3) (compile_intent_fact f s) \<and> compiler_grows s (compile_intent_fact f s) \<and>
    (\<exists>c. sc_code (compile_intent_fact f s) = sc_code s @ c \<and>
      (\<forall>m i rest stk. reads m (compile_intent_fact f s) \<longrightarrow> local_fact (qi_namespace i) f \<longrightarrow>
         (\<exists>vs vp vo. stream_atom m vs = if_subject f \<and> stream_predicate m vp = if_predicate f \<and> stream_atom m vo = if_object f \<and>
            stream_loop m (c @ rest) stk i = stream_loop m rest (vo # vp # vs # stk) i)))"
proof -
  define s1 where "s1 = compile_intent_atom (if_subject f) s"
  obtain c s2 where g: "get_predicate (if_predicate f) s1 = (c, s2)" by fastforce
  define s3 where "s3 = stream_emit [push_cell c] s2"
  define s4 where "s4 = compile_intent_atom (if_object f) s3"
  have run: "compile_intent_fact f s = s4"
    using g by (simp add: compile_intent_fact_def s1_def s3_def s4_def)
  from atom_code [OF ok, of "if_subject f"] obtain c1 where 1: "compiler_ok (Suc n) s1" "compiler_grows s s1" "sc_code s1 = sc_code s @ c1"
    and r1: "\<And>m i rest stk. reads m s1 \<Longrightarrow> local_atom (qi_namespace i) (if_subject f) \<Longrightarrow>
         \<exists>v. stream_atom m v = if_subject f \<and> stream_loop m (c1 @ rest) stk i = stream_loop m rest (v # stk) i"
    unfolding s1_def by blast
  from get_predicate_ok [OF 1(1) g] have 2: "compiler_ok (Suc (Suc n)) s3" "compiler_grows s1 s3" "sc_code s3 = sc_code s1 @ [push_cell c]"
    "(c, if_predicate f) \<in> set (sc_pred_vec s3)"
    by (auto simp: s3_def)
  from atom_code [OF 2(1), of "if_object f"] obtain c4 where 4: "compiler_ok (Suc (Suc (Suc n))) s4" "compiler_grows s3 s4"
    "sc_code s4 = sc_code s3 @ c4"
    and r4: "\<And>m i rest stk. reads m s4 \<Longrightarrow> local_atom (qi_namespace i) (if_object f) \<Longrightarrow>
         \<exists>v. stream_atom m v = if_object f \<and> stream_loop m (c4 @ rest) stk i = stream_loop m rest (v # stk) i"
    unfolding s4_def by blast
  have grows: "compiler_grows s1 s4" "compiler_grows s s4"
    using compiler_grows_trans [OF 2(2) 4(2)] compiler_grows_trans [OF 1(2)] by blast+
  have "\<exists>vs vp vo. stream_atom m vs = if_subject f \<and> stream_predicate m vp = if_predicate f \<and> stream_atom m vo = if_object f \<and>
      stream_loop m ((c1 @ [push_cell c] @ c4) @ rest) stk i = stream_loop m rest (vo # vp # vs # stk) i"
    if m: "reads m s4" and own: "local_fact (qi_namespace i) f" for m i rest stk
  proof -
    have own: "local_atom (qi_namespace i) (if_subject f)" "local_atom (qi_namespace i) (if_object f)"
      using own by (simp_all add: local_fact_def)
    obtain vs where vs: "stream_atom m vs = if_subject f"
      "stream_loop m (c1 @ push_cell c # c4 @ rest) stk i = stream_loop m (push_cell c # c4 @ rest) (vs # stk) i"
      using r1 [OF reads_grows [OF grows(1) m] own(1), of "push_cell c # c4 @ rest" stk] by auto
    obtain vo where vo: "stream_atom m vo = if_object f"
      "stream_loop m (c4 @ rest) (SCell c # vs # stk) i = stream_loop m rest (vo # SCell c # vs # stk) i"
      using r4 [OF m own(2), of rest "SCell c # vs # stk"] by auto
    have "sm_preds m c = Some (if_predicate f)"
      using reads_grows [OF 4(2) m] 2(4) by (auto simp: reads_def)
    then have "stream_predicate m (SCell c) = if_predicate f" by simp
    with vs vo show ?thesis
      by (intro exI [of _ vs] exI [of _ "SCell c"] exI [of _ vo]) (simp add: push_cell_def)
  qed
  then show ?thesis using 1(3) 2(3) 4(1,3) grows(2)
    by (auto simp: run numeral_3_eq_3 intro!: exI [of _ "c1 @ [push_cell c] @ c4"])
qed

lemma fact_parts:
  "\<lparr>subject = subject f, predicate = predicate f, object = object f\<rparr> = f"
  "\<lparr>if_subject = if_subject g, if_predicate = if_predicate g, if_object = if_object g\<rparr> = g"
  by (cases f; cases g; simp)+

lemma intent_fact_of_plain:
  "if_subject (intent_fact_of f) = intent_atom_of (subject f)" "if_predicate (intent_fact_of f) = predicate f"
  "if_object (intent_fact_of f) = intent_atom_of (object f)"
  by (simp_all add: intent_fact_of_def)

lemma plain_atom_of [simp]: "plain_atom (intent_atom_of a) = a"
  by (cases a) simp_all

fun local_precondition :: "intent_precondition \<Rightarrow> bool" where
  "local_precondition (ExpectedWorld w) \<longleftrightarrow> True"
| "local_precondition (ExpectedSlot slot expected) \<longleftrightarrow> (\<forall>f. expected = Some f \<longrightarrow> atom_fits (subject f) \<and> atom_fits (object f))"

lemma local_plain: "atom_fits a \<Longrightarrow> local_atom ns (intent_atom_of a)"
  by (cases a) simp_all

lemma slot_read: "reads m s \<Longrightarrow> (t, x) \<in> set (sc_slot_vec s) \<Longrightarrow> stream_slot m t = Inr x \<and> t \<noteq> - 1"
  by (auto simp: reads_def stream_slot_def)

lemma precondition_code:
  assumes ok: "compiler_ok n s"
  shows "compiler_ok (n + 4) (compile_precondition p s) \<and> compiler_grows s (compile_precondition p s) \<and>
    (\<exists>c. sc_code (compile_precondition p s) = sc_code s @ c \<and>
      (\<forall>m i rest. reads m (compile_precondition p s) \<longrightarrow> local_precondition p \<longrightarrow>
         stream_loop m (c @ rest) [] i = stream_loop m rest [] (i\<lparr>qi_preconditions := qi_preconditions i @ [p]\<rparr>)))"
proof (cases p)
  case (ExpectedWorld w)
  with ok show ?thesis using compiler_ok_mono [of n s "n + 4"] by (simp add: instr_raw_def expect_world_def)
next
  case (ExpectedSlot slot expected)
  obtain t s1 where g: "get_slot slot s = (t, s1)" by fastforce
  note 1 = get_slot_ok [OF ok g]
  show ?thesis
  proof (cases expected)
    case None
    have "stream_loop m ([expect_object t 0] @ rest) [] i = stream_loop m rest [] (i\<lparr>qi_preconditions := qi_preconditions i @ [p]\<rparr>)"
      if "reads m s1" for m i rest
    proof -
      have "stream_slot m t = Inr slot" "t \<noteq> - 1" using slot_read [OF that] 1 by blast+
      then show ?thesis using ExpectedSlot None by (simp add: expect_object_def expect_absent_def)
    qed
    with ExpectedSlot None g 1 show ?thesis using compiler_ok_mono [of "Suc n" s1 "n + 4"]
      compiler_grows_trans [of s s1 "stream_emit [expect_object t 0] s1"] by auto
  next
    case (Some f)
    define s2 where "s2 = compile_intent_fact (intent_fact_of f) s1"
    have n: "Suc n + 3 = n + 4" by simp
    from fact_code [OF conjunct1 [OF 1], of "intent_fact_of f", folded s2_def, unfolded intent_fact_of_plain n] obtain c where 2: "compiler_ok (n + 4) s2" "compiler_grows s1 s2"
      "sc_code s2 = sc_code s1 @ c"
      and r2: "\<And>m i rest stk. reads m s2 \<Longrightarrow> local_fact (qi_namespace i) (intent_fact_of f) \<Longrightarrow>
         \<exists>vs vp vo. stream_atom m vs = intent_atom_of (subject f) \<and> stream_predicate m vp = predicate f \<and>
            stream_atom m vo = intent_atom_of (object f) \<and>
            stream_loop m (c @ rest) stk i = stream_loop m rest (vo # vp # vs # stk) i"
      by blast
    have "stream_loop m ((c @ [expect_object t 1]) @ rest) [] i =
        stream_loop m rest [] (i\<lparr>qi_preconditions := qi_preconditions i @ [p]\<rparr>)"
      if m: "reads m s2" and own: "local_precondition p" for m i rest
    proof -
      have "local_fact (qi_namespace i) (intent_fact_of f)"
        using own ExpectedSlot Some local_plain by (simp add: local_fact_def intent_fact_of_plain)
      from r2 [OF m this, of "[expect_object t 1] @ rest" "[]"] obtain vs vp vo where
        v: "stream_atom m vs = intent_atom_of (subject f)" "stream_predicate m vp = predicate f"
          "stream_atom m vo = intent_atom_of (object f)"
          "stream_loop m (c @ [expect_object t 1] @ rest) [] i = stream_loop m ([expect_object t 1] @ rest) [vo, vp, vs] i" by blast
      have "stream_slot m t = Inr slot" "t \<noteq> - 1" using slot_read [OF reads_grows [OF 2(2) m]] 1 by blast+
      with v show ?thesis using ExpectedSlot Some
        by (simp add: expect_object_def expect_value_def fact_new_def fact_parts)
    qed
    moreover have "compiler_grows s s2" using compiler_grows_trans 1 2(2) by blast
    ultimately show ?thesis using ExpectedSlot Some g 1 2 compiler_grows_trans [of s s2 "stream_emit [expect_object t 1] s2"]
      by (auto simp flip: s2_def intro!: exI [of _ "c @ [expect_object t 1]"])
  qed
qed


text \<open>The operations of an intent of namespace \<open>ns\<close> whose handles are its own, numbered from \<open>k\<close>.\<close>

fun local_ops :: "u64 \<Rightarrow> u32 \<Rightarrow> intent_operation list \<Rightarrow> u32 \<Rightarrow> bool" where
  "local_ops ns k [] k' \<longleftrightarrow> k' = k"
| "local_ops ns k (IAllocateEntity t # xs) k' \<longleftrightarrow> t = \<lparr>te_namespace = ns, te_index = k\<rparr> \<and> k \<noteq> - 1 \<and> local_ops ns (k + 1) xs k'"
| "local_ops ns k (IDefine slot f # xs) k' \<longleftrightarrow> local_fact ns f \<and> local_ops ns k xs k'"
| "local_ops ns k (IForget slot # xs) k' \<longleftrightarrow> local_ops ns k xs k'"

lemma local_ops_append: "local_ops ns k (xs @ ys) k'' \<longleftrightarrow> (\<exists>k'. local_ops ns k xs k' \<and> local_ops ns k' ys k'')"
  by (induction ns k xs k'' rule: local_ops.induct) auto

lemma operation_code:
  assumes ok: "compiler_ok n s"
  shows "compiler_ok (n + 4) (compile_operation p s) \<and> compiler_grows s (compile_operation p s) \<and>
    (\<exists>c. sc_code (compile_operation p s) = sc_code s @ c \<and>
      (\<forall>m i rest k'. reads m (compile_operation p s) \<longrightarrow> local_ops (qi_namespace i) (qi_next_temporary i) [p] k' \<longrightarrow>
         stream_loop m (c @ rest) [] i =
         stream_loop m rest [] (i\<lparr>qi_next_temporary := k', qi_operations := qi_operations i @ [p]\<rparr>)))"
proof (cases p)
  case (IAllocateEntity t)
  with ok show ?thesis using compiler_ok_mono [of n s "n + 4"]
    by (auto simp: allocate_def store_local_def intent_entity_def skip_store_def Let_def)
next
  case (IForget slot)
  obtain t s1 where g: "get_slot slot s = (t, s1)" by fastforce
  note 1 = get_slot_ok [OF ok g]
  have "stream_loop m ([forget_slot t] @ rest) [] i =
      stream_loop m rest [] (i\<lparr>qi_next_temporary := k', qi_operations := qi_operations i @ [p]\<rparr>)"
    if "reads m s1" "local_ops (qi_namespace i) (qi_next_temporary i) [p] k'" for m i rest k'
  proof -
    have "stream_slot m t = Inr slot" using slot_read [OF that(1)] 1 by blast
    then show ?thesis using IForget that(2) by (simp add: forget_slot_def intent_forget_def)
  qed
  with IForget g 1 show ?thesis using compiler_ok_mono [of "Suc n" s1 "n + 4"] by auto
next
  case (IDefine slot f)
  obtain t s1 where g: "get_slot slot s = (t, s1)" by fastforce
  note 1 = get_slot_ok [OF ok g]
  define s2 where "s2 = compile_intent_fact f s1"
  have n: "Suc n + 3 = n + 4" by simp
  from fact_code [OF conjunct1 [OF 1], of f, folded s2_def, unfolded n] obtain c where
    2: "compiler_ok (n + 4) s2" "compiler_grows s1 s2" "sc_code s2 = sc_code s1 @ c"
    and r2: "\<And>m i rest stk. reads m s2 \<Longrightarrow> local_fact (qi_namespace i) f \<Longrightarrow>
       \<exists>vs vp vo. stream_atom m vs = if_subject f \<and> stream_predicate m vp = if_predicate f \<and> stream_atom m vo = if_object f \<and>
          stream_loop m (c @ rest) stk i = stream_loop m rest (vo # vp # vs # stk) i"
    by blast
  have "stream_loop m ((c @ [define_slot t]) @ rest) [] i =
      stream_loop m rest [] (i\<lparr>qi_next_temporary := k', qi_operations := qi_operations i @ [p]\<rparr>)"
    if m: "reads m s2" and own: "local_ops (qi_namespace i) (qi_next_temporary i) [p] k'" for m i rest k'
  proof -
    have own: "local_fact (qi_namespace i) f" "k' = qi_next_temporary i" using own IDefine by simp_all
    from r2 [OF m own(1), of "[define_slot t] @ rest" "[]"] obtain vs vp vo where
      v: "stream_atom m vs = if_subject f" "stream_predicate m vp = if_predicate f" "stream_atom m vo = if_object f"
        "stream_loop m (c @ [define_slot t] @ rest) [] i = stream_loop m ([define_slot t] @ rest) [vo, vp, vs] i" by blast
    have "stream_slot m t = Inr slot" using slot_read [OF reads_grows [OF 2(2) m]] 1 by blast
    with v own(2) show ?thesis using IDefine by (simp add: define_slot_def intent_define_def fact_parts)
  qed
  moreover have "compiler_grows s s2" using compiler_grows_trans 1 2(2) by blast
  ultimately show ?thesis using IDefine g 1 2
    by (auto simp flip: s2_def intro!: exI [of _ "c @ [define_slot t]"])
qed

lemma preconditions_code:
  "compiler_ok n s \<Longrightarrow>
   compiler_ok (n + 4 * length ps) (fold compile_precondition ps s) \<and> compiler_grows s (fold compile_precondition ps s) \<and>
   (\<exists>c. sc_code (fold compile_precondition ps s) = sc_code s @ c \<and>
     (\<forall>m i rest. reads m (fold compile_precondition ps s) \<longrightarrow> list_all local_precondition ps \<longrightarrow>
        stream_loop m (c @ rest) [] i = stream_loop m rest [] (i\<lparr>qi_preconditions := qi_preconditions i @ ps\<rparr>)))"
proof (induction ps arbitrary: n s)
  case (Cons p ps)
  let ?s = "compile_precondition p s"
  from precondition_code [OF Cons.prems, of p] obtain c where 1: "compiler_ok (n + 4) ?s" "compiler_grows s ?s" "sc_code ?s = sc_code s @ c"
    and r1: "\<And>m i rest. reads m ?s \<Longrightarrow> local_precondition p \<Longrightarrow>
      stream_loop m (c @ rest) [] i = stream_loop m rest [] (i\<lparr>qi_preconditions := qi_preconditions i @ [p]\<rparr>)" by blast
  let ?t = "fold compile_precondition ps ?s"
  from Cons.IH [OF 1(1)] obtain d where 2: "compiler_ok (n + 4 + 4 * length ps) ?t" "compiler_grows ?s ?t" "sc_code ?t = sc_code ?s @ d"
    and r2: "\<And>m i rest. reads m ?t \<Longrightarrow> list_all local_precondition ps \<Longrightarrow>
      stream_loop m (d @ rest) [] i = stream_loop m rest [] (i\<lparr>qi_preconditions := qi_preconditions i @ ps\<rparr>)" by blast
  have "stream_loop m ((c @ d) @ rest) [] i = stream_loop m rest [] (i\<lparr>qi_preconditions := qi_preconditions i @ p # ps\<rparr>)"
    if "reads m ?t" "local_precondition p" "list_all local_precondition ps" for m i rest
    using r1 [OF reads_grows [OF 2(2) that(1)] that(2)] r2 [OF that(1,3)] by simp
  then show ?case using 1 2 compiler_grows_trans [OF 1(2) 2(2)]
    by (auto simp: ac_simps intro!: exI [of _ "c @ d"])
qed simp

lemma operations_code:
  "compiler_ok n s \<Longrightarrow>
   compiler_ok (n + 4 * length ps) (fold compile_operation ps s) \<and> compiler_grows s (fold compile_operation ps s) \<and>
   (\<exists>c. sc_code (fold compile_operation ps s) = sc_code s @ c \<and>
     (\<forall>m i rest k'. reads m (fold compile_operation ps s) \<longrightarrow> local_ops (qi_namespace i) (qi_next_temporary i) ps k' \<longrightarrow>
        stream_loop m (c @ rest) [] i =
        stream_loop m rest [] (i\<lparr>qi_next_temporary := k', qi_operations := qi_operations i @ ps\<rparr>)))"
proof (induction ps arbitrary: n s)
  case (Cons p ps)
  let ?s = "compile_operation p s"
  from operation_code [OF Cons.prems, of p] obtain c where 1: "compiler_ok (n + 4) ?s" "compiler_grows s ?s" "sc_code ?s = sc_code s @ c"
    and r1: "\<And>m i rest k'. reads m ?s \<Longrightarrow> local_ops (qi_namespace i) (qi_next_temporary i) [p] k' \<Longrightarrow>
      stream_loop m (c @ rest) [] i = stream_loop m rest [] (i\<lparr>qi_next_temporary := k', qi_operations := qi_operations i @ [p]\<rparr>)" by blast
  let ?t = "fold compile_operation ps ?s"
  from Cons.IH [OF 1(1)] obtain d where 2: "compiler_ok (n + 4 + 4 * length ps) ?t" "compiler_grows ?s ?t" "sc_code ?t = sc_code ?s @ d"
    and r2: "\<And>m i rest k'. reads m ?t \<Longrightarrow> local_ops (qi_namespace i) (qi_next_temporary i) ps k' \<Longrightarrow>
      stream_loop m (d @ rest) [] i = stream_loop m rest [] (i\<lparr>qi_next_temporary := k', qi_operations := qi_operations i @ ps\<rparr>)" by blast
  have "stream_loop m ((c @ d) @ rest) [] i =
      stream_loop m rest [] (i\<lparr>qi_next_temporary := k'', qi_operations := qi_operations i @ p # ps\<rparr>)"
    if m: "reads m ?t" and own: "local_ops (qi_namespace i) (qi_next_temporary i) (p # ps) k''" for m i rest k''
  proof -
    obtain k' where k: "local_ops (qi_namespace i) (qi_next_temporary i) [p] k'" "local_ops (qi_namespace i) k' ps k''"
      using own local_ops_append [of "qi_namespace i" "qi_next_temporary i" "[p]" ps k''] by auto
    show ?thesis
      using r1 [OF reads_grows [OF 2(2) m] k(1)]
        r2 [OF m, of "i\<lparr>qi_next_temporary := k', qi_operations := qi_operations i @ [p]\<rparr>" k''] k(2) by simp
  qed
  then show ?case using 1 2 compiler_grows_trans [OF 1(2) 2(2)]
    by (auto simp: ac_simps intro!: exI [of _ "c @ d"])
qed simp


section \<open>Frames of intents\<close>

definition intent_local :: "queued_intent \<Rightarrow> bool" where
  "intent_local i \<longleftrightarrow> list_all local_precondition (qi_preconditions i) \<and>
     local_ops (qi_namespace i) 0 (qi_operations i) (qi_next_temporary i)"

definition stream_small :: "queued_intent \<Rightarrow> bool" where
  "stream_small i \<longleftrightarrow> 4 * (length (qi_preconditions i) + length (qi_operations i)) < 2 ^ 31"

definition compiled :: "queued_intent \<Rightarrow> stream_compiler" where
  "compiled i = fold compile_operation (qi_operations i) (fold compile_precondition (qi_preconditions i) stream_compiler_new)"

lemma compile_to_stream_frame_compiled:
  "compile_to_stream_frame i = Inr (stream_frame_new (qi_namespace i)
     \<lparr>di_slots = sc_slot_vec (compiled i), di_predicates = sc_pred_vec (compiled i), di_literals = sc_lit_vec (compiled i)\<rparr>
     (qi_next_temporary i) (sc_code (compiled i)))"
  by (simp add: compile_to_stream_frame_def compiled_def Let_def)

lemma compiler_new_ok: "compiler_ok 0 stream_compiler_new"
  by (simp add: compiler_ok_def numbers_def stream_compiler_new_def)

lemma compiled_code:
  "compiler_ok (4 * (length (qi_preconditions i) + length (qi_operations i))) (compiled i) \<and>
   (\<forall>m j. reads m (compiled i) \<longrightarrow> list_all local_precondition (qi_preconditions i) \<longrightarrow>
      local_ops (qi_namespace j) (qi_next_temporary j) (qi_operations i) k' \<longrightarrow>
      stream_loop m (sc_code (compiled i)) [] j = Some (Inr (j\<lparr>qi_next_temporary := k',
        qi_preconditions := qi_preconditions j @ qi_preconditions i, qi_operations := qi_operations j @ qi_operations i\<rparr>)))"
proof -
  let ?s = "fold compile_precondition (qi_preconditions i) stream_compiler_new"
  from preconditions_code [OF compiler_new_ok, of "qi_preconditions i"] obtain c where
    1: "compiler_ok (0 + 4 * length (qi_preconditions i)) ?s" "sc_code ?s = c"
    and r1: "\<And>m j rest. reads m ?s \<Longrightarrow> list_all local_precondition (qi_preconditions i) \<Longrightarrow>
      stream_loop m (c @ rest) [] j = stream_loop m rest [] (j\<lparr>qi_preconditions := qi_preconditions j @ qi_preconditions i\<rparr>)"
    by (auto simp: stream_compiler_new_def)
  from operations_code [OF 1(1), of "qi_operations i", folded compiled_def] obtain d where
    2: "compiler_ok (0 + 4 * length (qi_preconditions i) + 4 * length (qi_operations i)) (compiled i)"
      "compiler_grows ?s (compiled i)" "sc_code (compiled i) = sc_code ?s @ d"
    and r2: "\<And>m j rest k'. reads m (compiled i) \<Longrightarrow> local_ops (qi_namespace j) (qi_next_temporary j) (qi_operations i) k' \<Longrightarrow>
      stream_loop m (d @ rest) [] j =
      stream_loop m rest [] (j\<lparr>qi_next_temporary := k', qi_operations := qi_operations j @ qi_operations i\<rparr>)" by blast
  have "stream_loop m (sc_code (compiled i)) [] j = Some (Inr (j\<lparr>qi_next_temporary := k',
      qi_preconditions := qi_preconditions j @ qi_preconditions i, qi_operations := qi_operations j @ qi_operations i\<rparr>))"
    if m: "reads m (compiled i)" and pre: "list_all local_precondition (qi_preconditions i)"
      and ops: "local_ops (qi_namespace j) (qi_next_temporary j) (qi_operations i) k'" for m j
    using r1 [OF reads_grows [OF 2(2) m] pre, of d j]
      r2 [OF m, of "j\<lparr>qi_preconditions := qi_preconditions j @ qi_preconditions i\<rparr>" k' "[]"] ops 1(2) 2(3) by simp
  then show ?thesis using 2(1) by (simp add: distrib_left)
qed

text \<open>The dictionary of the frame gives every name back.\<close>

lemma fold_map_upd:
  "distinct (map fst xs) \<Longrightarrow> (t, x) \<in> set xs \<Longrightarrow> fold (\<lambda>(t, x) m. m(t \<mapsto> x)) xs m t = Some x"
proof (induction xs arbitrary: m)
  case (Cons y xs)
  have other: "t \<notin> fst ` set xs \<Longrightarrow> fold (\<lambda>(t, x) m. m(t \<mapsto> x)) xs m t = m t" for m
    by (induction xs arbitrary: m) (auto split: prod.splits)
  show ?case
  proof (cases "(t, x) = y")
    case True
    with Cons.prems have "t \<notin> fst ` set xs" by force
    from other [OF this, of "m(t \<mapsto> x)"] show ?thesis
      by (simp only: True [symmetric] fold_simps prod.case fun_upd_same)
  next
    case False
    with Cons show ?thesis by (auto split: prod.splits)
  qed
qed simp

lemma numbers_distinct:
  assumes "numbers name n m vec" and "inj_on name {..n}"
  shows "distinct (map fst vec)" and "(t, x) \<in> set vec \<Longrightarrow> \<exists>k < n. t = name k"
proof -
  have names: "map fst vec = map name [0..<length vec]" "length vec \<le> n" using assms(1) by (simp_all add: numbers_def)
  then show "distinct (map fst vec)" using assms(2) by (auto simp: distinct_map elim!: inj_on_subset)
  assume "(t, x) \<in> set vec"
  then have "t \<in> set (map fst vec)" by force
  then obtain k where "k < length vec" "t = name k" by (auto simp: names(1))
  with names(2) show "\<exists>k < n. t = name k" by (metis order_less_le_trans)
qed

lemma names_inj:
  assumes "n < 2 ^ 31"
  shows "inj_on (word_of_nat :: nat \<Rightarrow> u32) {..n}" and "inj_on (word_of_nat :: nat \<Rightarrow> u64) {..n}"
    and "inj_on (\<lambda>k. VM_LITERAL_BASE + word_of_nat k) {..n}"
proof -
  have "unat (word_of_nat k :: u32) = k" "unat (word_of_nat k :: u64) = k" if "k \<le> n" for k
    using that assms by (simp_all add: unat_of_nat)
  then show "inj_on (word_of_nat :: nat \<Rightarrow> u32) {..n}" "inj_on (word_of_nat :: nat \<Rightarrow> u64) {..n}"
    by (metis atMost_iff inj_onI)+
  then show "inj_on (\<lambda>k. VM_LITERAL_BASE + word_of_nat k) {..n}" by (simp add: inj_on_def)
qed

lemma stream_maps_reads:
  assumes "compiler_ok n s" and "n < 2 ^ 31"
  shows "reads (stream_maps_of \<lparr>di_slots = sc_slot_vec s, di_predicates = sc_pred_vec s, di_literals = sc_lit_vec s\<rparr>) s"
proof -
  note inj = names_inj [OF assms(2)]
  from assms(1) have s: "numbers word_of_nat n (sc_slots s) (sc_slot_vec s)"
    and p: "numbers word_of_nat n (sc_preds s) (sc_pred_vec s)"
    and l: "numbers (\<lambda>k. VM_LITERAL_BASE + word_of_nat k) n (sc_lits s) (sc_lit_vec s)" by (simp_all add: compiler_ok_def)
  have "t \<noteq> - 1" if "(t, x) \<in> set (sc_slot_vec s)" for t x
  proof
    obtain k where k: "k < n" "t = word_of_nat k" using numbers_distinct(2) [OF s inj(1) \<open>(t, x) \<in> set (sc_slot_vec s)\<close>] by blast
    assume "t = - 1"
    with k have "unat (word_of_nat k :: u32) = unat (- 1 :: u32)" by simp
    with k(1) assms(2) show False by (simp add: unat_of_nat unsigned_minus_1_eq_mask mask_eq_exp_minus_1)
  qed
  moreover have "\<not> c < VM_LITERAL_BASE" if "(c, x) \<in> set (sc_lit_vec s)" for c x
  proof -
    obtain k where "k < n" "c = VM_LITERAL_BASE + word_of_nat k"
      using numbers_distinct(2) [OF l inj(3) \<open>(c, x) \<in> set (sc_lit_vec s)\<close>] by blast
    with literal_cell_arith(2) [of k] assms(2) show ?thesis by simp
  qed
  ultimately show ?thesis
    using fold_map_upd [OF numbers_distinct(1) [OF s inj(1)]] fold_map_upd [OF numbers_distinct(1) [OF p inj(2)]]
      fold_map_upd [OF numbers_distinct(1) [OF l inj(3)]]
    by (auto simp: reads_def stream_maps_of_def)
qed

lemma from_compiled:
  assumes "intent_local i" and "stream_small i" and "compile_to_stream_frame i = Inr f"
  shows "from_stream_frame counter f = Some (Inr i, counter + 1)"
proof -
  let ?j = "\<lparr>qi_namespace = qi_namespace i, qi_next_temporary = 0, qi_preconditions = [], qi_operations = []\<rparr>"
  note code = compiled_code [of i "qi_next_temporary i"]
  have "reads (stream_maps_of (st_dictionary f)) (compiled i)"
    using stream_maps_reads [OF conjunct1 [OF code]] assms(2,3)
    by (auto simp: stream_small_def compile_to_stream_frame_compiled stream_frame_new_def)
  then have "stream_loop (stream_maps_of (st_dictionary f)) (sc_code (compiled i)) [] ?j = Some (Inr i)"
    using code assms(1) by (cases i) (auto simp: intent_local_def)
  with assms(3) show ?thesis
    by (auto simp: from_stream_frame_def intent_new_def compile_to_stream_frame_compiled stream_frame_new_def)
qed


text \<open>The frame of an intent fits the format.\<close>

definition texts_ok :: "stream_compiler \<Rightarrow> bool" where
  "texts_ok s \<longleftrightarrow> (\<forall>e \<in> set (sc_slot_vec s). wire_text (snd e)) \<and> (\<forall>e \<in> set (sc_pred_vec s). wire_text (snd e)) \<and>
     (\<forall>e \<in> set (sc_lit_vec s). wire_text (snd e))"

lemma texts_get:
  "texts_ok s \<Longrightarrow> wire_text x \<Longrightarrow> get_slot x s = (t, s') \<Longrightarrow> texts_ok s' \<and> sc_code s' = sc_code s"
  "texts_ok s \<Longrightarrow> wire_text x \<Longrightarrow> get_predicate x s = (c, s') \<Longrightarrow> texts_ok s' \<and> sc_code s' = sc_code s"
  "texts_ok s \<Longrightarrow> wire_text x \<Longrightarrow> get_literal x s = (c, s') \<Longrightarrow> texts_ok s' \<and> sc_code s' = sc_code s"
  by (auto simp: texts_ok_def get_slot_def get_predicate_def get_literal_def Let_def split: option.splits)

lemma texts_emit [simp]: "texts_ok (stream_emit is s) = texts_ok s"
  by (simp add: texts_ok_def)

lemma texts_atom:
  assumes "texts_ok s" and "wire_intent_atom a"
  shows "texts_ok (compile_intent_atom a s) \<and> length (sc_code (compile_intent_atom a s)) = length (sc_code s) + 1"
proof (cases a)
  case (ILiteral l)
  obtain c s1 where g: "get_literal l s = (c, s1)" by fastforce
  have "wire_text l" using assms(2) ILiteral by simp
  from texts_get(3) [OF assms(1) this g] g ILiteral show ?thesis by simp
qed (use assms in simp_all)

lemma texts_fact:
  assumes "texts_ok s" and "wire_intent_fact f"
  shows "texts_ok (compile_intent_fact f s) \<and> length (sc_code (compile_intent_fact f s)) = length (sc_code s) + 3"
proof -
  obtain c s1 where g: "get_predicate (if_predicate f) (compile_intent_atom (if_subject f) s) = (c, s1)" by fastforce
  have 1: "texts_ok (compile_intent_atom (if_subject f) s) \<and>
      length (sc_code (compile_intent_atom (if_subject f) s)) = length (sc_code s) + 1"
    using texts_atom assms by (simp add: wire_intent_fact_def)
  have "texts_ok s1 \<and> sc_code s1 = sc_code (compile_intent_atom (if_subject f) s)"
    using texts_get(2) [OF conjunct1 [OF 1] _ g] assms(2) by (simp add: wire_intent_fact_def)
  then show ?thesis
    using 1 g texts_atom [of "stream_emit [push_cell c] s1" "if_object f"] assms(2)
    by (simp add: compile_intent_fact_def wire_intent_fact_def)
qed

lemma wire_plain: "wire_fact f \<Longrightarrow> wire_intent_fact (intent_fact_of f)"
proof -
  have "wire_atom a \<Longrightarrow> wire_intent_atom (intent_atom_of a)" for a by (cases a) simp_all
  then show "wire_fact f \<Longrightarrow> wire_intent_fact (intent_fact_of f)"
    by (simp add: wire_fact_def wire_intent_fact_def intent_fact_of_def)
qed

lemma texts_precondition:
  assumes "texts_ok s" and "wire_precondition p"
  shows "texts_ok (compile_precondition p s) \<and> length (sc_code (compile_precondition p s)) \<le> length (sc_code s) + 4"
proof (cases p)
  case (ExpectedSlot slot expected)
  obtain t s1 where g: "get_slot slot s = (t, s1)" by fastforce
  have "wire_text slot" using assms(2) ExpectedSlot by simp
  from texts_get(1) [OF assms(1) this g] have 1: "texts_ok s1" "sc_code s1 = sc_code s" by simp_all
  show ?thesis
    using g 1 assms(2) ExpectedSlot texts_fact [OF 1(1) wire_plain] by (auto split: option.split)
qed (use assms in simp)

lemma texts_operation:
  assumes "texts_ok s" and "wire_operation p"
  shows "texts_ok (compile_operation p s) \<and> length (sc_code (compile_operation p s)) \<le> length (sc_code s) + 4"
proof (cases p)
  case (IDefine slot f)
  obtain t s1 where g: "get_slot slot s = (t, s1)" by fastforce
  have "wire_text slot" using assms(2) IDefine by simp
  from texts_get(1) [OF assms(1) this g] have 1: "texts_ok s1" "sc_code s1 = sc_code s" by simp_all
  show ?thesis using g 1 assms(2) IDefine texts_fact [OF 1(1), of f] by simp
next
  case (IForget slot)
  obtain t s1 where g: "get_slot slot s = (t, s1)" by fastforce
  have "wire_text slot" using assms(2) IForget by simp
  from texts_get(1) [OF assms(1) this g] have 1: "texts_ok s1" "sc_code s1 = sc_code s" by simp_all
  then show ?thesis using g IForget by simp
qed (use assms in simp)

lemma texts_fold:
  assumes step: "\<And>p s. texts_ok s \<Longrightarrow> P p \<Longrightarrow> texts_ok (g p s) \<and> length (sc_code (g p s)) \<le> length (sc_code s) + 4"
  shows "texts_ok s \<Longrightarrow> list_all P ps \<Longrightarrow>
    texts_ok (fold g ps s) \<and> length (sc_code (fold g ps s)) \<le> length (sc_code s) + 4 * length ps"
proof (induction ps arbitrary: s)
  case (Cons p ps)
  with step [of s p] show ?case using Cons.IH [of "g p s"] by force
qed simp

lemma compiled_valid:
  assumes "wire_intent i" and "stream_small i" and "compile_to_stream_frame i = Inr f"
  shows "stream_valid f"
proof -
  let ?s = "fold compile_precondition (qi_preconditions i) stream_compiler_new"
  have "texts_ok stream_compiler_new" "sc_code stream_compiler_new = []"
    by (simp_all add: texts_ok_def stream_compiler_new_def)
  then have 1: "texts_ok ?s \<and> length (sc_code ?s) \<le> 4 * length (qi_preconditions i)"
    using texts_fold [where P = wire_precondition and g = compile_precondition, OF texts_precondition, of stream_compiler_new]
      assms(1) by (auto simp: wire_intent_def)
  have "texts_ok (compiled i) \<and> length (sc_code (compiled i)) \<le> length (sc_code ?s) + 4 * length (qi_operations i)"
    using texts_fold [where P = wire_operation and g = compile_operation, OF texts_operation, of ?s] 1 assms(1)
    by (auto simp: wire_intent_def compiled_def)
  with 1 have "texts_ok (compiled i)" "length (sc_code (compiled i)) < 2 ^ 32"
    using assms(2) by (auto simp: stream_small_def)
  moreover have "length (sc_slot_vec (compiled i)) < 2 ^ 32" "length (sc_pred_vec (compiled i)) < 2 ^ 32"
    "length (sc_lit_vec (compiled i)) < 2 ^ 32"
    using conjunct1 [OF compiled_code [of i 0]] assms(2) by (simp_all add: stream_small_def compiler_ok_def numbers_def)
  ultimately show ?thesis
    using assms(3) by (auto simp: stream_valid_def compile_to_stream_frame_compiled stream_frame_new_def texts_ok_def)
qed

section \<open>Properties\<close>

text \<open>
  C30. An intent survives the stream: when its handles are its own and in order, as the operations
  of intents build them, its entities are below \<open>2 ^ 63\<close>, and its strings and counts fit, the bytes
  of its frame decode to the frame, whatever follows, and reading the frame gives the intent back.
\<close>

theorem intent_stream_roundtrip:
  assumes "intent_local i" and "stream_small i" and "wire_intent i" and "compile_to_stream_frame i = Inr f"
  shows "decode_instruction_stream_frame (encode_instruction_stream_frame f @ rest) = Inr (f, rest) \<and>
    from_stream_frame counter f = Some (Inr i, counter + 1)"
  using from_compiled [OF assms(1,2,4)] stream_wire.get_put [OF compiled_valid [OF assms(3,2,4)]] by simp


theorem intent_stream_roundtrip_witness:
  "\<exists>f. compile_to_stream_frame sample_intent = Inr f \<and> length (st_instructions f) = 7 \<and>
     decode_instruction_stream_frame (encode_instruction_stream_frame f @ [0, 1]) = Inr (f, [0, 1]) \<and>
     from_stream_frame 8 f = Some (Inr sample_intent, 9)"
proof -
  have 1: "intent_local sample_intent" "stream_small sample_intent"
    by (simp_all add: intent_local_def stream_small_def sample_intent_def local_fact_def intent_fact_new_def Let_def)
  have 2: "wire_intent sample_intent"
    by (simp add: sample_intent_def Let_def wire_intent_def wire_intent_fact_def intent_fact_new_def wire_text_def
        rust_string_def as_bytes_def byte_of_char_def utf8_valid_ascii)
  obtain f where f: "compile_to_stream_frame sample_intent = Inr f" by (simp add: compile_to_stream_frame_compiled)
  then have "length (st_instructions f) = 7"
    by (auto simp: compile_to_stream_frame_def sample_intent_def Let_def intent_fact_new_def compile_intent_fact_def
        stream_frame_new_def get_slot_def get_predicate_def get_literal_def stream_compiler_new_def stream_emit_def)
  with f intent_stream_roundtrip [OF 1 2 f, of "[0, 1]" 8] show ?thesis by simp
qed

definition handle_intent :: "u64 \<Rightarrow> slot_id \<Rightarrow> string \<Rightarrow> intent_atom \<Rightarrow> intent_atom \<Rightarrow> queued_intent" where
  "handle_intent ns slot p a b =
     \<lparr>qi_namespace = ns, qi_next_temporary = 1, qi_preconditions = [],
      qi_operations = [IAllocateEntity \<lparr>te_namespace = ns, te_index = 0\<rparr>, IDefine slot \<lparr>if_subject = a, if_predicate = p, if_object = b\<rparr>]\<rparr>"

text \<open>
  C31. An intent can change in the stream.  A handle of another intent, for which planning rejects
  the intent, is read back as a handle of the intent itself, which planning resolves to the entity
  allocated there; and the entity \<open>2 ^ 64 - 1\<close> is read back as a literal.
\<close>

theorem intent_stream_changes_intents:
  "(\<exists>f. compile_to_stream_frame (handle_intent ns slot p (ITemporary \<lparr>te_namespace = ns + 1, te_index = 0\<rparr>) (ILiteral l)) = Inr f \<and>
     from_stream_frame counter f =
       Some (Inr (handle_intent ns slot p (ITemporary \<lparr>te_namespace = ns, te_index = 0\<rparr>) (ILiteral l)), counter + 1)) \<and>
   (resolve_operations_from 5 ns (qi_operations (handle_intent ns slot p (ITemporary \<lparr>te_namespace = ns + 1, te_index = 0\<rparr>) (ILiteral l))) =
     Some (Inl (UnknownTemporaryEntity \<lparr>te_namespace = ns + 1, te_index = 0\<rparr>))) \<and>
   (\<exists>m. resolve_operations_from 5 ns (qi_operations (handle_intent ns slot p (ITemporary \<lparr>te_namespace = ns, te_index = 0\<rparr>) (ILiteral l))) =
     Some (Inr ([AllocateEntity 5, Define slot (fact_new (AEntity 5) p (ALiteral l))], m))) \<and>
   (\<exists>f. compile_to_stream_frame (handle_intent ns slot p (IEntity (- 1)) (ILiteral l)) = Inr f \<and>
     from_stream_frame counter f =
       Some (Inr (handle_intent ns slot p (ILiteral (''lit_'' @ decimal (2 ^ 64 - 1))) (ILiteral l)), counter + 1))"
proof (intro conjI)
  let ?own = "handle_intent ns slot p (ITemporary \<lparr>te_namespace = ns, te_index = 0\<rparr>) (ILiteral l)"
  let ?other = "handle_intent ns slot p (ITemporary \<lparr>te_namespace = ns + 1, te_index = 0\<rparr>) (ILiteral l)"
  obtain f where f: "compile_to_stream_frame ?own = Inr f" by (simp add: compile_to_stream_frame_compiled)
  have "intent_local ?own" "stream_small ?own"
    by (simp_all add: intent_local_def stream_small_def handle_intent_def local_fact_def)
  then have "from_stream_frame counter f = Some (Inr ?own, counter + 1)" using f by (rule from_compiled)
  moreover have "compile_to_stream_frame ?other = compile_to_stream_frame ?own"
    by (simp add: compile_to_stream_frame_def handle_intent_def compile_intent_fact_def)
  ultimately show "\<exists>f. compile_to_stream_frame ?other = Inr f \<and> from_stream_frame counter f = Some (Inr ?own, counter + 1)"
    using f by simp
  show "resolve_operations_from 5 ns (qi_operations ?other) = Some (Inl (UnknownTemporaryEntity \<lparr>te_namespace = ns + 1, te_index = 0\<rparr>))"
    by (simp add: resolve_operations_from_def handle_intent_def resolve_fact_def)
  show "\<exists>m. resolve_operations_from 5 ns (qi_operations ?own) =
      Some (Inr ([AllocateEntity 5, Define slot (fact_new (AEntity 5) p (ALiteral l))], m))"
    by (simp add: resolve_operations_from_def handle_intent_def resolve_fact_def)
  show "\<exists>f. compile_to_stream_frame (handle_intent ns slot p (IEntity (- 1)) (ILiteral l)) = Inr f \<and>
     from_stream_frame counter f =
       Some (Inr (handle_intent ns slot p (ILiteral (''lit_'' @ decimal (2 ^ 64 - 1))) (ILiteral l)), counter + 1)"
    by (simp add: compile_to_stream_frame_def handle_intent_def compile_intent_fact_def stream_frame_new_def from_stream_frame_def
        intent_new_def stream_compiler_new_def get_slot_def get_predicate_def get_literal_def Let_def stream_emit_def
        allocate_def store_local_def push_cell_def define_slot_def intent_entity_def skip_store_def stream_slot_def
        stream_maps_of_def intent_define_def VM_LITERAL_BASE_def)
qed

end
