(* ===== verification/Transaction_AST.thy ===== *)
theory Transaction_AST
  imports Intent_Stream "HOL-Library.List_Lexorder" "HOL-Library.Char_ord"
begin

text \<open>
  Transactions as syntax trees and their lowering to instruction streams (\<open>transaction_ast.rs\<close>).
  The owned and the borrowed source of operations give the same views, which are the operations
  here; the lowering works on handles into them, as the code does.  Sorting by a key is the stable
  sort: the code's unstable one may only exchange handles of equal strings, of which the
  deduplication keeps one.  A binary search in a sorted list without duplicates is the position of
  the key.  The lowering that the tests of the file keep as a reference is modelled too.
\<close>

section \<open>Syntax\<close>

datatype atom_ref = REntity u64 | RLiteral string | RSymbol string

datatype transaction_op =
    TxAllocate string
  | TxExpectWorld u64
  | TxExpectObject string atom_ref
  | TxDefine string atom_ref string atom_ref
  | TxForget string
  | TxReject

record transaction_ast =
  ta_namespace :: u64
  ta_operations :: "transaction_op list"

definition bindings_get :: "(string \<times> u64) list \<Rightarrow> string \<Rightarrow> u64 option" where
  "bindings_get entries symbol = map_option snd (find (\<lambda>(name, entity). name = symbol) entries)"

datatype lowering_error =
    DuplicateAllocation string
  | UndefinedSymbol string
  | LocalCountOverflow
  | UnsupportedDynamicSymbolExpectObject

section \<open>The lowering\<close>

datatype str_ref =
    SrAlloc nat | SrExpectSlot nat | SrExpectExpected nat | SrDefSlot nat | SrDefSubject nat
  | SrDefPredicate nat | SrDefObject nat | SrForgetSlot nat

text \<open>The arms that the code marks as unreachable give the empty string; no handle below takes them.\<close>

fun ref_str :: "transaction_op list \<Rightarrow> str_ref \<Rightarrow> string" where
  "ref_str ops (SrAlloc i) = (case ops ! i of TxAllocate result \<Rightarrow> result | _ \<Rightarrow> [])"
| "ref_str ops (SrExpectSlot i) = (case ops ! i of TxExpectObject slot e \<Rightarrow> slot | _ \<Rightarrow> [])"
| "ref_str ops (SrExpectExpected i) = (case ops ! i of TxExpectObject slot (RLiteral l) \<Rightarrow> l | _ \<Rightarrow> [])"
| "ref_str ops (SrDefSlot i) = (case ops ! i of TxDefine slot s p ob \<Rightarrow> slot | _ \<Rightarrow> [])"
| "ref_str ops (SrDefSubject i) = (case ops ! i of TxDefine slot (RLiteral l) p ob \<Rightarrow> l | _ \<Rightarrow> [])"
| "ref_str ops (SrDefPredicate i) = (case ops ! i of TxDefine slot s p ob \<Rightarrow> p | _ \<Rightarrow> [])"
| "ref_str ops (SrDefObject i) = (case ops ! i of TxDefine slot s p (RLiteral l) \<Rightarrow> l | _ \<Rightarrow> [])"
| "ref_str ops (SrForgetSlot i) = (case ops ! i of TxForget slot \<Rightarrow> slot | _ \<Rightarrow> [])"

record lowering_context =
  lc_slots :: "str_ref list"
  lc_predicates :: "str_ref list"
  lc_literals :: "str_ref list"
  lc_symbols :: "str_ref list"
  lc_instructions :: "instruction list"
  lc_dict_slots :: "(slot_token \<times> slot_id) list"
  lc_dict_predicates :: "(cell \<times> string) list"
  lc_dict_literals :: "(cell \<times> string) list"

definition context_new :: lowering_context where
  "context_new =
     \<lparr>lc_slots = [], lc_predicates = [], lc_literals = [], lc_symbols = [], lc_instructions = [],
      lc_dict_slots = [], lc_dict_predicates = [], lc_dict_literals = []\<rparr>"

definition context_clear :: "lowering_context \<Rightarrow> lowering_context" where
  "context_clear c =
     c\<lparr>lc_slots := [], lc_predicates := [], lc_literals := [], lc_symbols := [], lc_instructions := [],
       lc_dict_slots := [], lc_dict_predicates := [], lc_dict_literals := []\<rparr>"

definition context_reclaim :: "stream_frame \<Rightarrow> lowering_context \<Rightarrow> lowering_context" where
  "context_reclaim f c =
     context_clear (c\<lparr>lc_instructions := st_instructions f, lc_dict_slots := di_slots (st_dictionary f),
       lc_dict_predicates := di_predicates (st_dictionary f), lc_dict_literals := di_literals (st_dictionary f)\<rparr>)"

fun is_literal :: "atom_ref \<Rightarrow> bool" where
  "is_literal (RLiteral l) \<longleftrightarrow> True"
| "is_literal a \<longleftrightarrow> False"

text \<open>The first pass collects handles; \<open>i\<close> is the index of the next operation.\<close>

definition lower_scan_op ::
  "transaction_op list \<Rightarrow> nat \<Rightarrow> transaction_op \<Rightarrow> lowering_context \<Rightarrow> lowering_error + lowering_context" where
  "lower_scan_op ops i p c =
     (case p of
        TxAllocate result \<Rightarrow>
          if \<exists>r \<in> set (lc_symbols c). ref_str ops r = result then Inl (DuplicateAllocation result)
          else Inr (c\<lparr>lc_symbols := lc_symbols c @ [SrAlloc i]\<rparr>)
      | TxExpectWorld w \<Rightarrow> Inr c
      | TxExpectObject slot e \<Rightarrow>
          Inr (c\<lparr>lc_slots := lc_slots c @ [SrExpectSlot i],
                 lc_literals := lc_literals c @ (if is_literal e then [SrExpectExpected i] else [])\<rparr>)
      | TxDefine slot s p ob \<Rightarrow>
          Inr (c\<lparr>lc_slots := lc_slots c @ [SrDefSlot i],
                 lc_predicates := lc_predicates c @ [SrDefPredicate i],
                 lc_literals := lc_literals c @ (if is_literal s then [SrDefSubject i] else []) @
                   (if is_literal ob then [SrDefObject i] else [])\<rparr>)
      | TxForget slot \<Rightarrow> Inr (c\<lparr>lc_slots := lc_slots c @ [SrForgetSlot i]\<rparr>)
      | TxReject \<Rightarrow> Inr c)"

text \<open>On an error the context keeps what it has collected.\<close>

fun lower_scan ::
  "transaction_op list \<Rightarrow> nat \<Rightarrow> transaction_op list \<Rightarrow> lowering_context \<Rightarrow> (lowering_error + unit) \<times> lowering_context" where
  "lower_scan ops i [] c = (Inr (), c)"
| "lower_scan ops i (p # ps) c =
     (case lower_scan_op ops i p c of
        Inl e \<Rightarrow> (Inl e, c)
      | Inr c \<Rightarrow> lower_scan ops (Suc i) ps c)"

fun dedup_by_key :: "('a \<Rightarrow> 'b) \<Rightarrow> 'a list \<Rightarrow> 'a list" where
  "dedup_by_key key [] = []"
| "dedup_by_key key [x] = [x]"
| "dedup_by_key key (x # y # xs) = (if key x = key y then dedup_by_key key (x # xs) else x # dedup_by_key key (y # xs))"

fun find_index :: "('a \<Rightarrow> bool) \<Rightarrow> 'a list \<Rightarrow> nat option" where
  "find_index P [] = None"
| "find_index P (x # xs) = (if P x then Some 0 else map_option Suc (find_index P xs))"

definition sort_refs :: "transaction_op list \<Rightarrow> str_ref list \<Rightarrow> str_ref list" where
  "sort_refs ops rs = dedup_by_key (ref_str ops) (sort_key (ref_str ops) rs)"

definition ref_index :: "transaction_op list \<Rightarrow> str_ref list \<Rightarrow> string \<Rightarrow> nat option" where
  "ref_index ops rs x = find_index (\<lambda>r. ref_str ops r = x) rs"

text \<open>The second pass; \<open>None\<close> is an \<open>unwrap\<close> that fails.\<close>

definition lower_atom :: "transaction_op list \<Rightarrow> lowering_context \<Rightarrow> atom_ref \<Rightarrow> (lowering_error + instruction) option" where
  "lower_atom ops c a =
     (case a of
        REntity e \<Rightarrow> Some (Inr (push_cell e))
      | RLiteral l \<Rightarrow>
          map_option (\<lambda>k. Inr (push_cell (word_of_nat (k + length (lc_predicates c))))) (ref_index ops (lc_literals c) l)
      | RSymbol s \<Rightarrow>
          Some (case ref_index ops (lc_symbols c) s of
                  Some k \<Rightarrow> Inr (load_local (word_of_nat k))
                | None \<Rightarrow> Inl (UndefinedSymbol s)))"

text \<open>A definition that fails on its object has already emitted its subject and its predicate.\<close>

definition lower_define ::
  "transaction_op list \<Rightarrow> string \<Rightarrow> atom_ref \<Rightarrow> string \<Rightarrow> atom_ref \<Rightarrow> lowering_context \<Rightarrow>
   ((lowering_error + unit) \<times> lowering_context) option" where
  "lower_define ops slot s p ob c =
     Option.bind (lower_atom ops c s) (\<lambda>r. case r of
       Inl e \<Rightarrow> Some (Inl e, c)
     | Inr is \<Rightarrow>
         Option.bind (ref_index ops (lc_predicates c) p) (\<lambda>k.
           let c = c\<lparr>lc_instructions := lc_instructions c @ [is, push_cell (word_of_nat k)]\<rparr>
           in Option.bind (lower_atom ops c ob) (\<lambda>r. case r of
                Inl e \<Rightarrow> Some (Inl e, c)
              | Inr io \<Rightarrow>
                  Option.bind (ref_index ops (lc_slots c) slot) (\<lambda>t.
                    Some (Inr (), c\<lparr>lc_instructions := lc_instructions c @ [io, define_slot (word_of_nat t)]\<rparr>)))))"

definition lower_expect ::
  "transaction_op list \<Rightarrow> string \<Rightarrow> atom_ref \<Rightarrow> lowering_context \<Rightarrow> ((lowering_error + unit) \<times> lowering_context) option" where
  "lower_expect ops slot e c =
     Option.bind (ref_index ops (lc_slots c) slot) (\<lambda>t.
       let emit = (\<lambda>x. (Inr (), c\<lparr>lc_instructions := lc_instructions c @ [instr_raw OpExpectObject (word_of_nat t) x]\<rparr>))
       in case e of
            REntity x \<Rightarrow> Some (emit x)
          | RLiteral l \<Rightarrow>
              map_option (\<lambda>k. emit (word_of_nat (k + length (lc_predicates c)))) (ref_index ops (lc_literals c) l)
          | RSymbol s \<Rightarrow> Some (Inl UnsupportedDynamicSymbolExpectObject, c))"

definition lower_op ::
  "transaction_op list \<Rightarrow> transaction_op \<Rightarrow> lowering_context \<Rightarrow> ((lowering_error + unit) \<times> lowering_context) option" where
  "lower_op ops p c =
     (case p of
        TxAllocate result \<Rightarrow>
          map_option (\<lambda>k. (Inr (), c\<lparr>lc_instructions := lc_instructions c @ [allocate, store_local (word_of_nat k)]\<rparr>))
            (ref_index ops (lc_symbols c) result)
      | TxExpectWorld w \<Rightarrow> Some (Inr (), c\<lparr>lc_instructions := lc_instructions c @ [instr_raw OpExpectObject (- 1) w]\<rparr>)
      | TxExpectObject slot e \<Rightarrow> lower_expect ops slot e c
      | TxDefine slot s p ob \<Rightarrow> lower_define ops slot s p ob c
      | TxForget slot \<Rightarrow>
          map_option (\<lambda>t. (Inr (), c\<lparr>lc_instructions := lc_instructions c @ [forget_slot (word_of_nat t)]\<rparr>))
            (ref_index ops (lc_slots c) slot)
      | TxReject \<Rightarrow> Some (Inr (), c\<lparr>lc_instructions := lc_instructions c @ [reject]\<rparr>))"

fun lower_emit ::
  "transaction_op list \<Rightarrow> transaction_op list \<Rightarrow> lowering_context \<Rightarrow> ((lowering_error + unit) \<times> lowering_context) option" where
  "lower_emit ops [] c = Some (Inr (), c)"
| "lower_emit ops (p # ps) c =
     Option.bind (lower_op ops p c) (\<lambda>(r, c). case r of Inl e \<Rightarrow> Some (Inl e, c) | Inr _ \<Rightarrow> lower_emit ops ps c)"

definition lower_transient :: "transaction_op list \<Rightarrow> lowering_context \<Rightarrow> ((lowering_error + u32) \<times> lowering_context) option" where
  "lower_transient ops c =
     (case lower_scan ops 0 ops (context_clear c) of
        (Inl e, c) \<Rightarrow> Some (Inl e, c)
      | (Inr _, c) \<Rightarrow>
          let c = c\<lparr>lc_slots := sort_refs ops (lc_slots c), lc_predicates := sort_refs ops (lc_predicates c),
                    lc_literals := sort_refs ops (lc_literals c)\<rparr>
          in map_option (\<lambda>(r, c'). (res_map (\<lambda>_. word_of_nat (length (lc_symbols c))) r, c')) (lower_emit ops ops c))"

definition lower_from_source ::
  "u64 \<Rightarrow> transaction_op list \<Rightarrow> lowering_context \<Rightarrow> ((lowering_error + stream_frame) \<times> lowering_context) option" where
  "lower_from_source ns ops c =
     map_option (\<lambda>(r, c).
       case r of
         Inl e \<Rightarrow> (Inl e, c)
       | Inr locals \<Rightarrow>
           let slots = map (\<lambda>(i, r). (word_of_nat i, ref_str ops r)) (enumerate 0 (lc_slots c));
               preds = map (\<lambda>(i, r). (word_of_nat i, ref_str ops r)) (enumerate 0 (lc_predicates c));
               lits = map (\<lambda>(i, r). (word_of_nat (i + length (lc_predicates c)), ref_str ops r)) (enumerate 0 (lc_literals c))
           in (Inr (stream_frame_new ns \<lparr>di_slots = lc_dict_slots c @ slots, di_predicates = lc_dict_predicates c @ preds,
                 di_literals = lc_dict_literals c @ lits\<rparr> locals (lc_instructions c)),
               c\<lparr>lc_instructions := [], lc_dict_slots := [], lc_dict_predicates := [], lc_dict_literals := []\<rparr>))
       (lower_transient ops c)"

definition lower_to_sisa_with ::
  "transaction_ast \<Rightarrow> lowering_context \<Rightarrow> ((lowering_error + stream_frame) \<times> lowering_context) option" where
  "lower_to_sisa_with ast c = lower_from_source (ta_namespace ast) (ta_operations ast) c"

definition lower_to_sisa :: "transaction_ast \<Rightarrow> (lowering_error + stream_frame) option" where
  "lower_to_sisa ast = map_option fst (lower_to_sisa_with ast context_new)"

section \<open>The reference lowering\<close>

text \<open>The sets are ordered; \<open>sy_symbols\<close> numbers the symbols in the order of their allocation.\<close>

record lowering_sets =
  sy_slots :: "string set"
  sy_predicates :: "string set"
  sy_literals :: "string set"
  sy_symbols :: "string \<rightharpoonup> u32"
  sy_local_count :: u32

fun atom_literals :: "atom_ref \<Rightarrow> string set" where
  "atom_literals (RLiteral l) = {l}"
| "atom_literals a = {}"

fun collect_sets :: "transaction_op list \<Rightarrow> lowering_sets \<Rightarrow> lowering_error + lowering_sets" where
  "collect_sets [] s = Inr s"
| "collect_sets (TxAllocate result # ps) s =
     (if sy_symbols s result \<noteq> None then Inl (DuplicateAllocation result)
      else if sy_local_count s = - 1 then Inl LocalCountOverflow
      else collect_sets ps (s\<lparr>sy_symbols := (sy_symbols s)(result \<mapsto> sy_local_count s),
        sy_local_count := sy_local_count s + 1\<rparr>))"
| "collect_sets (TxExpectWorld w # ps) s = collect_sets ps s"
| "collect_sets (TxExpectObject slot e # ps) s =
     collect_sets ps (s\<lparr>sy_slots := insert slot (sy_slots s), sy_literals := sy_literals s \<union> atom_literals e\<rparr>)"
| "collect_sets (TxDefine slot a p b # ps) s =
     collect_sets ps (s\<lparr>sy_slots := insert slot (sy_slots s), sy_predicates := insert p (sy_predicates s),
       sy_literals := sy_literals s \<union> atom_literals a \<union> atom_literals b\<rparr>)"
| "collect_sets (TxForget slot # ps) s = collect_sets ps (s\<lparr>sy_slots := insert slot (sy_slots s)\<rparr>)"
| "collect_sets (TxReject # ps) s = collect_sets ps s"

text \<open>A set with the numbers of its elements in order.\<close>

definition numbered_set :: "nat \<Rightarrow> string set \<Rightarrow> ('w::len word \<times> string) list" where
  "numbered_set n xs = map (\<lambda>(i, x). (word_of_nat i, x)) (enumerate n (sorted_list_of_set xs))"

definition number_map :: "('w::len word \<times> string) list \<Rightarrow> string \<rightharpoonup> 'w word" where
  "number_map ns = map_of (map (\<lambda>(i, x). (x, i)) ns)"

record lowering_maps =
  lm_slots :: "string \<rightharpoonup> slot_token"
  lm_predicates :: "string \<rightharpoonup> cell"
  lm_literals :: "string \<rightharpoonup> cell"
  lm_symbols :: "string \<rightharpoonup> u32"

fun reference_atom :: "lowering_maps \<Rightarrow> atom_ref \<Rightarrow> (lowering_error + instruction) option" where
  "reference_atom m (REntity e) = Some (Inr (push_cell e))"
| "reference_atom m (RLiteral l) = map_option (\<lambda>c. Inr (push_cell c)) (lm_literals m l)"
| "reference_atom m (RSymbol s) =
     Some (case lm_symbols m s of Some k \<Rightarrow> Inr (load_local k) | None \<Rightarrow> Inl (UndefinedSymbol s))"

fun reference_op :: "lowering_maps \<Rightarrow> transaction_op \<Rightarrow> (lowering_error + instruction list) option" where
  "reference_op m (TxAllocate result) = map_option (\<lambda>k. Inr [allocate, store_local k]) (lm_symbols m result)"
| "reference_op m (TxExpectWorld w) = Some (Inr [instr_raw OpExpectObject (- 1) w])"
| "reference_op m (TxExpectObject slot e) =
     Option.bind (lm_slots m slot) (\<lambda>t.
       case e of
         REntity x \<Rightarrow> Some (Inr [instr_raw OpExpectObject t x])
       | RLiteral l \<Rightarrow> map_option (\<lambda>c. Inr [instr_raw OpExpectObject t c]) (lm_literals m l)
       | RSymbol s \<Rightarrow> Some (Inl UnsupportedDynamicSymbolExpectObject))"
| "reference_op m (TxDefine slot a p b) =
     try_bind (reference_atom m a) (\<lambda>ia.
       Option.bind (lm_predicates m p) (\<lambda>cp.
         try_bind (reference_atom m b) (\<lambda>ib.
           map_option (\<lambda>t. Inr [ia, push_cell cp, ib, define_slot t]) (lm_slots m slot))))"
| "reference_op m (TxForget slot) = map_option (\<lambda>t. Inr [forget_slot t]) (lm_slots m slot)"
| "reference_op m TxReject = Some (Inr [reject])"

fun reference_emit :: "lowering_maps \<Rightarrow> transaction_op list \<Rightarrow> (lowering_error + instruction list) option" where
  "reference_emit m [] = Some (Inr [])"
| "reference_emit m (p # ps) =
     try_bind (reference_op m p) (\<lambda>is. try_bind (reference_emit m ps) (\<lambda>js. Some (Inr (is @ js))))"

definition lower_to_sisa_reference :: "transaction_ast \<Rightarrow> (lowering_error + stream_frame) option" where
  "lower_to_sisa_reference ast =
     (case collect_sets (ta_operations ast) \<lparr>sy_slots = {}, sy_predicates = {}, sy_literals = {}, sy_symbols = Map.empty, sy_local_count = 0\<rparr> of
        Inl e \<Rightarrow> Some (Inl e)
      | Inr s \<Rightarrow>
          let slots = numbered_set 0 (sy_slots s); preds = numbered_set 0 (sy_predicates s);
              lits = numbered_set (card (sy_predicates s)) (sy_literals s);
              m = \<lparr>lm_slots = number_map slots, lm_predicates = number_map preds, lm_literals = number_map lits,
                   lm_symbols = sy_symbols s\<rparr>
          in try_bind (reference_emit m (ta_operations ast)) (\<lambda>is.
               Some (Inr (stream_frame_new (ta_namespace ast)
                 \<lparr>di_slots = slots, di_predicates = preds, di_literals = lits\<rparr> (sy_local_count s) is))))"

section \<open>Sorted and numbered texts\<close>

lemma map_dedup_by_key: "map key (dedup_by_key key xs) = remdups_adj (map key xs)"
  by (induction key xs rule: dedup_by_key.induct) auto

lemma distinct_remdups_adj: "sorted xs \<Longrightarrow> distinct (remdups_adj xs)"
  by (induction xs rule: remdups_adj.induct) (auto simp: order.antisym)

lemma map_sort_refs: "map (ref_str ops) (sort_refs ops rs) = sorted_list_of_set (ref_str ops ` set rs)"
proof -
  let ?xs = "remdups_adj (map (ref_str ops) (sort_key (ref_str ops) rs))"
  have "sorted ?xs" "distinct ?xs"
    by (simp_all add: distinct_remdups_adj)
  then show ?thesis
    using sorted_list_of_set.idem_if_sorted_distinct [of ?xs]
    by (simp add: sort_refs_def map_dedup_by_key)
qed

lemma length_sort_refs: "length (sort_refs ops rs) = card (ref_str ops ` set rs)"
  using arg_cong [OF map_sort_refs [of ops rs], of length] by simp

lemma find_index_map: "find_index P (map f xs) = find_index (\<lambda>x. P (f x)) xs"
  by (induction xs) auto

lemma find_index_snoc:
  "find_index P (xs @ [x]) =
     (case find_index P xs of Some k \<Rightarrow> Some k | None \<Rightarrow> if P x then Some (length xs) else None)"
  by (induction xs) (auto split: option.splits)

lemma find_index_none: "find_index P xs = None \<longleftrightarrow> (\<forall>x \<in> set xs. \<not> P x)"
  by (induction xs) auto

lemma number_map_index:
  "number_map (map (\<lambda>(i, x). (word_of_nat i, x)) (enumerate n xs)) y =
     map_option (\<lambda>k. word_of_nat (k + n)) (find_index (\<lambda>x. x = y) xs)"
proof (induction xs arbitrary: n)
  case (Cons a xs)
  then show ?case
    by (simp add: number_map_def option.map_comp comp_def add_ac)
qed (simp add: number_map_def)

lemma number_map_set:
  "number_map (numbered_set n (ref_str ops ` set rs)) y =
     map_option (\<lambda>k. word_of_nat (k + n)) (ref_index ops (sort_refs ops rs) y)"
  by (simp add: numbered_set_def number_map_index ref_index_def flip: map_sort_refs)
    (simp add: find_index_map)

lemma enumerate_texts:
  "map (\<lambda>(i, r). (word_of_nat (i + n), ref_str ops r)) (enumerate m rs) =
     map (\<lambda>(i, x). (word_of_nat i, x)) (enumerate (m + n) (map (ref_str ops) rs))"
  by (induction rs arbitrary: m) auto

lemma numbered_refs:
  "map (\<lambda>(i, r). (word_of_nat (i + n), ref_str ops r)) (enumerate 0 (sort_refs ops rs)) =
     numbered_set n (ref_str ops ` set rs)"
  unfolding enumerate_texts numbered_set_def map_sort_refs by simp

section \<open>The first pass collects the sets of the reference\<close>

definition scanned :: "transaction_op list \<Rightarrow> lowering_context \<Rightarrow> lowering_sets \<Rightarrow> bool" where
  "scanned ops c s \<longleftrightarrow>
     sy_slots s = ref_str ops ` set (lc_slots c) \<and> sy_predicates s = ref_str ops ` set (lc_predicates c) \<and>
     sy_literals s = ref_str ops ` set (lc_literals c) \<and>
     (\<forall>x. sy_symbols s x = map_option word_of_nat (ref_index ops (lc_symbols c) x)) \<and>
     sy_local_count s = word_of_nat (length (lc_symbols c)) \<and>
     lc_instructions c = [] \<and> lc_dict_slots c = [] \<and> lc_dict_predicates c = [] \<and> lc_dict_literals c = []"

lemma word_of_nat_not_max:
  assumes "n < 2 ^ 32 - 1"
  shows "word_of_nat n \<noteq> (- 1 :: u32)"
proof
  assume "word_of_nat n = (- 1 :: u32)"
  then have "unat (word_of_nat n :: u32) = unat (- 1 :: u32)"
    by simp
  moreover have "unat (- 1 :: u32) = 2 ^ 32 - 1"
    by (simp add: unat_NONE_32)
  ultimately show False
    using assms by (simp add: unat_of_nat)
qed

lemma scan_step:
  assumes "ops ! i = p" "scanned ops c s" "length (lc_symbols c) \<le> i" "i < 2 ^ 32 - 1"
  shows "case lower_scan_op ops i p c of
           Inl e \<Rightarrow> collect_sets (p # ps) s = Inl e
         | Inr c' \<Rightarrow> \<exists>s'. collect_sets (p # ps) s = collect_sets ps s' \<and> scanned ops c' s' \<and> length (lc_symbols c') \<le> Suc i"
proof (cases p)
  case (TxAllocate result)
  have max: "word_of_nat (length (lc_symbols c)) \<noteq> (- 1 :: u32)"
    using assms by (intro word_of_nat_not_max) simp
  show ?thesis
  proof (cases "\<exists>r \<in> set (lc_symbols c). ref_str ops r = result")
    case True
    then have "ref_index ops (lc_symbols c) result \<noteq> None"
      by (auto simp: ref_index_def find_index_none)
    then show ?thesis
      using assms True by (auto simp: TxAllocate lower_scan_op_def scanned_def)
  next
    case False
    then have none: "ref_index ops (lc_symbols c) result = None"
      by (auto simp: ref_index_def find_index_none)
    let ?c = "c\<lparr>lc_symbols := lc_symbols c @ [SrAlloc i]\<rparr>"
    let ?s = "s\<lparr>sy_symbols := (sy_symbols s)(result \<mapsto> sy_local_count s), sy_local_count := sy_local_count s + 1\<rparr>"
    have "scanned ops ?c ?s"
      using assms none
      by (auto simp: TxAllocate scanned_def ref_index_def find_index_snoc split: option.splits)
    moreover have "collect_sets (p # ps) s = collect_sets ps ?s"
      using assms none max by (simp add: TxAllocate scanned_def)
    ultimately show ?thesis
      using assms False by (auto simp: TxAllocate lower_scan_op_def)
  qed
next
  case (TxExpectObject slot e)
  let ?s = "s\<lparr>sy_slots := insert slot (sy_slots s), sy_literals := sy_literals s \<union> atom_literals e\<rparr>"
  have "collect_sets (p # ps) s = collect_sets ps ?s"
    by (simp add: TxExpectObject)
  moreover have "\<exists>c'. lower_scan_op ops i p c = Inr c' \<and> scanned ops c' ?s \<and> length (lc_symbols c') \<le> Suc i"
    using assms by (cases e) (simp_all add: TxExpectObject lower_scan_op_def scanned_def)
  ultimately show ?thesis
    by auto
next
  case (TxDefine slot a q b)
  let ?s = "s\<lparr>sy_slots := insert slot (sy_slots s), sy_predicates := insert q (sy_predicates s),
       sy_literals := sy_literals s \<union> atom_literals a \<union> atom_literals b\<rparr>"
  have "collect_sets (p # ps) s = collect_sets ps ?s"
    by (simp add: TxDefine)
  moreover have "\<exists>c'. lower_scan_op ops i p c = Inr c' \<and> scanned ops c' ?s \<and> length (lc_symbols c') \<le> Suc i"
    using assms by (cases a; cases b) (auto simp: TxDefine lower_scan_op_def scanned_def)
  ultimately show ?thesis
    by auto
next
  case (TxForget slot)
  let ?s = "s\<lparr>sy_slots := insert slot (sy_slots s)\<rparr>"
  have "collect_sets (p # ps) s = collect_sets ps ?s"
    by (simp add: TxForget)
  moreover have "\<exists>c'. lower_scan_op ops i p c = Inr c' \<and> scanned ops c' ?s \<and> length (lc_symbols c') \<le> Suc i"
    using assms by (simp add: TxForget lower_scan_op_def scanned_def)
  ultimately show ?thesis
    by auto
qed (use assms in \<open>auto simp: lower_scan_op_def\<close>)

lemma scan_collects:
  assumes "ps = drop i ops" "scanned ops c s" "length (lc_symbols c) \<le> i" "length ops < 2 ^ 32"
  shows "case lower_scan ops i ps c of
           (Inl e, c') \<Rightarrow> collect_sets ps s = Inl e
         | (Inr _, c') \<Rightarrow> \<exists>s'. collect_sets ps s = Inr s' \<and> scanned ops c' s'"
  using assms
proof (induction ps arbitrary: i c s)
  case Nil
  then show ?case
    by auto
next
  case (Cons p ps)
  have len: "i < length ops"
    using Cons.prems(1) by (metis drop_eq_Nil list.distinct(1) not_le)
  have p: "ops ! i = p" and ps: "ps = drop (Suc i) ops"
    using Cons.prems(1) len by (simp_all flip: Cons_nth_drop_Suc)
  have small: "i < 2 ^ 32 - 1"
    using len Cons.prems(4) by simp
  show ?case
  proof (cases "lower_scan_op ops i p c")
    case (Inl e)
    then show ?thesis
      using scan_step [OF p Cons.prems(2,3) small, of ps] by simp
  next
    case (Inr c')
    then obtain s' where s': "collect_sets (p # ps) s = collect_sets ps s'" "scanned ops c' s'"
      "length (lc_symbols c') \<le> Suc i"
      using scan_step [OF p Cons.prems(2,3) small, of ps] by auto
    show ?thesis
      using Cons.IH [OF ps s'(2,3) Cons.prems(4)] unfolding s'(1) by (simp add: Inr)
  qed
qed

section \<open>The second pass emits the instructions of the reference\<close>

definition tables :: "transaction_op list \<Rightarrow> lowering_context \<Rightarrow> lowering_maps \<Rightarrow> bool" where
  "tables ops c m \<longleftrightarrow>
     (\<forall>x. lm_slots m x = map_option word_of_nat (ref_index ops (lc_slots c) x)) \<and>
     (\<forall>x. lm_predicates m x = map_option word_of_nat (ref_index ops (lc_predicates c) x)) \<and>
     (\<forall>x. lm_literals m x = map_option (\<lambda>k. word_of_nat (k + length (lc_predicates c))) (ref_index ops (lc_literals c) x)) \<and>
     (\<forall>x. lm_symbols m x = map_option word_of_nat (ref_index ops (lc_symbols c) x))"

lemma tables_instructions [simp]: "tables ops (c\<lparr>lc_instructions := is\<rparr>) m = tables ops c m"
  by (simp add: tables_def)

lemma lower_atom_reference: "tables ops c m \<Longrightarrow> lower_atom ops c a = reference_atom m a"
  by (cases a) (auto simp: lower_atom_def tables_def option.map_comp comp_def split: option.splits)

definition emits :: "lowering_context \<Rightarrow> (lowering_error + unit) \<times> lowering_context \<Rightarrow> (lowering_error + instruction list) \<Rightarrow> bool" where
  "emits c o' r \<longleftrightarrow>
     (case o' of (Inl e, c') \<Rightarrow> r = Inl e
      | (Inr _, c') \<Rightarrow> \<exists>is. r = Inr is \<and> c' = c\<lparr>lc_instructions := lc_instructions c @ is\<rparr>)"

lemma two_tries:
  obtains "fst x = None" | e where "fst x = Some (Inl e)"
  | y where "fst x = Some (Inr y)" "snd x = None"
  | y e where "fst x = Some (Inr y)" "snd x = Some (Inl e)"
  | y z where "fst x = Some (Inr y)" "snd x = Some (Inr z)"
  by (metis obj_sumE option.exhaust)

lemma lower_op_reference: "tables ops c m \<Longrightarrow> rel_option (emits c) (lower_op ops p c) (reference_op m p)"
  apply (cases p)
  subgoal by (auto simp: lower_op_def tables_def emits_def option.rel_map option.rel_refl)
  subgoal by (auto simp: lower_op_def emits_def)
  subgoal for slot e
    by (cases e; cases "ref_index ops (lc_slots c) slot")
      (auto simp: lower_op_def lower_expect_def tables_def emits_def option.rel_map option.rel_refl)
  subgoal for slot a q b
    by (cases "(reference_atom m a, reference_atom m b)" rule: two_tries;
        cases "ref_index ops (lc_predicates c) q"; cases "ref_index ops (lc_slots c) slot")
      (auto simp: lower_op_def lower_define_def lower_atom_reference tables_def emits_def)
  subgoal by (auto simp: lower_op_def tables_def emits_def option.rel_map option.rel_refl)
  subgoal by (auto simp: lower_op_def emits_def)
  done

lemma lower_emit_reference:
  "tables ops c m \<Longrightarrow> rel_option (emits c) (lower_emit ops ps c) (reference_emit m ps)"
proof (induction ps arbitrary: c)
  case Nil
  then show ?case
    by (simp add: emits_def)
next
  case (Cons p ps)
  note step = lower_op_reference [OF Cons.prems, of p]
  show ?case
  proof (cases "lower_op ops p c")
    case None
    then show ?thesis
      using step by simp
  next
    case (Some o')
    then obtain r where r: "reference_op m p = Some r" "emits c o' r"
      using step by (auto simp: option_rel_Some1)
    show ?thesis
    proof (cases "fst o'")
      case (Inl e)
      then show ?thesis
        using r Some by (cases o') (simp add: emits_def)
    next
      case (Inr u)
      then obtain "is" where "is": "r = Inr is" "o' = (Inr u, c\<lparr>lc_instructions := lc_instructions c @ is\<rparr>)"
        using r(2) by (cases o') (auto simp: emits_def)
      let ?c = "c\<lparr>lc_instructions := lc_instructions c @ is\<rparr>"
      have rest: "rel_option (emits ?c) (lower_emit ops ps ?c) (reference_emit m ps)"
        using Cons.IH [of ?c] Cons.prems by simp
      show ?thesis
      proof (cases "lower_emit ops ps ?c")
        case None
        then show ?thesis
          using rest Some r(1) "is" by simp
      next
        case (Some o'')
        then obtain r' where r': "reference_emit m ps = Some r'" "emits ?c o'' r'"
          using rest by (auto simp: option_rel_Some1)
        have emit: "lower_emit ops (p # ps) c = Some o''"
          using \<open>lower_op ops p c = Some o'\<close> Some "is"(2) by simp
        have reference: "reference_emit m (p # ps) = (case r' of Inl e \<Rightarrow> Some (Inl e) | Inr js \<Rightarrow> Some (Inr (is @ js)))"
          using r(1) "is"(1) r'(1) by (simp split: sum.split)
        show ?thesis
          using r'(2) unfolding emit reference
          by (cases o''; cases "fst o''") (auto simp: emits_def)
      qed
    qed
  qed
qed

section \<open>Every text that is looked up was collected\<close>

fun atom_known :: "lowering_sets \<Rightarrow> atom_ref \<Rightarrow> bool" where
  "atom_known s (RLiteral l) \<longleftrightarrow> l \<in> sy_literals s"
| "atom_known s a \<longleftrightarrow> True"

fun op_known :: "lowering_sets \<Rightarrow> transaction_op \<Rightarrow> bool" where
  "op_known s (TxAllocate result) \<longleftrightarrow> sy_symbols s result \<noteq> None"
| "op_known s (TxExpectObject slot e) \<longleftrightarrow> slot \<in> sy_slots s \<and> atom_known s e"
| "op_known s (TxDefine slot a p b) \<longleftrightarrow> slot \<in> sy_slots s \<and> p \<in> sy_predicates s \<and> atom_known s a \<and> atom_known s b"
| "op_known s (TxForget slot) \<longleftrightarrow> slot \<in> sy_slots s"
| "op_known s p \<longleftrightarrow> True"

definition sets_grow :: "lowering_sets \<Rightarrow> lowering_sets \<Rightarrow> bool" where
  "sets_grow s s' \<longleftrightarrow> sy_slots s \<subseteq> sy_slots s' \<and> sy_predicates s \<subseteq> sy_predicates s' \<and>
     sy_literals s \<subseteq> sy_literals s' \<and> dom (sy_symbols s) \<subseteq> dom (sy_symbols s')"

lemma collect_grows: "collect_sets ps s = Inr s' \<Longrightarrow> sets_grow s s'"
proof (induction ps s rule: collect_sets.induct)
  case (2 result ps s)
  then show ?case
    by (auto simp: sets_grow_def split: if_splits)
qed (auto simp: sets_grow_def)

lemma atom_known_iff: "atom_known s a \<longleftrightarrow> atom_literals a \<subseteq> sy_literals s"
  by (cases a) auto

lemma atom_known_grows: "sets_grow s s' \<Longrightarrow> atom_known s a \<Longrightarrow> atom_known s' a"
  by (auto simp: sets_grow_def atom_known_iff)

lemma op_known_grows: "sets_grow s s' \<Longrightarrow> op_known s p \<Longrightarrow> op_known s' p"
  by (cases p) (simp_all add: atom_known_grows, auto simp: sets_grow_def)

lemma collect_knows: "collect_sets ps s = Inr s' \<Longrightarrow> list_all (op_known s') ps"
proof (induction ps arbitrary: s)
  case (Cons p ps)
  have "\<exists>s1. collect_sets ps s1 = Inr s' \<and> op_known s1 p"
  proof (cases p)
    case (TxAllocate result)
    then show ?thesis
      using Cons.prems
      by (intro exI [of _ "s\<lparr>sy_symbols := (sy_symbols s)(result \<mapsto> sy_local_count s), sy_local_count := sy_local_count s + 1\<rparr>"])
        (simp split: if_splits)
  next
    case (TxExpectObject slot e)
    then show ?thesis
      using Cons.prems
      by (intro exI [of _ "s\<lparr>sy_slots := insert slot (sy_slots s), sy_literals := sy_literals s \<union> atom_literals e\<rparr>"])
        (simp add: atom_known_iff)
  next
    case (TxDefine slot a q b)
    then show ?thesis
      using Cons.prems
      by (intro exI [of _ "s\<lparr>sy_slots := insert slot (sy_slots s), sy_predicates := insert q (sy_predicates s),
            sy_literals := sy_literals s \<union> atom_literals a \<union> atom_literals b\<rparr>"])
        (simp add: atom_known_iff le_supI1)
  next
    case (TxForget slot)
    then show ?thesis
      using Cons.prems by (intro exI [of _ "s\<lparr>sy_slots := insert slot (sy_slots s)\<rparr>"]) simp
  qed (use Cons.prems in \<open>auto\<close>)
  then obtain s1 where s1: "collect_sets ps s1 = Inr s'" "op_known s1 p"
    by blast
  show ?case
    using Cons.IH [OF s1(1)] op_known_grows [OF collect_grows [OF s1(1)] s1(2)] by simp
qed simp

section \<open>The lowering is the reference\<close>

definition no_sets :: lowering_sets where
  "no_sets = \<lparr>sy_slots = {}, sy_predicates = {}, sy_literals = {}, sy_symbols = Map.empty, sy_local_count = 0\<rparr>"

definition set_maps :: "lowering_sets \<Rightarrow> lowering_maps" where
  "set_maps s =
     \<lparr>lm_slots = number_map (numbered_set 0 (sy_slots s)), lm_predicates = number_map (numbered_set 0 (sy_predicates s)),
      lm_literals = number_map (numbered_set (card (sy_predicates s)) (sy_literals s)), lm_symbols = sy_symbols s\<rparr>"

definition set_dictionary :: "lowering_sets \<Rightarrow> stream_dictionary" where
  "set_dictionary s =
     \<lparr>di_slots = numbered_set 0 (sy_slots s), di_predicates = numbered_set 0 (sy_predicates s),
      di_literals = numbered_set (card (sy_predicates s)) (sy_literals s)\<rparr>"

lemma reference_unfold:
  "lower_to_sisa_reference ast =
     (case collect_sets (ta_operations ast) no_sets of
        Inl e \<Rightarrow> Some (Inl e)
      | Inr s \<Rightarrow>
          try_bind (reference_emit (set_maps s) (ta_operations ast)) (\<lambda>is.
            Some (Inr (stream_frame_new (ta_namespace ast) (set_dictionary s) (sy_local_count s) is))))"
  unfolding lower_to_sisa_reference_def set_maps_def set_dictionary_def no_sets_def Let_def by (rule refl)

definition sorted_context :: "transaction_op list \<Rightarrow> lowering_context \<Rightarrow> lowering_context" where
  "sorted_context ops c =
     c\<lparr>lc_slots := sort_refs ops (lc_slots c), lc_predicates := sort_refs ops (lc_predicates c),
       lc_literals := sort_refs ops (lc_literals c)\<rparr>"

lemma sorted_tables: "scanned ops c s \<Longrightarrow> tables ops (sorted_context ops c) (set_maps s)"
  by (simp add: scanned_def tables_def sorted_context_def set_maps_def number_map_set length_sort_refs)

lemma ref_index_sorted: "ref_index ops (sort_refs ops rs) x = None \<longleftrightarrow> x \<notin> ref_str ops ` set rs"
proof -
  have "ref_str ops ` set (sort_refs ops rs) = ref_str ops ` set rs"
    using arg_cong [OF map_sort_refs [of ops rs], of set] by simp
  moreover have "ref_index ops (sort_refs ops rs) x = None \<longleftrightarrow> x \<notin> ref_str ops ` set (sort_refs ops rs)"
    by (auto simp: ref_index_def find_index_none)
  ultimately show ?thesis
    by simp
qed

lemma set_maps_none:
  assumes "scanned ops c s"
  shows "lm_slots (set_maps s) x = None \<longleftrightarrow> x \<notin> sy_slots s"
    and "lm_predicates (set_maps s) x = None \<longleftrightarrow> x \<notin> sy_predicates s"
    and "lm_literals (set_maps s) x = None \<longleftrightarrow> x \<notin> sy_literals s"
    and "lm_symbols (set_maps s) x = None \<longleftrightarrow> sy_symbols s x = None"
  using assms by (simp_all add: scanned_def set_maps_def number_map_set ref_index_sorted)

lemma bind_total: "r \<noteq> None \<Longrightarrow> (\<And>x. f x \<noteq> None) \<Longrightarrow> Option.bind r f \<noteq> None"
  by (cases r) auto

lemma try_bind_total: "r \<noteq> None \<Longrightarrow> (\<And>x. f x \<noteq> None) \<Longrightarrow> try_bind r f \<noteq> None"
  by (cases "(r, f)" rule: try_bind.cases) auto

lemma reference_atom_total: "scanned ops c s \<Longrightarrow> atom_known s a \<Longrightarrow> reference_atom (set_maps s) a \<noteq> None"
  by (cases a) (auto simp: set_maps_none)

lemma reference_op_total:
  assumes "scanned ops c s" "op_known s p"
  shows "reference_op (set_maps s) p \<noteq> None"
proof (cases p)
  case (TxExpectObject slot e)
  have "lm_slots (set_maps s) slot \<noteq> None" "\<And>l. e = RLiteral l \<Longrightarrow> lm_literals (set_maps s) l \<noteq> None"
    using assms by (auto simp: TxExpectObject set_maps_none)
  then show ?thesis
    by (cases e) (auto simp: TxExpectObject simp del: not_None_eq intro!: bind_total)
next
  case (TxDefine slot a q b)
  have "reference_atom (set_maps s) a \<noteq> None" "reference_atom (set_maps s) b \<noteq> None"
    "lm_predicates (set_maps s) q \<noteq> None" "lm_slots (set_maps s) slot \<noteq> None"
    using assms by (simp_all add: TxDefine reference_atom_total set_maps_none del: not_None_eq)
  then show ?thesis
    by (simp add: TxDefine try_bind_total bind_total del: not_None_eq)
qed (use assms in \<open>auto simp: set_maps_none simp del: not_None_eq\<close>)

lemma reference_emit_total: "scanned ops c s \<Longrightarrow> list_all (op_known s) ps \<Longrightarrow> reference_emit (set_maps s) ps \<noteq> None"
proof (induction ps)
  case (Cons p ps)
  then obtain r r' where "reference_op (set_maps s) p = Some r" "reference_emit (set_maps s) ps = Some r'"
    using reference_op_total [of ops c s p] by auto
  then show ?case
    by (cases r; cases r') auto
qed simp

lemma lowered_as_reference:
  assumes "length (ta_operations ast) < 2 ^ 32"
  shows "\<exists>r. map_option fst (lower_to_sisa_with ast c) = Some r \<and> lower_to_sisa_reference ast = Some r"
proof -
  let ?ops = "ta_operations ast"
  have start: "scanned ?ops (context_clear c) no_sets"
    by (simp add: scanned_def context_clear_def no_sets_def ref_index_def)
  note scan = scan_collects [of ?ops 0 ?ops, OF _ start _ assms]
  show ?thesis
  proof (cases "lower_scan ?ops 0 ?ops (context_clear c)")
    case (Pair r c1)
    show ?thesis
    proof (cases r)
      case (Inl e)
      then show ?thesis
        using scan Pair
        by (simp add: context_clear_def lower_to_sisa_with_def lower_from_source_def lower_transient_def reference_unfold)
    next
      case (Inr u)
      then obtain s where s: "collect_sets ?ops no_sets = Inr s" "scanned ?ops c1 s"
        using scan Pair by (auto simp: context_clear_def)
      let ?c = "sorted_context ?ops c1"
      note emit = lower_emit_reference [OF sorted_tables [OF s(2)], of ?ops]
      obtain r1 where r1: "reference_emit (set_maps s) ?ops = Some r1"
        using reference_emit_total [OF s(2) collect_knows [OF s(1)]] by auto
      then obtain o1 where o1: "lower_emit ?ops ?ops ?c = Some o1" "emits ?c o1 r1"
        using emit by (auto simp: option_rel_Some2)
      have lowered: "lower_to_sisa_with ast c =
          lower_from_source (ta_namespace ast) ?ops c"
        "lower_transient ?ops c =
          map_option (\<lambda>(r, c'). (res_map (\<lambda>_. word_of_nat (length (lc_symbols ?c))) r, c')) (lower_emit ?ops ?ops ?c)"
        using Pair Inr by (simp_all add: lower_to_sisa_with_def lower_transient_def sorted_context_def Let_def)
      show ?thesis
      proof (cases r1)
        case (Inl e)
        then show ?thesis
          using o1 s(1) r1
          by (cases o1; cases "fst o1") (auto simp: lowered lower_from_source_def reference_unfold emits_def)
      next
        case (Inr "is")
        then have o1': "o1 = (Inr (), ?c\<lparr>lc_instructions := lc_instructions ?c @ is\<rparr>)"
          using o1(2) by (cases o1; cases "fst o1") (auto simp: emits_def)
        have frame: "stream_frame_new (ta_namespace ast) (set_dictionary s) (sy_local_count s) is =
            stream_frame_new (ta_namespace ast)
              \<lparr>di_slots = map (\<lambda>(i, r). (word_of_nat i, ref_str ?ops r)) (enumerate 0 (lc_slots ?c)),
               di_predicates = map (\<lambda>(i, r). (word_of_nat i, ref_str ?ops r)) (enumerate 0 (lc_predicates ?c)),
               di_literals = map (\<lambda>(i, r). (word_of_nat (i + length (lc_predicates ?c)), ref_str ?ops r))
                 (enumerate 0 (lc_literals ?c))\<rparr>
              (word_of_nat (length (lc_symbols ?c))) is"
          using s(2)
          by (simp add: set_dictionary_def scanned_def sorted_context_def length_sort_refs numbered_refs
              numbered_refs [of 0, simplified] del: of_nat_add)
        show ?thesis
          using s r1 Inr o1(1)
          by (simp add: lowered lower_from_source_def reference_unfold o1' frame)
            (simp add: sorted_context_def scanned_def)
      qed
    qed
  qed
qed

section \<open>Properties\<close>

text \<open>
  C34. Lowering a transaction, with whatever context an earlier lowering left behind, gives the
  frame or the error of the reference lowering, which works with ordered sets and maps; no lookup
  of the second pass fails.  The transaction is one whose operations can be counted in 32 bits.
\<close>

theorem lowering_is_reference:
  assumes "length (ta_operations ast) < 2 ^ 32"
  shows "\<exists>r. map_option fst (lower_to_sisa_with ast c) = Some r \<and> lower_to_sisa_reference ast = Some r"
  by (rule lowered_as_reference [OF assms])

definition sample_ast :: transaction_ast where
  "sample_ast =
     \<lparr>ta_namespace = 7,
      ta_operations =
        [TxAllocate ''x'', TxDefine ''b'' (RSymbol ''x'') ''name'' (RLiteral ''w''),
         TxDefine ''a'' (REntity 3) ''age'' (RLiteral ''v''), TxExpectObject ''b'' (RLiteral ''w''), TxForget ''a'']\<rparr>"

theorem lowering_is_reference_witness:
  "\<exists>r. map_option fst (lower_to_sisa_with sample_ast (context_new\<lparr>lc_slots := [SrAlloc 0]\<rparr>)) = Some r \<and>
     lower_to_sisa_reference sample_ast = Some r"
  by (rule lowering_is_reference) (simp add: sample_ast_def)

text \<open>
  A lowered frame is not a stream that the reader of instruction streams understands: the
  lowering numbers literals behind the predicates and the reader takes only cells from the literal
  base on for literals.  Reading back the definition of a literal gives entity 1 as its object, and
  the instruction that rejects the transaction is dropped.
\<close>

theorem lowered_stream_misread:
  "\<exists>f i. lower_to_sisa \<lparr>ta_namespace = ns, ta_operations = [TxDefine slot (REntity 5) p (RLiteral l), TxReject]\<rparr> = Some (Inr f) \<and>
     from_stream_frame k f = Some (Inr i, k + 1) \<and>
     qi_operations i = [IDefine slot \<lparr>if_subject = IEntity 5, if_predicate = p, if_object = IEntity 1\<rparr>]"
  by (simp add: lower_to_sisa_def lower_to_sisa_with_def lower_from_source_def lower_transient_def context_new_def
      context_clear_def lower_scan_op_def sort_refs_def lower_op_def lower_define_def lower_atom_def ref_index_def)
    (simp add: from_stream_frame_def intent_new_def stream_frame_new_def stream_maps_of_def instruction_defs
      stream_slot_def intent_define_def VM_LITERAL_BASE_def)

end
