(* ===== verification/Mixed_Epochs.thy ===== *)
theory Mixed_Epochs
  imports VM_Epochs Transaction_AST
begin

text \<open>
  Epochs that mix queued intents with semantic intents, which are transactions as syntax trees
  (\<open>queued.rs\<close>: \<open>TrialVocabulary\<close>, \<open>materialize_mixed\<close> and \<open>commit_mixed_epoch\<close>).  A semantic intent
  is compiled with a vocabulary of its own that the materializer takes over when the intent is
  accepted.  As in \<open>VM_Materializer\<close> the materializer is returned in every case and \<open>None\<close> is a panic.
  Where the code keeps only the text of a candidate error, the model keeps the error.  The
  additions on the allocator wrap, as in a release build.
\<close>

section \<open>Trial vocabularies\<close>

record trial_vocabulary =
  tv_materializer :: vm_materializer
  tv_slots :: "(slot_id \<times> slot_token) list"
  tv_predicates :: "(string \<times> cell) list"
  tv_literals :: "(string \<times> cell) list"

definition trial_new :: "vm_materializer \<Rightarrow> trial_vocabulary" where
  "trial_new m = \<lparr>tv_materializer = m, tv_slots = [], tv_predicates = [], tv_literals = []\<rparr>"

definition trial_commit :: "trial_vocabulary \<Rightarrow> vm_materializer" where
  "trial_commit t =
     (let m = tv_materializer t;
          m = fold (\<lambda>(k, v) m. m\<lparr>vm_slots := bt_insert k v (vm_slots m)\<rparr>) (tv_slots t) m;
          m = fold (\<lambda>(k, v) m. m\<lparr>vm_predicates := bt_insert k v (vm_predicates m),
                predicate_values := predicate_values m @ [k]\<rparr>) (tv_predicates t) m
      in fold (\<lambda>(k, v) m. m\<lparr>vm_literals := bt_insert k v (vm_literals m),
                literal_values := literal_values m @ [k]\<rparr>) (tv_literals t) m)"

definition trial_slot_token :: "slot_id \<Rightarrow> trial_vocabulary \<Rightarrow> slot_token \<times> trial_vocabulary" where
  "trial_slot_token slot t =
     (let m = tv_materializer t in
      case map_of (tv_slots t) slot of
        Some token \<Rightarrow> (token, t)
      | None \<Rightarrow>
          (case map_of (vm_slots m) slot of
             Some token \<Rightarrow> (token, t)
           | None \<Rightarrow>
               (case Option.bind (mapped_base m) (\<lambda>b. mv_slot_token b slot) of
                  Some token \<Rightarrow> (token, t)
                | None \<Rightarrow>
                    let total = mapped_count mv_slot_count m + length (vm_slots m) + length (tv_slots t);
                        token = word_of_nat total
                    in (token, t\<lparr>tv_slots := bt_insert slot token (tv_slots t),
                                 tv_materializer := m\<lparr>vm_workspace := ensure_slot_count (total + 1) (vm_workspace m)\<rparr>\<rparr>))))"

definition trial_predicate_cell :: "string \<Rightarrow> trial_vocabulary \<Rightarrow> cell \<times> trial_vocabulary" where
  "trial_predicate_cell p t =
     (let m = tv_materializer t in
      case map_of (tv_predicates t) p of
        Some c \<Rightarrow> (c, t)
      | None \<Rightarrow>
          (case map_of (vm_predicates m) p of
             Some c \<Rightarrow> (c, t)
           | None \<Rightarrow>
               (case Option.bind (mapped_base m) (\<lambda>b. mv_predicate_token b p) of
                  Some token \<Rightarrow> (ucast token, t)
                | None \<Rightarrow>
                    let c = word_of_nat (mapped_count mv_predicate_count m + length (vm_predicates m) + length (tv_predicates t))
                    in (c, t\<lparr>tv_predicates := bt_insert p c (tv_predicates t)\<rparr>))))"

definition trial_literal_cell :: "string \<Rightarrow> trial_vocabulary \<Rightarrow> (cell \<times> trial_vocabulary) option" where
  "trial_literal_cell l t =
     (let m = tv_materializer t in
      case map_of (tv_literals t) l of
        Some c \<Rightarrow> Some (c, t)
      | None \<Rightarrow>
          (case map_of (vm_literals m) l of
             Some c \<Rightarrow> Some (c, t)
           | None \<Rightarrow>
               (case Option.bind (mapped_base m) (\<lambda>b. mv_literal_token b l) of
                  Some token \<Rightarrow> Some (VM_LITERAL_BASE + ucast token, t)
                | None \<Rightarrow>
                    map_option (\<lambda>c. (c, t\<lparr>tv_literals := bt_insert l c (tv_literals t)\<rparr>))
                      (checked_add_u64 VM_LITERAL_BASE
                        (word_of_nat (mapped_count mv_literal_count m + length (literal_values m) + length (tv_literals t)))))))"

section \<open>Compiling a semantic intent\<close>

type_synonym bindings = "(string \<times> entity_id) list"

definition undefined_symbol :: "string \<Rightarrow> string" where
  "undefined_symbol s = ''use of undefined symbol '' @ [CHR 0x27] @ s @ [CHR 0x27]"

definition trial_atom_cell ::
  "bindings \<Rightarrow> atom_ref \<Rightarrow> trial_vocabulary \<Rightarrow> ((string + cell) \<times> trial_vocabulary) option" where
  "trial_atom_cell bs a t =
     (case a of
        REntity e \<Rightarrow> Some (Inr e, t)
      | RLiteral l \<Rightarrow> map_option (\<lambda>(c, t). (Inr c, t)) (trial_literal_cell l t)
      | RSymbol s \<Rightarrow> Some (case map_of bs s of Some e \<Rightarrow> Inr e | None \<Rightarrow> Inl (undefined_symbol s), t))"

text \<open>A binder for results that carry the trial along, also with an error.\<close>

fun trial_bind ::
  "((string + 'a) \<times> trial_vocabulary) option \<Rightarrow> ('a \<Rightarrow> trial_vocabulary \<Rightarrow> ((string + 'b) \<times> trial_vocabulary) option) \<Rightarrow>
   ((string + 'b) \<times> trial_vocabulary) option" where
  "trial_bind None f = None"
| "trial_bind (Some (Inl e, t)) f = Some (Inl e, t)"
| "trial_bind (Some (Inr x, t)) f = f x t"

text \<open>\<open>k\<close> counts the entities allocated so far.\<close>

fun compile_semantic ::
  "transaction_op list \<Rightarrow> bindings \<Rightarrow> instruction list \<Rightarrow> u64 \<Rightarrow> trial_vocabulary \<Rightarrow>
   ((string + instruction list \<times> bindings) \<times> trial_vocabulary) option" where
  "compile_semantic [] bs code k t = Some (Inr (code, bs), t)"
| "compile_semantic (TxAllocate result # ops) bs code k t =
     (if map_of bs result \<noteq> None
      then Some (Inl (''duplicate allocation for symbol '' @ [CHR 0x27] @ result @ [CHR 0x27]), t)
      else
        let e = ws_next_entity (vm_workspace (tv_materializer t)) + k
        in if e \<ge> VM_LITERAL_BASE then Some (Inl ''entity allocator exhausted the VM atom namespace'', t)
           else compile_semantic ops (bt_insert result e bs) (code @ [allocate_discard]) (k + 1) t)"
| "compile_semantic (TxExpectWorld w # ops) bs code k t = compile_semantic ops bs code k t"
| "compile_semantic (TxExpectObject slot a # ops) bs code k t =
     (let (token, t) = trial_slot_token slot t
      in trial_bind (trial_atom_cell bs a t) (\<lambda>c t.
           compile_semantic ops bs (code @ [expect_object token c]) k t))"
| "compile_semantic (TxDefine slot a p b # ops) bs code k t =
     (let (token, t) = trial_slot_token slot t
      in trial_bind (trial_atom_cell bs a t) (\<lambda>s t.
           let (p, t) = trial_predicate_cell p t
           in trial_bind (trial_atom_cell bs b t) (\<lambda>ob t.
                compile_semantic ops bs (code @ [push_cell s, push_cell p, push_cell ob, define_slot token]) k t)))"
| "compile_semantic (TxForget slot # ops) bs code k t =
     (let (token, t) = trial_slot_token slot t in compile_semantic ops bs (code @ [forget_slot token]) k t)"
| "compile_semantic (TxReject # ops) bs code k t = compile_semantic ops bs (code @ [reject]) k t"

definition compile_semantic_trial ::
  "transaction_op list \<Rightarrow> trial_vocabulary \<Rightarrow> ((string + intent_program \<times> bindings) \<times> trial_vocabulary) option" where
  "compile_semantic_trial ops t =
     trial_bind (compile_semantic ops [] [] 0 t) (\<lambda>(code, bs) t. Some (Inr (\<lparr>local_count = 0, instructions = code\<rparr>, bs), t))"

section \<open>The operations of a semantic intent\<close>

fun semantic_temps :: "transaction_op list \<Rightarrow> u64 \<Rightarrow> bindings \<Rightarrow> bindings" where
  "semantic_temps [] n temps = temps"
| "semantic_temps (TxAllocate result # ops) n temps = semantic_temps ops (n + 1) (bt_insert result n temps)"
| "semantic_temps (p # ops) n temps = semantic_temps ops n temps"

text \<open>The lookups are unwrapped.\<close>

fun synthesize_atom :: "bindings \<Rightarrow> atom_ref \<Rightarrow> atom option" where
  "synthesize_atom temps (REntity e) = Some (AEntity e)"
| "synthesize_atom temps (RLiteral l) = Some (ALiteral l)"
| "synthesize_atom temps (RSymbol s) = map_option AEntity (map_of temps s)"

fun synthesize_operations :: "bindings \<Rightarrow> transaction_op list \<Rightarrow> operation list option" where
  "synthesize_operations temps [] = Some []"
| "synthesize_operations temps (TxAllocate result # ops) =
     Option.bind (map_of temps result) (\<lambda>e. map_option ((#) (AllocateEntity e)) (synthesize_operations temps ops))"
| "synthesize_operations temps (TxDefine slot a p b # ops) =
     Option.bind (synthesize_atom temps a) (\<lambda>s. Option.bind (synthesize_atom temps b) (\<lambda>ob.
       map_option ((#) (Define slot (fact_new s p ob))) (synthesize_operations temps ops)))"
| "synthesize_operations temps (TxForget slot # ops) = map_option ((#) (Forget slot)) (synthesize_operations temps ops)"
| "synthesize_operations temps (p # ops) = synthesize_operations temps ops"

section \<open>Mixed epochs\<close>

datatype controller_intent = CQueued queued_intent | CSemantic transaction_ast

datatype semantic_rejection =
    SWorldPrecondition world_id world_id
  | SSlotPrecondition slot_id "fact option" "fact option"
  | SCandidate candidate_error
  | SValidation string
  | SLowering string

record rejected_semantic =
  rs_position :: nat
  rs_error :: semantic_rejection

record 'k accepted_semantic =
  as_position :: nat
  as_world :: "'k world"
  as_frame :: commit_frame
  as_bindings :: bindings

datatype 'k mixed_epoch_outcome =
    QueuedAccepted "'k accepted_intent"
  | QueuedRejected rejected_intent
  | SemanticAccepted "'k accepted_semantic"
  | SemanticRejected rejected_semantic

record 'k mixed_plan =
  mp_base :: "'k world"
  mp_tail :: "'k world"
  mp_outcomes :: "'k mixed_epoch_outcome list"
  mp_frames :: "commit_frame list"

definition mixed_plan_new ::
  "'k world \<Rightarrow> 'k world \<Rightarrow> 'k mixed_epoch_outcome list \<Rightarrow> commit_frame list \<Rightarrow> 'k mixed_plan" where
  "mixed_plan_new base tail outs frames = \<lparr>mp_base = base, mp_tail = tail, mp_outcomes = outs, mp_frames = frames\<rparr>"

definition mixed_plan_is_empty :: "'k mixed_plan \<Rightarrow> bool" where
  "mixed_plan_is_empty p \<longleftrightarrow> mp_frames p = []"

datatype mixed_vm_outcome =
    VmQueuedAccepted nat entity_map
  | VmQueuedRejected rejected_intent
  | VmSemanticAccepted nat bindings
  | VmSemanticRejected rejected_semantic

record mixed_state =
  mx_id :: world_id
  mx_version :: u64
  mx_operations :: "operation list"
  mx_accepted :: nat
  mx_outcomes :: "mixed_vm_outcome list"

definition mixed_reject :: "nat \<Rightarrow> intent_rejection \<Rightarrow> mixed_state \<Rightarrow> mixed_state" where
  "mixed_reject pos e s =
     s\<lparr>mx_outcomes := mx_outcomes s @ [VmQueuedRejected \<lparr>ri_position = pos, ri_error = e\<rparr>]\<rparr>"

definition semantic_reject :: "nat \<Rightarrow> semantic_rejection \<Rightarrow> mixed_state \<Rightarrow> mixed_state" where
  "semantic_reject pos e s =
     s\<lparr>mx_outcomes := mx_outcomes s @ [VmSemanticRejected \<lparr>rs_position = pos, rs_error = e\<rparr>]\<rparr>"

definition mixed_accept :: "mixed_vm_outcome \<Rightarrow> operation list \<Rightarrow> u64 \<Rightarrow> mixed_state \<Rightarrow> mixed_state" where
  "mixed_accept out ops allocator s =
     (let version = saturating_add_u64 (mx_version s) 1
      in \<lparr>mx_id = calculate_world_id (mx_id s) version allocator ops, mx_version = version,
          mx_operations = mx_operations s @ ops, mx_accepted = mx_accepted s + 1,
          mx_outcomes = mx_outcomes s @ [out]\<rparr>)"

text \<open>Compiling and running the operations of a queued intent, the same in both paths.\<close>

definition run_queued ::
  "nat \<Rightarrow> operation list \<Rightarrow> entity_map \<Rightarrow> mixed_state \<times> vm_materializer \<Rightarrow> (mixed_state \<times> vm_materializer) option" where
  "run_queued pos ops entities st =
     (let (s, m) = st in
      case compile_operations ops m of
        (Inl e, m) \<Rightarrow> Some (mixed_reject pos (ValidationRejected e) s, m)
      | (Inr prog, m) \<Rightarrow>
          (case execute prog (vm_workspace m) of
             None \<Rightarrow> None
           | Some (Accepted, w) \<Rightarrow>
               Some (mixed_accept (VmQueuedAccepted pos entities) ops (ws_next_entity w) s, m\<lparr>vm_workspace := w\<rparr>)
           | Some (Rejected e, w) \<Rightarrow>
               Some (mixed_reject pos (ValidationRejected (exec_error_debug e)) s, m\<lparr>vm_workspace := w\<rparr>)))"

text \<open>
  The guard is what stands between the resolution and the compilation: the candidate and its
  validators, or nothing.
\<close>

definition mixed_queued ::
  "(operation list \<Rightarrow> mixed_state \<Rightarrow> vm_materializer \<Rightarrow> (intent_rejection + unit) option) \<Rightarrow> nat \<Rightarrow> queued_intent \<Rightarrow>
   mixed_state \<times> vm_materializer \<Rightarrow> (mixed_state \<times> vm_materializer) option" where
  "mixed_queued guard pos i st =
     (let (s, m) = st in
      case vm_check_preconditions m (mx_id s) (qi_preconditions i) of
        None \<Rightarrow> None
      | Some (Inl e) \<Rightarrow> Some (mixed_reject pos e s, m)
      | Some (Inr _) \<Rightarrow>
          (case resolve_operations_from (ws_next_entity (vm_workspace m)) (qi_namespace i) (qi_operations i) of
             None \<Rightarrow> None
           | Some (Inl e) \<Rightarrow> Some (mixed_reject pos e s, m)
           | Some (Inr (ops, entities)) \<Rightarrow>
               (case guard ops s m of
                  None \<Rightarrow> None
                | Some (Inl e) \<Rightarrow> Some (mixed_reject pos e s, m)
                | Some (Inr _) \<Rightarrow> run_queued pos ops entities (s, m))))"

text \<open>
  Validators see a candidate over the kernel of the published world, whatever the epoch has
  accepted so far.
\<close>

definition validated ::
  "'k kernel_ops \<Rightarrow> 'k world \<Rightarrow> 'k \<Rightarrow> 'k validator list \<Rightarrow> operation list \<Rightarrow> mixed_state \<Rightarrow> vm_materializer \<Rightarrow>
   (candidate_error + (string + unit)) option" where
  "validated K base k vs ops s m =
     map_option (res_map (run_validators vs))
       (construct_from_state K (mx_id s) (mx_version s) (ws_next_entity (vm_workspace m)) (w_operation_count base) k ops)"

definition queued_guard ::
  "'k kernel_ops \<Rightarrow> 'k world \<Rightarrow> 'k \<Rightarrow> 'k validator list \<Rightarrow> operation list \<Rightarrow> mixed_state \<Rightarrow> vm_materializer \<Rightarrow>
   (intent_rejection + unit) option" where
  "queued_guard K base k vs ops s m =
     (if vs = [] then Some (Inr ())
      else map_option (\<lambda>r. case r of Inl e \<Rightarrow> Inl (CandidateRejected e) | Inr r \<Rightarrow> res_map_err ValidationRejected r)
             (validated K base k vs ops s m))"

text \<open>
  A semantic intent: with validators its operations are synthesized and checked first; without,
  they are synthesized after its program was accepted.
\<close>

definition run_semantic ::
  "nat \<Rightarrow> transaction_ast \<Rightarrow> (u64 \<Rightarrow> workspace \<Rightarrow> operation list option) \<Rightarrow> mixed_state \<times> vm_materializer \<Rightarrow>
   (mixed_state \<times> vm_materializer) option" where
  "run_semantic pos ast synthesize st =
     (let (s, m) = st in
      case compile_semantic_trial (ta_operations ast) (trial_new m) of
        None \<Rightarrow> None
      | Some (Inl e, t) \<Rightarrow> Some (semantic_reject pos (SLowering e) s, tv_materializer t)
      | Some (Inr (prog, bs), t) \<Rightarrow>
          (let m = tv_materializer t; n = ws_next_entity (vm_workspace m) in
           case execute prog (vm_workspace m) of
             None \<Rightarrow> None
           | Some (Rejected e, w) \<Rightarrow>
               Some (semantic_reject pos (SValidation (exec_error_debug e)) s, m\<lparr>vm_workspace := w\<rparr>)
           | Some (Accepted, w) \<Rightarrow>
               map_option (\<lambda>ops. (mixed_accept (VmSemanticAccepted pos bs) ops (ws_next_entity w) s,
                   trial_commit (t\<lparr>tv_materializer := m\<lparr>vm_workspace := w\<rparr>\<rparr>)))
                 (synthesize n w)))"

text \<open>The debug assertion of the path with validators.\<close>

definition semantic_validated ::
  "'k kernel_ops \<Rightarrow> 'k world \<Rightarrow> 'k \<Rightarrow> 'k validator list \<Rightarrow> nat \<Rightarrow> transaction_ast \<Rightarrow> mixed_state \<times> vm_materializer \<Rightarrow>
   (mixed_state \<times> vm_materializer) option" where
  "semantic_validated K base k vs pos ast st =
     (let (s, m) = st;
          n = ws_next_entity (vm_workspace m);
          temps = semantic_temps (ta_operations ast) n []
      in case synthesize_operations temps (ta_operations ast) of
           None \<Rightarrow> None
         | Some ops \<Rightarrow>
             (case validated K base k vs ops s m of
                None \<Rightarrow> None
              | Some (Inl e) \<Rightarrow> Some (semantic_reject pos (SCandidate e) s, m)
              | Some (Inr (Inl e)) \<Rightarrow> Some (semantic_reject pos (SValidation e) s, m)
              | Some (Inr (Inr _)) \<Rightarrow>
                  run_semantic pos ast
                    (\<lambda>_ w. if ws_next_entity w = n + word_of_nat (length temps) then Some ops else None) (s, m)))"

definition semantic_fast ::
  "nat \<Rightarrow> transaction_ast \<Rightarrow> mixed_state \<times> vm_materializer \<Rightarrow> (mixed_state \<times> vm_materializer) option" where
  "semantic_fast pos ast st =
     run_semantic pos ast (\<lambda>n w. synthesize_operations (semantic_temps (ta_operations ast) n []) (ta_operations ast)) st"

definition mixed_intent ::
  "'k kernel_ops \<Rightarrow> 'k world \<Rightarrow> 'k \<Rightarrow> 'k validator list \<Rightarrow> nat \<Rightarrow> controller_intent \<Rightarrow> mixed_state \<times> vm_materializer \<Rightarrow>
   (mixed_state \<times> vm_materializer) option" where
  "mixed_intent K base k vs pos i st =
     (case i of
        CQueued q \<Rightarrow> mixed_queued (queued_guard K base k vs) pos q st
      | CSemantic ast \<Rightarrow> if vs = [] then semantic_fast pos ast st else semantic_validated K base k vs pos ast st)"

fun mixed_loop ::
  "'k kernel_ops \<Rightarrow> 'k world \<Rightarrow> 'k \<Rightarrow> 'k validator list \<Rightarrow> nat \<Rightarrow> controller_intent list \<Rightarrow> mixed_state \<times> vm_materializer \<Rightarrow>
   (mixed_state \<times> vm_materializer) option" where
  "mixed_loop K base k vs pos [] st = Some st"
| "mixed_loop K base k vs pos (i # is) st =
     Option.bind (mixed_intent K base k vs pos i st) (mixed_loop K base k vs (Suc pos) is)"

text \<open>With nothing accepted an accepted outcome is unreachable.\<close>

fun mixed_rejected :: "mixed_vm_outcome list \<Rightarrow> 'k mixed_epoch_outcome list option" where
  "mixed_rejected [] = Some []"
| "mixed_rejected (VmQueuedRejected r # outs) = map_option ((#) (QueuedRejected r)) (mixed_rejected outs)"
| "mixed_rejected (VmSemanticRejected r # outs) = map_option ((#) (SemanticRejected r)) (mixed_rejected outs)"
| "mixed_rejected (out # outs) = None"

fun mixed_publish :: "'k world \<Rightarrow> commit_frame \<Rightarrow> mixed_vm_outcome \<Rightarrow> 'k mixed_epoch_outcome" where
  "mixed_publish w f (VmQueuedAccepted pos entities) =
     QueuedAccepted \<lparr>ai_position = pos, ai_world = w, ai_frame = f, ai_entities = entities\<rparr>"
| "mixed_publish w f (VmQueuedRejected r) = QueuedRejected r"
| "mixed_publish w f (VmSemanticAccepted pos bs) =
     SemanticAccepted \<lparr>as_position = pos, as_world = w, as_frame = f, as_bindings = bs\<rparr>"
| "mixed_publish w f (VmSemanticRejected r) = SemanticRejected r"

definition materialize_mixed ::
  "'k kernel_ops \<Rightarrow> 'k world \<Rightarrow> controller_intent list \<Rightarrow> 'k validator list \<Rightarrow> vm_materializer \<Rightarrow>
   ('k mixed_plan \<times> vm_materializer) option" where
  "materialize_mixed K base is vs m =
     Option.bind (world_kernel K base) (\<lambda>k.
     Option.bind (mixed_loop K base k vs 0 is
         (\<lparr>mx_id = w_id base, mx_version = w_version base, mx_operations = [], mx_accepted = 0, mx_outcomes = []\<rparr>, m))
       (\<lambda>(s, m).
          if mx_accepted s = 0
          then map_option (\<lambda>outs. (mixed_plan_new base base outs [], m)) (mixed_rejected (mx_outcomes s))
          else let w = vm_workspace m;
                   (world, frame) = from_vm_epoch base (mx_operations s) (ws_next_entity w)
                     (vm_active_slot_count w) (vm_delta_count w)
               in Some (mixed_plan_new base world (map (mixed_publish world frame) (mx_outcomes s)) [frame], m)))"

text \<open>A materializer that cannot follow the current world is a panic.\<close>

definition commit_mixed_epoch ::
  "'k kernel_ops \<Rightarrow> controller_intent list \<Rightarrow> ('k, memory_commit_store) database \<times> vm_materializer \<Rightarrow>
   ('k mixed_plan \<times> ('k, memory_commit_store) database \<times> vm_materializer) option" where
  "commit_mixed_epoch K is st =
     (let (db, m) = st in
      case synchronize_to (db_current db) m of
        None \<Rightarrow> None
      | Some (Inl e, m) \<Rightarrow> None
      | Some (Inr _, m) \<Rightarrow>
          Option.bind (materialize_mixed K (db_current db) is (db_validators db) m) (\<lambda>(plan, m).
            let done = (\<lambda>db. (plan, db, m\<lparr>vm_version := w_version (mp_tail plan)\<rparr>))
            in if mixed_plan_is_empty plan then Some (done db)
               else map_option (\<lambda>s. done (db\<lparr>db_store := s, db_current := mp_tail plan\<rparr>))
                      (append_frames memory_store (mp_frames plan) (db_store db))))"

end
