(* ===== verification/Mixed_Vocabulary.thy ===== *)
theory Mixed_Vocabulary
  imports Mixed_Epochs
begin

text \<open>
  How a trial vocabulary relates to the vocabulary of the materializer: a semantic intent compiles
  to the program that the synthesized operations compile to, and its commit leaves the same
  materializer but for the order in which new predicates and literals are listed.
\<close>

section \<open>The relation\<close>

lemma bt_equal:
  fixes xs ys :: "('k::linorder \<times> 'v::linorder) list"
  assumes "bt_wf xs" "bt_wf ys" "map_of xs = map_of ys"
  shows "xs = ys"
proof -
  have "(k, v) \<in> set xs \<longleftrightarrow> (k, v) \<in> set ys" for k v
    using bt_wf_mem [OF assms(1)] bt_wf_mem [OF assms(2)] assms(3) by simp
  then have "set xs = set ys"
    by (intro set_eqI) (metis surj_pair)
  then show ?thesis
    using bt_wf_canonical [OF assms(1)] bt_wf_canonical [OF assms(2)] by metis
qed

definition joined :: "('k::linorder \<times> 'v) list \<Rightarrow> ('k \<times> 'v) list \<Rightarrow> ('k \<times> 'v) list \<Rightarrow> bool" where
  "joined base fresh whole \<longleftrightarrow> bt_wf base \<and> bt_wf fresh \<and> bt_wf whole \<and> map_of whole = map_of base ++ map_of fresh \<and>
     length whole = length base + length fresh"

lemma joined_start: "bt_wf base \<Longrightarrow> joined base [] base"
  by (simp add: joined_def)

lemma joined_lookup:
  "joined base fresh whole \<Longrightarrow> map_of whole k = (case map_of fresh k of Some v \<Rightarrow> Some v | None \<Rightarrow> map_of base k)"
  by (simp add: joined_def map_add_def)

lemma joined_insert:
  "joined base fresh whole \<Longrightarrow> map_of fresh k = None \<Longrightarrow> map_of base k = None \<Longrightarrow>
   joined base (bt_insert k v fresh) (bt_insert k v whole)"
  by (auto simp: joined_def length_bt_insert_new fun_eq_iff map_add_def)

lemma joined_fold:
  fixes fresh :: "('k::linorder \<times> 'v::linorder) list"
  assumes "joined base fresh whole"
  shows "fold (\<lambda>(k, v). bt_insert k v) fresh base = whole"
proof -
  have fold: "bt_wf (fold (\<lambda>(k, v). bt_insert k v) xs ys) \<and>
      map_of (fold (\<lambda>(k, v). bt_insert k v) xs ys) = map_of ys ++ map_of xs"
    if "distinct (map fst xs)" "bt_wf ys" for xs ys :: "('k \<times> 'v) list"
    using that
  proof (induction xs arbitrary: ys)
    case (Cons x xs)
    obtain k v where x: "x = (k, v)"
      by fastforce
    have "map_of xs k = None"
      using Cons.prems(1) x by (simp add: map_of_eq_None_iff)
    then show ?case
      using Cons.IH [of "bt_insert k v ys"] Cons.prems x by (auto simp: fun_eq_iff map_add_def split: option.splits)
  qed simp
  show ?thesis
    using fold [OF bt_wf_distinct] assms by (intro bt_equal) (auto simp: joined_def)
qed

text \<open>The values that a dictionary gained, and the names that a trial has new.\<close>

definition gained :: "string list \<Rightarrow> (string \<times> cell) list \<Rightarrow> string list \<Rightarrow> bool" where
  "gained base fresh whole \<longleftrightarrow> (\<exists>news. whole = base @ news \<and> distinct news \<and> set news = fst ` set fresh)"

lemma gained_start: "gained base [] base"
  by (simp add: gained_def)

lemma gained_insert:
  "gained base fresh whole \<Longrightarrow> map_of fresh k = None \<Longrightarrow> gained base (bt_insert k v fresh) (whole @ [k])"
  unfolding gained_def by (auto simp: fst_set_bt_insert map_of_eq_None_iff)

lemma gained_length: "gained base fresh whole \<Longrightarrow> bt_wf fresh \<Longrightarrow> length whole = length base + length fresh"
  unfolding gained_def by (metis bt_wf_distinct distinct_card length_append length_map list.set_map)

lemma gained_sorted:
  assumes "gained base fresh whole" "bt_wf fresh"
  shows "map fst fresh = sort (drop (length base) whole)"
proof -
  obtain news where news: "whole = base @ news" "distinct news" "set news = fst ` set fresh"
    using assms(1) by (auto simp: gained_def)
  have "sorted (map fst fresh)" "distinct (map fst fresh)"
    using assms(2) by (simp_all add: bt_wf_def strict_sorted_iff)
  then show ?thesis
    using news by (auto intro!: sorted_distinct_set_unique)
qed

definition trial_rel :: "trial_vocabulary \<Rightarrow> vm_materializer \<Rightarrow> bool" where
  "trial_rel t m \<longleftrightarrow>
     vm_workspace m = vm_workspace (tv_materializer t) \<and> vm_version m = vm_version (tv_materializer t) \<and>
     mapped_base m = mapped_base (tv_materializer t) \<and>
     joined (vm_slots (tv_materializer t)) (tv_slots t) (vm_slots m) \<and>
     joined (vm_predicates (tv_materializer t)) (tv_predicates t) (vm_predicates m) \<and>
     joined (vm_literals (tv_materializer t)) (tv_literals t) (vm_literals m) \<and>
     gained (predicate_values (tv_materializer t)) (tv_predicates t) (predicate_values m) \<and>
     gained (literal_values (tv_materializer t)) (tv_literals t) (literal_values m)"

lemma trial_rel_new:
  "bt_wf (vm_slots m) \<Longrightarrow> bt_wf (vm_predicates m) \<Longrightarrow> bt_wf (vm_literals m) \<Longrightarrow> trial_rel (trial_new m) m"
  by (simp add: trial_rel_def trial_new_def joined_start gained_start)

lemma fold_slots:
  "fold (\<lambda>(k, v) m. m\<lparr>vm_slots := bt_insert k v (vm_slots m)\<rparr>) xs m =
     m\<lparr>vm_slots := fold (\<lambda>(k, v). bt_insert k v) xs (vm_slots m)\<rparr>"
  by (induction xs arbitrary: m) auto

lemma fold_predicates:
  "fold (\<lambda>(k, v) m. m\<lparr>vm_predicates := bt_insert k v (vm_predicates m), predicate_values := predicate_values m @ [k]\<rparr>) xs m =
     m\<lparr>vm_predicates := fold (\<lambda>(k, v). bt_insert k v) xs (vm_predicates m),
       predicate_values := predicate_values m @ map fst xs\<rparr>"
  by (induction xs arbitrary: m) auto

lemma fold_literals:
  "fold (\<lambda>(k, v) m. m\<lparr>vm_literals := bt_insert k v (vm_literals m), literal_values := literal_values m @ [k]\<rparr>) xs m =
     m\<lparr>vm_literals := fold (\<lambda>(k, v). bt_insert k v) xs (vm_literals m),
       literal_values := literal_values m @ map fst xs\<rparr>"
  by (induction xs arbitrary: m) auto

definition regrouped :: "'a::linorder list \<Rightarrow> 'a list \<Rightarrow> 'a list" where
  "regrouped old new = old @ sort (drop (length old) new)"

lemma trial_commit_rel:
  assumes "trial_rel t m"
  shows "trial_commit t =
    m\<lparr>predicate_values := regrouped (predicate_values (tv_materializer t)) (predicate_values m),
      literal_values := regrouped (literal_values (tv_materializer t)) (literal_values m)\<rparr>"
proof -
  have wf: "bt_wf (tv_predicates t)" "bt_wf (tv_literals t)"
    using assms by (simp_all add: trial_rel_def joined_def)
  have "trial_commit t = (tv_materializer t)
      \<lparr>vm_slots := vm_slots m, vm_predicates := vm_predicates m, vm_literals := vm_literals m,
       predicate_values := predicate_values (tv_materializer t) @ map fst (tv_predicates t),
       literal_values := literal_values (tv_materializer t) @ map fst (tv_literals t)\<rparr>"
    using assms by (simp add: trial_commit_def fold_slots fold_predicates fold_literals trial_rel_def joined_fold Let_def)
  moreover have "map fst (tv_predicates t) = sort (drop (length (predicate_values (tv_materializer t))) (predicate_values m))"
    "map fst (tv_literals t) = sort (drop (length (literal_values (tv_materializer t))) (literal_values m))"
    using assms wf by (simp_all add: trial_rel_def gained_sorted)
  ultimately show ?thesis
    using assms by (simp add: trial_rel_def regrouped_def)
qed

section \<open>Cells agree\<close>

lemma trial_slot_token_rel:
  assumes "trial_rel t m" "trial_slot_token slot t = (token, t')"
  shows "\<exists>m'. vm_slot_token slot m = (token, m') \<and> trial_rel t' m' \<and>
    ws_next_entity (vm_workspace m') = ws_next_entity (vm_workspace m)"
proof -
  have slots: "joined (vm_slots (tv_materializer t)) (tv_slots t) (vm_slots m)"
    using assms(1) by (simp add: trial_rel_def)
  note look = joined_lookup [OF slots, of slot]
  show ?thesis
  proof (cases "map_of (vm_slots m) slot = None \<and> Option.bind (mapped_base m) (\<lambda>b. mv_slot_token b slot) = None")
    case True
    have none: "map_of (tv_slots t) slot = None" "map_of (vm_slots (tv_materializer t)) slot = None"
      using True look by (auto split: option.splits)
    have len: "length (vm_slots m) = length (vm_slots (tv_materializer t)) + length (tv_slots t)"
      using slots by (simp add: joined_def)
    show ?thesis
      using assms True none
      by (auto simp: trial_slot_token_def vm_slot_token_def trial_rel_def len length_bt_insert_new mapped_count_def Let_def add.assoc
          ensure_slot_count_state intro: joined_insert)
  next
    case False
    then show ?thesis
      using assms look
      by (auto simp: trial_slot_token_def vm_slot_token_def trial_rel_def Let_def split: option.splits)
  qed
qed

lemma trial_predicate_cell_rel:
  assumes "trial_rel t m" "trial_predicate_cell p t = (c, t')"
  shows "\<exists>m'. vm_predicate_cell p m = (c, m') \<and> trial_rel t' m' \<and>
    ws_next_entity (vm_workspace m') = ws_next_entity (vm_workspace m)"
proof -
  have preds: "joined (vm_predicates (tv_materializer t)) (tv_predicates t) (vm_predicates m)"
    using assms(1) by (simp add: trial_rel_def)
  note look = joined_lookup [OF preds, of p]
  show ?thesis
  proof (cases "map_of (vm_predicates m) p = None \<and> Option.bind (mapped_base m) (\<lambda>b. mv_predicate_token b p) = None")
    case True
    have none: "map_of (tv_predicates t) p = None" "map_of (vm_predicates (tv_materializer t)) p = None"
      using True look by (auto split: option.splits)
    have len: "length (vm_predicates m) = length (vm_predicates (tv_materializer t)) + length (tv_predicates t)"
      using preds by (simp add: joined_def)
    show ?thesis
      using assms True none
      by (auto simp: trial_predicate_cell_def vm_predicate_cell_def trial_rel_def len mapped_count_def Let_def add.assoc
          intro: joined_insert gained_insert)
  next
    case False
    then show ?thesis
      using assms look
      by (auto simp: trial_predicate_cell_def vm_predicate_cell_def trial_rel_def Let_def split: option.splits)
  qed
qed

lemma trial_literal_cell_rel:
  assumes "trial_rel t m" "trial_literal_cell l t = Some (c, t')"
  shows "\<exists>m'. vm_atom_cell (ALiteral l) m = (Inr c, m') \<and> trial_rel t' m' \<and>
    ws_next_entity (vm_workspace m') = ws_next_entity (vm_workspace m)"
proof -
  have lits: "joined (vm_literals (tv_materializer t)) (tv_literals t) (vm_literals m)"
    "gained (literal_values (tv_materializer t)) (tv_literals t) (literal_values m)"
    using assms(1) by (simp_all add: trial_rel_def)
  note look = joined_lookup [OF lits(1), of l]
  show ?thesis
  proof (cases "map_of (vm_literals m) l = None \<and> Option.bind (mapped_base m) (\<lambda>b. mv_literal_token b l) = None")
    case True
    have none: "map_of (tv_literals t) l = None" "map_of (vm_literals (tv_materializer t)) l = None"
      using True look by (auto split: option.splits)
    have len: "length (literal_values m) = length (literal_values (tv_materializer t)) + length (tv_literals t)"
      using gained_length [OF lits(2)] lits(1) by (simp add: joined_def)
    show ?thesis
      using assms True none
      by (auto simp: trial_literal_cell_def trial_rel_def len mapped_count_def Let_def add.assoc
          intro: joined_insert gained_insert)
  next
    case False
    then show ?thesis
      using assms look
      by (auto simp: trial_literal_cell_def trial_rel_def Let_def split: option.splits)
  qed
qed

section \<open>Programs agree\<close>

lemma trial_bind_Inr:
  "trial_bind r f = Some (Inr y, t') \<longleftrightarrow> (\<exists>x t. r = Some (Inr x, t) \<and> f x t = Some (Inr y, t'))"
  by (cases "(r, f)" rule: trial_bind.cases) auto

abbreviation trial_next :: "trial_vocabulary \<Rightarrow> u64" where
  "trial_next t \<equiv> ws_next_entity (vm_workspace (tv_materializer t))"

text \<open>What compilation leaves alone.\<close>

definition trial_fixed :: "trial_vocabulary \<Rightarrow> u64 \<times> string list \<times> string list" where
  "trial_fixed t = (trial_next t, predicate_values (tv_materializer t), literal_values (tv_materializer t))"

lemma trial_cells_next:
  "trial_slot_token slot t = (token, t') \<Longrightarrow> trial_fixed t' = trial_fixed t"
  "trial_predicate_cell p t = (c, t') \<Longrightarrow> trial_fixed t' = trial_fixed t"
  "trial_atom_cell bs a t = Some (r, t') \<Longrightarrow> trial_fixed t' = trial_fixed t"
  by (auto simp: trial_fixed_def trial_slot_token_def trial_predicate_cell_def trial_atom_cell_def trial_literal_cell_def Let_def
      ensure_slot_count_state split: option.splits atom_ref.splits if_splits)

text \<open>The bindings are those that the synthesized operations use.\<close>

lemma compile_semantic_bindings:
  "compile_semantic ops bs code k t = Some (Inr (code', bs'), t') \<Longrightarrow>
   bs' = semantic_temps ops (fst (trial_fixed t) + k) bs \<and> map_of bs \<subseteq>\<^sub>m map_of bs' \<and> trial_fixed t' = trial_fixed t"
proof (induction ops arbitrary: bs code k t)
  case (Cons p ops)
  show ?case
  proof (cases p)
    case (TxAllocate result)
    let ?bs = "bt_insert result (trial_next t + k) bs"
    have new: "map_of bs result = None"
      and rest: "compile_semantic ops ?bs (code @ [allocate_discard]) (k + 1) t = Some (Inr (code', bs'), t')"
      using Cons.prems by (simp_all add: TxAllocate Let_def split: if_splits)
    have le: "map_of bs \<subseteq>\<^sub>m map_of ?bs"
      using new by (auto simp: map_le_def)
    have "bs' = semantic_temps ops (trial_next t + (k + 1)) ?bs"
      using Cons.IH [OF rest] by (simp add: trial_fixed_def add.assoc)
    moreover have "map_of bs \<subseteq>\<^sub>m map_of bs'" "trial_fixed t' = trial_fixed t"
      using Cons.IH [OF rest] map_le_trans [OF le] by blast+
    ultimately show ?thesis
      by (simp add: TxAllocate trial_fixed_def add.assoc)
  next
    case (TxExpectWorld w)
    then show ?thesis
      using Cons by simp
  next
    case (TxExpectObject slot a)
    obtain token t1 where t1: "trial_slot_token slot t = (token, t1)" by fastforce
    then obtain c t2 where "trial_atom_cell bs a t1 = Some (Inr c, t2)"
      "compile_semantic ops bs (code @ [expect_object token c]) k t2 = Some (Inr (code', bs'), t')"
      using Cons.prems by (auto simp: TxExpectObject trial_bind_Inr)
    then show ?thesis
      using Cons.IH [of bs _ k t2] trial_cells_next(1) [OF t1] trial_cells_next(3) [of bs a t1] by (simp add: TxExpectObject)
  next
    case (TxDefine slot a q b)
    obtain token t1 where t1: "trial_slot_token slot t = (token, t1)" by fastforce
    then obtain c t2 where t2: "trial_atom_cell bs a t1 = Some (Inr c, t2)"
      using Cons.prems by (auto simp: TxDefine trial_bind_Inr)
    obtain d t3 where t3: "trial_predicate_cell q t2 = (d, t3)" by fastforce
    then obtain ob t4 where t4: "trial_atom_cell bs b t3 = Some (Inr ob, t4)"
      "compile_semantic ops bs (code @ [push_cell c, push_cell d, push_cell ob, define_slot token]) k t4 =
        Some (Inr (code', bs'), t')"
      using Cons.prems t1 t2 by (auto simp: TxDefine trial_bind_Inr)
    then show ?thesis
      using Cons.IH [OF t4(2)] trial_cells_next(1) [OF t1] trial_cells_next(3) [OF t2] trial_cells_next(2) [OF t3]
        trial_cells_next(3) [OF t4(1)] by (auto simp: TxDefine)
  next
    case (TxForget slot)
    obtain token t1 where t1: "trial_slot_token slot t = (token, t1)" by fastforce
    then show ?thesis
      using Cons.IH [of bs _ k t1] Cons.prems trial_cells_next(1) [OF t1] by (simp add: TxForget)
  next
    case TxReject
    then show ?thesis
      using Cons by simp
  qed
qed simp

text \<open>Intents whose operations are all there is to them, with entities below the literal cells.\<close>

fun ref_fits :: "atom_ref \<Rightarrow> bool" where
  "ref_fits (REntity e) \<longleftrightarrow> e < VM_LITERAL_BASE"
| "ref_fits a \<longleftrightarrow> True"

fun plain_op :: "transaction_op \<Rightarrow> bool" where
  "plain_op (TxExpectObject slot a) \<longleftrightarrow> False"
| "plain_op (TxDefine slot a p b) \<longleftrightarrow> ref_fits a \<and> ref_fits b"
| "plain_op TxReject \<longleftrightarrow> False"
| "plain_op p \<longleftrightarrow> True"

lemma trial_atom_cell_rel:
  assumes "trial_rel t m" "trial_atom_cell bs a t = Some (Inr c, t')" "ref_fits a" "map_of bs \<subseteq>\<^sub>m map_of temps"
    and "\<forall>s e. map_of bs s = Some e \<longrightarrow> e < VM_LITERAL_BASE"
  shows "\<exists>x m'. synthesize_atom temps a = Some x \<and> vm_atom_cell x m = (Inr c, m') \<and> trial_rel t' m'"
proof (cases a)
  case (RLiteral l)
  then show ?thesis
    using assms trial_literal_cell_rel [OF assms(1), of l c t'] by (auto simp: trial_atom_cell_def)
next
  case (RSymbol s)
  then obtain e where "map_of bs s = Some e" "c = e" "t' = t"
    using assms(2) by (auto simp: trial_atom_cell_def split: option.splits)
  moreover have "map_of temps s = Some e"
    using assms(4) \<open>map_of bs s = Some e\<close> by (metis domI map_le_def)
  ultimately show ?thesis
    using assms(1,5) RSymbol by auto
qed (use assms in \<open>auto simp: trial_atom_cell_def\<close>)

lemma compile_semantic_rel:
  "compile_semantic ops bs code k t = Some (Inr (code', bs'), t') \<Longrightarrow> list_all plain_op ops \<Longrightarrow> trial_rel t m \<Longrightarrow>
   map_of bs' \<subseteq>\<^sub>m map_of temps \<Longrightarrow> \<forall>s e. map_of bs s = Some e \<longrightarrow> e < VM_LITERAL_BASE \<Longrightarrow>
   \<exists>sops m'. synthesize_operations temps ops = Some sops \<and> compile_loop sops code m = (Inr code', m') \<and> trial_rel t' m'"
proof (induction ops arbitrary: bs code k t m)
  case (Cons p ops)
  have bs: "map_of bs \<subseteq>\<^sub>m map_of temps"
    using compile_semantic_bindings [OF Cons.prems(1)] Cons.prems(4) by (auto intro: map_le_trans)
  show ?case
  proof (cases p)
    case (TxAllocate result)
    let ?e = "trial_next t + k"
    have new: "map_of bs result = None" and e: "?e < VM_LITERAL_BASE"
      and rest: "compile_semantic ops (bt_insert result ?e bs) (code @ [allocate_discard]) (k + 1) t = Some (Inr (code', bs'), t')"
      using Cons.prems(1) by (simp_all add: TxAllocate Let_def not_le split: if_splits)
    have "map_of (bt_insert result ?e bs) \<subseteq>\<^sub>m map_of temps"
      using compile_semantic_bindings [OF rest] Cons.prems(4) by (auto intro: map_le_trans)
    then have "map_of temps result = Some ?e"
      by (auto simp: map_le_def dom_def)
    moreover have "\<forall>s e. map_of (bt_insert result ?e bs) s = Some e \<longrightarrow> e < VM_LITERAL_BASE"
      using Cons.prems(5) e by simp
    moreover have "list_all plain_op ops"
      using Cons.prems(2) by simp
    ultimately show ?thesis
      using Cons.IH [OF rest _ Cons.prems(3,4)] e by (auto simp: TxAllocate)
  next
    case (TxExpectWorld w)
    then show ?thesis
      using Cons.IH [of bs code k t m] Cons.prems by simp
  next
    case (TxDefine slot a q b)
    obtain token t1 where t1: "trial_slot_token slot t = (token, t1)" by fastforce
    then obtain c t2 where t2: "trial_atom_cell bs a t1 = Some (Inr c, t2)"
      using Cons.prems(1) by (auto simp: TxDefine trial_bind_Inr)
    obtain d t3 where t3: "trial_predicate_cell q t2 = (d, t3)" by fastforce
    then obtain ob t4 where t4: "trial_atom_cell bs b t3 = Some (Inr ob, t4)"
      "compile_semantic ops bs (code @ [push_cell c, push_cell d, push_cell ob, define_slot token]) k t4 =
        Some (Inr (code', bs'), t')"
      using Cons.prems(1) t1 t2 by (auto simp: TxDefine trial_bind_Inr)
    have fits: "ref_fits a" "ref_fits b" "list_all plain_op ops"
      using Cons.prems(2) by (simp_all add: TxDefine)
    obtain m1 where m1: "vm_slot_token slot m = (token, m1)" "trial_rel t1 m1"
      using trial_slot_token_rel [OF Cons.prems(3) t1] by blast
    obtain x m2 where m2: "synthesize_atom temps a = Some x" "vm_atom_cell x m1 = (Inr c, m2)" "trial_rel t2 m2"
      using trial_atom_cell_rel [OF m1(2) t2 fits(1) bs Cons.prems(5)] by blast
    obtain m3 where m3: "vm_predicate_cell q m2 = (d, m3)" "trial_rel t3 m3"
      using trial_predicate_cell_rel [OF m2(3) t3] by blast
    obtain y m4 where m4: "synthesize_atom temps b = Some y" "vm_atom_cell y m3 = (Inr ob, m4)" "trial_rel t4 m4"
      using trial_atom_cell_rel [OF m3(2) t4(1) fits(2) bs Cons.prems(5)] by blast
    show ?thesis
      using Cons.IH [OF t4(2) fits(3) m4(3) Cons.prems(4,5)] m1(1) m2(1,2) m3(1) m4(1,2)
      by (auto simp: TxDefine fact_new_def)
  next
    case (TxForget slot)
    obtain token t1 where t1: "trial_slot_token slot t = (token, t1)" by fastforce
    obtain m1 where m1: "vm_slot_token slot m = (token, m1)" "trial_rel t1 m1"
      using trial_slot_token_rel [OF Cons.prems(3) t1] by blast
    show ?thesis
      using Cons.IH [of bs "code @ [forget_slot token]" k t1 m1] Cons.prems t1 m1 by (auto simp: TxForget)
  qed (use Cons.prems(2) in auto)
qed simp

lemma semantic_trial_compiles:
  assumes "bt_wf (vm_slots m)" "bt_wf (vm_predicates m)" "bt_wf (vm_literals m)" "list_all plain_op ops"
    and "compile_semantic_trial ops (trial_new m) = Some (Inr (prog, bs), t)"
  shows "bs = semantic_temps ops (ws_next_entity (vm_workspace m)) [] \<and>
    (\<exists>sops m'. synthesize_operations bs ops = Some sops \<and> compile_operations sops m = (Inr prog, m') \<and>
      trial_commit t =
        m'\<lparr>predicate_values := regrouped (predicate_values m) (predicate_values m'),
           literal_values := regrouped (literal_values m) (literal_values m')\<rparr>)"
proof -
  obtain code where code: "compile_semantic ops [] [] 0 (trial_new m) = Some (Inr (code, bs), t)"
    "prog = \<lparr>local_count = 0, instructions = code\<rparr>"
    using assms(5) by (auto simp: compile_semantic_trial_def trial_bind_Inr)
  note bindings = compile_semantic_bindings [OF code(1)]
  obtain sops m' where m': "synthesize_operations bs ops = Some sops" "compile_loop sops [] m = (Inr code, m')" "trial_rel t m'"
    using compile_semantic_rel [OF code(1) assms(4) trial_rel_new [OF assms(1-3)], of bs] by auto
  have "predicate_values (tv_materializer t) = predicate_values m" "literal_values (tv_materializer t) = literal_values m"
    using bindings by (simp_all add: trial_fixed_def trial_new_def)
  then show ?thesis
    using bindings m' trial_commit_rel [OF m'(3)] code(2)
    by (auto simp: compile_operations_def trial_fixed_def trial_new_def)
qed

end
