(* ===== verification/Mixed_Properties.thy ===== *)
theory Mixed_Properties
  imports Mixed_Vocabulary
begin

text \<open>
  What mixed epochs do: without validators an epoch of queued intents is the epoch of the token
  machine, and a semantic intent compiles to the program of its operations.  The other theorems
  show where mixed epochs differ from the epochs of queued intents.
\<close>

section \<open>Queued intents\<close>

fun mixed_outcome_of :: "workspace_outcome \<Rightarrow> mixed_vm_outcome" where
  "mixed_outcome_of (WorkspaceAccepted pos entities) = VmQueuedAccepted pos entities"
| "mixed_outcome_of (WorkspaceRejected r) = VmQueuedRejected r"

definition mixed_state_of :: "vm_epoch_state \<Rightarrow> mixed_state" where
  "mixed_state_of s =
     \<lparr>mx_id = ve_id s, mx_version = ve_version s, mx_operations = ve_operations s, mx_accepted = ve_accepted s,
      mx_outcomes = map mixed_outcome_of (ve_outcomes s)\<rparr>"

fun mixed_epoch_outcome_of :: "'k epoch_outcome \<Rightarrow> 'k mixed_epoch_outcome" where
  "mixed_epoch_outcome_of (EpochAccepted a) = QueuedAccepted a"
| "mixed_epoch_outcome_of (EpochRejected r) = QueuedRejected r"

definition mixed_plan_of :: "'k epoch_plan \<Rightarrow> 'k mixed_plan" where
  "mixed_plan_of p = mixed_plan_new (ep_base p) (ep_tail p) (map mixed_epoch_outcome_of (ep_outcomes p)) (ep_frames p)"

lemma mixed_intent_queued:
  assumes "vm_epoch_intent pos i (s, m) = Some (Inr s', m')"
  shows "mixed_intent K base k [] pos (CQueued i) (mixed_state_of s, m) = Some (mixed_state_of s', m')"
  using assms
  by (auto simp: vm_epoch_intent_def mixed_intent_def mixed_queued_def queued_guard_def run_queued_def mixed_state_of_def
      ve_reject_def mixed_reject_def ve_accept_def mixed_accept_def Let_def
      split: option.splits sum.splits prod.splits execution_outcome.splits)

lemma mixed_loop_queued:
  "vm_epoch_loop pos is (s, m) = Some (Inr s', m') \<Longrightarrow>
   mixed_loop K base k [] pos (map CQueued is) (mixed_state_of s, m) = Some (mixed_state_of s', m')"
proof (induction "is" arbitrary: pos s m)
  case (Cons i "is")
  then obtain s1 m1 where one: "vm_epoch_intent pos i (s, m) = Some (Inr s1, m1)"
    and rest: "vm_epoch_loop (Suc pos) is (s1, m1) = Some (Inr s', m')"
    by (auto split: option.splits sum.splits)
  show ?case
    using mixed_intent_queued [OF one, of K base k] Cons.IH [OF rest] by simp
qed simp

lemma mixed_rejected_of:
  "rejected_only outs = Some eouts \<Longrightarrow>
   mixed_rejected (map mixed_outcome_of outs) = Some (map mixed_epoch_outcome_of eouts)"
  by (induction outs arbitrary: eouts rule: rejected_only.induct) auto

lemma mixed_publish_of: "mixed_publish w f (mixed_outcome_of out) = mixed_epoch_outcome_of (publish_outcome w f out)"
  by (cases out) auto

lemma mixed_start:
  "\<lparr>mx_id = i, mx_version = v, mx_operations = [], mx_accepted = 0, mx_outcomes = []\<rparr> =
   mixed_state_of \<lparr>ve_id = i, ve_version = v, ve_operations = [], ve_accepted = 0, ve_outcomes = []\<rparr>"
  by (simp add: mixed_state_of_def)

text \<open>
  C35. Queued intents in a mixed epoch, with no validators registered, do what they do in an epoch of
  the token machine: whenever \<open>derive_vm_epoch\<close> derives a plan, \<open>materialize_mixed\<close> on a world whose
  kernel can be had derives the same frame, the same published world, the same outcomes with their
  entities and rejections, and leaves the same materializer.
\<close>

theorem mixed_queued_epoch_is_vm_epoch:
  assumes "derive_vm_epoch base is m = Some (Inr plan, m')" and "world_kernel K base = Some k"
  shows "materialize_mixed K base (map CQueued is) [] m = Some (mixed_plan_of plan, m')"
proof -
  let ?s0 = "\<lparr>ve_id = w_id base, ve_version = w_version base, ve_operations = [], ve_accepted = 0, ve_outcomes = []\<rparr>"
  obtain s where loop: "vm_epoch_loop 0 is (?s0, m) = Some (Inr s, m')"
    and plan: "if ve_accepted s = 0
      then \<exists>outs. rejected_only (ve_outcomes s) = Some outs \<and> plan = \<lparr>ep_base = base, ep_tail = base, ep_outcomes = outs, ep_frames = []\<rparr>
      else \<exists>world f. from_vm_epoch base (ve_operations s) (ws_next_entity (vm_workspace m'))
          (vm_active_slot_count (vm_workspace m')) (vm_delta_count (vm_workspace m')) = (world, f) \<and>
        plan = \<lparr>ep_base = base, ep_tail = world, ep_outcomes = map (publish_outcome world f) (ve_outcomes s), ep_frames = [f]\<rparr>"
    using assms(1)
    by (auto simp: derive_vm_epoch_def Let_def split: if_splits option.splits sum.splits prod.splits)
  have "mixed_loop K base k [] 0 (map CQueued is)
      (\<lparr>mx_id = w_id base, mx_version = w_version base, mx_operations = [], mx_accepted = 0, mx_outcomes = []\<rparr>, m) =
    Some (mixed_state_of s, m')"
    unfolding mixed_start by (rule mixed_loop_queued [OF loop])
  moreover have "mx_accepted (mixed_state_of s) = ve_accepted s" "mx_operations (mixed_state_of s) = ve_operations s"
    "mx_outcomes (mixed_state_of s) = map mixed_outcome_of (ve_outcomes s)"
    by (simp_all add: mixed_state_of_def)
  ultimately show ?thesis
    using plan assms(2)
    by (auto simp: materialize_mixed_def mixed_plan_of_def mixed_rejected_of mixed_publish_of o_def split: if_splits)
qed

theorem mixed_queued_epoch_is_vm_epoch_witness:
  "\<exists>plan m'. derive_vm_epoch (genesis reference_kernel) [sample_intent, sample_intent] (materializer_new 1) = Some (Inr plan, m') \<and>
    materialize_mixed reference_kernel (genesis reference_kernel) [CQueued sample_intent, CQueued sample_intent] [] (materializer_new 1) =
      Some (mixed_plan_of plan, m')"
proof -
  let ?base = "genesis reference_kernel" and ?is = "[sample_intent, sample_intent]"
  have world: "vm_world reference_kernel [] ?base"
    by (rule vm_reconstruct) (simp_all add: sample_reconstruct numbered_def)
  have empty: "frames_spec [] = spec_new" by (simp add: frames_spec_def frames_commands_def spec_run_def)
  obtain db where kernel: "world_kernel reference_kernel ?base = Some db" "wf_db db" and db: "abs_db db = spec_new"
    using reference.world_kernel_ok [OF reference.vm_world_view_ok [OF world]] by (auto simp: reference.holds_def empty)
  have room: "mat_ok ((\<Sum>i\<leftarrow>?is. operation_count i) + 10) (abs_db db) (materializer_new 1)"
    unfolding db by (rule mat_ok_new) (simp add: sample_intent_def operation_count_def Let_def)
  have fits: "list_all intent_fits ?is"
    by (simp add: sample_intent_def intent_fits_def Let_def intent_fact_new_def)
  have alloc: "unat (w_next_entity ?base) + (\<Sum>i\<leftarrow>?is. allocations i) \<le> 2 ^ 63"
    by (simp add: genesis_def sample_allocations)
  have "\<exists>vplan m'. derive_vm_epoch ?base ?is (materializer_new 1) = Some (Inr vplan, m')"
    using reference.vm_epoch_agrees [OF _ kernel _ room _ fits alloc, of ?base]
    by (auto simp: same_tip_def genesis_def spec_new_def db)
  then obtain vplan m' where "derive_vm_epoch ?base ?is (materializer_new 1) = Some (Inr vplan, m')" by blast
  from this mixed_queued_epoch_is_vm_epoch [OF this kernel(1)] show ?thesis by auto
qed

text \<open>An undefined symbol is an error of the lowering, but with validators a panic.\<close>

theorem undefined_symbol_panics_with_validators:
  assumes "world_kernel K base = Some k" and "vs \<noteq> []"
  shows "materialize_mixed K base [CSemantic \<lparr>ta_namespace = ns, ta_operations = [TxDefine slot (RSymbol x) p ob]\<rparr>] vs m = None"
    and "\<exists>plan m'. materialize_mixed K base [CSemantic \<lparr>ta_namespace = ns, ta_operations = [TxDefine slot (RSymbol x) p ob]\<rparr>] [] m =
      Some (plan, m') \<and> mp_outcomes plan = [SemanticRejected \<lparr>rs_position = 0, rs_error = SLowering (undefined_symbol x)\<rparr>]"
proof -
  obtain token t where token: "trial_slot_token slot (trial_new m) = (token, t)"
    by fastforce
  show "materialize_mixed K base [CSemantic \<lparr>ta_namespace = ns, ta_operations = [TxDefine slot (RSymbol x) p ob]\<rparr>] vs m = None"
    using assms by (simp add: materialize_mixed_def mixed_intent_def semantic_validated_def Let_def)
  show "\<exists>plan m'. materialize_mixed K base [CSemantic \<lparr>ta_namespace = ns, ta_operations = [TxDefine slot (RSymbol x) p ob]\<rparr>] [] m =
      Some (plan, m') \<and> mp_outcomes plan = [SemanticRejected \<lparr>rs_position = 0, rs_error = SLowering (undefined_symbol x)\<rparr>]"
    using assms token
    by (simp add: materialize_mixed_def mixed_intent_def semantic_fast_def run_semantic_def compile_semantic_trial_def
        trial_atom_cell_def semantic_reject_def mixed_plan_new_def)
qed

fun expects_world :: "transaction_op \<Rightarrow> bool" where
  "expects_world (TxExpectWorld w) \<longleftrightarrow> True"
| "expects_world p \<longleftrightarrow> False"

fun drop_world :: "controller_intent \<Rightarrow> controller_intent" where
  "drop_world (CQueued i) = CQueued i"
| "drop_world (CSemantic ast) =
     CSemantic \<lparr>ta_namespace = ta_namespace ast,
       ta_operations = filter (\<lambda>p. \<not> expects_world p) (ta_operations ast)\<rparr>"

lemma compile_semantic_drop:
  "compile_semantic (filter (\<lambda>p. \<not> expects_world p) ops) bs code k t = compile_semantic ops bs code k t"
proof (induction ops arbitrary: bs code k t)
  case (Cons p ops)
  then have "compile_semantic (filter (\<lambda>p. \<not> expects_world p) ops) = compile_semantic ops" by (intro ext)
  then show ?case by (cases p) (simp_all add: Let_def)
qed simp

lemma semantic_temps_drop: "semantic_temps (filter (\<lambda>p. \<not> expects_world p) ops) n temps = semantic_temps ops n temps"
proof (induction ops arbitrary: n temps)
  case (Cons p ops)
  then show ?case by (cases p) simp_all
qed simp

lemma synthesize_drop:
  "synthesize_operations temps (filter (\<lambda>p. \<not> expects_world p) ops) = synthesize_operations temps ops"
proof (induction ops)
  case (Cons p ops)
  then show ?case by (cases p) simp_all
qed simp

lemma mixed_intent_drop: "mixed_intent K base k vs pos (drop_world i) st = mixed_intent K base k vs pos i st"
  by (cases i)
    (simp_all only: drop_world.simps controller_intent.case mixed_intent_def semantic_fast_def semantic_validated_def
      run_semantic_def compile_semantic_trial_def transaction_ast.select_convs compile_semantic_drop semantic_temps_drop
      synthesize_drop)

lemma mixed_loop_drop: "mixed_loop K base k vs pos (map drop_world is) st = mixed_loop K base k vs pos is st"
proof (induction "is" arbitrary: pos st)
  case (Cons i "is")
  then have "mixed_loop K base k vs (Suc pos) (map drop_world is) = mixed_loop K base k vs (Suc pos) is" by (intro ext)
  then show ?case by (simp add: mixed_intent_drop)
qed simp

text \<open>
  C40. A semantic intent may expect a world, and nothing checks it: a mixed epoch does the same when
  these expectations are removed from all its intents, with and without validators.
\<close>

theorem expected_world_ignored:
  "commit_mixed_epoch K (map drop_world is) st = commit_mixed_epoch K is st"
  unfolding commit_mixed_epoch_def materialize_mixed_def mixed_loop_drop by (rule refl)

section \<open>The vocabulary after a semantic intent\<close>

definition swap_ast :: "slot_id \<Rightarrow> string \<Rightarrow> string \<Rightarrow> string \<Rightarrow> transaction_ast" where
  "swap_ast slot p a b = \<lparr>ta_namespace = 0, ta_operations = [TxDefine slot (RLiteral b) p (RLiteral a)]\<rparr>"

definition swap_program :: intent_program where
  "swap_program = \<lparr>local_count = 0,
     instructions = [push_cell VM_LITERAL_BASE, push_cell 0, push_cell (VM_LITERAL_BASE + 1), define_slot 0]\<rparr>"

lemma swap_program_run:
  "\<exists>w. execute swap_program (workspace_new 1 32 True) = Some (Accepted, w) \<and> ws_next_entity w = 1 \<and>
    resolve_fact_cells w 0 = Some (Some (VM_LITERAL_BASE, 0, VM_LITERAL_BASE + 1))"
proof -
  have ok: "ws_ok (workspace_new 1 32 True)" by (rule workspace_new_ok)
  have room: "room (length (instructions swap_program)) (workspace_new 1 32 True)"
    by (simp add: swap_program_def room_def workspace_new_def arena_simps unat_NONE_32)
  have "vm_cap (workspace_new 1 32 True) = 32" "VM_Exec.vm_slots (workspace_new 1 32 True) = 1"
      "ws_stack_pointer (workspace_new 1 32 True) = 0"
    by (simp_all add: vm_cap_def VM_Exec.vm_slots_def workspace_new_def)
  with execute_refines [OF ok room] show ?thesis
    by (auto simp: swap_program_def ref_execute_def ref_step_def ref_push_def Let_def instruction_defs
        resolve_object_abs workspace_new_abs nth_append vm_abs_def)
      (simp_all add: workspace_new_def facts_of_def)
qed

lemma swap_compiled:
  assumes "a < b"
  shows "\<exists>t. compile_semantic_trial (ta_operations (swap_ast slot p a b)) (trial_new (materializer_new 1)) =
      Some (Inr (swap_program, []), t) \<and> vm_workspace (tv_materializer t) = workspace_new 1 32 True \<and>
      tv_slots t = [(slot, 0)] \<and> tv_predicates t = [(p, 0)] \<and>
      tv_literals t = [(a, VM_LITERAL_BASE + 1), (b, VM_LITERAL_BASE)] \<and>
      tv_materializer t = (materializer_new 1)\<lparr>vm_workspace := workspace_new 1 32 True\<rparr>"
  using assms
  by (simp add: swap_ast_def compile_semantic_trial_def trial_new_def trial_slot_token_def materializer_new_def Let_def
      mapped_count_def trial_atom_cell_def trial_literal_cell_def trial_predicate_cell_def checked_add_u64_def VM_LITERAL_BASE_def
      swap_program_def ensure_slot_count_def with_indexes_from_def workspace_new_def)
    (auto simp: less_irrefl)

definition expecting_intent :: "slot_id \<Rightarrow> fact \<Rightarrow> queued_intent" where
  "expecting_intent slot f =
     \<lparr>qi_namespace = 0, qi_next_temporary = 0, qi_preconditions = [ExpectedSlot slot (Some f)], qi_operations = []\<rparr>"

lemma materializer_version: "vm_version (materializer_new n) = 0"
  by (simp add: materializer_new_def)

text \<open>
  C39. An accepted semantic intent can leave the vocabulary of the materializer scrambled.  The cells
  of new literals are handed out in the order of their first use, but the values are taken over in
  the order of the texts.  For literals \<open>a < b\<close> the transaction that defines a fact from \<open>b\<close> to \<open>a\<close> on
  a new database is accepted and the published world shows that fact; the same materializer
  believes the fact goes from \<open>a\<close> to \<open>b\<close>, so that a queued intent in the next epoch that expects the
  true fact is rejected.
\<close>

theorem semantic_epoch_scrambles_vocabulary:
  assumes "a < b"
  shows "\<exists>plan db m plan' m'.
    commit_mixed_epoch reference_kernel [CSemantic (swap_ast slot p a b)] (sample_database, materializer_new 1) = Some (plan, db, m) \<and>
    world_resolve reference_kernel slot (db_current db) = Some (Some (fact_new (ALiteral b) p (ALiteral a))) \<and>
    commit_mixed_epoch reference_kernel [CQueued (expecting_intent slot (fact_new (ALiteral b) p (ALiteral a)))] (db, m) = Some (plan', db, m') \<and>
    mp_outcomes plan' = [QueuedRejected \<lparr>ri_position = 0, ri_error =
      SlotPrecondition slot (Some (fact_new (ALiteral b) p (ALiteral a))) (Some (fact_new (ALiteral a) p (ALiteral b)))\<rparr>]"
proof -
  let ?ast = "swap_ast slot p a b" and ?f = "fact_new (ALiteral b) p (ALiteral a)"
  obtain t where t: "compile_semantic_trial (ta_operations ?ast) (trial_new (materializer_new 1)) = Some (Inr (swap_program, []), t)"
      "tv_slots t = [(slot, 0)]" "tv_predicates t = [(p, 0)]" "tv_literals t = [(a, VM_LITERAL_BASE + 1), (b, VM_LITERAL_BASE)]"
      "tv_materializer t = (materializer_new 1)\<lparr>vm_workspace := workspace_new 1 32 True\<rparr>"
    using swap_compiled [OF assms] by blast
  obtain w where w: "execute swap_program (workspace_new 1 32 True) = Some (Accepted, w)" "ws_next_entity w = 1"
      "resolve_fact_cells w 0 = Some (Some (VM_LITERAL_BASE, 0, VM_LITERAL_BASE + 1))"
    using swap_program_run by blast
  let ?m = "trial_commit (t\<lparr>tv_materializer := (materializer_new 1)\<lparr>vm_workspace := w\<rparr>\<rparr>)"
  let ?s = "mixed_accept (VmSemanticAccepted 0 []) [Define slot ?f] 1
    \<lparr>mx_id = GENESIS, mx_version = 0, mx_operations = [], mx_accepted = 0, mx_outcomes = []\<rparr>"
  have m: "vm_workspace ?m = w" "vm_version ?m = 0" "mapped_base ?m = None" "map_of (vm_slots ?m) slot = Some 0"
      "predicate_values ?m = [p]" "literal_values ?m = [a, b]"
    by (simp_all add: trial_commit_def t(2-4) materializer_new_def Let_def)
  have look: "vm_resolve_fact (?m\<lparr>vm_version := v\<rparr>) slot = Some (Some (fact_new (ALiteral a) p (ALiteral b)))" for v
    by (simp add: vm_resolve_fact_def m w(3) fact_from_cells_def atom_from_cell_def predicate_from_cell_def
        VM_LITERAL_BASE_def nth_opt_def)
  have run: "mixed_loop reference_kernel (genesis reference_kernel) (k_new reference_kernel) [] 0 [CSemantic ?ast]
      (\<lparr>mx_id = GENESIS, mx_version = 0, mx_operations = [], mx_accepted = 0, mx_outcomes = []\<rparr>, materializer_new 1) =
      Some (?s, ?m)"
    using t(1) w(1,2)
    by (simp add: mixed_intent_def semantic_fast_def run_semantic_def t(5) Let_def swap_ast_def)
  have gen: "w_id (genesis reference_kernel) = GENESIS" "w_version (genesis reference_kernel) = 0"
      "world_kernel reference_kernel (genesis reference_kernel) = Some (k_new reference_kernel)"
    by (simp_all add: genesis_def world_kernel_def)
  obtain v f where vf: "from_vm_epoch (genesis reference_kernel) [Define slot ?f] 1
      (vm_active_slot_count w) (vm_delta_count w) = (v, f)"
    by fastforce
  have f: "operations f = [Define slot ?f]" and tip: "w_version v = 1"
    using vf by (auto simp: from_vm_epoch_def genesis_def Let_def)
  have "vm_world reference_kernel [] (genesis reference_kernel)"
    by (rule vm_reconstruct) (simp_all add: reconstruct_def genesis_def numbered_def)
  from vm_epoch [OF this _ vf] have "vm_world reference_kernel [f] v"
    by (simp add: genesis_def)
  from vm_world_views [OF this] f obtain k where k: "world_kernel reference_kernel v = Some k"
    and view: "world_resolve reference_kernel slot v = Some (Some ?f)"
    by (auto simp: frames_spec_def frames_commands_def spec_run_def spec_new_def Let_def)
  let ?db = "\<lparr>db_current = v, db_store = [f], db_validators = []\<rparr>" and ?m1 = "?m\<lparr>vm_version := 1\<rparr>"
  have "materialize_mixed reference_kernel (genesis reference_kernel) [CSemantic ?ast] [] (materializer_new 1) =
      Some (mixed_plan_new (genesis reference_kernel) v
        [SemanticAccepted \<lparr>as_position = 0, as_world = v, as_frame = f, as_bindings = []\<rparr>] [f], ?m)"
    using run vf by (simp add: materialize_mixed_def gen mixed_accept_def m(1) w(2) Let_def del: mixed_loop.simps)
  then have first: "\<exists>plan. commit_mixed_epoch reference_kernel [CSemantic ?ast] (sample_database, materializer_new 1) = Some (plan, ?db, ?m1)"
    by (simp add: commit_mixed_epoch_def sample_database_def synchronize_to_def gen materializer_version
        mixed_plan_new_def mixed_plan_is_empty_def memory_store_def memory_append_def tip Let_def)
  have "\<exists>plan. commit_mixed_epoch reference_kernel [CQueued (expecting_intent slot ?f)] (?db, ?m1) = Some (plan, ?db, ?m1) \<and>
      mp_outcomes plan = [QueuedRejected \<lparr>ri_position = 0, ri_error =
        SlotPrecondition slot (Some ?f) (Some (fact_new (ALiteral a) p (ALiteral b)))\<rparr>]"
    using assms k by (auto simp: commit_mixed_epoch_def synchronize_to_def tip materialize_mixed_def mixed_intent_def mixed_queued_def
        vm_check_preconditions_def expecting_intent_def look mixed_reject_def mixed_plan_new_def mixed_plan_is_empty_def
        fact_new_def Let_def)
  with first view show ?thesis by fastforce
qed

theorem semantic_epoch_scrambles_vocabulary_witness:
  "\<exists>plan db m plan' m'.
    commit_mixed_epoch reference_kernel [CSemantic (swap_ast ''book'' ''before'' ''Emma'' ''Persuasion'')]
      (sample_database, materializer_new 1) = Some (plan, db, m) \<and>
    commit_mixed_epoch reference_kernel
      [CQueued (expecting_intent ''book'' (fact_new (ALiteral ''Persuasion'') ''before'' (ALiteral ''Emma'')))] (db, m) =
      Some (plan', db, m') \<and>
    mp_outcomes plan' = [QueuedRejected \<lparr>ri_position = 0, ri_error =
      SlotPrecondition ''book'' (Some (fact_new (ALiteral ''Persuasion'') ''before'' (ALiteral ''Emma'')))
        (Some (fact_new (ALiteral ''Emma'') ''before'' (ALiteral ''Persuasion'')))\<rparr>]"
proof -
  have "''Emma'' < ''Persuasion''" by (simp add: less_char_def)
  from semantic_epoch_scrambles_vocabulary [OF this, of "''book''" "''before''"] show ?thesis by blast
qed

end
