(* ===== verification/Spec2Isabelle.thy ===== *)
theory Spec2Isabelle
  imports Prelude Terms Query Store View Kernel Frames Frame_Codec Log_File Kernel_Interface
    Projection World Database Sessions World_Views File_Store
    Shared_Map Shared_Store Shared_Kernel Stack_VM VM_Exec VM_Index VM_Roots VM_Snapshots
    Queued_Intents Epochs VM_Materializer VM_Compile VM_Epochs Epoch_Codec Epoch_Store
    Durable_Epochs Durable_Controller Durable_Progress
    Semantic_Stream Intent_Codec Intent_Stream
    Transaction_AST Mixed_Epochs Mixed_Vocabulary Mixed_Properties
begin

text \<open>
  ForthDB is a versioned fact database.  A fact is a predicate with arguments that sits in a named
  slot; defining a slot again shadows the earlier fact and forgetting it reveals the earlier one,
  as a Forth dictionary does.  The crates \<^verbatim>\<open>forthdb-core\<close> and \<^verbatim>\<open>forthdb-world\<close> under
  \<^verbatim>\<open>src/rust/crates\<close> hold the kernel and the layer of immutable worlds, commits and durable logs.

  \<^bold>\<open>Parts and theories.\<close>

  \<^item> Prelude: lists, maps, 64-bit counters, sorted key lists and the \<^verbatim>\<open>named_theorems\<close> shared below.
  \<^item> Terms: values and unification (\<^verbatim>\<open>forthdb-core/src/lib.rs\<close>: \<^verbatim>\<open>Atom\<close>, \<^verbatim>\<open>Fact\<close>, \<^verbatim>\<open>Pattern\<close>,
    \<^verbatim>\<open>unify_pattern\<close>).
  \<^item> Query: the join engine (\<^verbatim>\<open>query\<close>, \<^verbatim>\<open>walk_query\<close>), over any source of candidate records, which is the
    locale \<^verbatim>\<open>query_source\<close>.
  \<^item> Store: \<^verbatim>\<open>DefinitionStore\<close>, the append-only log with the heads of its slots.
  \<^item> View: \<^verbatim>\<open>CurrentView\<close>, seven indexes over the visible definitions, with the locale
    \<^verbatim>\<open>record_index\<close> for one index.
  \<^item> Kernel: \<^verbatim>\<open>ForthDb\<close>, which combines the last three.  Its abstract specification is a map from slots
    to stacks of facts with two counters (\<^verbatim>\<open>kernel_spec\<close>), reached through \<^verbatim>\<open>abs_db\<close>.
  \<^item> Kernel_Interface: the operations the world layer calls on a kernel, as a record of functions,
    and the laws it relies on (locale \<^verbatim>\<open>kernel\<close>), interpreted on \<^verbatim>\<open>ForthDb\<close>.
  \<^item> Frames: operations, commit frames and the hash that names worlds (\<^verbatim>\<open>forthdb-world/src/lib.rs\<close>:
    \<^verbatim>\<open>StableHasher\<close>, \<^verbatim>\<open>calculate_world_id\<close>).
  \<^item> Projection: \<^verbatim>\<open>VmQueryProjection\<close>, query indexes built from frames without a kernel.
  \<^item> World, World_Views: \<^verbatim>\<open>World\<close>, \<^verbatim>\<open>CandidateWorld\<close>, \<^verbatim>\<open>Transaction\<close>, reconstruction from frames, and the
    lazily filled kernel and projection of a world.
  \<^item> Database, Sessions: \<^verbatim>\<open>Database\<close> and its commit protocol over any commit store (locale
    \<^verbatim>\<open>commit_store\<close>), and interleaved sessions as a step relation.
  \<^item> Frame_Codec, Log_File, File_Store: \<^verbatim>\<open>file_store.rs\<close>, the byte format of the commit log and the
    store that appends to it; the answers of the operating system are arguments.
  \<^item> Shared_Map, Shared_Store, Shared_Kernel: the structurally shared kernel that the world layer is
    linked against (\<^verbatim>\<open>shared_types_v5.rs\<close>, \<^verbatim>\<open>shared_view_v2.rs\<close>, \<^verbatim>\<open>shared_db_v2.rs\<close>): chunked logs,
    sharded maps, hash-keyed indexes and signatures, over the persistent maps and sets of the crate
    \<^verbatim>\<open>im\<close>, which are a parameter (\<^verbatim>\<open>im_maps\<close>) with the laws of a map and a set (locale \<^verbatim>\<open>im_laws\<close>);
    the parity theorem relates it to \<^verbatim>\<open>ForthDb\<close> operation by operation.
  \<^item> Stack_VM, VM_Exec, VM_Index, VM_Roots, VM_Snapshots: \<^verbatim>\<open>stack_vm.rs\<close>, the machine that runs
    intents on arenas with rollback by frontier; VM_Exec refines it to a machine on cells and
    stacks of facts, VM_Index holds the log of a workspace and its index streams, VM_Roots and
    VM_Snapshots relate published roots and compact snapshots to the facts at publication.
  \<^item> Queued_Intents, Epochs: \<^verbatim>\<open>queued.rs\<close>, intents with preconditions and local entities, and the two
    ways to run an epoch of them on a kernel (\<^verbatim>\<open>derive_epoch\<close>, \<^verbatim>\<open>derive_epoch_world\<close>).
  \<^item> VM_Materializer, VM_Compile, VM_Epochs: \<^verbatim>\<open>VmEpochMaterializer\<close>, which compiles intents to programs
    of the stack machine over dictionaries of slots, predicates and literals; an epoch on the
    machine agrees with one on a kernel, and a lagging materializer catches up with a world whose
    entities and operations fit the machine.
  \<^item> Epoch_Codec, Epoch_Store: \<^verbatim>\<open>file_epoch_store.rs\<close>, a second implementation of the log format (the
    two agree) and the store that appends whole epochs, repairs failed ones and poisons itself;
    its file is the locale \<^verbatim>\<open>epoch_file\<close>, interpreted on the ordinary file.
  \<^item> Durable_Epochs, Durable_Controller, Durable_Progress: \<^verbatim>\<open>file_epoch_controller.rs\<close>, the durable
    step on a database over the epoch store, and the controller as a transition system in which
    clients, a shutdown and the worker interleave: \<^verbatim>\<open>worker_step\<close>, \<^verbatim>\<open>client_step\<close> and the
    reachable states \<^verbatim>\<open>ctl_reach\<close>, with the invariant of tickets and queue (\<^verbatim>\<open>ctl_ok\<close>), a measure
    that every worker step decreases, and the progress of a worker without senders.
  \<^item> Semantic_Stream, Intent_Codec, Intent_Stream: \<^verbatim>\<open>semantic_isa.rs\<close> and the formats of intents in
    \<^verbatim>\<open>queued.rs\<close>.  A reader and a writer that undo each other are the locale \<^verbatim>\<open>wire\<close>, interpreted on
    numbers, texts, instructions, dictionary entries and the parts of intents; an intent translates
    to an instruction stream and back, exactly when it uses its own handles and small entities.
  \<^item> Transaction_AST: \<^verbatim>\<open>transaction_ast.rs\<close>, transactions as syntax trees and their lowering to instruction
    streams over handles that are sorted and deduplicated, with the reference lowering.
  \<^item> Mixed_Epochs, Mixed_Vocabulary, Mixed_Properties: \<^verbatim>\<open>TrialVocabulary\<close>, \<^verbatim>\<open>materialize_mixed\<close> and
    \<^verbatim>\<open>commit_mixed_epoch\<close> in \<^verbatim>\<open>queued.rs\<close>, epochs of queued and semantic intents.  A semantic intent
    compiles to the program of its operations, but its vocabulary can be taken over in another
    order than it was numbered.

  \<^bold>\<open>Conventions.\<close>  Integers of the code are words of their width; lengths and positions in vectors
  are naturals, and a check that the code makes on them is kept.  Strings are lists of bytes (Rust
  strings are UTF-8); what the code does with them is concatenation, comparison and copying, and
  where it validates UTF-8 the validation is written out.  Hash maps are maps or association
  lists; ordered maps are association lists sorted by key.  A panic is the value \<^verbatim>\<open>None\<close> and an
  error of the code is the left side of a sum.  Reads of a lazily filled cell are steps that
  return the filled world.

  \<^bold>\<open>Fuel.\<close>  No definition runs on fuel that could run out: recursions are structural or have a
  termination proof.  Slot chains are walked by identifiers that decrease, decoding by the bytes
  that remain, and the join by the number of patterns left.  The arenas of the stack machine hold
  at most \<^verbatim>\<open>2 ^ 32 - 1\<close> entries and the code asserts it; theorems about executing a program assume
  room for its instructions (\<^verbatim>\<open>room\<close>): one record and six index deltas for each.

  \<^bold>\<open>Lemmas.\<close>  Every component has an invariant (\<^verbatim>\<open>wf_store\<close>, \<^verbatim>\<open>view_ok\<close> and so on), the proof that its
  operations keep it, and the functional behaviour of its operations in terms of an abstraction;
  clients use only these.  The numbered properties C1, C2, ... stand in the theories of the
  components they are about.

  \<^bold>\<open>Not modelled.\<close>  The background thread that drops retired kernels; the volatile controller
  (\<^verbatim>\<open>queued_controller.rs\<close>) and the speculative io_uring pipeline of the durable one; the clocks of
  its batch policies, for which the model may seal a batch at any time, and timing metrics; other
  users of the database of a controller, and panics of its worker outside an epoch;
  memory-mapped snapshots; file locks and system calls (their answers are arguments); benchmarks,
  the conformance runner and the demonstration programs.  Locks serialise the operations, which
  the models run as sequences of steps.
\<close>

end
